(* ===== verification/Bus_Prelude.thy ===== *)
theory Bus_Prelude
  imports Main "HOL-Library.Word" "HOL-Library.Monad_Syntax"
begin

text \<open>
  Shared vocabulary of the development.

  The repository is the EventBus library (the C++ files at the top of \<open>src/\<close>) on top of the
  copy of libzmq it ships in \<open>src/libzmq\<close>.  All models use the same conventions:

  \<^item> an operation that may abort (a failed \<open>zmq_assert\<close>), read through a null pointer, index a
    vector out of range or free a block twice returns an \<open>option\<close>, with \<open>None\<close> for that
    outcome; a theorem that an operation returns \<open>Some\<close> therefore says that no assertion of the
    source fails and no undefined behaviour is met;
  \<^item> \<open>byte\<close> is the 8-bit machine word, and strings, topics and message bodies are byte lists;
  \<^item> pointers to objects of a kind are natural numbers, and the objects live in a finite map of
    the state the operation takes and returns.
\<close>

type_synonym byte = "8 word"
type_synonym bytes = "byte list"

text \<open>The collections the component theories fill: facts that unfold a step of an operation and
  facts that establish invariants.\<close>

named_theorems opt_simps \<open>rewriting of the option monad the models are written in\<close>
named_theorems inv_intros \<open>preservation of component invariants\<close>

lemma bind_Some_iff [opt_simps]: "(Option.bind m f = Some y) = (\<exists>x. m = Some x \<and> f x = Some y)"
  by (cases m) auto

lemma bind_None_iff [opt_simps]:
  "(Option.bind m f = None) = (m = None \<or> (\<exists>x. m = Some x \<and> f x = None))"
  by (cases m) auto

text \<open>\<open>guard b\<close> is \<open>zmq_assert (b)\<close>: nothing happens when the condition holds.\<close>

definition zmq_assert :: "bool \<Rightarrow> unit option" where
  "zmq_assert b = (if b then Some () else None)"

lemma zmq_assert_simps [simp]: "zmq_assert True = Some ()" "zmq_assert False = None"
  by (simp_all add: zmq_assert_def)

lemma zmq_assert_Some_iff [opt_simps]: "(zmq_assert b = Some u) = b"
  by (cases b) auto

subsection \<open>Lists\<close>

lemma butlast_update_last: "i < length xs \<Longrightarrow> butlast (xs[i := x]) = (if Suc i = length xs then butlast xs else (butlast xs)[i := x])"
  by (auto simp: butlast_conv_take take_update_swap nth_list_update intro!: nth_equalityI)

lemma last_in_set_nonempty: "xs \<noteq> [] \<Longrightarrow> last xs \<in> set xs"
  by simp

lemma distinct_nth_eq: "distinct xs \<Longrightarrow> i < length xs \<Longrightarrow> j < length xs \<Longrightarrow> xs ! i = xs ! j \<longleftrightarrow> i = j"
  by (simp add: nth_eq_iff_index_eq)

text \<open>Exchange of two elements of a list, the effect of \<open>std::swap\<close> on two vector slots.\<close>

definition list_swap :: "'a list \<Rightarrow> nat \<Rightarrow> nat \<Rightarrow> 'a list" where
  "list_swap xs i j = xs[i := xs ! j, j := xs ! i]"

lemma length_list_swap [simp]: "length (list_swap xs i j) = length xs"
  by (simp add: list_swap_def)

lemma list_swap_nth:
  "i < length xs \<Longrightarrow> j < length xs \<Longrightarrow> k < length xs \<Longrightarrow>
   list_swap xs i j ! k = (if k = j then xs ! i else if k = i then xs ! j else xs ! k)"
  by (auto simp: list_swap_def nth_list_update)

lemma set_list_swap [simp]:
  "i < length xs \<Longrightarrow> j < length xs \<Longrightarrow> set (list_swap xs i j) = set xs"
  by (simp add: list_swap_def set_swap)

lemma distinct_list_swap [simp]:
  "i < length xs \<Longrightarrow> j < length xs \<Longrightarrow> distinct (list_swap xs i j) = distinct xs"
  by (simp add: list_swap_def distinct_swap)

lemma list_swap_same [simp]: "list_swap xs i i = xs"
  by (simp add: list_swap_def)

lemma distinct_concat_map:
  "distinct xs \<Longrightarrow> \<forall>x \<in> set xs. distinct (f x) \<Longrightarrow>
   \<forall>x \<in> set xs. \<forall>y \<in> set xs. x \<noteq> y \<longrightarrow> set (f x) \<inter> set (f y) = {} \<Longrightarrow> distinct (concat (map f xs))"
  by (induction xs) (simp, fastforce)

end
