(* ===== verification/Zmq_Array.thy ===== *)
theory Zmq_Array
  imports Bus_Prelude
begin

text \<open>
  \<open>array_t\<close> of \<open>src/libzmq/src/array.hpp\<close>: a vector of pointers whose items know their own
  position, so that an item is found and removed in constant time.  The position is a field of
  the item (\<open>array_item_t::array_index\<close>, -1 at the start); here it is the map
  \<open>array_index\<close> of the array.  No caller stores a null pointer, so the null guards of
  the source are always taken.  An index out of range is \<open>None\<close>, as it is undefined behaviour of
  \<open>std::vector\<close>.
\<close>

record 'a array_t =
  items :: "'a list"
  array_index :: "'a \<Rightarrow> int"

definition array_new :: "'a array_t" where
  "array_new = \<lparr>items = [], array_index = (\<lambda>_. -1)\<rparr>"

definition array_size :: "'a array_t \<Rightarrow> nat" where
  "array_size a = length (items a)"

definition array_empty :: "'a array_t \<Rightarrow> bool" where
  "array_empty a = (items a = [])"

definition array_get :: "'a array_t \<Rightarrow> nat \<Rightarrow> 'a option" where
  "array_get a i = (if i < length (items a) then Some (items a ! i) else None)"

definition array_push_back :: "'a array_t \<Rightarrow> 'a \<Rightarrow> 'a array_t" where
  "array_push_back a x =
     (let a = a\<lparr>array_index := (array_index a)(x := int (length (items a)))\<rparr>
      in a\<lparr>items := items a @ [x]\<rparr>)"

text \<open>\<open>index\<close> casts the stored \<open>int\<close> to the 64-bit \<open>size_type\<close>.\<close>

definition array_index_of :: "'a array_t \<Rightarrow> 'a \<Rightarrow> nat" where
  "array_index_of a x =
     (let i = array_index a x in if i < 0 then nat (i + 2 ^ 64) else nat i)"

definition array_erase_at :: "'a array_t \<Rightarrow> nat \<Rightarrow> 'a array_t option" where
  "array_erase_at a i =
     (if i < length (items a)
      then (let b = last (items a);
                a = a\<lparr>array_index := (array_index a)(b := int i)\<rparr>;
                a = a\<lparr>items := (items a)[i := b]\<rparr>
            in Some (a\<lparr>items := butlast (items a)\<rparr>))
      else None)"

definition array_erase :: "'a array_t \<Rightarrow> 'a \<Rightarrow> 'a array_t option" where
  "array_erase a x = array_erase_at a (array_index_of a x)"

definition array_swap :: "'a array_t \<Rightarrow> nat \<Rightarrow> nat \<Rightarrow> 'a array_t option" where
  "array_swap a i j =
     (if i < length (items a) \<and> j < length (items a)
      then (let a = a\<lparr>array_index := (array_index a)(items a ! i := int j)\<rparr>;
                a = a\<lparr>array_index := (array_index a)(items a ! j := int i)\<rparr>
            in Some (a\<lparr>items := list_swap (items a) i j\<rparr>))
      else None)"

definition array_clear :: "'a array_t \<Rightarrow> 'a array_t" where
  "array_clear a = a\<lparr>items := []\<rparr>"

subsection \<open>Invariant: every stored item knows its position\<close>

definition array_wf :: "'a array_t \<Rightarrow> bool" where
  "array_wf a \<longleftrightarrow> distinct (items a) \<and>
     (\<forall>i < length (items a). array_index a (items a ! i) = int i)"

lemma array_wf_distinct: "array_wf a \<Longrightarrow> distinct (items a)"
  by (simp add: array_wf_def)

lemma array_new_wf [inv_intros]: "array_wf array_new"
  by (simp add: array_wf_def array_new_def)

lemma array_new_items [simp]: "items array_new = []"
  by (simp add: array_new_def)

lemma array_get_Some [simp]: "i < length (items a) \<Longrightarrow> array_get a i = Some (items a ! i)"
  by (simp add: array_get_def)

lemma array_size_items [simp]: "array_size a = length (items a)"
  by (simp add: array_size_def)

lemma array_push_back_items [simp]: "items (array_push_back a x) = items a @ [x]"
  by (simp add: array_push_back_def)

lemma array_push_back_wf [inv_intros]:
  "array_wf a \<Longrightarrow> x \<notin> set (items a) \<Longrightarrow> array_wf (array_push_back a x)"
  by (auto simp: array_wf_def array_push_back_def nth_append)

lemma array_index_of_nth [simp]:
  "array_wf a \<Longrightarrow> i < length (items a) \<Longrightarrow> array_index_of a (items a ! i) = i"
  by (simp add: array_wf_def array_index_of_def)

lemma array_index_of_mem:
  assumes "array_wf a" "x \<in> set (items a)"
  shows "array_index_of a x < length (items a)" "items a ! array_index_of a x = x"
  using assms by (auto simp: in_set_conv_nth)

lemma array_swap_Some:
  assumes "i < length (items a)" "j < length (items a)"
  obtains a' where "array_swap a i j = Some a'" "items a' = list_swap (items a) i j"
  using assms by (simp add: array_swap_def Let_def)

lemma array_swap_items:
  "array_swap a i j = Some a' \<Longrightarrow> items a' = list_swap (items a) i j"
  by (auto simp: array_swap_def Let_def split: if_splits)

lemma array_swap_bounds:
  "array_swap a i j = Some a' \<Longrightarrow> i < length (items a) \<and> j < length (items a)"
  by (auto simp: array_swap_def split: if_splits)

lemma array_swap_defined [simp]:
  "(\<exists>a'. array_swap a i j = Some a') = (i < length (items a) \<and> j < length (items a))"
  by (auto simp: array_swap_def Let_def)

lemma array_swap_wf [inv_intros]:
  assumes wf: "array_wf a" and sw: "array_swap a i j = Some a'"
  shows "array_wf a'"
proof -
  from sw have ij: "i < length (items a)" "j < length (items a)"
    by (auto dest: array_swap_bounds)
  have d: "distinct (items a)" using wf by (rule array_wf_distinct)
  have "array_index a' (items a' ! k) = int k" if k: "k < length (items a')" for k
  proof -
    from k sw have kl: "k < length (items a)" by (simp add: array_swap_items)
    have "items a' ! k = (if k = j then items a ! i else if k = i then items a ! j else items a ! k)"
      using ij kl sw by (simp add: array_swap_items list_swap_nth)
    then show ?thesis
      using sw ij kl wf d
      by (auto simp: array_swap_def Let_def array_wf_def nth_eq_iff_index_eq)
  qed
  then show ?thesis
    using ij d sw by (simp add: array_wf_def array_swap_items)
qed

lemma array_swap_ex:
  assumes "array_wf a" "i < length (items a)" "j < length (items a)"
  obtains a' where "array_swap a i j = Some a'" "array_wf a'" "items a' = list_swap (items a) i j"
proof -
  obtain a' where a': "array_swap a i j = Some a'" "items a' = list_swap (items a) i j"
    by (rule array_swap_Some[OF assms(2,3)])
  show thesis by (rule that[OF a'(1) array_swap_wf[OF assms(1) a'(1)] a'(2)])
qed

lemma array_erase_items:
  assumes "array_wf a" "i < length (items a)"
  shows "\<exists>a'. array_erase a (items a ! i) = Some a' \<and>
           items a' = butlast ((items a)[i := last (items a)])"
  using assms by (simp add: array_erase_def array_erase_at_def Let_def)

lemma array_erase_wf [inv_intros]:
  assumes wf: "array_wf a" and x: "x \<in> set (items a)" and e: "array_erase a x = Some a'"
  shows "array_wf a'"
proof -
  obtain i where i: "i < length (items a)" "x = items a ! i"
    using x by (auto simp: in_set_conv_nth)
  define n where "n = length (items a) - 1"
  have n: "length (items a) = Suc n" "i \<le> n" using i(1) by (auto simp: n_def)
  have d: "distinct (items a)" using wf by (rule array_wf_distinct)
  have la: "last (items a) = items a ! n" using n by (metis diff_Suc_1 last_conv_nth list.size(3) nat.distinct(1))
  have it: "items a' = butlast ((items a)[i := items a ! n])"
    using e wf i n la by (auto simp: array_erase_def array_erase_at_def Let_def)
  have ix: "array_index a' = (array_index a)(items a ! n := int i)"
    using e wf i n la by (auto simp: array_erase_def array_erase_at_def Let_def)
  have nth: "items a' ! k = (if k = i then items a ! n else items a ! k)" if "k < n" for k
    using that n by (simp add: it nth_butlast nth_list_update)
  have len: "length (items a') = n" using n by (simp add: it)
  have "distinct (items a')"
    unfolding distinct_conv_nth len using nth d n by (auto simp: nth_eq_iff_index_eq)
  moreover have "array_index a' (items a' ! k) = int k" if "k < n" for k
    using that nth[OF that] d n wf by (auto simp: ix array_wf_def nth_eq_iff_index_eq)
  ultimately show ?thesis by (simp add: array_wf_def len)
qed

lemma array_erase_set:
  assumes wf: "array_wf a" and x: "x \<in> set (items a)"
  shows "\<exists>a'. array_erase a x = Some a' \<and> set (items a') = set (items a) - {x} \<and>
           length (items a') = length (items a) - 1"
proof -
  obtain i where i: "i < length (items a)" "x = items a ! i"
    using x by (auto simp: in_set_conv_nth)
  obtain a' where a': "array_erase a x = Some a'"
    and it: "items a' = butlast ((items a)[i := last (items a)])"
    using array_erase_items[OF wf i(1)] i(2) by blast
  have d: "distinct (items a)" using wf by (rule array_wf_distinct)
  have ne: "items a \<noteq> []" using i by auto
  have "set (items a') = set (items a) - {x}"
  proof (cases "Suc i = length (items a)")
    case True
    then have l: "last (items a) = x" using i ne by (metis diff_Suc_1 last_conv_nth)
    then have "(items a)[i := last (items a)] = items a" using i by simp
    then have "items a = items a' @ [x]" using it l ne by (metis append_butlast_last_id)
    with d show ?thesis by auto
  next
    case False
    then have k: "i < length (butlast (items a))" using i by simp
    have "set ((butlast (items a))[i := last (items a)]) = insert (last (items a)) (set (butlast (items a)) - {butlast (items a) ! i})"
      using k d by (simp add: set_update_distinct distinct_butlast)
    moreover have "butlast (items a) ! i = x" using k i by (simp add: nth_butlast)
    moreover have "set (items a) = insert (last (items a)) (set (butlast (items a)))"
      using ne by (metis append_butlast_last_id Un_insert_right list.simps(15) set_append sup_bot.right_neutral list.set(1))
    moreover have "last (items a) \<noteq> x"
      using d i False ne by (auto simp: last_conv_nth nth_eq_iff_index_eq)
    ultimately show ?thesis using it i False by (auto simp: butlast_update_last)
  qed
  then show ?thesis using a' it by simp
qed

text \<open>An item is removed by its own position: nothing else leaves the array, and the position of
  every remaining item is still right.\<close>

lemma array_erase_correct:
  assumes "array_wf a" and "x \<in> set (items a)"
  obtains a' where "array_erase a x = Some a'" "array_wf a'"
    "set (items a') = set (items a) - {x}" "length (items a') = length (items a) - 1"
  using array_erase_set[OF assms] array_erase_wf[OF assms] by blast

subsection \<open>Properties\<close>

text \<open>Erasing an item of the intrusive array by the position it stores removes exactly that item, and
  the positions stored in all the remaining ones are right again.\<close>

theorem erase_by_stored_position:
  assumes "array_wf a" "x \<in> set (items a)"
  shows "\<exists>a'. array_erase a x = Some a' \<and> array_wf a' \<and> set (items a') = set (items a) - {x} \<and>
    length (items a') = length (items a) - 1"
  using array_erase_correct[OF assms] by metis

theorem erase_by_stored_position_witness:
  "\<exists>a'. array_erase (array_push_back (array_push_back array_new (7::nat)) 9) 7 = Some a' \<and> set (items a') = {9}"
proof -
  have "array_wf (array_push_back (array_push_back array_new (7::nat)) 9)"
    by (auto simp: array_wf_def array_push_back_def array_new_def less_Suc_eq)
  then show ?thesis
    using erase_by_stored_position[of "array_push_back (array_push_back array_new (7::nat)) 9" 7]
    by (auto simp: array_push_back_def array_new_def)
qed

end
