(* ===== verification/Zmq_Yqueue.thy ===== *)
theory Zmq_Yqueue
  imports Bus_Prelude
begin

text \<open>
  \<open>yqueue_t\<close> of \<open>src/libzmq/src/yqueue.hpp\<close>: a queue of elements kept in a doubly linked
  list of chunks of \<open>N\<close> slots.  Chunks are numbered; \<open>chunk_values\<close>, \<open>chunk_prev\<close> and
  \<open>chunk_next\<close> are the fields of \<open>chunk_t\<close>, \<open>allocated\<close> is the set of chunks obtained from the
  allocator and not freed yet, and \<open>next_free\<close> is a number no chunk has had.  Allocation itself
  succeeds (the source asserts it).  Reading or writing a chunk that is not allocated, and freeing
  one, is \<open>None\<close>.  A slot address is the pair of a chunk and a position, as \<open>&queue.back ()\<close> is
  the address of one array element.
\<close>

type_synonym addr = "nat \<times> nat"

record 'a yqueue =
  chunk_values :: "nat \<Rightarrow> nat \<Rightarrow> 'a option"
  chunk_prev :: "nat \<Rightarrow> nat option"
  chunk_next :: "nat \<Rightarrow> nat option"
  allocated :: "nat \<Rightarrow> bool"
  next_free :: nat
  begin_chunk :: nat
  begin_pos :: nat
  back_chunk :: "nat option"
  back_pos :: nat
  end_chunk :: nat
  end_pos :: nat
  spare_chunk :: "nat option"

definition allocate_chunk :: "'a yqueue \<Rightarrow> nat \<times> 'a yqueue" where
  "allocate_chunk q =
     (let c = next_free q
      in (c, q\<lparr>allocated := (allocated q)(c := True), next_free := Suc c,
              chunk_values := (chunk_values q)(c := (\<lambda>_. None))\<rparr>))"

text \<open>\<open>free\<close> ignores a null pointer and must not be given a chunk twice.\<close>

definition free_chunk :: "nat option \<Rightarrow> 'a yqueue \<Rightarrow> 'a yqueue option" where
  "free_chunk p q =
     (case p of None \<Rightarrow> Some q
      | Some c \<Rightarrow> if allocated q c then Some (q\<lparr>allocated := (allocated q)(c := False)\<rparr>) else None)"

definition yqueue_new :: "'a yqueue" where
  "yqueue_new =
     (let q = \<lparr>chunk_values = (\<lambda>_ _. None), chunk_prev = (\<lambda>_. None), chunk_next = (\<lambda>_. None),
               allocated = (\<lambda>_. False), next_free = 0, begin_chunk = 0, begin_pos = 0,
               back_chunk = None, back_pos = 0, end_chunk = 0, end_pos = 0, spare_chunk = None\<rparr>;
          (c, q) = allocate_chunk q
      in q\<lparr>begin_chunk := c, begin_pos := 0, back_chunk := None, back_pos := 0,
           end_chunk := c, end_pos := 0\<rparr>)"

definition yqueue_front_addr :: "'a yqueue \<Rightarrow> addr" where
  "yqueue_front_addr q = (begin_chunk q, begin_pos q)"

definition yqueue_back_addr :: "'a yqueue \<Rightarrow> addr option" where
  "yqueue_back_addr q = map_option (\<lambda>c. (c, back_pos q)) (back_chunk q)"

definition yqueue_get :: "'a yqueue \<Rightarrow> addr \<Rightarrow> 'a option" where
  "yqueue_get q a = (if allocated q (fst a) then chunk_values q (fst a) (snd a) else None)"

definition yqueue_front :: "'a yqueue \<Rightarrow> 'a option" where
  "yqueue_front q = yqueue_get q (yqueue_front_addr q)"

definition yqueue_back :: "'a yqueue \<Rightarrow> 'a option" where
  "yqueue_back q = Option.bind (yqueue_back_addr q) (yqueue_get q)"

text \<open>Assignment through the reference that \<open>back ()\<close> returns.\<close>

definition yqueue_set_back :: "'a yqueue \<Rightarrow> 'a \<Rightarrow> 'a yqueue option" where
  "yqueue_set_back q v =
     (case back_chunk q of None \<Rightarrow> None
      | Some c \<Rightarrow>
          if allocated q c
          then Some (q\<lparr>chunk_values :=
                 (chunk_values q)(c := (chunk_values q c)(back_pos q := Some v))\<rparr>)
          else None)"

definition yqueue_push :: "nat \<Rightarrow> 'a yqueue \<Rightarrow> 'a yqueue option" where
  "yqueue_push N q =
     (let q = q\<lparr>back_chunk := Some (end_chunk q)\<rparr>;
          q = q\<lparr>back_pos := end_pos q\<rparr>;
          q = q\<lparr>end_pos := end_pos q + 1\<rparr>
      in if end_pos q \<noteq> N then Some q
         else if \<not> allocated q (end_chunk q) then None
         else
           let sc = spare_chunk q;
               q = q\<lparr>spare_chunk := None\<rparr>;
               (c, q) = (case sc of Some s \<Rightarrow> (s, q) | None \<Rightarrow> allocate_chunk q);
               q = q\<lparr>chunk_next := (chunk_next q)(end_chunk q := Some c)\<rparr>;
               q = q\<lparr>chunk_prev := (chunk_prev q)(c := Some (end_chunk q))\<rparr>;
               q = q\<lparr>end_chunk := c\<rparr>
           in if allocated q c then Some (q\<lparr>end_pos := 0\<rparr>) else None)"

definition yqueue_unpush :: "nat \<Rightarrow> 'a yqueue \<Rightarrow> 'a yqueue option" where
  "yqueue_unpush N q =
     do {
       q \<leftarrow> (if back_pos q \<noteq> 0 then Some (q\<lparr>back_pos := back_pos q - 1\<rparr>)
            else (case back_chunk q of None \<Rightarrow> None
                  | Some b \<Rightarrow>
                      if allocated q b
                      then Some (q\<lparr>back_pos := N - 1, back_chunk := chunk_prev q b\<rparr>)
                      else None));
       (if end_pos q \<noteq> 0 then Some (q\<lparr>end_pos := end_pos q - 1\<rparr>)
        else if \<not> allocated q (end_chunk q) then None
        else (case chunk_prev q (end_chunk q) of None \<Rightarrow> None
              | Some e \<Rightarrow>
                  if \<not> allocated q e then None
                  else do {
                    q \<leftarrow> Some (q\<lparr>end_pos := N - 1, end_chunk := e\<rparr>);
                    q \<leftarrow> free_chunk (chunk_next q e) q;
                    Some (q\<lparr>chunk_next := (chunk_next q)(e := None)\<rparr>)
                  }))
     }"

definition yqueue_pop :: "nat \<Rightarrow> 'a yqueue \<Rightarrow> 'a yqueue option" where
  "yqueue_pop N q =
     (let q = q\<lparr>begin_pos := begin_pos q + 1\<rparr>
      in if begin_pos q \<noteq> N then Some q
         else let old = begin_chunk q
           in if \<not> allocated q old then None
           else (case chunk_next q old of None \<Rightarrow> None
             | Some b \<Rightarrow>
                 if \<not> allocated q b then None
                 else
                   let q = q\<lparr>begin_chunk := b\<rparr>;
                       q = q\<lparr>chunk_prev := (chunk_prev q)(b := None)\<rparr>;
                       q = q\<lparr>begin_pos := 0\<rparr>;
                       cs = spare_chunk q;
                       q = q\<lparr>spare_chunk := Some old\<rparr>
                   in free_chunk cs q))"

text \<open>The destructor: free the chunks from the first to the last, then the spare one.\<close>

partial_function (option) yqueue_free_chain :: "'a yqueue \<Rightarrow> 'a yqueue option" where
  "yqueue_free_chain q =
     (if begin_chunk q = end_chunk q then free_chunk (Some (begin_chunk q)) q
      else if \<not> allocated q (begin_chunk q) then None
      else (case chunk_next q (begin_chunk q) of None \<Rightarrow> None
            | Some b \<Rightarrow>
                Option.bind (free_chunk (Some (begin_chunk q)) (q\<lparr>begin_chunk := b\<rparr>))
                  yqueue_free_chain))"

declare yqueue_free_chain.simps [code]

definition yqueue_destroy :: "'a yqueue \<Rightarrow> 'a yqueue option" where
  "yqueue_destroy q =
     do {
       q \<leftarrow> yqueue_free_chain q;
       sc \<leftarrow> Some (spare_chunk q);
       free_chunk sc (q\<lparr>spare_chunk := None\<rparr>)
     }"

subsection \<open>Invariant and the addresses in use\<close>

text \<open>\<open>cs\<close> is the chain of chunks from the first to the last one.  Slot \<open>i\<close> of the queue,
  counted from the start of the first chunk, is in chunk \<open>i div N\<close> of the chain.\<close>

definition chain_addr :: "nat \<Rightarrow> nat list \<Rightarrow> nat \<Rightarrow> addr" where
  "chain_addr N cs i = (cs ! (i div N), i mod N)"

definition chain_end :: "nat \<Rightarrow> 'a yqueue \<Rightarrow> nat list \<Rightarrow> nat" where
  "chain_end N q cs = (length cs - 1) * N + end_pos q"

definition chain_slots :: "nat \<Rightarrow> 'a yqueue \<Rightarrow> nat list \<Rightarrow> addr list" where
  "chain_slots N q cs = map (chain_addr N cs) [begin_pos q ..< chain_end N q cs]"

definition chain_linked :: "'a yqueue \<Rightarrow> nat list \<Rightarrow> bool" where
  "chain_linked q cs \<longleftrightarrow> (\<forall>i. Suc i < length cs \<longrightarrow>
     chunk_next q (cs ! i) = Some (cs ! Suc i) \<and> chunk_prev q (cs ! Suc i) = Some (cs ! i))"

definition chain_inv :: "nat \<Rightarrow> 'a yqueue \<Rightarrow> nat list \<Rightarrow> bool" where
  "chain_inv N q cs \<longleftrightarrow>
     0 < N \<and> cs \<noteq> [] \<and> distinct cs \<and> cs ! 0 = begin_chunk q \<and> last cs = end_chunk q \<and>
     chain_linked q cs \<and>
     begin_pos q < N \<and> end_pos q < N \<and> begin_pos q \<le> chain_end N q cs \<and>
     (\<forall>c. allocated q c \<longleftrightarrow> c \<in> set cs \<or> spare_chunk q = Some c) \<and>
     (\<forall>c \<in> set cs. spare_chunk q \<noteq> Some c) \<and>
     (\<forall>c. allocated q c \<longrightarrow> c < next_free q) \<and>
     (begin_pos q < chain_end N q cs \<longrightarrow>
        yqueue_back_addr q = Some (chain_addr N cs (chain_end N q cs - 1)))"

text \<open>What the rest of the development knows of a queue: its slots in order, oldest first.\<close>

definition yqueue_repr :: "nat \<Rightarrow> 'a yqueue \<Rightarrow> addr list \<Rightarrow> bool" where
  "yqueue_repr N q as \<longleftrightarrow> (\<exists>cs. chain_inv N q cs \<and> as = chain_slots N q cs)"

lemma chain_last: "cs \<noteq> [] \<Longrightarrow> last cs = cs ! (length cs - 1)"
  by (simp add: last_conv_nth)

lemma chain_end_div:
  assumes "chain_inv N q cs"
  shows "chain_end N q cs div N = length cs - 1" "chain_end N q cs mod N = end_pos q"
proof -
  from assms have "end_pos q < N" by (simp add: chain_inv_def)
  then show "chain_end N q cs div N = length cs - 1"
    by (subst div_nat_eqI[of N "length cs - 1"]) (auto simp: chain_end_def algebra_simps)
  show "chain_end N q cs mod N = end_pos q"
    using \<open>end_pos q < N\<close> by (simp add: chain_end_def)
qed

lemma chain_addr_end:
  "chain_inv N q cs \<Longrightarrow> chain_addr N cs (chain_end N q cs) = (end_chunk q, end_pos q)"
  by (auto simp: chain_addr_def chain_end_div)
     (auto simp: chain_inv_def last_conv_nth)

lemma chain_index_bound:
  assumes "chain_inv N q cs" "i \<le> chain_end N q cs"
  shows "i div N < length cs"
proof -
  have "i div N \<le> chain_end N q cs div N" using assms(2) by (rule div_le_mono)
  moreover have "cs \<noteq> []" using assms(1) by (simp add: chain_inv_def)
  ultimately show ?thesis using chain_end_div[OF assms(1)] by (cases cs) auto
qed

lemma chain_addr_inj:
  assumes inv: "chain_inv N q cs" and i: "i \<le> chain_end N q cs" and j: "j \<le> chain_end N q cs"
    and eq: "chain_addr N cs i = chain_addr N cs j"
  shows "i = j"
proof -
  have "distinct cs" using inv by (simp add: chain_inv_def)
  then have "i div N = j div N" using eq chain_index_bound[OF inv i] chain_index_bound[OF inv j]
    by (simp add: chain_addr_def nth_eq_iff_index_eq)
  moreover have "i mod N = j mod N" using eq by (simp add: chain_addr_def)
  ultimately show ?thesis by (metis div_mult_mod_eq)
qed

lemma chain_addr_allocated:
  assumes "chain_inv N q cs" "i \<le> chain_end N q cs"
  shows "allocated q (fst (chain_addr N cs i))"
  using assms chain_index_bound[OF assms] by (auto simp: chain_addr_def chain_inv_def)

lemma repr_distinct: "yqueue_repr N q as \<Longrightarrow> distinct as"
  by (auto simp: yqueue_repr_def chain_slots_def distinct_map inj_on_def)
     (meson chain_addr_inj less_imp_le_nat)

lemma repr_allocated: "yqueue_repr N q as \<Longrightarrow> a \<in> set as \<Longrightarrow> allocated q (fst a)"
  by (auto simp: yqueue_repr_def chain_slots_def)
     (meson chain_addr_allocated less_imp_le_nat)

lemma repr_front:
  assumes "yqueue_repr N q as" "as \<noteq> []"
  shows "hd as = yqueue_front_addr q"
proof -
  obtain cs where inv: "chain_inv N q cs" and as: "as = chain_slots N q cs"
    using assms(1) by (auto simp: yqueue_repr_def)
  from assms(2) as have lt: "begin_pos q < chain_end N q cs"
    by (auto simp: chain_slots_def)
  then have "hd as = chain_addr N cs (begin_pos q)"
    by (simp add: as chain_slots_def upt_conv_Cons)
  then show ?thesis using inv by (simp add: chain_inv_def chain_addr_def yqueue_front_addr_def)
qed

lemma repr_back:
  assumes "yqueue_repr N q as" "as \<noteq> []"
  shows "yqueue_back_addr q = Some (last as)"
proof -
  obtain cs where inv: "chain_inv N q cs" and as: "as = chain_slots N q cs"
    using assms(1) by (auto simp: yqueue_repr_def)
  from assms(2) as have lt: "begin_pos q < chain_end N q cs"
    by (auto simp: chain_slots_def)
  then have "last as = chain_addr N cs (chain_end N q cs - 1)"
    by (simp add: as chain_slots_def last_map)
  then show ?thesis using inv lt by (simp add: chain_inv_def)
qed

lemma yqueue_new_repr: "0 < N \<Longrightarrow> yqueue_repr N (yqueue_new :: 'a yqueue) []"
  unfolding yqueue_repr_def
  by (rule exI[of _ "[0]"])
     (auto simp: yqueue_new_def allocate_chunk_def chain_inv_def chain_linked_def chain_end_def
        chain_slots_def Let_def)

subsection \<open>The operations keep the slots in order\<close>

lemma yqueue_set_back_repr:
  assumes "yqueue_repr N q as" "as \<noteq> []"
  obtains q' where "yqueue_set_back q v = Some q'" "yqueue_repr N q' as"
    "yqueue_get q' = (yqueue_get q)(last as := Some v)"
proof -
  obtain cs where inv: "chain_inv N q cs" and as: "as = chain_slots N q cs"
    using assms(1) by (auto simp: yqueue_repr_def)
  have "yqueue_back_addr q = Some (last as)" using assms by (rule repr_back)
  then obtain c where c: "back_chunk q = Some c" "last as = (c, back_pos q)"
    by (auto simp: yqueue_back_addr_def)
  have al: "allocated q c"
    using repr_allocated[OF assms(1), of "last as"] last_in_set[OF assms(2)] c by simp
  let ?q = "q\<lparr>chunk_values := (chunk_values q)(c := (chunk_values q c)(back_pos q := Some v))\<rparr>"
  have 1: "yqueue_set_back q v = Some ?q" using c al by (simp add: yqueue_set_back_def)
  have "chain_inv N ?q cs"
    using inv by (simp add: chain_inv_def chain_linked_def chain_end_def yqueue_back_addr_def)
  moreover have "chain_slots N ?q cs = chain_slots N q cs"
    by (simp add: chain_slots_def chain_end_def)
  ultimately have 2: "yqueue_repr N ?q as" using as by (auto simp: yqueue_repr_def)
  have 3: "yqueue_get ?q = (yqueue_get q)(last as := Some v)"
    using c al by (auto simp: yqueue_get_def fun_eq_iff)
  show ?thesis using that 1 2 3 by blast
qed

text \<open>\<open>push\<close> appends one slot, \<open>pop\<close> drops the first, \<open>unpush\<close> the last, and none of them touches
  the other slots.\<close>

lemma yqueue_push_same_chunk:
  assumes inv: "chain_inv N q cs" and N: "Suc (end_pos q) \<noteq> N"
  shows "\<exists>q'. yqueue_push N q = Some q' \<and> chain_inv N q' cs \<and>
     chain_slots N q' cs = chain_slots N q cs @ [(end_chunk q, end_pos q)] \<and>
     yqueue_get q' = yqueue_get q"
proof -
  let ?q = "q\<lparr>back_chunk := Some (end_chunk q), back_pos := end_pos q, end_pos := Suc (end_pos q)\<rparr>"
  have p: "yqueue_push N q = Some ?q" using N by (simp add: yqueue_push_def)
  have e: "chain_end N ?q cs = Suc (chain_end N q cs)" by (simp add: chain_end_def)
  have le: "begin_pos q \<le> chain_end N q cs" using inv by (simp add: chain_inv_def)
  have "chain_inv N ?q cs"
    using inv N e chain_addr_end[OF inv]
    by (auto simp: chain_inv_def chain_linked_def yqueue_back_addr_def)
  moreover have "chain_slots N ?q cs = chain_slots N q cs @ [(end_chunk q, end_pos q)]"
    using le e by (simp add: chain_slots_def chain_addr_end[OF inv])
  moreover have "yqueue_get ?q = yqueue_get q" by (simp add: yqueue_get_def fun_eq_iff)
  ultimately show ?thesis using p by blast
qed

lemma chain_end_append: "chain_end N q (cs @ [c]) = length cs * N + end_pos q"
  by (simp add: chain_end_def)

lemma chain_addr_append:
  "i div N < length cs \<Longrightarrow> chain_addr N (cs @ [c]) i = chain_addr N cs i"
  by (simp add: chain_addr_def nth_append)

text \<open>The chunk that \<open>push\<close> links in is the spare one, or a fresh one.\<close>

lemma yqueue_push_next_chunk:
  assumes inv: "chain_inv N q cs" and N: "Suc (end_pos q) = N"
  shows "\<exists>q' c. yqueue_push N q = Some q' \<and> chain_inv N q' (cs @ [c]) \<and>
     chain_slots N q' (cs @ [c]) = chain_slots N q cs @ [(end_chunk q, end_pos q)] \<and>
     (\<forall>a. fst a \<in> set cs \<longrightarrow> yqueue_get q' a = yqueue_get q a)"
proof -
  define c where "c = (case spare_chunk q of Some s \<Rightarrow> s | None \<Rightarrow> next_free q)"
  have end_in: "end_chunk q \<in> set cs" and end_last: "last cs = end_chunk q"
    using inv last_in_set[of cs] by (auto simp: chain_inv_def)
  have fresh: "c \<notin> set cs"
    using inv by (auto simp: c_def chain_inv_def split: option.splits)
  have al: "allocated q (end_chunk q)" using inv end_in by (auto simp: chain_inv_def)
  obtain q' where p: "yqueue_push N q = Some q'"
    and nx: "chunk_next q' = (chunk_next q)(end_chunk q := Some c)"
    and pv: "chunk_prev q' = (chunk_prev q)(c := Some (end_chunk q))"
    and bk: "begin_chunk q' = begin_chunk q" "begin_pos q' = begin_pos q"
      "back_chunk q' = Some (end_chunk q)" "back_pos q' = end_pos q"
      "end_chunk q' = c" "end_pos q' = 0" "spare_chunk q' = None"
    and alc: "allocated q' = (allocated q)(c := True)"
    and nf: "next_free q' = (if spare_chunk q = None then Suc (next_free q) else next_free q)"
    and vs: "\<And>d. d \<noteq> c \<Longrightarrow> chunk_values q' d = chunk_values q d"
  proof (cases "spare_chunk q")
    case None
    then show ?thesis using that al N
      by (auto simp: yqueue_push_def allocate_chunk_def c_def Let_def)
  next
    case (Some s)
    then have "allocated q s" using inv by (auto simp: chain_inv_def)
    then show ?thesis using that al N Some
      by (auto simp: yqueue_push_def c_def Let_def fun_upd_idem)
  qed
  have len: "length cs * N = Suc (chain_end N q cs)"
    using N inv by (cases cs) (auto simp: chain_end_def chain_inv_def)
  have e: "chain_end N q' (cs @ [c]) = Suc (chain_end N q cs)"
    using len by (simp add: chain_end_append bk)
  have le: "begin_pos q \<le> chain_end N q cs" using inv by (simp add: chain_inv_def)
  have linked: "chain_linked q' (cs @ [c])"
    unfolding chain_linked_def
  proof (intro allI impI)
    fix i assume i: "Suc i < length (cs @ [c])"
    show "chunk_next q' ((cs @ [c]) ! i) = Some ((cs @ [c]) ! Suc i) \<and>
      chunk_prev q' ((cs @ [c]) ! Suc i) = Some ((cs @ [c]) ! i)"
    proof (cases "Suc i < length cs")
      case True
      have d: "distinct cs" "cs \<noteq> []" using inv by (auto simp: chain_inv_def)
      have "cs ! i \<noteq> cs ! (length cs - 1)"
        using True d by (subst nth_eq_iff_index_eq) auto
      then have "cs ! i \<noteq> last cs" "cs ! Suc i \<noteq> c"
        using True fresh d by (auto simp: last_conv_nth)
      then show ?thesis using True inv end_last nx pv
        by (auto simp: nth_append chain_inv_def chain_linked_def)
    next
      case False
      then have "Suc i = length cs" using i by simp
      then have "cs ! i = end_chunk q" using end_last inv
        by (metis chain_inv_def diff_Suc_1 last_conv_nth)
      then show ?thesis using \<open>Suc i = length cs\<close> nx pv by (simp add: nth_append)
    qed
  qed
  have slot: "chain_addr N (cs @ [c]) (chain_end N q cs) = (end_chunk q, end_pos q)"
    using chain_addr_end[OF inv] chain_index_bound[OF inv order_refl] by (simp add: chain_addr_append)
  have "chain_inv N q' (cs @ [c])"
    using inv fresh linked e slot le alc nf bk
    by (auto simp: chain_inv_def yqueue_back_addr_def nth_append c_def split: option.splits if_splits)
  moreover have "chain_slots N q' (cs @ [c]) = chain_slots N q cs @ [(end_chunk q, end_pos q)]"
    using le slot chain_index_bound[OF inv]
    by (simp add: chain_slots_def e bk chain_addr_append)
  moreover have "\<forall>a. fst a \<in> set cs \<longrightarrow> yqueue_get q' a = yqueue_get q a"
    using fresh alc vs by (auto simp: yqueue_get_def)
  ultimately show ?thesis using p by blast
qed

lemma chain_slots_chunk: "chain_inv N q cs \<Longrightarrow> a \<in> set (chain_slots N q cs) \<Longrightarrow> fst a \<in> set cs"
  using chain_index_bound[of N q cs] by (auto simp: chain_slots_def chain_addr_def)

lemma yqueue_push_repr:
  assumes "yqueue_repr N q as"
  obtains q' where "yqueue_push N q = Some q'"
    "yqueue_repr N q' (as @ [(end_chunk q, end_pos q)])"
    "\<And>a. a \<in> set as \<Longrightarrow> yqueue_get q' a = yqueue_get q a"
proof -
  obtain cs where inv: "chain_inv N q cs" and as: "as = chain_slots N q cs"
    using assms by (auto simp: yqueue_repr_def)
  show ?thesis
  proof (cases "Suc (end_pos q) = N")
    case True
    with yqueue_push_next_chunk[OF inv] that as chain_slots_chunk[OF inv] show ?thesis
      by (metis yqueue_repr_def)
  next
    case False
    with yqueue_push_same_chunk[OF inv] that as show ?thesis
      by (metis yqueue_repr_def)
  qed
qed

text \<open>\<open>pop\<close> moves to the next chunk when the first one is used up, and keeps the old one as the
  spare in place of the previous spare, which is freed.\<close>

lemma yqueue_pop_same_chunk:
  assumes inv: "chain_inv N q cs" and ne: "begin_pos q < chain_end N q cs"
    and N: "Suc (begin_pos q) \<noteq> N"
  shows "\<exists>q'. yqueue_pop N q = Some q' \<and> chain_inv N q' cs \<and>
     chain_slots N q' cs = tl (chain_slots N q cs) \<and> yqueue_get q' = yqueue_get q"
proof -
  let ?q = "q\<lparr>begin_pos := Suc (begin_pos q)\<rparr>"
  have e: "chain_end N ?q cs = chain_end N q cs" by (simp add: chain_end_def)
  have "chain_inv N ?q cs"
    using inv ne N e by (auto simp: chain_inv_def chain_linked_def yqueue_back_addr_def)
  moreover have "chain_slots N ?q cs = tl (chain_slots N q cs)"
    using ne e by (simp add: chain_slots_def upt_conv_Cons)
  moreover have "yqueue_get ?q = yqueue_get q" by (simp add: yqueue_get_def fun_eq_iff)
  ultimately show ?thesis using N by (auto simp: yqueue_pop_def)
qed

lemma chain_addr_tl: "N > 0 \<Longrightarrow> cs \<noteq> [] \<Longrightarrow> chain_addr N (tl cs) i = chain_addr N cs (i + N)"
  by (cases cs) (simp_all add: chain_addr_def div_add_self2)

lemma map_upt_shift: "map f [a + k ..< b + k] = map (\<lambda>i. f (i + k)) [a ..< b]" for k :: nat
  by (induction b) auto

lemma yqueue_pop_next_chunk:
  assumes inv: "chain_inv N q cs" and ne: "begin_pos q < chain_end N q cs"
    and N: "Suc (begin_pos q) = N"
  shows "\<exists>q'. yqueue_pop N q = Some q' \<and> chain_inv N q' (tl cs) \<and>
     chain_slots N q' (tl cs) = tl (chain_slots N q cs) \<and>
     (\<forall>a. fst a \<in> set (tl cs) \<longrightarrow> yqueue_get q' a = yqueue_get q a)"
proof -
  have two: "Suc 0 < length cs"
  proof (rule ccontr)
    assume "\<not> Suc 0 < length cs"
    then have "chain_end N q cs = end_pos q" by (simp add: chain_end_def)
    with ne N inv show False by (simp add: chain_inv_def)
  qed
  then obtain a b ds where cs: "cs = a # b # ds" by (cases cs rule: list.exhaust; cases "tl cs"; auto)
  have bc: "begin_chunk q = a" using inv cs by (simp add: chain_inv_def)
  have ab: "chunk_next q a = Some b" "chunk_prev q b = Some a"
    using inv two by (auto simp: chain_inv_def chain_linked_def cs dest: spec[of _ 0])
  have al: "allocated q a" "allocated q b" using inv cs by (auto simp: chain_inv_def)
  have sp: "spare_chunk q \<noteq> Some a" "spare_chunk q \<noteq> Some b" "a \<noteq> b" "a \<notin> set ds"
    using inv cs by (auto simp: chain_inv_def)
  define al' where "al' = (case spare_chunk q of None \<Rightarrow> allocated q
                           | Some s \<Rightarrow> (allocated q)(s := False))"
  let ?q = "q\<lparr>begin_pos := 0, begin_chunk := b, chunk_prev := (chunk_prev q)(b := None),
              spare_chunk := Some a, allocated := al'\<rparr>"
  have "spare_chunk q = Some s \<Longrightarrow> allocated q s" for s
    using inv by (auto simp: chain_inv_def)
  then have p: "yqueue_pop N q = Some ?q"
    using N bc ab al by (auto simp: yqueue_pop_def Let_def free_chunk_def al'_def split: option.splits)
  have e: "chain_end N q cs = chain_end N ?q (tl cs) + N"
    by (simp add: chain_end_def cs)
  have "chain_linked ?q (tl cs)"
    unfolding chain_linked_def
  proof (intro allI impI)
    fix i assume i: "Suc i < length (tl cs)"
    then have l: "chunk_next q (cs ! Suc i) = Some (cs ! Suc (Suc i))"
      "chunk_prev q (cs ! Suc (Suc i)) = Some (cs ! Suc i)"
      using inv by (auto simp: chain_inv_def chain_linked_def cs)
    have "ds ! i \<in> set ds" using i by (simp add: cs)
    then have "tl cs ! Suc i \<noteq> b" using inv cs by (auto simp: chain_inv_def)
    with l i show "chunk_next ?q (tl cs ! i) = Some (tl cs ! Suc i) \<and>
        chunk_prev ?q (tl cs ! Suc i) = Some (tl cs ! i)"
      by (simp add: cs)
  qed
  moreover have "allocated ?q c \<longleftrightarrow> c \<in> set (tl cs) \<or> spare_chunk ?q = Some c" for c
    using inv sp by (auto simp: chain_inv_def cs al'_def split: option.splits)
  moreover have "allocated ?q c \<Longrightarrow> c < next_free ?q" for c
    using inv by (auto simp: chain_inv_def al'_def split: option.splits if_splits)
  moreover have "yqueue_back_addr ?q = Some (chain_addr N (tl cs) (chain_end N ?q (tl cs) - 1))"
    if "0 < chain_end N ?q (tl cs)"
    using inv that e ne N by (simp add: chain_inv_def chain_addr_tl yqueue_back_addr_def)
  moreover have "\<forall>c \<in> set (tl cs). spare_chunk ?q \<noteq> Some c" using sp cs by auto
  ultimately have "chain_inv N ?q (tl cs)"
    using inv cs by (simp add: chain_inv_def)
  moreover have "chain_slots N ?q (tl cs) = tl (chain_slots N q cs)"
  proof -
    have "chain_addr N cs (i + N) = chain_addr N (tl cs) i" for i
      using N cs chain_addr_tl[of N cs i] by simp
    then have "map (chain_addr N cs) [0 + N ..< chain_end N ?q (tl cs) + N] = chain_slots N ?q (tl cs)"
      unfolding map_upt_shift by (simp add: chain_slots_def)
    moreover have "tl (chain_slots N q cs) = map (chain_addr N cs) [N ..< chain_end N q cs]"
      using ne N by (simp add: chain_slots_def upt_conv_Cons)
    ultimately show ?thesis using e by simp
  qed
  moreover have "\<forall>x. fst x \<in> set (tl cs) \<longrightarrow> yqueue_get ?q x = yqueue_get q x"
    using inv by (auto simp: yqueue_get_def al'_def chain_inv_def cs split: option.splits)
  ultimately show ?thesis using p by blast
qed

lemma yqueue_pop_repr:
  assumes "yqueue_repr N q as" "as \<noteq> []"
  obtains q' where "yqueue_pop N q = Some q'" "yqueue_repr N q' (tl as)"
    "\<And>a. a \<in> set (tl as) \<Longrightarrow> yqueue_get q' a = yqueue_get q a"
proof -
  obtain cs where inv: "chain_inv N q cs" and as: "as = chain_slots N q cs"
    using assms(1) by (auto simp: yqueue_repr_def)
  have ne: "begin_pos q < chain_end N q cs" using assms(2) as by (simp add: chain_slots_def)
  show ?thesis
  proof (cases "Suc (begin_pos q) = N")
    case True
    then obtain q' where q': "yqueue_pop N q = Some q'" "chain_inv N q' (tl cs)"
      "chain_slots N q' (tl cs) = tl (chain_slots N q cs)"
      "\<forall>a. fst a \<in> set (tl cs) \<longrightarrow> yqueue_get q' a = yqueue_get q a"
      using yqueue_pop_next_chunk[OF inv ne] by blast
    with that as chain_slots_chunk[OF q'(2)] show ?thesis by (metis yqueue_repr_def)
  next
    case False
    with yqueue_pop_same_chunk[OF inv ne] that as show ?thesis by (metis yqueue_repr_def)
  qed
qed

lemma pred_div_mod:
  assumes "0 < k" "k mod N \<noteq> 0"
  shows "(k - 1) div N = k div N" "(k - 1) mod N = k mod N - (1 :: nat)"
  using assms by (cases k; auto simp: div_Suc mod_Suc split: if_splits)+

lemma pred_div_mod_zero:
  assumes "0 < k" "k mod N = (0 :: nat)" "0 < N"
  shows "(k - 1) div N = k div N - 1" "(k - 1) mod N = N - 1" "0 < k div N"
  using assms by (cases k; auto simp: div_Suc mod_Suc dvd_imp_le div_greater_zero_iff split: if_splits)+

text \<open>\<open>unpush\<close> frees the last chunk when it goes back over a chunk boundary.\<close>

lemma yqueue_unpush_back:
  assumes inv: "chain_inv N q cs" and ne: "Suc (begin_pos q) < chain_end N q cs"
  obtains q1 where
    "(if back_pos q \<noteq> 0 then Some (q\<lparr>back_pos := back_pos q - 1\<rparr>)
      else (case back_chunk q of None \<Rightarrow> None
            | Some b \<Rightarrow> if allocated q b
                then Some (q\<lparr>back_pos := N - 1, back_chunk := chunk_prev q b\<rparr>) else None)) = Some q1"
    "yqueue_back_addr q1 = Some (chain_addr N cs (chain_end N q cs - 2))"
    "q1 = q\<lparr>back_pos := back_pos q1, back_chunk := back_chunk q1\<rparr>"
proof -
  define k where "k = chain_end N q cs - 1"
  have k: "0 < k" "chain_end N q cs - 2 = k - 1" "k \<le> chain_end N q cs" using ne by (auto simp: k_def)
  have N: "0 < N" using inv by (simp add: chain_inv_def)
  have "yqueue_back_addr q = Some (chain_addr N cs k)" using inv ne by (simp add: chain_inv_def k_def)
  then have b: "back_chunk q = Some (cs ! (k div N))" "back_pos q = k mod N"
    by (auto simp: yqueue_back_addr_def chain_addr_def)
  have kl: "k div N < length cs" using chain_index_bound[OF inv k(3)] .
  show ?thesis
  proof (cases "k mod N = 0")
    case False
    note pred_div_mod[OF k(1) False]
    then show ?thesis
      by (intro that[of "q\<lparr>back_pos := back_pos q - 1\<rparr>"])
         (use False b k in \<open>auto simp: yqueue_back_addr_def chain_addr_def\<close>)
  next
    case True
    note d = pred_div_mod_zero[OF k(1) True N]
    have "chunk_prev q (cs ! (k div N)) = Some (cs ! (k div N - 1))"
      using inv kl d(3) by (auto simp: chain_inv_def chain_linked_def dest: spec[of _ "k div N - 1"])
    moreover have "allocated q (cs ! (k div N))" using inv kl by (auto simp: chain_inv_def)
    ultimately show ?thesis
      by (intro that[of "q\<lparr>back_pos := N - 1, back_chunk := chunk_prev q (cs ! (k div N))\<rparr>"])
         (use True b k d in \<open>auto simp: yqueue_back_addr_def chain_addr_def\<close>)
  qed
qed

lemma chain_addr_butlast: "i div N < length cs - 1 \<Longrightarrow> chain_addr N (butlast cs) i = chain_addr N cs i"
  by (simp add: chain_addr_def nth_butlast)

lemma yqueue_unpush_same_chunk:
  assumes inv: "chain_inv N q cs" and ne: "Suc (begin_pos q) < chain_end N q cs"
    and e: "end_pos q \<noteq> 0"
  shows "\<exists>q'. yqueue_unpush N q = Some q' \<and> chain_inv N q' cs \<and>
     chain_slots N q' cs = butlast (chain_slots N q cs) \<and> yqueue_get q' = yqueue_get q"
proof -
  obtain q1 where q1: "(if back_pos q \<noteq> 0 then Some (q\<lparr>back_pos := back_pos q - 1\<rparr>)
      else (case back_chunk q of None \<Rightarrow> None
            | Some b \<Rightarrow> if allocated q b
                then Some (q\<lparr>back_pos := N - 1, back_chunk := chunk_prev q b\<rparr>) else None)) = Some q1"
    "yqueue_back_addr q1 = Some (chain_addr N cs (chain_end N q cs - 2))"
    and q1q: "q1 = q\<lparr>back_pos := back_pos q1, back_chunk := back_chunk q1\<rparr>"
    using yqueue_unpush_back[OF inv ne] by blast
  have ep: "end_pos q1 = end_pos q" by (subst q1q) simp
  let ?q = "q1\<lparr>end_pos := end_pos q1 - 1\<rparr>"
  have p: "yqueue_unpush N q = Some ?q"
    using q1(1) e ep by (simp add: yqueue_unpush_def)
  have ce: "chain_end N ?q cs = chain_end N q cs - 1"
    using e by (simp add: chain_end_def ep)
  have f: "begin_chunk q1 = begin_chunk q" "begin_pos q1 = begin_pos q" "end_chunk q1 = end_chunk q"
    "spare_chunk q1 = spare_chunk q" "allocated q1 = allocated q" "next_free q1 = next_free q"
    "chunk_next q1 = chunk_next q" "chunk_prev q1 = chunk_prev q" "chunk_values q1 = chunk_values q"
    by (subst q1q; simp)+
  have "chain_inv N ?q cs"
    using inv ne q1(2) ce f ep by (auto simp: chain_inv_def chain_linked_def yqueue_back_addr_def
      numeral_2_eq_2)
  moreover have "chain_slots N ?q cs = butlast (chain_slots N q cs)"
    using ne ce f by (cases "chain_end N q cs") (auto simp: chain_slots_def)
  moreover have "yqueue_get ?q = yqueue_get q" by (simp add: yqueue_get_def fun_eq_iff f)
  ultimately show ?thesis using p by blast
qed

lemma yqueue_unpush_prev_chunk:
  assumes inv: "chain_inv N q cs" and ne: "Suc (begin_pos q) < chain_end N q cs"
    and e: "end_pos q = 0"
  shows "\<exists>q'. yqueue_unpush N q = Some q' \<and> chain_inv N q' (butlast cs) \<and>
     chain_slots N q' (butlast cs) = butlast (chain_slots N q cs) \<and>
     (\<forall>a. fst a \<in> set (butlast cs) \<longrightarrow> yqueue_get q' a = yqueue_get q a)"
proof -
  obtain q1 where q1: "(if back_pos q \<noteq> 0 then Some (q\<lparr>back_pos := back_pos q - 1\<rparr>)
      else (case back_chunk q of None \<Rightarrow> None
            | Some b \<Rightarrow> if allocated q b
                then Some (q\<lparr>back_pos := N - 1, back_chunk := chunk_prev q b\<rparr>) else None)) = Some q1"
    "yqueue_back_addr q1 = Some (chain_addr N cs (chain_end N q cs - 2))"
    and q1q: "q1 = q\<lparr>back_pos := back_pos q1, back_chunk := back_chunk q1\<rparr>"
    using yqueue_unpush_back[OF inv ne] by blast
  have f: "begin_chunk q1 = begin_chunk q" "begin_pos q1 = begin_pos q" "end_chunk q1 = end_chunk q"
    "spare_chunk q1 = spare_chunk q" "allocated q1 = allocated q" "next_free q1 = next_free q"
    "chunk_next q1 = chunk_next q" "chunk_prev q1 = chunk_prev q" "chunk_values q1 = chunk_values q"
    "end_pos q1 = end_pos q"
    by (subst q1q; simp)+
  have N: "0 < N" and le: "cs \<noteq> []" "cs ! 0 = begin_chunk q" and d: "distinct cs"
    and lk: "chain_linked q cs" and lst: "last cs = end_chunk q" and bp: "begin_pos q < N"
    using inv by (auto simp: chain_inv_def)
  have two: "Suc 0 < length cs"
    using ne e by (cases "length cs - 1") (auto simp: chain_end_def)
  define n where "n = length cs - 2"
  have n: "length cs = Suc (Suc n)" using two by (simp add: n_def)
  have en: "end_chunk q = cs ! Suc n" using lst le n by (simp add: last_conv_nth)
  let ?e = "cs ! n"
  have pv: "chunk_prev q (end_chunk q) = Some ?e" "chunk_next q ?e = Some (end_chunk q)"
    using lk n en by (auto simp: chain_linked_def)
  have al: "allocated q (end_chunk q)" "allocated q ?e"
    using inv n en by (auto simp: chain_inv_def)
  have nee: "?e \<noteq> end_chunk q" using d n en by (simp add: nth_eq_iff_index_eq)
  let ?q = "q1\<lparr>end_pos := N - 1, end_chunk := ?e,
      allocated := (allocated q)(end_chunk q := False), chunk_next := (chunk_next q)(?e := None)\<rparr>"
  have p: "yqueue_unpush N q = Some ?q"
    using q1(1) e f pv al nee by (simp add: yqueue_unpush_def free_chunk_def)
  have bl: "butlast cs = take (Suc n) cs" "length (butlast cs) = Suc n"
    using n by (simp_all add: butlast_conv_take)
  have bln: "butlast cs ! i = cs ! i" if "i < Suc n" for i using that n by (simp add: nth_butlast)
  have cseq: "cs = butlast cs @ [end_chunk q]" using lst le by (metis append_butlast_last_id)
  have "set (butlast cs @ [end_chunk q]) = insert (end_chunk q) (set (butlast cs))" by simp
  then have setbl1: "set cs = insert (end_chunk q) (set (butlast cs))" using cseq by metis
  have "distinct (butlast cs @ [end_chunk q])" using d cseq by metis
  then have setbl2: "end_chunk q \<notin> set (butlast cs)" by simp
  note setbl = setbl1 setbl2
  have ce: "chain_end N ?q (butlast cs) = chain_end N q cs - 1" "0 < chain_end N q cs"
    using e N n ne by (auto simp: chain_end_def bl)
  have addr: "chain_addr N (butlast cs) i = chain_addr N cs i" if "i < chain_end N q cs" for i
  proof -
    have "chain_end N q cs = Suc n * N" using e n by (simp add: chain_end_def)
    then have "i div N < Suc n" using that N by (simp add: less_mult_imp_div_less)
    then show ?thesis using n by (simp add: chain_addr_butlast)
  qed
  have "butlast cs \<noteq> []" using bl(2) by (metis list.size(3) nat.distinct(1))
  have "chain_inv N ?q (butlast cs)"
    unfolding chain_inv_def
  proof (intro conjI)
    show "chain_linked ?q (butlast cs)"
      using lk n d f by (auto simp: chain_linked_def bln bl nth_eq_iff_index_eq)
    show "last (butlast cs) = end_chunk ?q"
      using n bln[of n] bl \<open>butlast cs \<noteq> []\<close> by (simp add: last_conv_nth)
    show "butlast cs \<noteq> []" by fact
    show "distinct (butlast cs)" using d by (rule distinct_butlast)
    show "butlast cs ! 0 = begin_chunk ?q" using bln[of 0] le(2) f by simp
    show "begin_pos ?q < N" "end_pos ?q < N" "0 < N" using bp N f by simp_all
    show "begin_pos ?q \<le> chain_end N ?q (butlast cs)" using ne ce f by simp
    show "\<forall>c. allocated ?q c \<longleftrightarrow> c \<in> set (butlast cs) \<or> spare_chunk ?q = Some c"
      using inv setbl f by (auto simp: chain_inv_def)
    show "\<forall>c \<in> set (butlast cs). spare_chunk ?q \<noteq> Some c"
      using inv f by (auto simp: chain_inv_def dest: in_set_butlastD)
    show "\<forall>c. allocated ?q c \<longrightarrow> c < next_free ?q" using inv f by (auto simp: chain_inv_def)
    have "chain_addr N (butlast cs) (chain_end N ?q (butlast cs) - 1) = chain_addr N cs (chain_end N q cs - 2)"
      using ce ne addr[of "chain_end N q cs - 2"] by (simp add: numeral_2_eq_2)
    then show "begin_pos ?q < chain_end N ?q (butlast cs) \<longrightarrow>
        yqueue_back_addr ?q = Some (chain_addr N (butlast cs) (chain_end N ?q (butlast cs) - 1))"
      using q1(2) by (simp add: yqueue_back_addr_def)
  qed
  moreover have "chain_slots N ?q (butlast cs) = butlast (chain_slots N q cs)"
    using ne ce f addr by (cases "chain_end N q cs") (auto simp: chain_slots_def)
  moreover have "\<forall>a. fst a \<in> set (butlast cs) \<longrightarrow> yqueue_get ?q a = yqueue_get q a"
    using setbl f by (auto simp: yqueue_get_def)
  ultimately show ?thesis using p by blast
qed

lemma yqueue_unpush_repr:
  assumes "yqueue_repr N q as" "2 \<le> length as"
  obtains q' where "yqueue_unpush N q = Some q'" "yqueue_repr N q' (butlast as)"
    "\<And>a. a \<in> set (butlast as) \<Longrightarrow> yqueue_get q' a = yqueue_get q a"
proof -
  obtain cs where inv: "chain_inv N q cs" and as: "as = chain_slots N q cs"
    using assms(1) by (auto simp: yqueue_repr_def)
  have ne: "Suc (begin_pos q) < chain_end N q cs" using assms(2) as by (simp add: chain_slots_def)
  show ?thesis
  proof (cases "end_pos q = 0")
    case True
    then obtain q' where q': "yqueue_unpush N q = Some q'" "chain_inv N q' (butlast cs)"
      "chain_slots N q' (butlast cs) = butlast (chain_slots N q cs)"
      "\<forall>a. fst a \<in> set (butlast cs) \<longrightarrow> yqueue_get q' a = yqueue_get q a"
      using yqueue_unpush_prev_chunk[OF inv ne] by blast
    with that as chain_slots_chunk[OF q'(2)] show ?thesis by (metis yqueue_repr_def)
  next
    case False
    with yqueue_unpush_same_chunk[OF inv ne] that as show ?thesis by (metis yqueue_repr_def)
  qed
qed

subsection \<open>Destruction frees every chunk exactly once\<close>

lemma yqueue_free_chain_correct:
  assumes "cs \<noteq> []" "distinct cs" "cs ! 0 = begin_chunk q" "last cs = end_chunk q"
    "\<forall>i. Suc i < length cs \<longrightarrow> chunk_next q (cs ! i) = Some (cs ! Suc i)"
    "\<forall>c \<in> set cs. allocated q c"
  shows "\<exists>q'. yqueue_free_chain q = Some q' \<and> spare_chunk q' = spare_chunk q \<and>
     (\<forall>c. allocated q' c \<longleftrightarrow> allocated q c \<and> c \<notin> set cs)"
  using assms
proof (induction cs arbitrary: q)
  case Nil
  then show ?case by simp
next
  case (Cons c cs)
  have c: "begin_chunk q = c" "allocated q c" using Cons.prems by auto
  show ?case
  proof (cases cs)
    case Nil
    then show ?thesis using Cons.prems c
      by (auto simp: yqueue_free_chain.simps[of q] free_chunk_def)
  next
    case (Cons b bs)
    have "end_chunk q \<in> set cs" using Cons.prems(4) Cons by (metis last_ConsR last_in_set list.discI)
    then have ne: "c \<noteq> end_chunk q" using Cons.prems(2) by auto
    have nx: "chunk_next q c = Some b" using Cons.prems(5) Cons by (auto dest: spec[of _ 0])
    let ?q = "q\<lparr>begin_chunk := b, allocated := (allocated q)(c := False)\<rparr>"
    have l: "chunk_next q (cs ! i) = Some (cs ! Suc i)" if "Suc i < length cs" for i
      using Cons.prems(5)[rule_format, of "Suc i"] that by simp
    have IH: "\<exists>q'. yqueue_free_chain ?q = Some q' \<and> spare_chunk q' = spare_chunk ?q \<and>
        (\<forall>d. allocated q' d \<longleftrightarrow> allocated ?q d \<and> d \<notin> set cs)"
      using Cons.prems(1-4,6) Cons l by (intro Cons.IH) auto
    have "yqueue_free_chain q = yqueue_free_chain ?q"
      using c ne nx by (simp add: yqueue_free_chain.simps[of q] free_chunk_def)
    with IH show ?thesis by auto
  qed
qed

lemma yqueue_destroy_frees_all:
  assumes "yqueue_repr N q as"
  obtains q' where "yqueue_destroy q = Some q'" "\<And>c. \<not> allocated q' c"
proof -
  obtain cs where inv: "chain_inv N q cs" using assms by (auto simp: yqueue_repr_def)
  then obtain q1 where q1: "yqueue_free_chain q = Some q1" "spare_chunk q1 = spare_chunk q"
    "\<forall>c. allocated q1 c \<longleftrightarrow> allocated q c \<and> c \<notin> set cs"
    using yqueue_free_chain_correct[of cs q] by (auto simp: chain_inv_def chain_linked_def)
  have sp: "allocated q1 c \<longleftrightarrow> spare_chunk q = Some c" for c
    using q1(3) inv by (auto simp: chain_inv_def)
  show ?thesis
  proof (cases "spare_chunk q")
    case None
    show ?thesis
    proof (rule that)
      show "yqueue_destroy q = Some (q1\<lparr>spare_chunk := None\<rparr>)"
        using q1 None by (simp add: yqueue_destroy_def free_chunk_def)
      show "\<not> allocated (q1\<lparr>spare_chunk := None\<rparr>) c" for c using sp None by simp
    qed
  next
    case (Some s)
    show ?thesis
    proof (rule that)
      show "yqueue_destroy q = Some (q1\<lparr>spare_chunk := None, allocated := (allocated q1)(s := False)\<rparr>)"
        using q1(1,2) Some sp[of s] by (simp add: yqueue_destroy_def free_chunk_def)
      show "\<not> allocated (q1\<lparr>spare_chunk := None, allocated := (allocated q1)(s := False)\<rparr>) c" for c
        using sp Some by auto
    qed
  qed
qed

subsection \<open>Properties\<close>

text \<open>Destroying a queue releases every chunk it ever allocated and still holds, the spare one
  included, and follows no dangling pointer.\<close>

theorem yqueue_destroy_releases_chunks:
  assumes "yqueue_repr N q as"
  shows "\<exists>q'. yqueue_destroy q = Some q' \<and> (\<forall>c. \<not> allocated q' c)"
  using yqueue_destroy_frees_all[OF assms] by blast

theorem yqueue_destroy_releases_chunks_witness:
  "\<exists>q'. yqueue_destroy (yqueue_new :: nat yqueue) = Some q' \<and> (\<forall>c. \<not> allocated q' c)"
  by (rule yqueue_destroy_releases_chunks[OF yqueue_new_repr[of 1]]) simp

end
