(* ===== verification/Zmq_Ypipe.thy ===== *)
theory Zmq_Ypipe
  imports Zmq_Yqueue
begin

text \<open>
  The one-way lock-free pipe \<open>ypipe_t\<close> of \<open>src/libzmq/src/ypipe.hpp\<close>, a queue with four
  pointers into it: \<open>w\<close> (first un-flushed item, writer only), \<open>r\<close> (first un-prefetched item,
  reader only), \<open>f\<close> (first item to be flushed in the future, writer only) and the shared \<open>c\<close>
  (past the last flushed item, null when the reader sleeps).  The writer calls \<open>write\<close>,
  \<open>unwrite\<close> and \<open>flush\<close>, the reader \<open>check_read\<close> and \<open>read\<close>; each of them reads or
  writes the shared \<open>c\<close> in at most one atomic step, so an interleaving of the two threads is a
  sequence of these operations.  The abstract view of a pipe is the sequence of its items, cut into the
  flushed, the complete and the incomplete ones, with a flag for the sleeping reader; every
  operation is shown to do to that view exactly what it promises.
\<close>

record 'a ypipe =
  queue :: "'a yqueue"
  ypipe_w :: addr
  ypipe_r :: "addr option"
  ypipe_f :: addr
  ypipe_c :: "addr option"

definition ypipe_new :: "nat \<Rightarrow> 'a ypipe option" where
  "ypipe_new N =
     do {
       q \<leftarrow> yqueue_push N yqueue_new;
       a \<leftarrow> yqueue_back_addr q;
       Some \<lparr>queue = q, ypipe_w = a, ypipe_r = Some a, ypipe_f = a, ypipe_c = Some a\<rparr>
     }"

definition ypipe_write :: "nat \<Rightarrow> 'a ypipe \<Rightarrow> 'a \<Rightarrow> bool \<Rightarrow> 'a ypipe option" where
  "ypipe_write N p v incomplete =
     do {
       q \<leftarrow> yqueue_set_back (queue p) v;
       q \<leftarrow> yqueue_push N q;
       p \<leftarrow> Some (p\<lparr>queue := q\<rparr>);
       (if \<not> incomplete
        then do { a \<leftarrow> yqueue_back_addr q; Some (p\<lparr>ypipe_f := a\<rparr>) }
        else Some p)
     }"

definition ypipe_unwrite :: "nat \<Rightarrow> 'a ypipe \<Rightarrow> ('a option \<times> 'a ypipe) option" where
  "ypipe_unwrite N p =
     (if Some (ypipe_f p) = yqueue_back_addr (queue p) then Some (None, p)
      else do {
        q \<leftarrow> yqueue_unpush N (queue p);
        v \<leftarrow> yqueue_back q;
        Some (Some v, p\<lparr>queue := q\<rparr>)
      })"

text \<open>\<open>c.cas (cmp, val)\<close> stores \<open>val\<close> if \<open>c\<close> equals \<open>cmp\<close> and returns the old value.\<close>

definition ypipe_cas :: "'a ypipe \<Rightarrow> addr option \<Rightarrow> addr option \<Rightarrow> addr option \<times> 'a ypipe" where
  "ypipe_cas p cmp val =
     (ypipe_c p, if ypipe_c p = cmp then p\<lparr>ypipe_c := val\<rparr> else p)"

definition ypipe_flush :: "'a ypipe \<Rightarrow> bool \<times> 'a ypipe" where
  "ypipe_flush p =
     (if ypipe_w p = ypipe_f p then (True, p)
      else let (old, p) = ypipe_cas p (Some (ypipe_w p)) (Some (ypipe_f p))
        in if old \<noteq> Some (ypipe_w p)
           then let p = p\<lparr>ypipe_c := Some (ypipe_f p)\<rparr>
             in (False, p\<lparr>ypipe_w := ypipe_f p\<rparr>)
           else (True, p\<lparr>ypipe_w := ypipe_f p\<rparr>))"

definition ypipe_check_read :: "'a ypipe \<Rightarrow> bool \<times> 'a ypipe" where
  "ypipe_check_read p =
     (let front = Some (yqueue_front_addr (queue p))
      in if front \<noteq> ypipe_r p \<and> ypipe_r p \<noteq> None then (True, p)
         else let (old, p) = ypipe_cas p front None;
                  p = p\<lparr>ypipe_r := old\<rparr>
           in if front = ypipe_r p \<or> ypipe_r p = None then (False, p) else (True, p))"

definition ypipe_read :: "nat \<Rightarrow> 'a ypipe \<Rightarrow> ('a option \<times> 'a ypipe) option" where
  "ypipe_read N p =
     (let (ok, p) = ypipe_check_read p
      in if \<not> ok then Some (None, p)
         else do {
           v \<leftarrow> yqueue_front (queue p);
           q \<leftarrow> yqueue_pop N (queue p);
           Some (Some v, p\<lparr>queue := q\<rparr>)
         })"

definition ypipe_probe :: "'a ypipe \<Rightarrow> ('a \<Rightarrow> bool) \<Rightarrow> (bool \<times> 'a ypipe) option" where
  "ypipe_probe p fn =
     (let (rc, p) = ypipe_check_read p
      in do {
        zmq_assert rc;
        v \<leftarrow> yqueue_front (queue p);
        Some (fn v, p)
      })"

subsection \<open>The abstract pipe\<close>

record 'a apipe =
  flushed :: "'a list"
  complete :: "'a list"
  incomplete :: "'a list"
  asleep :: bool

abbreviation pipe_items :: "'a apipe \<Rightarrow> 'a list" where
  "pipe_items s \<equiv> flushed s @ complete s @ incomplete s"

definition apipe_new :: "'a apipe" where
  "apipe_new = \<lparr>flushed = [], complete = [], incomplete = [], asleep = False\<rparr>"

definition apipe_write :: "'a apipe \<Rightarrow> 'a \<Rightarrow> bool \<Rightarrow> 'a apipe" where
  "apipe_write s v inc =
     (if inc then s\<lparr>incomplete := incomplete s @ [v]\<rparr>
      else s\<lparr>complete := complete s @ incomplete s @ [v], incomplete := []\<rparr>)"

definition apipe_unwrite :: "'a apipe \<Rightarrow> 'a option \<times> 'a apipe" where
  "apipe_unwrite s =
     (if incomplete s = [] then (None, s)
      else (Some (last (incomplete s)), s\<lparr>incomplete := butlast (incomplete s)\<rparr>))"

definition apipe_flush :: "'a apipe \<Rightarrow> bool \<times> 'a apipe" where
  "apipe_flush s =
     (if complete s = [] then (True, s)
      else (\<not> asleep s, s\<lparr>flushed := flushed s @ complete s, complete := [], asleep := False\<rparr>))"

definition apipe_check_read :: "'a apipe \<Rightarrow> bool \<times> 'a apipe" where
  "apipe_check_read s =
     (if flushed s = [] then (False, s\<lparr>asleep := True\<rparr>) else (True, s))"

definition apipe_read :: "'a apipe \<Rightarrow> 'a option \<times> 'a apipe" where
  "apipe_read s =
     (case flushed s of [] \<Rightarrow> (None, s\<lparr>asleep := True\<rparr>)
      | v # vs \<Rightarrow> (Some v, s\<lparr>flushed := vs\<rparr>))"

definition ypipe_view :: "nat \<Rightarrow> 'a ypipe \<Rightarrow> 'a apipe \<Rightarrow> addr list \<Rightarrow> bool" where
  "ypipe_view N p s as \<longleftrightarrow> yqueue_repr N (queue p) as \<and>
     length as = Suc (length (pipe_items s)) \<and>
     (\<forall>i < length (pipe_items s). yqueue_get (queue p) (as ! i) = Some (pipe_items s ! i)) \<and>
     ypipe_w p = as ! length (flushed s) \<and>
     ypipe_f p = as ! (length (flushed s) + length (complete s)) \<and>
     ypipe_c p = (if asleep s then None else Some (ypipe_w p)) \<and>
     (asleep s \<longrightarrow> flushed s = []) \<and>
     (\<forall>a. ypipe_r p = Some a \<longrightarrow> (\<exists>k \<le> length (flushed s). a = as ! k))"

definition ypipe_repr :: "nat \<Rightarrow> 'a ypipe \<Rightarrow> 'a apipe \<Rightarrow> bool" where
  "ypipe_repr N p s \<longleftrightarrow> (\<exists>as. ypipe_view N p s as)"

lemma ypipe_reprE:
  assumes "ypipe_repr N p s"
  obtains as where "ypipe_view N p s as"
  using assms by (auto simp: ypipe_repr_def)

lemma ypipe_viewD:
  assumes "ypipe_view N p s as"
  shows "yqueue_repr N (queue p) as" "distinct as" "as \<noteq> []"
    "length as = Suc (length (pipe_items s))"
    "\<And>i. i < length (pipe_items s) \<Longrightarrow> yqueue_get (queue p) (as ! i) = Some (pipe_items s ! i)"
    "ypipe_w p = as ! length (flushed s)"
    "ypipe_f p = as ! (length (flushed s) + length (complete s))"
    "ypipe_c p = (if asleep s then None else Some (ypipe_w p))"
    "asleep s \<Longrightarrow> flushed s = []"
    "\<And>a. ypipe_r p = Some a \<Longrightarrow> \<exists>k \<le> length (flushed s). a = as ! k"
    "yqueue_front_addr (queue p) = as ! 0"
    "yqueue_back_addr (queue p) = Some (as ! length (pipe_items s))"
proof -
  note * = assms[unfolded ypipe_view_def]
  then show ne: "as \<noteq> []" by auto
  show "yqueue_repr N (queue p) as" "length as = Suc (length (pipe_items s))"
    "\<And>i. i < length (pipe_items s) \<Longrightarrow> yqueue_get (queue p) (as ! i) = Some (pipe_items s ! i)"
    "ypipe_w p = as ! length (flushed s)"
    "ypipe_f p = as ! (length (flushed s) + length (complete s))"
    "ypipe_c p = (if asleep s then None else Some (ypipe_w p))"
    "asleep s \<Longrightarrow> flushed s = []"
    "\<And>a. ypipe_r p = Some a \<Longrightarrow> \<exists>k \<le> length (flushed s). a = as ! k"
    using * by blast+
  have r: "yqueue_repr N (queue p) as" using * by blast
  show "distinct as" using r by (rule repr_distinct)
  show "yqueue_front_addr (queue p) = as ! 0"
    using repr_front[OF r ne] ne by (simp add: hd_conv_nth)
  show "yqueue_back_addr (queue p) = Some (as ! length (pipe_items s))"
    using repr_back[OF r ne] ne * by (simp add: last_conv_nth)
qed

text \<open>Addresses of different positions differ, so comparing pointers compares positions.\<close>

lemma slot_eq:
  "distinct as \<Longrightarrow> i < length as \<Longrightarrow> j < length as \<Longrightarrow> (as ! i = as ! j) = (i = j)"
  by (rule nth_eq_iff_index_eq)

lemma ypipe_new_repr:
  assumes "0 < N"
  obtains p where "ypipe_new N = Some p" "ypipe_repr N p apipe_new"
proof -
  obtain q where q: "yqueue_push N (yqueue_new :: 'a yqueue) = Some q"
    "yqueue_repr N q [(end_chunk (yqueue_new :: 'a yqueue), end_pos (yqueue_new :: 'a yqueue))]"
    using yqueue_push_repr[OF yqueue_new_repr[OF assms, where 'a = 'a]] by auto
  then show ?thesis
    using that repr_back[OF q(2)]
    by (simp add: ypipe_new_def ypipe_repr_def ypipe_view_def apipe_new_def)
       (metis (no_types, lifting) length_Cons list.size(3) nth_Cons_0)
qed

lemma ypipe_write_repr:
  assumes "ypipe_repr N p s"
  obtains p' where "ypipe_write N p v inc = Some p'" "ypipe_repr N p' (apipe_write s v inc)"
proof -
  let ?n = "length (pipe_items s)"
  obtain as where vw: "ypipe_view N p s as" using assms by (rule ypipe_reprE)
  note as = ypipe_viewD[OF vw]
  obtain q1 where q1: "yqueue_set_back (queue p) v = Some q1" "yqueue_repr N q1 as"
    "yqueue_get q1 = (yqueue_get (queue p))(last as := Some v)"
    using yqueue_set_back_repr[OF as(1,3)] by blast
  define b where "b = (end_chunk q1, end_pos q1)"
  obtain q2 where q2: "yqueue_push N q1 = Some q2" "yqueue_repr N q2 (as @ [b])"
    "\<And>a. a \<in> set as \<Longrightarrow> yqueue_get q2 a = yqueue_get q1 a"
    using yqueue_push_repr[OF q1(2)] unfolding b_def by blast
  have bk: "yqueue_back_addr q2 = Some b" using repr_back[OF q2(2)] by simp
  have lst: "last as = as ! ?n" using as(3,4) by (simp add: last_conv_nth)
  have get: "yqueue_get q2 (as ! i) = Some ((pipe_items s @ [v]) ! i)" if "i \<le> ?n" for i
  proof -
    have "yqueue_get q2 (as ! i) = yqueue_get q1 (as ! i)" using q2(3) that as(4) by simp
    then show ?thesis
      using that as(5)[of i] q1(3) lst slot_eq[OF as(2), of i ?n] as(4)
      by (cases "i < ?n") (auto simp: nth_append)
  qed
  let ?s = "apipe_write s v inc"
  have items: "pipe_items ?s = pipe_items s @ [v]" and fl: "flushed ?s = flushed s"
    and sl: "asleep ?s = asleep s"
    by (simp_all add: apipe_write_def)
  have app: "(as @ [b]) ! k = as ! k" if "k \<le> ?n" for k
    using that as(4) by (simp add: nth_append)
  have get': "\<forall>i < length (pipe_items ?s). yqueue_get q2 ((as @ [b]) ! i) = Some (pipe_items ?s ! i)"
    unfolding items using get app by simp
  have len: "length (as @ [b]) = Suc (length (pipe_items ?s))" unfolding items using as(4) by simp
  have r: "\<forall>a. ypipe_r p = Some a \<longrightarrow> (\<exists>k \<le> length (flushed ?s). a = (as @ [b]) ! k)"
  proof (intro allI impI)
    fix a assume "ypipe_r p = Some a"
    then obtain k where k: "k \<le> length (flushed s)" "a = as ! k" using as(10) by blast
    then show "\<exists>k \<le> length (flushed ?s). a = (as @ [b]) ! k"
      using app[of k] by (intro exI[of _ k]) (simp add: fl)
  qed
  show ?thesis
  proof (cases inc)
    case True
    have "ypipe_write N p v inc = Some (p\<lparr>queue := q2\<rparr>)"
      using True q1 q2 by (simp add: ypipe_write_def)
    moreover have "ypipe_repr N (p\<lparr>queue := q2\<rparr>) (apipe_write s v inc)"
      unfolding ypipe_repr_def ypipe_view_def
      using q2(2) len get' r as(6-9) app True
      by (intro exI[of _ "as @ [b]"]) (simp add: fl sl, simp add: apipe_write_def)
    ultimately show ?thesis by (rule that)
  next
    case False
    have "ypipe_write N p v inc = Some (p\<lparr>queue := q2, ypipe_f := b\<rparr>)"
      using False q1 q2 bk by (simp add: ypipe_write_def)
    moreover have "ypipe_repr N (p\<lparr>queue := q2, ypipe_f := b\<rparr>) (apipe_write s v inc)"
      unfolding ypipe_repr_def ypipe_view_def
      using q2(2) len get' r as(4,6-9) app False
      by (intro exI[of _ "as @ [b]"]) (simp add: fl sl, simp add: apipe_write_def nth_append)
    ultimately show ?thesis by (rule that)
  qed
qed

lemma ypipe_unwrite_repr:
  assumes "ypipe_repr N p s"
  obtains p' where "ypipe_unwrite N p = Some (fst (apipe_unwrite s), p')"
    "ypipe_repr N p' (snd (apipe_unwrite s))"
proof -
  let ?n = "length (pipe_items s)"
  obtain as where vw: "ypipe_view N p s as" using assms by (rule ypipe_reprE)
  note as = ypipe_viewD[OF vw]
  have eq: "Some (ypipe_f p) = yqueue_back_addr (queue p) \<longleftrightarrow> incomplete s = []"
    using as(2,4,7,12) slot_eq[OF as(2), of "length (flushed s) + length (complete s)" ?n] by simp
  show ?thesis
  proof (cases "incomplete s = []")
    case True
    with eq that assms show ?thesis by (simp add: ypipe_unwrite_def apipe_unwrite_def)
  next
    case False
    then have n: "0 < ?n" and inc: "length (incomplete s) > 0" by auto
    obtain q where q: "yqueue_unpush N (queue p) = Some q" "yqueue_repr N q (butlast as)"
      "\<And>a. a \<in> set (butlast as) \<Longrightarrow> yqueue_get q a = yqueue_get (queue p) a"
    proof -
      have "2 \<le> length as" using as(4) n by linarith
      then show thesis using yqueue_unpush_repr[OF as(1)] that by blast
    qed
    have bl2: "length (butlast as) = ?n" using as(4) by simp
    then have bl1: "butlast as \<noteq> []" using n by (metis less_irrefl list.size(3))
    note bl = bl1 bl2
    have bn: "butlast as ! i = as ! i" if "i < ?n" for i using that as(4) by (simp add: nth_butlast)
    have lst: "last (butlast as) = as ! (?n - 1)"
      using bl bn[of "?n - 1"] n by (simp add: last_conv_nth)
    have get: "yqueue_get q (as ! i) = Some (pipe_items s ! i)" if "i < ?n" for i
      using q(3)[of "as ! i"] bn[OF that] bl(2) that as(5)[OF that] nth_mem[of i "butlast as"] by simp
    have "last (pipe_items s) = last (incomplete s)" using False by simp
    then have "pipe_items s ! (?n - 1) = last (incomplete s)"
      using n by (metis last_conv_nth length_greater_0_conv)
    then have v: "yqueue_back q = Some (last (incomplete s))"
      using repr_back[OF q(2) bl(1)] lst get[of "?n - 1"] n by (simp add: yqueue_back_def)
    let ?s = "s\<lparr>incomplete := butlast (incomplete s)\<rparr>"
    have items: "pipe_items ?s = butlast (pipe_items s)" using False by (simp add: butlast_append)
    have "ypipe_unwrite N p = Some (fst (apipe_unwrite s), p\<lparr>queue := q\<rparr>)"
      using False eq q(1) v by (simp add: ypipe_unwrite_def apipe_unwrite_def)
    moreover have "ypipe_repr N (p\<lparr>queue := q\<rparr>) (snd (apipe_unwrite s))"
      unfolding ypipe_repr_def ypipe_view_def
    proof (intro exI[of _ "butlast as"] conjI)
      show "\<forall>i < length (pipe_items (snd (apipe_unwrite s))).
          yqueue_get (queue (p\<lparr>queue := q\<rparr>)) (butlast as ! i) =
          Some (pipe_items (snd (apipe_unwrite s)) ! i)"
        using False items get bn by (auto simp: apipe_unwrite_def nth_butlast simp del: append_assoc)
      have lt: "length (flushed s) + length (complete s) < ?n" "length (flushed s) < ?n"
        using inc by auto
      show "ypipe_w (p\<lparr>queue := q\<rparr>) = butlast as ! length (flushed (snd (apipe_unwrite s)))"
        using False as(6) bn lt by (simp add: apipe_unwrite_def)
      show "ypipe_f (p\<lparr>queue := q\<rparr>) =
          butlast as ! (length (flushed (snd (apipe_unwrite s))) + length (complete (snd (apipe_unwrite s))))"
        using False as(7) bn lt by (simp add: apipe_unwrite_def)
      show "\<forall>a. ypipe_r (p\<lparr>queue := q\<rparr>) = Some a \<longrightarrow>
          (\<exists>k \<le> length (flushed (snd (apipe_unwrite s))). a = butlast as ! k)"
      proof (intro allI impI)
        fix a assume "ypipe_r (p\<lparr>queue := q\<rparr>) = Some a"
        then obtain k where "k \<le> length (flushed s)" "a = as ! k" using as(10) by auto
        moreover from this have "butlast as ! k = as ! k" using lt(2) bn[of k] by linarith
        ultimately show "\<exists>k \<le> length (flushed (snd (apipe_unwrite s))). a = butlast as ! k"
          using False by (intro exI[of _ k]) (simp add: apipe_unwrite_def)
      qed
      show "length (butlast as) = Suc (length (pipe_items (snd (apipe_unwrite s))))"
        using False items bl n by (simp add: apipe_unwrite_def del: append_assoc)
    qed (use False q(2) as(8,9) in \<open>simp_all add: apipe_unwrite_def\<close>)
    ultimately show ?thesis by (rule that)
  qed
qed

lemma ypipe_flush_repr:
  assumes "ypipe_repr N p s"
  obtains p' where "ypipe_flush p = (fst (apipe_flush s), p')" "ypipe_repr N p' (snd (apipe_flush s))"
proof -
  let ?n = "length (pipe_items s)"
  obtain as where vw: "ypipe_view N p s as" using assms by (rule ypipe_reprE)
  note as = ypipe_viewD[OF vw]
  have eq: "ypipe_w p = ypipe_f p \<longleftrightarrow> complete s = []"
    using as(2,4,6,7) slot_eq[OF as(2), of "length (flushed s)" "length (flushed s) + length (complete s)"]
    by simp
  show ?thesis
  proof (cases "complete s = []")
    case True
    with eq that assms show ?thesis by (simp add: ypipe_flush_def apipe_flush_def)
  next
    case False
    let ?p = "p\<lparr>ypipe_c := Some (ypipe_f p), ypipe_w := ypipe_f p\<rparr>"
    have "ypipe_flush p = (fst (apipe_flush s), ?p)"
      using False eq as(8) by (simp add: ypipe_flush_def apipe_flush_def ypipe_cas_def)
    moreover have "ypipe_repr N ?p (snd (apipe_flush s))"
      unfolding ypipe_repr_def ypipe_view_def
    proof (intro exI[of _ as] conjI)
      show "\<forall>a. ypipe_r ?p = Some a \<longrightarrow>
          (\<exists>k \<le> length (flushed (snd (apipe_flush s))). a = as ! k)"
    proof (intro allI impI)
      fix a assume "ypipe_r ?p = Some a"
      then obtain k where "k \<le> length (flushed s)" "a = as ! k" using as(10) by auto
      moreover from this have "k \<le> length (flushed (snd (apipe_flush s)))"
        by (simp add: apipe_flush_def)
      ultimately show "\<exists>k \<le> length (flushed (snd (apipe_flush s))). a = as ! k" by blast
    qed
    qed (use False as in \<open>simp_all add: apipe_flush_def\<close>)
    ultimately show ?thesis by (rule that)
  qed
qed

lemma ypipe_check_read_repr:
  assumes "ypipe_repr N p s"
  obtains p' where "ypipe_check_read p = (fst (apipe_check_read s), p')"
    "ypipe_repr N p' (snd (apipe_check_read s))"
proof -
  let ?n = "length (pipe_items s)"
  obtain as where vw: "ypipe_view N p s as" using assms by (rule ypipe_reprE)
  note as = ypipe_viewD[OF vw]
  have w0: "ypipe_w p = as ! 0 \<longleftrightarrow> flushed s = []"
    using as(2,4,6) slot_eq[OF as(2), of "length (flushed s)" 0] by simp
  have r0: "ypipe_r p = Some a \<Longrightarrow> flushed s = [] \<Longrightarrow> a = as ! 0" for a
    using as(10)[of a] by auto
  let ?f = "yqueue_front_addr (queue p)"
  define p' where "p' = snd (ypipe_check_read p)"
  have q: "queue p' = queue p" "ypipe_w p' = ypipe_w p" "ypipe_f p' = ypipe_f p"
    by (simp_all add: p'_def ypipe_check_read_def ypipe_cas_def Let_def)
  have r: "ypipe_r p' = ypipe_r p \<or> ypipe_r p' = ypipe_c p"
    by (simp add: p'_def ypipe_check_read_def ypipe_cas_def Let_def)
  have ret_c: "fst (ypipe_check_read p) = (flushed s \<noteq> []) \<and>
      ypipe_c p' = (if flushed s = [] then None else ypipe_c p)"
  proof (cases "flushed s = []")
    case True
    then have "ypipe_r p = None \<or> ypipe_r p = Some ?f" using r0 as(11) by (cases "ypipe_r p") auto
    moreover have "ypipe_c p = None \<or> ypipe_c p = Some ?f" using True as(8,11) w0 by simp
    ultimately show ?thesis using True
      by (elim disjE) (simp_all add: p'_def ypipe_check_read_def ypipe_cas_def Let_def)
  next
    case False
    then have "ypipe_c p = Some (ypipe_w p)" "ypipe_w p \<noteq> ?f" using as(8,9,11) w0 by auto
    then show ?thesis using False
      by (simp add: p'_def ypipe_check_read_def ypipe_cas_def Let_def)
  qed
  then have ret: "fst (ypipe_check_read p) = (flushed s \<noteq> [])"
    and c: "ypipe_c p' = (if flushed s = [] then None else ypipe_c p)" by blast+
  have "ypipe_check_read p = (fst (apipe_check_read s), p')"
    using ret by (simp add: p'_def apipe_check_read_def prod_eq_iff)
  moreover have "ypipe_repr N p' (snd (apipe_check_read s))"
    unfolding ypipe_repr_def ypipe_view_def
  proof (intro exI[of _ as] conjI)
    show "\<forall>a. ypipe_r p' = Some a \<longrightarrow>
        (\<exists>k \<le> length (flushed (snd (apipe_check_read s))). a = as ! k)"
      using r as(6,8,10) by (auto simp: apipe_check_read_def split: if_splits)
  qed (use as q c in \<open>auto simp: apipe_check_read_def\<close>)
  ultimately show ?thesis by (rule that)
qed

lemma ypipe_read_repr:
  assumes "ypipe_repr N p s"
  obtains p' where "ypipe_read N p = Some (fst (apipe_read s), p')"
    "ypipe_repr N p' (snd (apipe_read s))"
proof -
  obtain p1 where p1: "ypipe_check_read p = (fst (apipe_check_read s), p1)"
    "ypipe_repr N p1 (snd (apipe_check_read s))"
    using ypipe_check_read_repr[OF assms] by blast
  show ?thesis
  proof (cases "flushed s")
    case Nil
    with p1 that show ?thesis by (simp add: ypipe_read_def apipe_check_read_def apipe_read_def)
  next
    case (Cons v vs)
    let ?n = "length (pipe_items s)"
    have r1: "ypipe_repr N p1 s" using p1(2) Cons by (simp add: apipe_check_read_def)
  obtain as where vw: "ypipe_view N p1 s as" using r1 by (rule ypipe_reprE)
  note as = ypipe_viewD[OF vw]
    obtain q where q: "yqueue_pop N (queue p1) = Some q" "yqueue_repr N q (tl as)"
      "\<And>a. a \<in> set (tl as) \<Longrightarrow> yqueue_get q a = yqueue_get (queue p1) a"
      using yqueue_pop_repr[OF as(1,3)] by blast
    have front: "yqueue_front (queue p1) = Some v"
      using as(5)[of 0] as(11) Cons by (simp add: yqueue_front_def)
    have r_ne: "ypipe_r p1 = Some a \<Longrightarrow> a \<noteq> as ! 0" for a
      using p1(1) Cons as(11)
      by (auto simp: apipe_check_read_def ypipe_check_read_def ypipe_cas_def Let_def split: if_splits)
    have tlr: "\<exists>k \<le> length vs. a = tl as ! k" if r: "ypipe_r p1 = Some a" for a
    proof -
      obtain k where k: "k \<le> length (flushed s)" "a = as ! k" using as(10)[OF r] by blast
      then have "0 < k" using r_ne[OF r] by (cases k) auto
      then show ?thesis using k Cons as(3,4) by (intro exI[of _ "k - 1"]) (auto simp: nth_tl)
    qed
    have "ypipe_read N p = Some (fst (apipe_read s), p1\<lparr>queue := q\<rparr>)"
      using p1(1) Cons front q(1) by (simp add: ypipe_read_def apipe_check_read_def apipe_read_def)
    moreover have "ypipe_repr N (p1\<lparr>queue := q\<rparr>) (snd (apipe_read s))"
      unfolding ypipe_repr_def ypipe_view_def
    proof (intro exI[of _ "tl as"] conjI)
      show "\<forall>i < length (pipe_items (snd (apipe_read s))).
          yqueue_get (queue (p1\<lparr>queue := q\<rparr>)) (tl as ! i) = Some (pipe_items (snd (apipe_read s)) ! i)"
      proof (intro allI impI)
        fix i assume "i < length (pipe_items (snd (apipe_read s)))"
        then have i: "Suc i < ?n" using Cons by (simp add: apipe_read_def)
        then have "yqueue_get q (tl as ! i) = yqueue_get (queue p1) (tl as ! i)"
          using q(3)[OF nth_mem, of i] as(4) by simp
        then show "yqueue_get (queue (p1\<lparr>queue := q\<rparr>)) (tl as ! i) =
            Some (pipe_items (snd (apipe_read s)) ! i)"
          using as(3,4) as(5)[OF i] i Cons by (simp add: apipe_read_def nth_tl)
      qed
    qed (use q(2) as Cons tlr in \<open>auto simp: apipe_read_def nth_tl\<close>)
    ultimately show ?thesis by (rule that)
  qed
qed

lemma ypipe_probe_repr:
  assumes "ypipe_repr N p s" and "flushed s = v # vs"
  obtains p' where "ypipe_probe p fn = Some (fn v, p')" "ypipe_repr N p' s"
proof -
  obtain p1 where p1: "ypipe_check_read p = (True, p1)" "ypipe_repr N p1 s"
    using ypipe_check_read_repr[OF assms(1)] assms(2) by (auto simp: apipe_check_read_def)
  obtain as where w: "ypipe_view N p1 s as" using p1(2) by (rule ypipe_reprE)
  note as = ypipe_viewD[OF w]
  have "yqueue_front (queue p1) = Some v"
    using as(5)[of 0] as(11) assms(2) by (simp add: yqueue_front_def)
  with p1 that show ?thesis by (simp add: ypipe_probe_def)
qed

subsection \<open>Any interleaving of writer and reader\<close>

datatype 'a pipe_op = Op_write 'a bool | Op_unwrite | Op_flush | Op_check_read | Op_read

datatype 'a pipe_ret = Ret_unit | Ret_bool bool | Ret_item "'a option"

fun ypipe_step :: "nat \<Rightarrow> 'a ypipe \<Rightarrow> 'a pipe_op \<Rightarrow> ('a pipe_ret \<times> 'a ypipe) option" where
  "ypipe_step N p (Op_write v inc) = map_option (Pair Ret_unit) (ypipe_write N p v inc)"
| "ypipe_step N p Op_unwrite = map_option (map_prod Ret_item id) (ypipe_unwrite N p)"
| "ypipe_step N p Op_flush = Some (map_prod Ret_bool id (ypipe_flush p))"
| "ypipe_step N p Op_check_read = Some (map_prod Ret_bool id (ypipe_check_read p))"
| "ypipe_step N p Op_read = map_option (map_prod Ret_item id) (ypipe_read N p)"

fun apipe_step :: "'a apipe \<Rightarrow> 'a pipe_op \<Rightarrow> 'a pipe_ret \<times> 'a apipe" where
  "apipe_step s (Op_write v inc) = (Ret_unit, apipe_write s v inc)"
| "apipe_step s Op_unwrite = map_prod Ret_item id (apipe_unwrite s)"
| "apipe_step s Op_flush = map_prod Ret_bool id (apipe_flush s)"
| "apipe_step s Op_check_read = map_prod Ret_bool id (apipe_check_read s)"
| "apipe_step s Op_read = map_prod Ret_item id (apipe_read s)"

fun ypipe_run :: "nat \<Rightarrow> 'a ypipe \<Rightarrow> 'a pipe_op list \<Rightarrow> ('a pipe_ret list \<times> 'a ypipe) option" where
  "ypipe_run N p [] = Some ([], p)"
| "ypipe_run N p (x # xs) =
     do {
       (r, p) \<leftarrow> ypipe_step N p x;
       (rs, p) \<leftarrow> ypipe_run N p xs;
       Some (r # rs, p)
     }"

fun apipe_run :: "'a apipe \<Rightarrow> 'a pipe_op list \<Rightarrow> 'a pipe_ret list \<times> 'a apipe" where
  "apipe_run s [] = ([], s)"
| "apipe_run s (x # xs) =
     (let (r, s) = apipe_step s x; (rs, s) = apipe_run s xs in (r # rs, s))"

lemma ypipe_step_repr:
  assumes "ypipe_repr N p s"
  obtains p' where "ypipe_step N p x = Some (fst (apipe_step s x), p')"
    "ypipe_repr N p' (snd (apipe_step s x))"
proof (cases x)
  case (Op_write v inc)
  obtain p' where "ypipe_write N p v inc = Some p'" "ypipe_repr N p' (apipe_write s v inc)"
    using ypipe_write_repr[OF assms, of v inc] by blast
  then show ?thesis using that Op_write by simp
next
  case Op_unwrite
  obtain p' where "ypipe_unwrite N p = Some (fst (apipe_unwrite s), p')" "ypipe_repr N p' (snd (apipe_unwrite s))"
    using ypipe_unwrite_repr[OF assms] by blast
  then show ?thesis using that Op_unwrite by simp
next
  case Op_flush
  obtain p' where "ypipe_flush p = (fst (apipe_flush s), p')" "ypipe_repr N p' (snd (apipe_flush s))"
    using ypipe_flush_repr[OF assms] by blast
  then show ?thesis using that Op_flush by simp
next
  case Op_check_read
  obtain p' where "ypipe_check_read p = (fst (apipe_check_read s), p')" "ypipe_repr N p' (snd (apipe_check_read s))"
    using ypipe_check_read_repr[OF assms] by blast
  then show ?thesis using that Op_check_read by simp
next
  case Op_read
  obtain p' where "ypipe_read N p = Some (fst (apipe_read s), p')" "ypipe_repr N p' (snd (apipe_read s))"
    using ypipe_read_repr[OF assms] by blast
  then show ?thesis using that Op_read by simp
qed

lemma ypipe_run_repr:
  "ypipe_repr N p s \<Longrightarrow>
   \<exists>p'. ypipe_run N p xs = Some (fst (apipe_run s xs), p') \<and> ypipe_repr N p' (snd (apipe_run s xs))"
proof (induction xs arbitrary: p s)
  case Nil
  then show ?case by simp
next
  case (Cons x xs)
  obtain p1 where "ypipe_step N p x = Some (fst (apipe_step s x), p1)"
    "ypipe_repr N p1 (snd (apipe_step s x))"
    using ypipe_step_repr[OF Cons.prems] by blast
  with Cons.IH[of p1 "snd (apipe_step s x)"] show ?case
    by (auto simp: case_prod_beta Let_def)
qed

subsection \<open>What the abstract pipe promises\<close>

fun written :: "'a pipe_op list \<Rightarrow> 'a list" where
  "written [] = []"
| "written (Op_write v inc # xs) = v # written xs"
| "written (_ # xs) = written xs"

fun items_read :: "'a pipe_op list \<Rightarrow> 'a pipe_ret list \<Rightarrow> 'a list" where
  "items_read (Op_read # xs) (Ret_item (Some v) # rs) = v # items_read xs rs"
| "items_read (_ # xs) (_ # rs) = items_read xs rs"
| "items_read _ _ = []"

fun item_of :: "'a pipe_op \<Rightarrow> 'a pipe_ret \<Rightarrow> 'a list" where
  "item_of Op_read (Ret_item (Some v)) = [v]"
| "item_of _ _ = []"

lemma items_read_Cons: "items_read (x # xs) (r # rs) = item_of x r @ items_read xs rs"
  by (cases "(x, r)" rule: item_of.cases) auto

lemma apipe_step_fifo:
  "x \<noteq> Op_unwrite \<Longrightarrow>
   item_of x (fst (apipe_step s x)) @ pipe_items (snd (apipe_step s x)) = pipe_items s @ written [x]"
  by (cases x) (auto simp: apipe_write_def apipe_flush_def apipe_check_read_def apipe_read_def
      split: list.splits)

lemma written_Cons: "written (x # xs) = written [x] @ written xs"
  by (cases x) auto

lemma apipe_run_fifo:
  "Op_unwrite \<notin> set xs \<Longrightarrow>
   items_read xs (fst (apipe_run s xs)) @ pipe_items (snd (apipe_run s xs)) =
   pipe_items s @ written xs"
proof (induction xs arbitrary: s)
  case Nil
  then show ?case by simp
next
  case (Cons x xs)
  let ?s = "snd (apipe_step s x)"
  have run: "fst (apipe_run s (x # xs)) = fst (apipe_step s x) # fst (apipe_run ?s xs)"
    "snd (apipe_run s (x # xs)) = snd (apipe_run ?s xs)"
    by (simp_all add: case_prod_beta Let_def)
  have "items_read xs (fst (apipe_run ?s xs)) @ pipe_items (snd (apipe_run ?s xs)) =
      pipe_items ?s @ written xs"
    using Cons.IH Cons.prems by simp
  moreover have "item_of x (fst (apipe_step s x)) @ pipe_items ?s = pipe_items s @ written [x]"
    using Cons.prems by (intro apipe_step_fifo) auto
  ultimately show ?case
    unfolding run items_read_Cons written_Cons[of x xs] by (metis append_assoc)
qed

text \<open>A reader that saw an empty pipe is woken: the next flush of a complete item reports that the
  reader sleeps, and only that one.\<close>

lemma apipe_wakeup:
  "asleep s \<Longrightarrow> complete s \<noteq> [] \<Longrightarrow>
   \<not> fst (apipe_flush s) \<and> \<not> asleep (snd (apipe_flush s)) \<and> flushed (snd (apipe_flush s)) \<noteq> []"
  by (simp add: apipe_flush_def)

lemma apipe_step_asleep:
  "(asleep s \<longrightarrow> flushed s = []) \<Longrightarrow>
   asleep (snd (apipe_step s x)) \<longrightarrow> flushed (snd (apipe_step s x)) = []"
  by (cases x) (auto simp: apipe_write_def apipe_unwrite_def apipe_flush_def apipe_check_read_def
      apipe_read_def split: list.splits)

subsection \<open>Properties\<close>

text \<open>C24. The lock-free pipe refines the abstract one: from a fresh pipe, any interleaving of the writer's
  and the reader's operations succeeds and returns exactly what the abstract pipe returns, whatever
  the chunk size.\<close>

theorem ypipe_refines_apipe:
  assumes "0 < N"
  shows "\<exists>p p'. ypipe_new N = Some p \<and> ypipe_run N p xs = Some (fst (apipe_run apipe_new xs), p')"
proof -
  obtain p :: "'a ypipe" where p: "ypipe_new N = Some p" "ypipe_repr N p apipe_new"
    using ypipe_new_repr[OF assms] by blast
  then show ?thesis using ypipe_run_repr[OF p(2), of xs] by blast
qed

theorem ypipe_refines_apipe_witness:
  "\<exists>p p'. ypipe_new 2 = Some p \<and>
     ypipe_run 2 p [Op_write (1::nat) False, Op_read, Op_flush, Op_read, Op_read] =
       Some ([Ret_unit, Ret_item None, Ret_bool False, Ret_item (Some 1), Ret_item None], p')"
  using ypipe_refines_apipe[of 2 "[Op_write (1::nat) False, Op_read, Op_flush, Op_read, Op_read]"]
  by (simp add: apipe_new_def apipe_write_def apipe_read_def apipe_flush_def)

text \<open>C25. First in, first out: in any interleaving without rollback, the items the reader gets are a prefix of
  the items the writer wrote, in order and without loss or duplication.\<close>

theorem ypipe_fifo:
  assumes "0 < N" "Op_unwrite \<notin> set xs"
  shows "\<exists>p rs p' rest. ypipe_new N = Some p \<and> ypipe_run N p xs = Some (rs, p') \<and>
    items_read xs rs @ rest = written xs"
proof -
  obtain p :: "'a ypipe" where p: "ypipe_new N = Some p" "ypipe_repr N p apipe_new"
    using ypipe_new_repr[OF assms(1)] by blast
  then show ?thesis
    using ypipe_run_repr[OF p(2), of xs] apipe_run_fifo[OF assms(2), of apipe_new]
    by (auto simp: apipe_new_def)
qed

theorem ypipe_fifo_witness:
  "\<exists>p rs p' rest. ypipe_new 1 = Some p \<and>
     ypipe_run 1 p [Op_write (5::nat) True, Op_write 6 False, Op_flush, Op_read] = Some (rs, p') \<and>
     items_read [Op_write 5 True, Op_write 6 False, Op_flush, Op_read] rs @ rest = [5, 6]"
  using ypipe_fifo[of 1 "[Op_write (5::nat) True, Op_write 6 False, Op_flush, Op_read]"] by simp

text \<open>C26. No lost wakeup: after any interleaving, if the reader finds the pipe empty and the writer then
  writes a complete item and flushes, the flush reports the sleeping reader, and the reader that is
  woken finds an item.\<close>

theorem ypipe_no_lost_wakeup:
  assumes "0 < N" "ypipe_new N = Some p" "ypipe_run N p xs = Some (rs, p1)"
    "ypipe_check_read p1 = (False, p2)"
  shows "\<exists>p3. ypipe_write N p2 v False = Some p3 \<and> \<not> fst (ypipe_flush p3) \<and>
    fst (ypipe_check_read (snd (ypipe_flush p3)))"
proof -
  have "ypipe_repr N p apipe_new" using ypipe_new_repr[OF assms(1)] assms(2) by (metis option.inject)
  then have r1: "ypipe_repr N p1 (snd (apipe_run apipe_new xs))"
    using ypipe_run_repr[of N p apipe_new xs] assms(3) by auto
  let ?s = "snd (apipe_run apipe_new xs)"
  obtain r2: "\<not> fst (apipe_check_read ?s)" "ypipe_repr N p2 (snd (apipe_check_read ?s))"
    using ypipe_check_read_repr[OF r1] assms(4) by auto
  let ?s2 = "snd (apipe_check_read ?s)"
  have s2: "asleep ?s2" "flushed ?s2 = []" using r2(1) by (auto simp: apipe_check_read_def split: if_splits)
  obtain p3 where p3: "ypipe_write N p2 v False = Some p3" "ypipe_repr N p3 (apipe_write ?s2 v False)"
    using ypipe_write_repr[OF r2(2)] by blast
  let ?s3 = "apipe_write ?s2 v False"
  have s3: "asleep ?s3" "complete ?s3 \<noteq> []" using s2 by (auto simp: apipe_write_def)
  obtain p4 where p4: "ypipe_flush p3 = (fst (apipe_flush ?s3), p4)" "ypipe_repr N p4 (snd (apipe_flush ?s3))"
    using ypipe_flush_repr[OF p3(2)] by blast
  have w: "\<not> fst (apipe_flush ?s3)" "flushed (snd (apipe_flush ?s3)) \<noteq> []" using apipe_wakeup[OF s3] by auto
  have "fst (ypipe_check_read p4)"
    using ypipe_check_read_repr[OF p4(2)] w(2) by (metis apipe_check_read_def fst_conv)
  then show ?thesis using p3(1) p4(1) w(1) by auto
qed

theorem ypipe_no_lost_wakeup_witness:
  "\<exists>p p2 p3. ypipe_new 1 = Some p \<and> ypipe_check_read p = (False, p2) \<and>
     ypipe_write 1 p2 (3::nat) False = Some p3 \<and> \<not> fst (ypipe_flush p3)"
proof -
  obtain p :: "nat ypipe" where p: "ypipe_new 1 = Some p" "ypipe_repr 1 p apipe_new"
    using ypipe_new_repr[of 1] by auto
  obtain p2 where p2: "ypipe_check_read p = (False, p2)"
    using ypipe_check_read_repr[OF p(2)] by (auto simp: apipe_check_read_def apipe_new_def)
  show ?thesis
    using ypipe_no_lost_wakeup[of 1 p "[]" "[]" p p2 3] p(1) p2 by auto
qed

end
