(* ===== verification/Zmq_Msg.thy ===== *)
theory Zmq_Msg
  imports Bus_Prelude "HOL-Library.Multiset"
begin

unbundle bit_operations_syntax

text \<open>
  Messages: \<open>msg_t\<close> of \<open>src/libzmq/src/msg.hpp\<close> and \<open>msg.cpp\<close>.  The union of the source is one
  record with the fields of all its variants; \<open>msg_type\<close> says which are in use, and the
  value 0 the source writes to invalidate a message is \<open>Type_invalid\<close>.  Contents that are shared
  by reference (\<open>content_t\<close>) live in a store, with their 32-bit reference counter; the store also
  keeps the reference counters of metadata objects.  Freeing a content is removing it from the
  store, and any use of a content that is not there is \<open>None\<close>.  \<open>calls_ffn\<close> lists the data
  handed to user-supplied free functions, latest first.
\<close>

datatype errno = EFAULT | EINVAL | ENOMEM | EAGAIN | ENOTSUP | EADDRINUSE | ENOENT | EPROTO | EMSGSIZE
  | ENOTCONN | ECONNREFUSED | EFSM

text \<open>The C return code: 0, or -1 with \<open>errno\<close> set.\<close>

datatype rc = Rc_ok | Rc_err errno

datatype msg_type =
    Type_invalid | Type_vsm | Type_lmsg | Type_delimiter | Type_cmsg | Type_zclmsg
  | Type_join | Type_leave

record content_t =
  content_data :: bytes
  content_ffn :: bool
  content_refcnt :: "32 word"

record msg_t =
  msg_type :: msg_type
  msg_flags :: byte
  msg_metadata :: "nat option"
  vsm_data :: bytes
  msg_content :: "nat option"
  cmsg_data :: bytes
  msg_group :: bytes
  msg_routing_id :: "32 word"

record msg_store =
  contents :: "nat \<Rightarrow> content_t option"
  next_content :: nat
  metadata_refs :: "nat \<Rightarrow> 32 word option"
  calls_ffn :: "bytes list"

definition flag_more :: byte where "flag_more = 1"
definition flag_command :: byte where "flag_command = 2"
definition flag_credential :: byte where "flag_credential = 32"
definition flag_routing_id :: byte where "flag_routing_id = 64"
definition flag_shared :: byte where "flag_shared = 128"

lemmas msg_flag_defs = flag_more_def flag_command_def flag_credential_def flag_routing_id_def
  flag_shared_def

text \<open>\<open>msg_t_size - (sizeof (metadata_t *) + 3 + 16 + sizeof (uint32_t))\<close> on a 64-bit target, and
  the size of \<open>content_t\<close> there.\<close>

definition max_vsm_size :: nat where "max_vsm_size = 64 - (8 + 3 + 16 + 4)"
definition sizeof_content :: nat where "sizeof_content = 40"
definition group_max_length :: nat where "group_max_length = 15"

definition store_new :: msg_store where
  "store_new = \<lparr>contents = (\<lambda>_. None), next_content = 0, metadata_refs = (\<lambda>_. None), calls_ffn = []\<rparr>"

definition has_flag :: "msg_t \<Rightarrow> byte \<Rightarrow> bool" where
  "has_flag m fl = (msg_flags m AND fl \<noteq> 0)"

definition msg_check :: "msg_t \<Rightarrow> bool" where
  "msg_check m = (msg_type m \<noteq> Type_invalid)"

subsection \<open>Initialisation\<close>

text \<open>An initialiser writes the fields its variant has and leaves the others as they were.\<close>

definition msg_init_base :: "msg_type \<Rightarrow> msg_t \<Rightarrow> msg_t" where
  "msg_init_base ty m =
     m\<lparr>msg_metadata := None, msg_type := ty, msg_flags := 0, msg_group := [], msg_routing_id := 0\<rparr>"

definition msg_init :: "msg_t \<Rightarrow> msg_t" where
  "msg_init m = (msg_init_base Type_vsm m)\<lparr>vsm_data := []\<rparr>"

definition msg_init_delimiter :: "msg_t \<Rightarrow> msg_t" where
  "msg_init_delimiter m = msg_init_base Type_delimiter m"

definition msg_init_join :: "msg_t \<Rightarrow> msg_t" where
  "msg_init_join m = msg_init_base Type_join m"

definition msg_init_leave :: "msg_t \<Rightarrow> msg_t" where
  "msg_init_leave m = msg_init_base Type_leave m"

definition new_content :: "content_t \<Rightarrow> 'z msg_store_scheme \<Rightarrow> nat \<times> 'z msg_store_scheme" where
  "new_content ct st =
     (let c = next_content st
      in (c, st\<lparr>contents := (contents st)(c \<mapsto> ct), next_content := Suc c\<rparr>))"

text \<open>\<open>init_size\<close> leaves the body unwritten; the model fills it with zero bytes.  \<open>malloc\<close>
  succeeds when the size computation did not wrap.\<close>

definition msg_init_size ::
  "nat \<Rightarrow> msg_t \<Rightarrow> 'z msg_store_scheme \<Rightarrow> rc \<times> msg_t \<times> 'z msg_store_scheme" where
  "msg_init_size n m st =
     (if n \<le> max_vsm_size
      then (Rc_ok, (msg_init_base Type_vsm m)\<lparr>vsm_data := replicate n 0\<rparr>, st)
      else
        let m = (msg_init_base Type_lmsg m)\<lparr>msg_content := None\<rparr>
        in if (sizeof_content + n) mod 2 ^ 64 > n
           then let (c, st) = new_content \<lparr>content_data = replicate n 0, content_ffn = False,
                                            content_refcnt = 0\<rparr> st
                in (Rc_ok, m\<lparr>msg_content := Some c\<rparr>, st)
           else (Rc_err ENOMEM, m, st))"

text \<open>\<open>init_data\<close> with a null free function makes a message that points to constant data.\<close>

definition msg_init_data ::
  "bytes \<Rightarrow> bool \<Rightarrow> msg_t \<Rightarrow> 'z msg_store_scheme \<Rightarrow> rc \<times> msg_t \<times> 'z msg_store_scheme" where
  "msg_init_data d ffn m st =
     (if \<not> ffn then (Rc_ok, (msg_init_base Type_cmsg m)\<lparr>cmsg_data := d\<rparr>, st)
      else let m = msg_init_base Type_lmsg m;
               (c, st) = new_content \<lparr>content_data = d, content_ffn = ffn, content_refcnt = 0\<rparr> st
           in (Rc_ok, m\<lparr>msg_content := Some c\<rparr>, st))"

definition msg_init_external_storage ::
  "bytes \<Rightarrow> bool \<Rightarrow> msg_t \<Rightarrow> 'z msg_store_scheme \<Rightarrow> rc \<times> msg_t \<times> 'z msg_store_scheme" where
  "msg_init_external_storage d ffn m st =
     (let m = msg_init_base Type_zclmsg m;
          (c, st) = new_content \<lparr>content_data = d, content_ffn = ffn, content_refcnt = 0\<rparr> st
      in (Rc_ok, m\<lparr>msg_content := Some c\<rparr>, st))"

subsection \<open>Accessors\<close>

definition is_lmsg :: "msg_t \<Rightarrow> bool" where "is_lmsg m = (msg_type m = Type_lmsg)"
definition is_zcmsg :: "msg_t \<Rightarrow> bool" where "is_zcmsg m = (msg_type m = Type_zclmsg)"
definition is_vsm :: "msg_t \<Rightarrow> bool" where "is_vsm m = (msg_type m = Type_vsm)"
definition is_cmsg :: "msg_t \<Rightarrow> bool" where "is_cmsg m = (msg_type m = Type_cmsg)"
definition is_delimiter :: "msg_t \<Rightarrow> bool" where "is_delimiter m = (msg_type m = Type_delimiter)"
definition is_join :: "msg_t \<Rightarrow> bool" where "is_join m = (msg_type m = Type_join)"
definition is_leave :: "msg_t \<Rightarrow> bool" where "is_leave m = (msg_type m = Type_leave)"

definition is_routing_id :: "msg_t \<Rightarrow> bool" where
  "is_routing_id m = (msg_flags m AND flag_routing_id = flag_routing_id)"

definition is_credential :: "msg_t \<Rightarrow> bool" where
  "is_credential m = (msg_flags m AND flag_credential = flag_credential)"

text \<open>\<open>data ()\<close> and \<open>size ()\<close> together; both assert that the message has a body.\<close>

definition msg_body :: "msg_t \<Rightarrow> 'z msg_store_scheme \<Rightarrow> bytes option" where
  "msg_body m st =
     (case msg_type m of
        Type_vsm \<Rightarrow> Some (vsm_data m)
      | Type_lmsg \<Rightarrow> map_option content_data (Option.bind (msg_content m) (contents st))
      | Type_cmsg \<Rightarrow> Some (cmsg_data m)
      | Type_zclmsg \<Rightarrow> map_option content_data (Option.bind (msg_content m) (contents st))
      | _ \<Rightarrow> None)"

definition msg_size :: "msg_t \<Rightarrow> 'z msg_store_scheme \<Rightarrow> nat option" where
  "msg_size m st = map_option length (msg_body m st)"

text \<open>\<open>memcpy (data (), d, n)\<close> over the whole body.\<close>

definition msg_set_body :: "bytes \<Rightarrow> msg_t \<Rightarrow> 'z msg_store_scheme \<Rightarrow> (msg_t \<times> 'z msg_store_scheme) option" where
  "msg_set_body d m st =
     (case msg_type m of
        Type_vsm \<Rightarrow> if length d \<le> length (vsm_data m)
                    then Some (m\<lparr>vsm_data := d @ drop (length d) (vsm_data m)\<rparr>, st) else None
      | Type_lmsg \<Rightarrow>
          (case msg_content m of None \<Rightarrow> None
           | Some c \<Rightarrow> (case contents st c of None \<Rightarrow> None
             | Some ct \<Rightarrow>
                 if length d \<le> length (content_data ct)
                 then Some (m, st\<lparr>contents := (contents st)(c \<mapsto>
                        ct\<lparr>content_data := d @ drop (length d) (content_data ct)\<rparr>)\<rparr>)
                 else None))
      | _ \<Rightarrow> None)"

definition msg_set_flags :: "byte \<Rightarrow> msg_t \<Rightarrow> msg_t" where
  "msg_set_flags fl m = m\<lparr>msg_flags := msg_flags m OR fl\<rparr>"

definition msg_reset_flags :: "byte \<Rightarrow> msg_t \<Rightarrow> msg_t" where
  "msg_reset_flags fl m = m\<lparr>msg_flags := msg_flags m AND NOT fl\<rparr>"

definition msg_set_routing_id :: "32 word \<Rightarrow> msg_t \<Rightarrow> rc \<times> msg_t" where
  "msg_set_routing_id r m =
     (if r \<noteq> 0 then (Rc_ok, m\<lparr>msg_routing_id := r\<rparr>) else (Rc_err EINVAL, m))"

definition msg_reset_routing_id :: "msg_t \<Rightarrow> rc \<times> msg_t" where
  "msg_reset_routing_id m = (Rc_ok, m\<lparr>msg_routing_id := 0\<rparr>)"

text \<open>\<open>strncpy\<close> of at most \<open>n\<close> bytes of a C string, then a terminating zero.\<close>

definition msg_set_group :: "bytes \<Rightarrow> nat \<Rightarrow> msg_t \<Rightarrow> rc \<times> msg_t" where
  "msg_set_group g n m =
     (if n > group_max_length then (Rc_err EINVAL, m)
      else (Rc_ok, m\<lparr>msg_group := takeWhile (\<lambda>b. b \<noteq> 0) (take n g)\<rparr>))"

subsection \<open>Reference counting\<close>

text \<open>\<open>refcnt.sub (n)\<close>: the new count, false if it dropped to zero.\<close>

definition refcnt_sub :: "nat \<Rightarrow> 32 word \<Rightarrow> 'z msg_store_scheme \<Rightarrow> (bool \<times> 'z msg_store_scheme) option" where
  "refcnt_sub c n st =
     (case contents st c of None \<Rightarrow> None
      | Some ct \<Rightarrow>
          let v = content_refcnt ct - n
          in Some (v \<noteq> 0, st\<lparr>contents := (contents st)(c \<mapsto> ct\<lparr>content_refcnt := v\<rparr>)\<rparr>))"

definition refcnt_update ::
  "nat \<Rightarrow> (32 word \<Rightarrow> 32 word) \<Rightarrow> 'z msg_store_scheme \<Rightarrow> 'z msg_store_scheme option" where
  "refcnt_update c f st =
     (case contents st c of None \<Rightarrow> None
      | Some ct \<Rightarrow> Some (st\<lparr>contents := (contents st)(c \<mapsto>
             ct\<lparr>content_refcnt := f (content_refcnt ct)\<rparr>)\<rparr>))"

text \<open>The content is destroyed: its free function, if any, is called and the block is released.\<close>

definition content_free :: "nat \<Rightarrow> 'z msg_store_scheme \<Rightarrow> 'z msg_store_scheme option" where
  "content_free c st =
     (case contents st c of None \<Rightarrow> None
      | Some ct \<Rightarrow>
          Some (st\<lparr>contents := (contents st)(c := None),
                   calls_ffn := (if content_ffn ct then content_data ct # calls_ffn st else calls_ffn st)\<rparr>))"

definition metadata_add_ref :: "nat \<Rightarrow> 'z msg_store_scheme \<Rightarrow> 'z msg_store_scheme option" where
  "metadata_add_ref k st =
     (case metadata_refs st k of None \<Rightarrow> None
      | Some n \<Rightarrow> Some (st\<lparr>metadata_refs := (metadata_refs st)(k \<mapsto> n + 1)\<rparr>))"

definition metadata_drop_ref :: "nat \<Rightarrow> 'z msg_store_scheme \<Rightarrow> 'z msg_store_scheme option" where
  "metadata_drop_ref k st =
     (case metadata_refs st k of None \<Rightarrow> None
      | Some n \<Rightarrow> Some (st\<lparr>metadata_refs :=
             (if n - 1 = 0 then (metadata_refs st)(k := None) else (metadata_refs st)(k \<mapsto> n - 1))\<rparr>))"

definition msg_reset_metadata :: "msg_t \<Rightarrow> 'z msg_store_scheme \<Rightarrow> (msg_t \<times> 'z msg_store_scheme) option" where
  "msg_reset_metadata m st =
     (case msg_metadata m of None \<Rightarrow> Some (m, st)
      | Some k \<Rightarrow> do { st \<leftarrow> metadata_drop_ref k st; Some (m\<lparr>msg_metadata := None\<rparr>, st) })"

definition msg_set_metadata :: "nat \<Rightarrow> msg_t \<Rightarrow> 'z msg_store_scheme \<Rightarrow> (msg_t \<times> 'z msg_store_scheme) option" where
  "msg_set_metadata k m st =
     do {
       zmq_assert (msg_metadata m = None);
       st \<leftarrow> metadata_add_ref k st;
       Some (m\<lparr>msg_metadata := Some k\<rparr>, st)
     }"

text \<open>The part of \<open>close\<close> that gives up the content, for each of the two shared kinds.\<close>

definition msg_release :: "msg_t \<Rightarrow> 'z msg_store_scheme \<Rightarrow> 'z msg_store_scheme option" where
  "msg_release m st =
     do {
       c \<leftarrow> msg_content m;
       (if \<not> has_flag m flag_shared then content_free c st
        else do {
          (alive, st) \<leftarrow> refcnt_sub c 1 st;
          (if \<not> alive then content_free c st else Some st)
        })
     }"

definition msg_close :: "msg_t \<Rightarrow> 'z msg_store_scheme \<Rightarrow> (rc \<times> msg_t \<times> 'z msg_store_scheme) option" where
  "msg_close m st =
     (if \<not> msg_check m then Some (Rc_err EFAULT, m, st)
      else do {
        st \<leftarrow> (if is_lmsg m then msg_release m st else Some st);
        st \<leftarrow> (if is_zcmsg m
               then do {
                 c \<leftarrow> msg_content m;
                 ct \<leftarrow> contents st c;
                 zmq_assert (content_ffn ct);
                 msg_release m st
               }
               else Some st);
        (m, st) \<leftarrow> msg_reset_metadata m st;
        Some (Rc_ok, m\<lparr>msg_type := Type_invalid\<rparr>, st)
      })"

text \<open>\<open>move\<close> and \<open>copy\<close> take the target first; both messages are returned.\<close>

text \<open>Closing a temporary message on the way out; a failed close aborts.\<close>

definition close_and_return :: "msg_t \<Rightarrow> rc \<Rightarrow> 'z msg_store_scheme \<Rightarrow> (rc \<times> 'z msg_store_scheme) option" where
  "close_and_return m echo st = do { (r, _, st) \<leftarrow> msg_close m st; zmq_assert (r = Rc_ok); Some (echo, st) }"

text \<open>A message of a given body: the sockets size a fresh message, assert that this worked, and copy the
  bytes into it.\<close>

definition msg_of :: "bytes \<Rightarrow> msg_t \<Rightarrow> 'z msg_store_scheme \<Rightarrow> (msg_t \<times> 'z msg_store_scheme) option" where
  "msg_of d m st =
     (case msg_init_size (length d) m st of
        (r, m, st) \<Rightarrow> do { zmq_assert (r = Rc_ok); msg_set_body d m st })"

definition msg_move :: "msg_t \<Rightarrow> msg_t \<Rightarrow> 'z msg_store_scheme \<Rightarrow> (rc \<times> msg_t \<times> msg_t \<times> 'z msg_store_scheme) option" where
  "msg_move m src st =
     (if \<not> msg_check src then Some (Rc_err EFAULT, m, src, st)
      else do {
        (r, m, st) \<leftarrow> msg_close m st;
        (if r \<noteq> Rc_ok then Some (r, m, src, st)
         else Some (Rc_ok, src, msg_init src, st))
      })"

definition msg_copy :: "msg_t \<Rightarrow> msg_t \<Rightarrow> 'z msg_store_scheme \<Rightarrow> (rc \<times> msg_t \<times> msg_t \<times> 'z msg_store_scheme) option" where
  "msg_copy m src st =
     (if \<not> msg_check src then Some (Rc_err EFAULT, m, src, st)
      else do {
        (r, m, st) \<leftarrow> msg_close m st;
        (if r \<noteq> Rc_ok then Some (r, m, src, st)
         else do {
           (src, st) \<leftarrow> (if is_lmsg src \<or> is_zcmsg src
             then do {
               c \<leftarrow> msg_content src;
               (if has_flag src flag_shared
                then do { st \<leftarrow> refcnt_update c (\<lambda>n. n + 1) st; Some (src, st) }
                else do { st \<leftarrow> refcnt_update c (\<lambda>_. 2) st; Some (msg_set_flags flag_shared src, st) })
             }
             else Some (src, st));
           st \<leftarrow> (case msg_metadata src of None \<Rightarrow> Some st | Some k \<Rightarrow> metadata_add_ref k st);
           Some (Rc_ok, src, src, st)
         })
      })"

text \<open>The counts are C \<open>int\<close>s; \<open>refs_ + 1\<close> must not overflow one.\<close>

definition msg_add_refs :: "int \<Rightarrow> msg_t \<Rightarrow> 'z msg_store_scheme \<Rightarrow> (msg_t \<times> 'z msg_store_scheme) option" where
  "msg_add_refs n m st =
     do {
       zmq_assert (0 \<le> n);
       zmq_assert (msg_metadata m = None);
       (if n = 0 then Some (m, st)
        else if is_lmsg m \<or> is_zcmsg m
        then do {
          c \<leftarrow> msg_content m;
          (if has_flag m flag_shared
           then do { st \<leftarrow> refcnt_update c (\<lambda>k. k + of_int n) st; Some (m, st) }
           else do {
             zmq_assert (n + 1 < 2 ^ 31);
             st \<leftarrow> refcnt_update c (\<lambda>_. of_int (n + 1)) st;
             Some (msg_set_flags flag_shared m, st)
           })
        }
        else Some (m, st))
     }"

definition msg_rm_refs :: "int \<Rightarrow> msg_t \<Rightarrow> 'z msg_store_scheme \<Rightarrow> (bool \<times> msg_t \<times> 'z msg_store_scheme) option" where
  "msg_rm_refs n m st =
     do {
       zmq_assert (0 \<le> n);
       zmq_assert (msg_metadata m = None);
       (if n = 0 then Some (True, m, st)
        else if (\<not> is_zcmsg m \<and> \<not> is_lmsg m) \<or> \<not> has_flag m flag_shared
        then do { (_, m, st) \<leftarrow> msg_close m st; Some (False, m, st) }
        else do {
          c \<leftarrow> msg_content m;
          (alive, st) \<leftarrow> refcnt_sub c (of_int n) st;
          (if \<not> alive then do { st \<leftarrow> content_free c st; Some (False, m, st) }
           else Some (True, m, st))
        })
     }"

subsection \<open>Ownership of shared contents\<close>

text \<open>\<open>M\<close> is the multiset of all live message structures, wherever they are.  Each live content
  is held by at least one of them; one that is not flagged shared is its only holder; otherwise
  the counter is the number of holders.  So a content is neither leaked nor used after its
  release.\<close>

definition uses_content :: "msg_t \<Rightarrow> nat \<Rightarrow> bool" where
  "uses_content m c = ((is_lmsg m \<or> is_zcmsg m) \<and> msg_content m = Some c)"

definition holders :: "nat \<Rightarrow> msg_t multiset \<Rightarrow> nat" where
  "holders c M = size (filter_mset (\<lambda>m. uses_content m c) M)"

definition store_inv :: "'z msg_store_scheme \<Rightarrow> msg_t multiset \<Rightarrow> bool" where
  "store_inv st M \<longleftrightarrow>
     (\<forall>c. contents st c \<noteq> None \<longrightarrow> c < next_content st \<and> 0 < holders c M) \<and>
     (\<forall>m \<in># M. is_lmsg m \<or> is_zcmsg m \<longrightarrow>
        (\<exists>c ct. msg_content m = Some c \<and> contents st c = Some ct \<and>
           (is_zcmsg m \<longrightarrow> content_ffn ct) \<and>
           (if has_flag m flag_shared then unat (content_refcnt ct) = holders c M
            else holders c M = 1)))"

lemma holders_add [simp]:
  "holders c (add_mset m M) = holders c M + (if uses_content m c then 1 else 0)"
  by (simp add: holders_def)

lemma holders_union [simp]: "holders c (A + B) = holders c A + holders c B"
  by (simp add: holders_def)

lemma holders_replicate [simp]:
  "holders c (replicate_mset n m) = (if uses_content m c then n else 0)"
  by (induction n) (simp_all add: holders_def)

lemma replicate_mset_add: "replicate_mset (i + j) x = replicate_mset i x + replicate_mset j x"
  by (induction i) simp_all

lemma replicate_mset_2: "replicate_mset 2 m + M = add_mset m (add_mset m M)"
  by (simp add: numeral_2_eq_2)

lemma holders_empty [simp]: "holders c {#} = 0"
  by (simp add: holders_def)

lemma unat_minus_of_nat:
  fixes x :: "'a::len word"
  assumes "unat x = k + h"
  shows "unat (x - of_nat k) = h"
proof -
  have "x = of_nat (unat x)" by simp
  then have "x = of_nat (k + h)" using assms by simp
  then have "x - of_nat k = of_nat h" by simp
  moreover have "unat x < 2 ^ LENGTH('a)" by simp
  then have "h < 2 ^ LENGTH('a)" using assms by linarith
  ultimately show ?thesis by (simp add: unsigned_of_nat take_bit_nat_eq_self)
qed

lemma holders_pos: "m \<in># M \<Longrightarrow> uses_content m c \<Longrightarrow> 0 < holders c M"
  by (auto simp: holders_def filter_mset_eq_mempty_iff nonempty_has_size [symmetric])

lemma store_inv_new: "store_inv store_new {#}"
  by (simp add: store_inv_def store_new_def)

lemma store_invD:
  assumes "store_inv st M" "m \<in># M" "uses_content m c"
  shows store_inv_ct: "\<exists>ct. contents st c = Some ct"
    and store_inv_ffn: "is_zcmsg m \<Longrightarrow> contents st c = Some ct \<Longrightarrow> content_ffn ct"
    and store_inv_shared: "has_flag m flag_shared \<Longrightarrow> contents st c = Some ct \<Longrightarrow>
           unat (content_refcnt ct) = holders c M"
    and store_inv_unshared: "\<not> has_flag m flag_shared \<Longrightarrow> holders c M = 1"
  using assms by (fastforce simp: store_inv_def uses_content_def split: if_splits)+

lemma store_inv_plain:
  "\<not> is_lmsg m \<Longrightarrow> \<not> is_zcmsg m \<Longrightarrow> store_inv st (add_mset m M) = store_inv st M"
  by (simp add: store_inv_def uses_content_def)

text \<open>Giving up one holder of a content \<open>c\<close>, whatever the way.\<close>

lemma store_inv_free:
  assumes inv: "store_inv st (replicate_mset k m + M)" and k: "0 < k"
    and m: "uses_content m c" and h: "holders c M = 0"
  shows "\<exists>st'. content_free c st = Some st' \<and> store_inv st' M \<and>
     (\<forall>d. d \<noteq> c \<longrightarrow> contents st' d = contents st d)"
proof -
  obtain ct where ct: "contents st c = Some ct"
    using store_inv_ct[OF inv _ m] k by auto
  let ?st = "st\<lparr>contents := (contents st)(c := None),
     calls_ffn := (if content_ffn ct then content_data ct # calls_ffn st else calls_ffn st)\<rparr>"
  have other: "\<not> uses_content x c" if "x \<in># M" for x
    using holders_pos[OF that, of c] h by auto
  have mm: "holders d (replicate_mset k m + M) = holders d M" if "d \<noteq> c" for d
    using m that by (auto simp: uses_content_def)
  have "store_inv ?st M"
    unfolding store_inv_def
  proof (intro conjI allI impI ballI)
    fix d assume "contents ?st d \<noteq> None"
    then have "d \<noteq> c" "contents st d \<noteq> None" by (auto split: if_splits)
    then show "d < next_content ?st" "0 < holders d M"
      using inv mm by (auto simp: store_inv_def)
  next
    fix x assume x: "x \<in># M" "is_lmsg x \<or> is_zcmsg x"
    then obtain d dt where d: "msg_content x = Some d" "contents st d = Some dt"
        "is_zcmsg x \<longrightarrow> content_ffn dt"
        "if has_flag x flag_shared then unat (content_refcnt dt) = holders d (replicate_mset k m + M)
         else holders d (replicate_mset k m + M) = 1"
      using inv by (fastforce simp: store_inv_def)
    have "d \<noteq> c" using other[OF x(1)] x(2) d(1) by (auto simp: uses_content_def)
    then show "\<exists>c ct. msg_content x = Some c \<and> contents ?st c = Some ct \<and>
        (is_zcmsg x \<longrightarrow> content_ffn ct) \<and>
        (if has_flag x flag_shared then unat (content_refcnt ct) = holders c M else holders c M = 1)"
      using d mm by auto
  qed
  then show ?thesis using ct by (auto simp: content_free_def)
qed

lemma store_inv_sub:
  assumes inv: "store_inv st (replicate_mset k m + M)" and k: "0 < k"
    and m: "uses_content m c" "has_flag m flag_shared" and h: "0 < holders c M"
  shows "\<exists>st'. refcnt_sub c (of_nat k) st = Some (True, st') \<and> store_inv st' M \<and>
     (\<forall>d. map_option content_data (contents st' d) = map_option content_data (contents st d))"
proof -
  obtain ct where ct: "contents st c = Some ct" "unat (content_refcnt ct) = k + holders c M"
    using store_inv_ct[OF inv _ m(1)] store_inv_shared[OF inv _ m(1) m(2)] m k by auto
  let ?v = "content_refcnt ct - of_nat k"
  have v: "unat ?v = holders c M" using ct(2) by (intro unat_minus_of_nat) simp
  let ?st = "st\<lparr>contents := (contents st)(c \<mapsto> ct\<lparr>content_refcnt := ?v\<rparr>)\<rparr>"
  have mm: "holders d (replicate_mset k m + M) = holders d M" if "d \<noteq> c" for d
    using m that by (auto simp: uses_content_def)
  have "store_inv ?st M"
    unfolding store_inv_def
  proof (intro conjI allI impI ballI)
    fix d assume d: "contents ?st d \<noteq> None"
    then have "contents st d \<noteq> None" using ct by (auto split: if_splits)
    then show "d < next_content ?st" "0 < holders d M"
      using inv mm[of d] h by (cases "d = c"; auto simp: store_inv_def)+
  next
    fix x assume x: "x \<in># M" "is_lmsg x \<or> is_zcmsg x"
    then obtain d dt where d: "msg_content x = Some d" "contents st d = Some dt"
        "is_zcmsg x \<longrightarrow> content_ffn dt"
        "if has_flag x flag_shared then unat (content_refcnt dt) = holders d (replicate_mset k m + M)
         else holders d (replicate_mset k m + M) = 1"
      using inv by (fastforce simp: store_inv_def)
    show "\<exists>c ct. msg_content x = Some c \<and> contents ?st c = Some ct \<and>
        (is_zcmsg x \<longrightarrow> content_ffn ct) \<and>
        (if has_flag x flag_shared then unat (content_refcnt ct) = holders c M else holders c M = 1)"
    proof (cases "d = c")
      case True
      then show ?thesis using d ct v m h by (auto split: if_splits)
    next
      case False
      then show ?thesis using d mm by auto
    qed
  qed
  moreover have "?v \<noteq> 0" using v h by (metis less_irrefl unat_0)
  ultimately show ?thesis using ct by (auto simp: refcnt_sub_def Let_def)
qed

lemma body_of_contents:
  "\<forall>c. uses_content x c \<longrightarrow> map_option content_data (contents st' c) = map_option content_data (contents st c) \<Longrightarrow>
   msg_body x st' = msg_body x st"
  by (cases "msg_content x"; cases "msg_type x")
     (auto simp: msg_body_def uses_content_def is_lmsg_def is_zcmsg_def)

lemma body_of_refcnt:
  "contents st c = Some ct \<Longrightarrow>
   msg_body x (st\<lparr>contents := (contents st)(c \<mapsto> ct\<lparr>content_refcnt := v\<rparr>)\<rparr>) = msg_body x st"
  by (auto intro!: body_of_contents)

lemma msg_release_correct:
  assumes inv: "store_inv st (add_mset m M)" and m: "is_lmsg m \<or> is_zcmsg m"
  obtains st' where "msg_release m st = Some st'" "store_inv st' M"
    "\<And>x. x \<in># M \<Longrightarrow> msg_body x st' = msg_body x st"
proof -
  obtain c ct where c: "msg_content m = Some c" "contents st c = Some ct"
    using inv m by (fastforce simp: store_inv_def)
  then have u: "uses_content m c" using m by (simp add: uses_content_def)
  show ?thesis
  proof (cases "holders c M = 0")
    case True
    obtain st' where st': "content_free c st = Some st'" "store_inv st' M"
      "\<forall>d. d \<noteq> c \<longrightarrow> contents st' d = contents st d"
      using store_inv_free[where k = 1, simplified, OF inv u True] by blast
    have body: "msg_body x st' = msg_body x st" if "x \<in># M" for x
    proof (rule body_of_contents, intro allI impI)
      fix d assume "uses_content x d"
      then have "d \<noteq> c" using holders_pos[OF that, of c] True by auto
      then show "map_option content_data (contents st' d) = map_option content_data (contents st d)"
        using st'(3) by simp
    qed
    show ?thesis
    proof (cases "has_flag m flag_shared")
      case False
      then show ?thesis using that st' c body by (simp add: msg_release_def)
    next
      case sh: True
      have "unat (content_refcnt ct) = 1"
        using store_inv_shared[OF inv _ u sh c(2)] True u by simp
      then have one: "content_refcnt ct = 1" by (simp add: word_unat_eq_iff)
      let ?st1 = "st\<lparr>contents := (contents st)(c \<mapsto> ct\<lparr>content_refcnt := 0\<rparr>)\<rparr>"
      have s1: "refcnt_sub c 1 st = Some (False, ?st1)"
        using c one by (simp add: refcnt_sub_def)
      have "content_free c ?st1 = content_free c st"
        using c by (simp add: content_free_def)
      then show ?thesis using that st' c body s1 sh by (simp add: msg_release_def)
    qed
  next
    case False
    have sh: "has_flag m flag_shared"
    proof (rule ccontr)
      assume "\<not> has_flag m flag_shared"
      then have "holders c (add_mset m M) = 1" using store_inv_unshared[OF inv _ u] by auto
      with False u show False by simp
    qed
    obtain st' where st': "refcnt_sub c 1 st = Some (True, st')" "store_inv st' M"
      "\<forall>d. map_option content_data (contents st' d) = map_option content_data (contents st d)"
      using store_inv_sub[where k = 1, simplified, OF inv u sh] False by blast
    have "msg_body x st' = msg_body x st" for x using st'(3) by (intro body_of_contents) auto
    then show ?thesis using that st' c sh by (simp add: msg_release_def)
  qed
qed

lemma msg_close_correct:
  assumes inv: "store_inv st (add_mset m M)" and m: "msg_check m" "msg_metadata m = None"
  obtains m' st' where "msg_close m st = Some (Rc_ok, m', st')" "store_inv st' M"
    "\<not> msg_check m'" "msg_metadata m' = None" "\<And>x. x \<in># M \<Longrightarrow> msg_body x st' = msg_body x st"
proof (cases "is_lmsg m \<or> is_zcmsg m")
  case True
  obtain st' where st': "msg_release m st = Some st'" "store_inv st' M"
    "\<And>x. x \<in># M \<Longrightarrow> msg_body x st' = msg_body x st"
    using msg_release_correct[OF inv True] by blast
  obtain c ct where c: "msg_content m = Some c" "contents st c = Some ct" "is_zcmsg m \<longrightarrow> content_ffn ct"
    using inv True by (fastforce simp: store_inv_def)
  have "\<not> (is_lmsg m \<and> is_zcmsg m)" by (simp add: is_lmsg_def is_zcmsg_def)
  then have "msg_close m st = Some (Rc_ok, m\<lparr>msg_type := Type_invalid\<rparr>, st')"
    using True m st'(1) c by (auto simp: msg_close_def msg_reset_metadata_def)
  then show ?thesis using that st' m by (simp add: msg_check_def)
next
  case False
  then have "msg_close m st = Some (Rc_ok, m\<lparr>msg_type := Type_invalid\<rparr>, st)"
    using m by (simp add: msg_close_def msg_reset_metadata_def)
  moreover have "store_inv st M" using inv False by (simp add: store_inv_plain)
  ultimately show ?thesis using that m by (simp add: msg_check_def)
qed

lemma holders_two: "holders c {#a, b#} = (if uses_content a c then 1 else 0) + (if uses_content b c then 1 else 0)"
  by simp

text \<open>Turning one holder into \<open>k\<close> of them, all flagged shared.\<close>

lemma store_inv_share:
  assumes inv: "store_inv st (add_mset m M)" and m: "uses_content m c"
    and ct: "contents st c = Some ct" and k: "0 < k"
    and m': "msg_type m' = msg_type m" "msg_content m' = msg_content m" "has_flag m' flag_shared"
    and v: "unat v = k + holders c M"
  shows "store_inv (st\<lparr>contents := (contents st)(c \<mapsto> ct\<lparr>content_refcnt := v\<rparr>)\<rparr>) (replicate_mset k m' + M)"
    (is "store_inv ?st ?M")
proof -
  have u': "uses_content m' d = uses_content m d" for d
    using m' by (simp add: uses_content_def is_lmsg_def is_zcmsg_def)
  have md: "uses_content m d \<longleftrightarrow> d = c" for d using m by (auto simp: uses_content_def)
  have hd: "holders d ?M = (if d = c then k else 0) + holders d M" for d by (simp add: u' md)
  have hd': "holders d (add_mset m M) = (if d = c then 1 else 0) + holders d M" for d by (simp add: md)
  show ?thesis
    unfolding store_inv_def
  proof (intro conjI allI impI ballI)
    fix d assume "contents ?st d \<noteq> None"
    then have "contents st d \<noteq> None" using ct by (auto split: if_splits)
    then have "d < next_content st" "0 < holders d (add_mset m M)"
      using inv unfolding store_inv_def by blast+
    then show "d < next_content ?st" "0 < holders d ?M"
      unfolding hd hd' using k by (auto split: if_splits)
  next
    fix x assume x: "x \<in># ?M" "is_lmsg x \<or> is_zcmsg x"
    show "\<exists>c ct. msg_content x = Some c \<and> contents ?st c = Some ct \<and>
        (is_zcmsg x \<longrightarrow> content_ffn ct) \<and>
        (if has_flag x flag_shared then unat (content_refcnt ct) = holders c ?M else holders c ?M = 1)"
    proof (cases "x = m'")
      case True
      show ?thesis
      proof -
        have "is_zcmsg m \<Longrightarrow> content_ffn ct"
          using store_inv_ffn[OF inv _ m _ ct] by simp
        moreover have "msg_content m = Some c" using m by (simp add: uses_content_def)
        ultimately show ?thesis using True m' v hd[of c] by (simp add: is_zcmsg_def)
      qed
    next
      case False
      then have xM: "x \<in># M" using x(1) by (auto split: if_splits)
      then obtain d dt where d: "msg_content x = Some d" "contents st d = Some dt"
          "is_zcmsg x \<longrightarrow> content_ffn dt"
          "if has_flag x flag_shared then unat (content_refcnt dt) = holders d (add_mset m M)
           else holders d (add_mset m M) = 1"
        using inv x(2) by (fastforce simp: store_inv_def)
      show ?thesis
      proof (cases "d = c")
        case True
        have "uses_content x c" using d(1) x(2) True by (simp add: uses_content_def)
        then have "0 < holders c M" using holders_pos[OF xM] by blast
        then have "has_flag x flag_shared" using d(4) hd'[of c] True by (auto split: if_splits)
        then show ?thesis using True d ct hd[of c] v by auto
      next
        case False
        then show ?thesis using d hd[of d] hd'[of d] by auto
      qed
    qed
  qed
qed

lemma has_shared_set [simp]: "has_flag (msg_set_flags flag_shared m) flag_shared"
proof -
  have "bit (flag_shared :: byte) 7" by (simp add: flag_shared_def)
  then have "bit ((msg_flags m OR flag_shared) AND flag_shared) 7" by (simp add: bit_simps)
  then show ?thesis by (auto simp: has_flag_def msg_set_flags_def)
qed

lemma set_flags_simps [simp]:
  "msg_type (msg_set_flags fl m) = msg_type m" "msg_content (msg_set_flags fl m) = msg_content m"
  "msg_metadata (msg_set_flags fl m) = msg_metadata m" "vsm_data (msg_set_flags fl m) = vsm_data m"
  "cmsg_data (msg_set_flags fl m) = cmsg_data m"
  by (simp_all add: msg_set_flags_def)

lemma unat_of_int_pos:
  "0 \<le> n \<Longrightarrow> n < 2 ^ 32 \<Longrightarrow> unat (of_int n :: 32 word) = nat n"
  by (simp add: unsigned_of_int take_bit_int_eq_self flip: nat_take_bit_eq)

lemma unat_plus_of_int:
  fixes x :: "32 word"
  assumes "0 \<le> n" "int (unat x) + n < 2 ^ 32"
  shows "unat (x + of_int n) = unat x + nat n"
proof -
  have n: "unat (of_int n :: 32 word) = nat n"
    using assms of_nat_0_le_iff[of "unat x"] by (intro unat_of_int_pos) linarith+
  have "int (unat x + nat n) < int (2 ^ 32)" using assms by simp
  then have "unat x + nat n < 2 ^ 32" unfolding of_nat_less_iff .
  then show ?thesis using n by (subst unat_plus_simple[THEN iffD1]) (auto simp: no_olen_add_nat)
qed

lemma msg_add_refs_correct:
  assumes inv: "store_inv st (add_mset m M)" and m: "msg_metadata m = None"
    and n: "0 \<le> n" "n + 1 < 2 ^ 31"
    and bound: "\<And>c. has_flag m flag_shared \<Longrightarrow> uses_content m c \<Longrightarrow> int (holders c (add_mset m M)) + n < 2 ^ 32"
  obtains m' st' where "msg_add_refs n m st = Some (m', st')"
    "store_inv st' (replicate_mset (nat n + 1) m' + M)"
    "m' = m \<or> m' = msg_set_flags flag_shared m" "\<And>x. msg_body x st' = msg_body x st"
proof (cases "n = 0 \<or> \<not> (is_lmsg m \<or> is_zcmsg m)")
  case True
  have "store_inv st (replicate_mset (nat n + 1) m + M)"
  proof (cases "n = 0")
    case True
    then show ?thesis using inv by simp
  next
    case False
    then have p: "\<not> is_lmsg m" "\<not> is_zcmsg m" using True by auto
    have "store_inv st (replicate_mset k m + M)" for k
      using inv p by (induction k) (simp_all add: store_inv_plain)
    then show ?thesis .
  qed
  then show ?thesis using that[of m st] True m n by (auto simp: msg_add_refs_def)
next
  case False
  then have lz: "is_lmsg m \<or> is_zcmsg m" and n0: "n \<noteq> 0" by auto
  obtain c ct where c: "msg_content m = Some c" "contents st c = Some ct"
    using inv lz by (fastforce simp: store_inv_def)
  then have u: "uses_content m c" using lz by (simp add: uses_content_def)
  have hc: "holders c (add_mset m M) = Suc (holders c M)" using u by simp
  show ?thesis
  proof (cases "has_flag m flag_shared")
    case True
    then have r: "unat (content_refcnt ct) = Suc (holders c M)"
      using store_inv_shared[OF inv _ u True c(2)] hc by simp
    have "unat (content_refcnt ct + of_int n) = (nat n + 1) + holders c M"
      using r n bound[OF True u] hc by (subst unat_plus_of_int) auto
    from store_inv_share[OF inv u c(2) _ refl refl True this]
    have S: "store_inv (st\<lparr>contents := (contents st)(c \<mapsto> ct\<lparr>content_refcnt := content_refcnt ct + of_int n\<rparr>)\<rparr>)
        (replicate_mset (nat n + 1) m + M)" by simp
    have "msg_add_refs n m st = Some (m,
        st\<lparr>contents := (contents st)(c \<mapsto> ct\<lparr>content_refcnt := content_refcnt ct + of_int n\<rparr>)\<rparr>)"
      using True c lz n n0 m by (auto simp: msg_add_refs_def refcnt_update_def)
    then show ?thesis by (rule that [OF _ S]) (simp_all add: body_of_refcnt [OF c(2)])
  next
    case False
    then have r: "holders c M = 0" using store_inv_unshared[OF inv _ u False] hc by simp
    have "unat (of_int (n + 1) :: 32 word) = (nat n + 1) + holders c M"
      using r n by (subst unat_of_int_pos) auto
    from store_inv_share[OF inv u c(2) _ _ _ has_shared_set[of m] this]
    have S: "store_inv (st\<lparr>contents := (contents st)(c \<mapsto> ct\<lparr>content_refcnt := of_int (n + 1)\<rparr>)\<rparr>)
        (replicate_mset (nat n + 1) (msg_set_flags flag_shared m) + M)" by simp
    have "msg_add_refs n m st = Some (msg_set_flags flag_shared m,
        st\<lparr>contents := (contents st)(c \<mapsto> ct\<lparr>content_refcnt := of_int (n + 1)\<rparr>)\<rparr>)"
      using False c lz n n0 m by (auto simp: msg_add_refs_def refcnt_update_def)
    then show ?thesis by (rule that [OF _ S]) (simp_all add: body_of_refcnt [OF c(2)])
  qed
qed

lemma msg_rm_refs_correct:
  assumes inv: "store_inv st (replicate_mset (nat n) m + M)" and m: "msg_check m" "msg_metadata m = None"
    and n: "0 \<le> n"
  obtains b m' st' where "msg_rm_refs n m st = Some (b, m', st')" "store_inv st' M"
    "\<And>x. x \<in># M \<Longrightarrow> msg_body x st' = msg_body x st"
proof (cases "n = 0 \<or> \<not> (is_lmsg m \<or> is_zcmsg m)")
  case True
  have sM: "store_inv st M"
  proof (cases "n = 0")
    case False
    then have p: "\<not> is_lmsg m" "\<not> is_zcmsg m" using True by auto
    have "store_inv st (replicate_mset k m + M) = store_inv st M" for k
      using p by (induction k) (simp_all add: store_inv_plain)
    then show ?thesis using inv by simp
  qed (use inv in simp)
  then have "store_inv st (add_mset m M)" if "n \<noteq> 0" using True that by (simp add: store_inv_plain)
  with True show ?thesis
    by (cases "n = 0")
       (use that sM m n in \<open>auto simp: msg_rm_refs_def msg_close_def msg_reset_metadata_def\<close>)
next
  case False
  then have lz: "is_lmsg m \<or> is_zcmsg m" and n0: "0 < nat n" using n by auto
  obtain c ct where c: "msg_content m = Some c" "contents st c = Some ct"
    using inv lz n0 by (fastforce simp: store_inv_def)
  then have u: "uses_content m c" using lz by (simp add: uses_content_def)
  have mem: "m \<in># replicate_mset (nat n) m + M" using n0 by simp
  have w: "(of_int n :: 32 word) = of_nat (nat n)" using n by simp
  show ?thesis
  proof (cases "has_flag m flag_shared")
    case False
    then have "nat n + holders c M = 1" using store_inv_unshared[OF inv mem u False] u by simp
    then have "nat n = 1" using n0 by simp
    then have "store_inv st (add_mset m M)" using inv by simp
    then obtain m' st' where "msg_close m st = Some (Rc_ok, m', st')" "store_inv st' M"
      "\<And>x. x \<in># M \<Longrightarrow> msg_body x st' = msg_body x st" using msg_close_correct m by metis
    then show ?thesis using that False m n n0 by (auto simp: msg_rm_refs_def)
  next
    case sh: True
    have r: "unat (content_refcnt ct) = nat n + holders c M"
      using store_inv_shared[OF inv mem u sh c(2)] u by simp
    show ?thesis
    proof (cases "holders c M = 0")
      case True
      obtain st' where st': "content_free c st = Some st'" "store_inv st' M"
        "\<forall>d. d \<noteq> c \<longrightarrow> contents st' d = contents st d"
        using store_inv_free[OF inv n0 u True] by blast
      have body: "msg_body x st' = msg_body x st" if "x \<in># M" for x
      proof (rule body_of_contents, intro allI impI)
        fix d assume "uses_content x d"
        then have "d \<noteq> c" using holders_pos[OF that, of c] True by auto
        then show "map_option content_data (contents st' d) = map_option content_data (contents st d)"
          using st'(3) by simp
      qed
      have "unat (content_refcnt ct - of_int n) = 0"
        unfolding w using r True by (intro unat_minus_of_nat) simp
      then have z: "content_refcnt ct - of_int n = 0" by (simp add: word_unat_eq_iff)
      let ?st1 = "st\<lparr>contents := (contents st)(c \<mapsto> ct\<lparr>content_refcnt := 0\<rparr>)\<rparr>"
      have s1: "refcnt_sub c (of_int n) st = Some (False, ?st1)"
        using c z by (simp add: refcnt_sub_def)
      have "content_free c ?st1 = content_free c st"
        using c by (simp add: content_free_def)
      then have "msg_rm_refs n m st = Some (False, m, st')"
        using st' c s1 sh lz n n0 m by (auto simp: msg_rm_refs_def)
      then show ?thesis using that st'(2) body by blast
    next
      case False
      then obtain st' where st': "refcnt_sub c (of_nat (nat n)) st = Some (True, st')" "store_inv st' M"
        "\<forall>d. map_option content_data (contents st' d) = map_option content_data (contents st d)"
        using store_inv_sub[OF inv n0 u sh] by blast
      have "msg_body x st' = msg_body x st" for x using st'(3) by (intro body_of_contents) auto
      moreover have "msg_rm_refs n m st = Some (True, m, st')"
        using st'(1)[folded w] c sh lz n n0 m by (auto simp: msg_rm_refs_def)
      ultimately show ?thesis using that st'(2) by blast
    qed
  qed
qed

lemma msg_move_correct:
  assumes inv: "store_inv st (add_mset m (add_mset src M))"
    and m: "msg_check m" "msg_metadata m = None" "msg_check src"
  obtains st' where "msg_move m src st = Some (Rc_ok, src, msg_init src, st')"
    "store_inv st' (add_mset src (add_mset (msg_init src) M))" "msg_body src st' = msg_body src st"
    "msg_body (msg_init src) st' = Some []" "\<And>x. x \<in># M \<Longrightarrow> msg_body x st' = msg_body x st"
proof -
  obtain m' st' where c: "msg_close m st = Some (Rc_ok, m', st')" "store_inv st' (add_mset src M)"
    "\<And>x. x \<in># add_mset src M \<Longrightarrow> msg_body x st' = msg_body x st"
    using msg_close_correct[OF inv m(1,2)] by metis
  have S: "store_inv st' (add_mset src (add_mset (msg_init src) M))"
    using c(2) by (subst add_mset_commute)
       (simp add: store_inv_plain is_lmsg_def is_zcmsg_def msg_init_def msg_init_base_def)
  have "msg_move m src st = Some (Rc_ok, src, msg_init src, st')" using c(1) m by (simp add: msg_move_def)
  then show ?thesis
    by (rule that [OF _ S]) (use c(3) in \<open>auto simp: msg_body_def msg_init_def msg_init_base_def\<close>)
qed

lemma msg_body_set_flags [simp]: "msg_body (msg_set_flags fl m) st = msg_body m st"
  by (cases "msg_type m") (simp_all add: msg_body_def)

lemma msg_copy_correct:
  assumes inv: "store_inv st (add_mset m (add_mset src M))"
    and m: "msg_check m" "msg_metadata m = None" "msg_check src" "msg_metadata src = None"
    and bound: "\<And>c. Suc (holders c (add_mset src M)) < 2 ^ 32"
  obtains src' st' where "msg_copy m src st = Some (Rc_ok, src', src', st')"
    "store_inv st' (add_mset src' (add_mset src' M))" "msg_body src' st' = msg_body src st"
    "\<And>x. x \<in># M \<Longrightarrow> msg_body x st' = msg_body x st"
proof -
  obtain m' st1 where c1: "msg_close m st = Some (Rc_ok, m', st1)" "store_inv st1 (add_mset src M)"
    "\<And>x. x \<in># add_mset src M \<Longrightarrow> msg_body x st1 = msg_body x st"
    using msg_close_correct[OF inv m(1,2)] by metis
  show ?thesis
  proof (cases "is_lmsg src \<or> is_zcmsg src")
    case False
    then have S: "store_inv st1 (add_mset src (add_mset src M))" using c1(2) by (simp add: store_inv_plain)
    have "msg_copy m src st = Some (Rc_ok, src, src, st1)" using False c1(1) m by (simp add: msg_copy_def)
    then show ?thesis by (rule that [OF _ S]) (use c1(3) in auto)
  next
    case lz: True
    obtain c ct where c: "msg_content src = Some c" "contents st1 c = Some ct"
      using c1(2) lz by (fastforce simp: store_inv_def)
    then have u: "uses_content src c" using lz by (simp add: uses_content_def)
    show ?thesis
    proof (cases "has_flag src flag_shared")
      case True
      have "unat (content_refcnt ct) = Suc (holders c M)"
        using store_inv_shared[OF c1(2) _ u True c(2)] u by simp
      then have "unat (content_refcnt ct + 1) = 2 + holders c M"
        using bound[of c] u unat_plus_of_int[of 1 "content_refcnt ct"] by simp
      note S = store_inv_share[OF c1(2) u c(2) _ refl refl True this, simplified replicate_mset_2, simplified]
      have "msg_copy m src st = Some (Rc_ok, src, src, st1\<lparr>contents := (contents st1)(c \<mapsto>
          ct\<lparr>content_refcnt := content_refcnt ct + 1\<rparr>)\<rparr>)"
        using True lz c c1(1) m by (auto simp: msg_copy_def refcnt_update_def)
      then show ?thesis by (rule that [OF _ S]) (use c1(3) in \<open>simp_all add: body_of_refcnt [OF c(2)]\<close>)
    next
      case False
      then have h: "holders c M = 0" using store_inv_unshared[OF c1(2) _ u False] u by simp
      then have "unat (2 :: 32 word) = 2 + holders c M" by simp
      note S = store_inv_share[OF c1(2) u c(2) _ _ _ has_shared_set[of src] this,
          simplified set_flags_simps, simplified replicate_mset_2, simplified]
      have "msg_copy m src st = Some (Rc_ok, msg_set_flags flag_shared src, msg_set_flags flag_shared src,
          st1\<lparr>contents := (contents st1)(c \<mapsto> ct\<lparr>content_refcnt := 2\<rparr>)\<rparr>)"
        using False lz c c1(1) m by (auto simp: msg_copy_def refcnt_update_def)
      then show ?thesis by (rule that [OF _ S]) (use c1(3) in \<open>simp_all add: body_of_refcnt [OF c(2)]\<close>)
    qed
  qed
qed

text \<open>A new content has the new message as its only holder.\<close>

lemma store_inv_new_content:
  assumes inv: "store_inv st M" and m: "msg_content m = Some (next_content st)"
    "is_lmsg m \<or> is_zcmsg m" "\<not> has_flag m flag_shared" "is_zcmsg m \<longrightarrow> content_ffn ct"
  shows "store_inv (st\<lparr>contents := (contents st)(next_content st \<mapsto> ct), next_content := Suc (next_content st)\<rparr>)
    (add_mset m M)"
proof -
  let ?c = "next_content st"
  let ?st = "st\<lparr>contents := (contents st)(?c \<mapsto> ct), next_content := Suc ?c\<rparr>"
  have um: "uses_content m d \<longleftrightarrow> d = ?c" for d using m by (auto simp: uses_content_def)
  have fresh: "\<not> uses_content x ?c" if xM: "x \<in># M" for x
  proof
    assume u: "uses_content x ?c"
    obtain e where "contents st ?c = Some e" using store_inv_ct[OF inv xM u] by blast
    then show False using inv by (auto simp: store_inv_def)
  qed
  then have h0: "holders ?c M = 0" by (auto simp: holders_def filter_mset_eq_mempty_iff)
  show ?thesis
    unfolding store_inv_def
  proof (intro conjI allI impI ballI)
    fix d assume d: "contents ?st d \<noteq> None"
    then have "d = ?c \<or> contents st d \<noteq> None" by (auto split: if_splits)
    then have "d = ?c \<or> d < ?c \<and> 0 < holders d M" using inv by (auto simp: store_inv_def)
    then show "d < next_content ?st" "0 < holders d (add_mset m M)" using um by auto
  next
    fix x assume x: "x \<in># add_mset m M" "is_lmsg x \<or> is_zcmsg x"
    show "\<exists>c ct. msg_content x = Some c \<and> contents ?st c = Some ct \<and>
        (is_zcmsg x \<longrightarrow> content_ffn ct) \<and>
        (if has_flag x flag_shared then unat (content_refcnt ct) = holders c (add_mset m M)
         else holders c (add_mset m M) = 1)"
    proof (cases "x \<in># M")
      case True
      then obtain d dt where d: "msg_content x = Some d" "contents st d = Some dt"
          "is_zcmsg x \<longrightarrow> content_ffn dt"
          "if has_flag x flag_shared then unat (content_refcnt dt) = holders d M else holders d M = 1"
        using inv x(2) by (fastforce simp: store_inv_def)
      have "d \<noteq> ?c" using fresh[OF True] d(1) x(2) by (auto simp: uses_content_def)
      then show ?thesis using d um by auto
    next
      case False
      then have "x = m" using x(1) by simp
      then show ?thesis using m h0 um by auto
    qed
  qed
qed

lemma msg_init_size_correct:
  assumes inv: "store_inv st M" and ok: "msg_init_size n m st = (Rc_ok, m', st')"
    and fl: "fl AND flag_shared = 0"
  shows "store_inv st' (add_mset (msg_set_flags fl m') M)" "msg_store.more st' = msg_store.more st"
    "msg_check (msg_set_flags fl m')" "msg_metadata (msg_set_flags fl m') = None"
    "is_vsm (msg_set_flags fl m') \<or> is_lmsg (msg_set_flags fl m')"
proof -
  have ns: "\<not> has_flag (msg_set_flags fl m') flag_shared"
    using ok fl by (auto simp: msg_init_size_def has_flag_def msg_set_flags_def msg_init_base_def
        new_content_def Let_def split: if_splits)
  show "msg_store.more st' = msg_store.more st" "msg_check (msg_set_flags fl m')"
    "msg_metadata (msg_set_flags fl m') = None"
    "is_vsm (msg_set_flags fl m') \<or> is_lmsg (msg_set_flags fl m')"
    using ok by (auto simp: msg_init_size_def msg_init_base_def new_content_def Let_def msg_check_def
        is_vsm_def is_lmsg_def split: if_splits)
  show "store_inv st' (add_mset (msg_set_flags fl m') M)"
  proof (cases "n \<le> max_vsm_size")
    case True
    then have "st' = st" "\<not> is_lmsg (msg_set_flags fl m')" "\<not> is_zcmsg (msg_set_flags fl m')"
      using ok by (auto simp: msg_init_size_def msg_init_base_def is_lmsg_def is_zcmsg_def)
    then show ?thesis using inv by (simp add: store_inv_plain)
  next
    case False
    then have st': "st' = st\<lparr>contents := (contents st)(next_content st \<mapsto>
        \<lparr>content_data = replicate n 0, content_ffn = False, content_refcnt = 0\<rparr>),
        next_content := Suc (next_content st)\<rparr>"
      and m': "msg_content m' = Some (next_content st)" "msg_type m' = Type_lmsg"
      using ok by (auto simp: msg_init_size_def msg_init_base_def new_content_def Let_def split: if_splits)
    show ?thesis unfolding st'
      by (rule store_inv_new_content[OF inv]) (use m' ns in \<open>simp_all add: is_lmsg_def is_zcmsg_def\<close>)
  qed
qed

text \<open>A message that is sized and then filled carries exactly the data, whichever the variant.\<close>

lemma msg_init_size_set_body:
  assumes "sizeof_content + length d < 2 ^ 64"
  shows "\<exists>m1 st1 m2 st2. msg_init_size (length d) m st = (Rc_ok, m1, st1) \<and>
    msg_set_body d m1 st1 = Some (m2, st2) \<and> msg_body m2 st2 = Some d \<and>
    (is_vsm m2 \<longleftrightarrow> length d \<le> max_vsm_size) \<and> msg_check m2 \<and> \<not> has_flag m2 flag_shared"
  using assms
  by (cases "length d \<le> max_vsm_size")
     (simp_all add: msg_init_size_def new_content_def msg_set_body_def msg_body_def msg_init_base_def
      is_vsm_def msg_check_def has_flag_def sizeof_content_def Let_def)

lemma msg_of_correct:
  assumes inv: "store_inv st M" and d: "sizeof_content + length d < 2 ^ 64"
  obtains m st' where "msg_of d m0 st = Some (m, st')" "store_inv st' (add_mset m M)"
    "msg_store.more st' = msg_store.more st" "msg_body m st' = Some d" "msg_check m" "msg_metadata m = None"
    "msg_flags m = 0" "is_vsm m \<or> is_lmsg m"
proof (cases "length d \<le> max_vsm_size")
  case True
  let ?m = "(msg_init_base Type_vsm m0)\<lparr>vsm_data := d\<rparr>"
  have "\<not> is_lmsg ?m" "\<not> is_zcmsg ?m" by (simp_all add: is_lmsg_def is_zcmsg_def msg_init_base_def)
  then show thesis using that[of ?m st] True inv
    by (simp add: msg_of_def msg_init_size_def msg_set_body_def msg_init_base_def msg_body_def msg_check_def is_vsm_def
        store_inv_plain)
next
  case False
  let ?c = "next_content st" and ?ct = "\<lparr>content_data = d, content_ffn = False, content_refcnt = 0\<rparr>"
  let ?m = "(msg_init_base Type_lmsg m0)\<lparr>msg_content := Some ?c\<rparr>"
  let ?st = "st\<lparr>contents := (contents st)(?c \<mapsto> ?ct), next_content := Suc ?c\<rparr>"
  have "store_inv ?st (add_mset ?m M)"
    by (rule store_inv_new_content[OF inv])
      (simp_all add: is_lmsg_def is_zcmsg_def has_flag_def msg_init_base_def)
  then show thesis using that[of ?m ?st] False d
    by (simp add: msg_of_def msg_init_size_def msg_set_body_def msg_init_base_def msg_body_def msg_check_def is_lmsg_def
        new_content_def sizeof_content_def Let_def)
qed

text \<open>Message operations touch nothing of a larger state but the message store.\<close>

lemma refcnt_sub_more: "refcnt_sub c n st = Some (b, st') \<Longrightarrow> msg_store.more st' = msg_store.more st"
  by (cases "contents st c") (auto simp: refcnt_sub_def Let_def)

lemma content_free_more: "content_free c st = Some st' \<Longrightarrow> msg_store.more st' = msg_store.more st"
  by (cases "contents st c") (auto simp: content_free_def)

lemma msg_release_more:
  assumes "msg_release m st = Some st'"
  shows "msg_store.more st' = msg_store.more st"
proof -
  obtain c where c: "msg_content m = Some c" using assms by (cases "msg_content m") (auto simp: msg_release_def)
  show ?thesis
  proof (cases "has_flag m flag_shared")
    case False
    then show ?thesis using assms c content_free_more by (simp add: msg_release_def)
  next
    case True
    then obtain b st1 where 1: "refcnt_sub c 1 st = Some (b, st1)"
      using assms c by (cases "refcnt_sub c 1 st") (auto simp: msg_release_def)
    then have "st' = st1 \<or> content_free c st1 = Some st'"
      using assms c True by (simp add: msg_release_def split: if_splits)
    then show ?thesis using refcnt_sub_more[OF 1] content_free_more[of c st1 st'] by auto
  qed
qed

lemma msg_reset_metadata_more:
  "msg_reset_metadata m st = Some (m', st') \<Longrightarrow> msg_store.more st' = msg_store.more st"
  by (auto simp: msg_reset_metadata_def metadata_drop_ref_def opt_simps split: option.splits)

lemma msg_close_more:
  "msg_close m st = Some (c, m', st') \<Longrightarrow> msg_store.more st' = msg_store.more st"
  by (auto simp: msg_close_def opt_simps split: if_splits
      dest!: msg_release_more msg_reset_metadata_more)

lemma msg_move_more:
  "msg_move m s st = Some (c, m', s', st') \<Longrightarrow> msg_store.more st' = msg_store.more st"
  by (auto simp: msg_move_def opt_simps split: if_splits dest: msg_close_more)

subsection \<open>Properties\<close>

text \<open>C28. Closing a message releases its content if and only if no other message holds it: afterwards the
  live contents are again exactly those held by the remaining messages, and none of their
  bodies has changed.\<close>

theorem close_keeps_ownership:
  assumes "store_inv st (add_mset m M)" "msg_check m" "msg_metadata m = None"
  shows "\<exists>m' st'. msg_close m st = Some (Rc_ok, m', st') \<and> store_inv st' M \<and> \<not> msg_check m' \<and>
    (\<forall>x \<in># M. msg_body x st' = msg_body x st)"
  using msg_close_correct[OF assms] by metis

text \<open>A message with a content of its own, for the witnesses.\<close>

definition msg_blank :: msg_t where
  "msg_blank = \<lparr>msg_type = Type_invalid, msg_flags = 0, msg_metadata = None, vsm_data = [],
     msg_content = None, cmsg_data = [], msg_group = [], msg_routing_id = 0\<rparr>"

definition sample :: "msg_t \<times> msg_store" where
  "sample = snd (msg_init_data [1, 2, 3] True msg_blank store_new)"

lemma sample_inv: "store_inv (snd sample) {#fst sample#}" "msg_check (fst sample)"
  "msg_metadata (fst sample) = None" "msg_body (fst sample) (snd sample) = Some [1, 2, 3]"
  "is_lmsg (fst sample)" "msg_content (fst sample) = Some 0"
proof -
  let ?m = "(msg_init_base Type_lmsg msg_blank)\<lparr>msg_content := Some (next_content store_new)\<rparr>"
  let ?ct = "\<lparr>content_data = [1, 2, 3], content_ffn = True, content_refcnt = 0\<rparr> :: content_t"
  have s: "sample = (?m, store_new\<lparr>contents := (contents store_new)(next_content store_new \<mapsto> ?ct),
      next_content := Suc (next_content store_new)\<rparr>)"
    by (simp add: sample_def msg_init_data_def new_content_def Let_def)
  have "store_inv (snd sample) (add_mset ?m {#})"
    unfolding s snd_conv
    by (rule store_inv_new_content[OF store_inv_new])
       (simp_all add: is_lmsg_def is_zcmsg_def has_flag_def msg_init_base_def)
  then show "store_inv (snd sample) {#fst sample#}" by (subst (2) s) simp
  show "msg_check (fst sample)" "msg_metadata (fst sample) = None"
    "msg_body (fst sample) (snd sample) = Some [1, 2, 3]" "is_lmsg (fst sample)"
    "msg_content (fst sample) = Some 0"
    by (simp_all add: s msg_check_def msg_init_base_def msg_body_def is_lmsg_def store_new_def)
qed

theorem close_keeps_ownership_witness:
  "\<exists>m' st'. msg_close (fst sample) (snd sample) = Some (Rc_ok, m', st') \<and> store_inv st' {#}"
  using close_keeps_ownership[OF sample_inv(1-3)] by auto

text \<open>Copying shares: both messages then carry the body of the source, the reference counter counts
  both of them, and the former content of the target is given up.\<close>

theorem copy_shares_content:
  assumes "store_inv st (add_mset m (add_mset src M))" "msg_check m" "msg_metadata m = None"
    "msg_check src" "msg_metadata src = None" "\<forall>c. Suc (holders c (add_mset src M)) < 2 ^ 32"
  shows "\<exists>src' st'. msg_copy m src st = Some (Rc_ok, src', src', st') \<and>
    store_inv st' (add_mset src' (add_mset src' M)) \<and> msg_body src' st' = msg_body src st \<and>
    (\<forall>x \<in># M. msg_body x st' = msg_body x st)"
proof -
  have b: "\<And>c. Suc (holders c (add_mset src M)) < 2 ^ 32" using assms(6) by blast
  show ?thesis using msg_copy_correct[OF assms(1-5) b] by metis
qed

theorem copy_shares_content_witness:
  "\<exists>src' st'. msg_copy (msg_init msg_blank) (fst sample) (snd sample) = Some (Rc_ok, src', src', st') \<and>
     msg_body src' st' = Some [1, 2, 3] \<and> store_inv st' {#src', src'#}"
proof -
  have "store_inv (snd sample) (add_mset (msg_init msg_blank) (add_mset (fst sample) {#}))"
    using sample_inv(1) by (subst store_inv_plain) (simp_all add: is_lmsg_def is_zcmsg_def msg_init_def msg_init_base_def)
  moreover have "msg_check (msg_init msg_blank)" "msg_metadata (msg_init msg_blank) = None"
    by (simp_all add: msg_check_def msg_init_def msg_init_base_def)
  moreover have "\<forall>c. Suc (holders c {#fst sample#}) < 2 ^ 32" by simp
  ultimately show ?thesis
    using copy_shares_content[of "snd sample" "msg_init msg_blank" "fst sample" "{#}"] sample_inv(2-4) by metis
qed

text \<open>C27. References for fan-out are balanced: after adding \<open>n\<close> references the content has room for
  exactly \<open>n + 1\<close> holders, and giving back the references of any \<open>k\<close> holders that were not used
  leaves the others intact; the content is released when none is left.\<close>

theorem add_rm_refs_balanced:
  assumes "store_inv st (add_mset m M)" "msg_check m" "msg_metadata m = None" "0 \<le> n" "n + 1 < 2 ^ 31"
    "\<forall>c. int (holders c (add_mset m M)) + n < 2 ^ 32" "0 \<le> k" "k \<le> n + 1"
  shows "\<exists>m1 st1 b m2 st2. msg_add_refs n m st = Some (m1, st1) \<and>
    store_inv st1 (replicate_mset (nat n + 1) m1 + M) \<and>
    msg_rm_refs k m1 st1 = Some (b, m2, st2) \<and>
    store_inv st2 (replicate_mset (nat n + 1 - nat k) m1 + M) \<and>
    (\<forall>x \<in># M. msg_body x st2 = msg_body x st)"
proof -
  have bd: "\<And>c. has_flag m flag_shared \<Longrightarrow> uses_content m c \<Longrightarrow> int (holders c (add_mset m M)) + n < 2 ^ 32"
    using assms(6) by blast
  obtain m1 st1 where a: "msg_add_refs n m st = Some (m1, st1)"
    "store_inv st1 (replicate_mset (nat n + 1) m1 + M)" "m1 = m \<or> m1 = msg_set_flags flag_shared m"
    "\<And>x. msg_body x st1 = msg_body x st"
    using msg_add_refs_correct[OF assms(1,3-5) bd] by metis
  have m1: "msg_check m1" "msg_metadata m1 = None" using a(3) assms(2,3) by (auto simp: msg_check_def)
  have "nat n + 1 = nat k + (nat n + 1 - nat k)" using assms(4,7,8) by linarith
  then have "replicate_mset (nat n + 1) m1 = replicate_mset (nat k) m1 + replicate_mset (nat n + 1 - nat k) m1"
    by (metis replicate_mset_add)
  then have s: "store_inv st1 (replicate_mset (nat k) m1 + (replicate_mset (nat n + 1 - nat k) m1 + M))"
    using a(2) by (simp add: add.assoc)
  obtain b m2 st2 where r: "msg_rm_refs k m1 st1 = Some (b, m2, st2)"
    "store_inv st2 (replicate_mset (nat n + 1 - nat k) m1 + M)"
    "\<And>x. x \<in># replicate_mset (nat n + 1 - nat k) m1 + M \<Longrightarrow> msg_body x st2 = msg_body x st1"
    using msg_rm_refs_correct[OF s m1 assms(7)] by metis
  have "\<forall>x \<in># M. msg_body x st2 = msg_body x st" using r(3) a(4) by simp
  then show ?thesis using a(1,2) r(1,2) by blast
qed

theorem add_rm_refs_balanced_witness:
  "\<exists>m1 st1 b m2 st2. msg_add_refs 2 (fst sample) (snd sample) = Some (m1, st1) \<and>
     msg_rm_refs 1 m1 st1 = Some (b, m2, st2) \<and> store_inv st2 {#m1, m1#}"
  using add_rm_refs_balanced[of "snd sample" "fst sample" "{#}" 2 1] sample_inv
  by (fastforce simp: numeral_2_eq_2)

end
