(* ===== verification/Zmq_Upipe.thy ===== *)
theory Zmq_Upipe
  imports Zmq_Ypipe Zmq_Msg
begin

text \<open>
  The interface \<open>ypipe_base_t<msg_t>\<close> of \<open>src/libzmq/src/ypipe_base.hpp\<close> and its two
  implementations: \<open>ypipe_t<msg_t, message_pipe_granularity>\<close>, modelled in \<open>Zmq_Ypipe\<close>, and
  \<open>ypipe_conflate_t<msg_t>\<close> of \<open>ypipe_conflate.hpp\<close>, which keeps only the latest message in
  the double buffer \<open>dbuffer_t<msg_t>\<close> of \<open>dbuffer.hpp\<close>.  The mutex of the buffer makes each of its
  operations atomic; only \<open>write\<close> may find it taken, which is an argument.  The storage of the
  buffer and its two pointers are modelled by the two messages in their roles.
\<close>

text \<open>A message structure that no initialiser has touched yet.\<close>

definition msg_raw :: msg_t where
  "msg_raw = \<lparr>msg_type = Type_invalid, msg_flags = 0, msg_metadata = None, vsm_data = [],
     msg_content = None, cmsg_data = [], msg_group = [], msg_routing_id = 0\<rparr>"

subsection \<open>The double buffer\<close>

record dbuffer =
  db_back :: msg_t
  db_front :: msg_t
  db_has_msg :: bool

definition dbuffer_new :: dbuffer where
  "dbuffer_new = \<lparr>db_back = msg_init msg_raw, db_front = msg_init msg_raw, db_has_msg = False\<rparr>"

definition dbuffer_destroy :: "dbuffer \<Rightarrow> 'z msg_store_scheme \<Rightarrow> 'z msg_store_scheme option" where
  "dbuffer_destroy d st =
     do {
       (_, _, st) \<leftarrow> msg_close (db_back d) st;
       (_, _, st) \<leftarrow> msg_close (db_front d) st;
       Some st
     }"

definition dbuffer_write ::
  "bool \<Rightarrow> dbuffer \<Rightarrow> msg_t \<Rightarrow> 'z msg_store_scheme \<Rightarrow> (dbuffer \<times> msg_t \<times> 'z msg_store_scheme) option" where
  "dbuffer_write lock_free d value st =
     do {
       zmq_assert (msg_check value);
       (_, back', value, st) \<leftarrow> msg_move (db_back d) value st;
       zmq_assert (msg_check back');
       (if lock_free
        then Some (d\<lparr>db_back := db_front d, db_front := back', db_has_msg := True\<rparr>, value, st)
        else Some (d\<lparr>db_back := back'\<rparr>, value, st))
     }"

definition dbuffer_read :: "dbuffer \<Rightarrow> (msg_t option \<times> dbuffer) option" where
  "dbuffer_read d =
     (if \<not> db_has_msg d then Some (None, d)
      else do {
        zmq_assert (msg_check (db_front d));
        Some (Some (db_front d), d\<lparr>db_front := msg_init (db_front d), db_has_msg := False\<rparr>)
      })"

definition dbuffer_check_read :: "dbuffer \<Rightarrow> bool" where
  "dbuffer_check_read d = db_has_msg d"

definition dbuffer_probe :: "dbuffer \<Rightarrow> (msg_t \<Rightarrow> bool) \<Rightarrow> bool" where
  "dbuffer_probe d fn = fn (db_front d)"

subsection \<open>The conflating pipe\<close>

record ypipe_conflate =
  cf_dbuffer :: dbuffer
  cf_reader_awake :: bool

definition conflate_new :: ypipe_conflate where
  "conflate_new = \<lparr>cf_dbuffer = dbuffer_new, cf_reader_awake = False\<rparr>"

definition conflate_write ::
  "bool \<Rightarrow> ypipe_conflate \<Rightarrow> msg_t \<Rightarrow> bool \<Rightarrow> 'z msg_store_scheme \<Rightarrow>
   (ypipe_conflate \<times> msg_t \<times> 'z msg_store_scheme) option" where
  "conflate_write lock_free p value inc st =
     do {
       (d, value, st) \<leftarrow> dbuffer_write lock_free (cf_dbuffer p) value st;
       Some (p\<lparr>cf_dbuffer := d\<rparr>, value, st)
     }"

definition conflate_unwrite :: "ypipe_conflate \<Rightarrow> msg_t option \<times> ypipe_conflate" where
  "conflate_unwrite p = (None, p)"

definition conflate_flush :: "ypipe_conflate \<Rightarrow> bool \<times> ypipe_conflate" where
  "conflate_flush p = (cf_reader_awake p, p)"

definition conflate_check_read :: "ypipe_conflate \<Rightarrow> bool \<times> ypipe_conflate" where
  "conflate_check_read p =
     (let res = dbuffer_check_read (cf_dbuffer p)
      in (res, if \<not> res then p\<lparr>cf_reader_awake := False\<rparr> else p))"

definition conflate_read :: "ypipe_conflate \<Rightarrow> (msg_t option \<times> ypipe_conflate) option" where
  "conflate_read p =
     (let (ok, p) = conflate_check_read p
      in if \<not> ok then Some (None, p)
         else do {
           (m, d) \<leftarrow> dbuffer_read (cf_dbuffer p);
           Some (m, p\<lparr>cf_dbuffer := d\<rparr>)
         })"

definition conflate_probe :: "ypipe_conflate \<Rightarrow> (msg_t \<Rightarrow> bool) \<Rightarrow> bool \<times> ypipe_conflate" where
  "conflate_probe p fn = (dbuffer_probe (cf_dbuffer p) fn, p)"

subsection \<open>The common interface\<close>

datatype upipe = Upipe_normal "msg_t ypipe" | Upipe_conflate ypipe_conflate

definition message_pipe_granularity :: nat where "message_pipe_granularity = 256"

definition upipe_new :: "bool \<Rightarrow> upipe option" where
  "upipe_new conflate =
     (if conflate then Some (Upipe_conflate conflate_new)
      else map_option Upipe_normal (ypipe_new message_pipe_granularity))"

text \<open>\<open>write\<close> leaves the caller's structure alone, except that the conflating pipe moves the message
  out of it.\<close>

fun upipe_write ::
  "upipe \<Rightarrow> msg_t \<Rightarrow> bool \<Rightarrow> 'z msg_store_scheme \<Rightarrow> (upipe \<times> msg_t \<times> 'z msg_store_scheme) option" where
  "upipe_write (Upipe_normal p) m inc st =
     do { p \<leftarrow> ypipe_write message_pipe_granularity p m inc; Some (Upipe_normal p, m, st) }"
| "upipe_write (Upipe_conflate p) m inc st =
     do { (p, m, st) \<leftarrow> conflate_write True p m inc st; Some (Upipe_conflate p, m, st) }"

fun upipe_unwrite :: "upipe \<Rightarrow> (msg_t option \<times> upipe) option" where
  "upipe_unwrite (Upipe_normal p) =
     map_option (map_prod id Upipe_normal) (ypipe_unwrite message_pipe_granularity p)"
| "upipe_unwrite (Upipe_conflate p) = Some (map_prod id Upipe_conflate (conflate_unwrite p))"

fun upipe_flush :: "upipe \<Rightarrow> bool \<times> upipe" where
  "upipe_flush (Upipe_normal p) = map_prod id Upipe_normal (ypipe_flush p)"
| "upipe_flush (Upipe_conflate p) = map_prod id Upipe_conflate (conflate_flush p)"

fun upipe_check_read :: "upipe \<Rightarrow> bool \<times> upipe" where
  "upipe_check_read (Upipe_normal p) = map_prod id Upipe_normal (ypipe_check_read p)"
| "upipe_check_read (Upipe_conflate p) = map_prod id Upipe_conflate (conflate_check_read p)"

fun upipe_read :: "upipe \<Rightarrow> (msg_t option \<times> upipe) option" where
  "upipe_read (Upipe_normal p) =
     map_option (map_prod id Upipe_normal) (ypipe_read message_pipe_granularity p)"
| "upipe_read (Upipe_conflate p) = map_option (map_prod id Upipe_conflate) (conflate_read p)"

fun upipe_probe :: "upipe \<Rightarrow> (msg_t \<Rightarrow> bool) \<Rightarrow> (bool \<times> upipe) option" where
  "upipe_probe (Upipe_normal p) fn = map_option (map_prod id Upipe_normal) (ypipe_probe p fn)"
| "upipe_probe (Upipe_conflate p) fn = Some (map_prod id Upipe_conflate (conflate_probe p fn))"

fun upipe_destroy :: "upipe \<Rightarrow> 'z msg_store_scheme \<Rightarrow> 'z msg_store_scheme option" where
  "upipe_destroy (Upipe_normal p) st = do { _ \<leftarrow> yqueue_destroy (queue p); Some st }"
| "upipe_destroy (Upipe_conflate p) st = dbuffer_destroy (cf_dbuffer p) st"

subsection \<open>Emptying a pipe\<close>

text \<open>The loop \<open>while (pipe->read (&msg)) msg.close ()\<close>, which also counts the messages without the
  \<open>more\<close> flag, and the loop \<open>while (pipe->unwrite (&msg))\<close> of a rollback.\<close>

partial_function (option) drain_loop ::
  "('p \<Rightarrow> (msg_t option \<times> 'p) option) \<Rightarrow> 'p \<Rightarrow> 'z msg_store_scheme \<Rightarrow> nat \<Rightarrow>
   ('p \<times> 'z msg_store_scheme \<times> nat) option" where
  "drain_loop rd p st n =
     do {
       (r, p) \<leftarrow> rd p;
       (case r of None \<Rightarrow> Some (p, st, n)
        | Some m \<Rightarrow> do {
            (c, _, st) \<leftarrow> msg_close m st;
            zmq_assert (c = Rc_ok);
            drain_loop rd p st (if has_flag m flag_more then n else Suc n)
          })
     }"

declare drain_loop.simps [code]

partial_function (option) rollback_loop ::
  "('p \<Rightarrow> (msg_t option \<times> 'p) option) \<Rightarrow> 'p \<Rightarrow> 'z msg_store_scheme \<Rightarrow>
   ('p \<times> 'z msg_store_scheme) option" where
  "rollback_loop uw p st =
     do {
       (r, p) \<leftarrow> uw p;
       (case r of None \<Rightarrow> Some (p, st)
        | Some m \<Rightarrow> do {
            zmq_assert (has_flag m flag_more);
            (c, _, st) \<leftarrow> msg_close m st;
            zmq_assert (c = Rc_ok);
            rollback_loop uw p st
          })
     }"

declare rollback_loop.simps [code]

definition opt_mset :: "'a option \<Rightarrow> 'a multiset" where
  "opt_mset r = (case r of None \<Rightarrow> {#} | Some x \<Rightarrow> {#x#})"

lemma opt_mset_simps [simp]: "opt_mset None = {#}" "opt_mset (Some x) = {#x#}"
  by (simp_all add: opt_mset_def)

text \<open>What the users of \<open>ypipe_base_t\<close> rely on: \<open>owned p M n\<close> says that the pipe holds the
  messages \<open>M\<close> and yields at most \<open>n\<close> of them; nothing is lost or duplicated between the
  pipe and its user, whatever the shared contents of the messages.  \<open>sendable\<close> is what a message needs
  to be received and closed later: it is initialised and without metadata, and a credential has a
  body.\<close>

definition has_body :: "msg_t \<Rightarrow> bool" where
  "has_body m = (is_vsm m \<or> is_cmsg m \<or> is_lmsg m \<or> is_zcmsg m)"

lemma has_body_Some:
  assumes "store_inv st M" "m \<in># M" "has_body m"
  obtains d where "msg_body m st = Some d"
proof (cases "is_lmsg m \<or> is_zcmsg m")
  case True
  then obtain c ct where "msg_content m = Some c" "contents st c = Some ct"
    using assms by (fastforce simp: store_inv_def)
  then show ?thesis using that True by (auto simp: msg_body_def is_lmsg_def is_zcmsg_def)
next
  case False
  then show ?thesis using that assms(3)
    by (auto simp: has_body_def msg_body_def is_vsm_def is_cmsg_def)
qed

definition sendable :: "msg_t \<Rightarrow> bool" where
  "sendable m = (msg_check m \<and> msg_metadata m = None \<and> (is_credential m \<longrightarrow> has_body m))"

definition plain :: "msg_t multiset \<Rightarrow> bool" where
  "plain P = (\<forall>m \<in># P. \<not> is_lmsg m \<and> \<not> is_zcmsg m)"

lemma store_inv_plain_union: "plain P \<Longrightarrow> store_inv st (M + P) = store_inv st M"
proof (induction P)
  case (add m P)
  then show ?case by (simp add: store_inv_plain plain_def)
qed simp

locale message_pipe =
  fixes owned :: "'p \<Rightarrow> msg_t multiset \<Rightarrow> nat \<Rightarrow> bool"
    and rd :: "'p \<Rightarrow> (msg_t option \<times> 'p) option"
    and uw :: "'p \<Rightarrow> (msg_t option \<times> 'p) option"
  assumes read_law: "owned p M n \<Longrightarrow> \<exists>r p' M' n' P. rd p = Some (r, p') \<and> owned p' M' n' \<and>
      opt_mset r + M' = M + P \<and> plain P \<and> n' \<le> n \<and>
      (\<forall>m. r = Some m \<longrightarrow> sendable m \<and> n' < n)"
    and unwrite_law: "owned p M n \<Longrightarrow> \<exists>r p' M' n'. uw p = Some (r, p') \<and> owned p' M' n' \<and>
      opt_mset r + M' = M \<and> n' \<le> n \<and>
      (\<forall>m. r = Some m \<longrightarrow> sendable m \<and> has_flag m flag_more \<and> n' < n)"
begin

text \<open>Draining ends, closes every message it takes out, and leaves a pipe that owns the rest.\<close>

lemma drain_correct:
  assumes "owned p M n" "store_inv st (M + E)"
  shows "\<exists>p' st' M' n' k'. drain_loop rd p st k = Some (p', st', k') \<and> owned p' M' n' \<and>
    store_inv st' (M' + E) \<and> msg_store.more st' = msg_store.more st"
  using assms
proof (induction n arbitrary: p M st k rule: less_induct)
  case (less n)
  obtain r p1 M1 n1 P where r: "rd p = Some (r, p1)" "owned p1 M1 n1" "opt_mset r + M1 = M + P"
    "plain P" "\<forall>m. r = Some m \<longrightarrow> sendable m \<and> n1 < n"
    using read_law[OF less.prems(1)] by blast
  have s: "store_inv st (opt_mset r + M1 + E)"
    unfolding r(3) using less.prems(2) store_inv_plain_union[OF r(4), of st "M + E"]
    by (simp add: ac_simps)
  show ?case
  proof (cases r)
    case None
    then show ?thesis using r s by (subst drain_loop.simps) auto
  next
    case (Some m)
    then have m: "msg_check m" "msg_metadata m = None" "n1 < n" using r(5) by (auto simp: sendable_def)
    have sm: "store_inv st (add_mset m (M1 + E))" using s Some by simp
    obtain m' st1 where c: "msg_close m st = Some (Rc_ok, m', st1)" "store_inv st1 (M1 + E)"
      using msg_close_correct[OF sm m(1,2)] by metis
    show ?thesis
      using less.IH[OF m(3) r(2) c(2), of "if has_flag m flag_more then k else Suc k"] r(1) Some c(1)
        msg_close_more[OF c(1)]
      by (subst drain_loop.simps) simp
  qed
qed

lemma rollback_correct:
  assumes "owned p M n" "store_inv st (M + E)"
  shows "\<exists>p' st' M' n'. rollback_loop uw p st = Some (p', st') \<and> owned p' M' n' \<and>
    store_inv st' (M' + E) \<and> msg_store.more st' = msg_store.more st"
  using assms
proof (induction n arbitrary: p M st rule: less_induct)
  case (less n)
  obtain r p1 M1 n1 where r: "uw p = Some (r, p1)" "owned p1 M1 n1" "opt_mset r + M1 = M"
    "\<forall>m. r = Some m \<longrightarrow> sendable m \<and> has_flag m flag_more \<and> n1 < n"
    using unwrite_law[OF less.prems(1)] by blast
  have s: "store_inv st (opt_mset r + M1 + E)" using less.prems(2) r(3) by simp
  show ?case
  proof (cases r)
    case None
    then show ?thesis using r s by (subst rollback_loop.simps) auto
  next
    case (Some m)
    then have m: "msg_check m" "msg_metadata m = None" "has_flag m flag_more" "n1 < n"
      using r(4) by (auto simp: sendable_def)
    have sm: "store_inv st (add_mset m (M1 + E))" using s Some by simp
    obtain m' st1 where c: "msg_close m st = Some (Rc_ok, m', st1)" "store_inv st1 (M1 + E)"
      using msg_close_correct[OF sm m(1,2)] by metis
    show ?thesis
      using less.IH[OF m(4) r(2) c(2)] r(1) Some c(1) m(3) msg_close_more[OF c(1)] by (subst rollback_loop.simps) simp
  qed
qed

end

subsection \<open>Both implementations meet the contract\<close>

definition normal_owned :: "msg_t ypipe \<Rightarrow> msg_t apipe \<Rightarrow> bool" where
  "normal_owned p s \<longleftrightarrow> ypipe_repr message_pipe_granularity p s \<and>
     (\<forall>m \<in> set (pipe_items s). sendable m) \<and> (\<forall>m \<in> set (incomplete s). has_flag m flag_more)"

fun upipe_owned :: "upipe \<Rightarrow> msg_t multiset \<Rightarrow> nat \<Rightarrow> bool" where
  "upipe_owned (Upipe_normal p) M n =
     (\<exists>s. normal_owned p s \<and> M = mset (pipe_items s) \<and> n = length (pipe_items s))"
| "upipe_owned (Upipe_conflate p) M n =
     (M = {#db_back (cf_dbuffer p), db_front (cf_dbuffer p)#} \<and>
      sendable (db_back (cf_dbuffer p)) \<and> sendable (db_front (cf_dbuffer p)) \<and>
      n = (if db_has_msg (cf_dbuffer p) then 1 else 0))"

lemma sendable_init [simp]: "sendable (msg_init m)" "plain {#msg_init m#}"
  by (simp_all add: sendable_def msg_check_def msg_init_def msg_init_base_def plain_def is_lmsg_def
      is_zcmsg_def has_body_def is_vsm_def)

lemma sendable_check: "sendable m \<Longrightarrow> msg_check m"
  by (simp add: sendable_def)

lemma upipe_owned_normalI:
  "normal_owned p s \<Longrightarrow> upipe_owned (Upipe_normal p) (mset (pipe_items s)) (length (pipe_items s))"
  by auto

lemma upipe_read_law:
  assumes "upipe_owned u M n"
  shows "\<exists>r u' M' n' P. upipe_read u = Some (r, u') \<and> upipe_owned u' M' n' \<and>
      opt_mset r + M' = M + P \<and> plain P \<and> n' \<le> n \<and>
      (\<forall>m. r = Some m \<longrightarrow> sendable m \<and> n' < n)"
proof (cases u)
  case (Upipe_normal p)
  then obtain s where s: "normal_owned p s" "M = mset (pipe_items s)" "n = length (pipe_items s)"
    using assms by auto
  obtain p' where p': "ypipe_read message_pipe_granularity p = Some (fst (apipe_read s), p')"
    "ypipe_repr message_pipe_granularity p' (snd (apipe_read s))"
    using ypipe_read_repr s(1) unfolding normal_owned_def by blast
  have o: "normal_owned p' (snd (apipe_read s))"
    using p'(2) s(1) by (auto simp: normal_owned_def apipe_read_def split: list.splits)
  have "\<forall>m. fst (apipe_read s) = Some m \<longrightarrow> sendable m \<and> length (pipe_items (snd (apipe_read s))) < n"
    "length (pipe_items (snd (apipe_read s))) \<le> n"
    "opt_mset (fst (apipe_read s)) + mset (pipe_items (snd (apipe_read s))) = M + {#}"
    using s by (auto simp: apipe_read_def normal_owned_def split: list.splits)
  moreover have "upipe_read u = Some (fst (apipe_read s), Upipe_normal p')"
    using p'(1) Upipe_normal by simp
  moreover have "plain {#}" by (simp add: plain_def)
  ultimately show ?thesis using upipe_owned_normalI[OF o] by blast
next
  case (Upipe_conflate p)
  show ?thesis
  proof (cases "db_has_msg (cf_dbuffer p)")
    case True
    then show ?thesis
      using assms Upipe_conflate
      by (intro exI[of _ "Some (db_front (cf_dbuffer p))"] exI[of _ "{#msg_init (db_front (cf_dbuffer p))#}"])
         (auto simp: conflate_read_def conflate_check_read_def dbuffer_check_read_def dbuffer_read_def
           sendable_check)
  next
    case False
    then show ?thesis
      using assms Upipe_conflate
      by (intro exI[of _ None] exI[of _ "{#}"])
         (auto simp: conflate_read_def conflate_check_read_def dbuffer_check_read_def plain_def)
  qed
qed

lemma upipe_unwrite_law:
  assumes "upipe_owned u M n"
  shows "\<exists>r u' M' n'. upipe_unwrite u = Some (r, u') \<and> upipe_owned u' M' n' \<and>
      opt_mset r + M' = M \<and> n' \<le> n \<and>
      (\<forall>m. r = Some m \<longrightarrow> sendable m \<and> has_flag m flag_more \<and> n' < n)"
proof (cases u)
  case (Upipe_normal p)
  then obtain s where s: "normal_owned p s" "M = mset (pipe_items s)" "n = length (pipe_items s)"
    using assms by auto
  obtain p' where p': "ypipe_unwrite message_pipe_granularity p = Some (fst (apipe_unwrite s), p')"
    "ypipe_repr message_pipe_granularity p' (snd (apipe_unwrite s))"
    using ypipe_unwrite_repr s(1) unfolding normal_owned_def by blast
  have o: "normal_owned p' (snd (apipe_unwrite s))"
    using p'(2) s(1) by (auto simp: normal_owned_def apipe_unwrite_def dest: in_set_butlastD)
  have "\<forall>m. fst (apipe_unwrite s) = Some m \<longrightarrow>
      sendable m \<and> has_flag m flag_more \<and> length (pipe_items (snd (apipe_unwrite s))) < n"
    "length (pipe_items (snd (apipe_unwrite s))) \<le> n"
    "opt_mset (fst (apipe_unwrite s)) + mset (pipe_items (snd (apipe_unwrite s))) = M"
    using s by (cases "incomplete s" rule: rev_cases; simp add: apipe_unwrite_def normal_owned_def)+
  moreover have "upipe_unwrite u = Some (fst (apipe_unwrite s), Upipe_normal p')"
    using p'(1) Upipe_normal by simp
  ultimately show ?thesis using upipe_owned_normalI[OF o] by blast
next
  case (Upipe_conflate p)
  then show ?thesis using assms by (auto simp: conflate_unwrite_def)
qed

interpretation up: message_pipe upipe_owned upipe_read upipe_unwrite
  by unfold_locales (fact upipe_read_law, fact upipe_unwrite_law)

subsection \<open>The remaining operations of the interface\<close>

lemma plain_pair: "plain {#msg_init a, msg_init b#}"
  using sendable_init(2)[of a] sendable_init(2)[of b] by (simp add: plain_def)

lemma upipe_new_owned:
  obtains u M where "upipe_new c = Some u" "upipe_owned u M 0" "plain M"
proof (cases c)
  case True
  then show ?thesis
    using that[of "Upipe_conflate conflate_new" "{#msg_init msg_raw, msg_init msg_raw#}"]
    by (simp add: upipe_new_def conflate_new_def dbuffer_new_def plain_pair)
next
  case False
  obtain p :: "msg_t ypipe" where p: "ypipe_new message_pipe_granularity = Some p"
    "ypipe_repr message_pipe_granularity p apipe_new"
    using ypipe_new_repr[of message_pipe_granularity] by (auto simp: message_pipe_granularity_def)
  then have "normal_owned p apipe_new" by (simp add: normal_owned_def apipe_new_def)
  from upipe_owned_normalI[OF this] show ?thesis
    using that[of "Upipe_normal p" "{#}"] p(1) False by (simp add: upipe_new_def apipe_new_def plain_def)
qed

lemma upipe_flush_owned:
  assumes "upipe_owned u M n"
  shows "upipe_owned (snd (upipe_flush u)) M n"
proof (cases u)
  case (Upipe_normal p)
  then obtain s where s: "normal_owned p s" "M = mset (pipe_items s)" "n = length (pipe_items s)"
    using assms by auto
  obtain p' where p': "ypipe_flush p = (fst (apipe_flush s), p')"
    "ypipe_repr message_pipe_granularity p' (snd (apipe_flush s))"
    using ypipe_flush_repr s(1) unfolding normal_owned_def by blast
  have "normal_owned p' (snd (apipe_flush s))" "pipe_items (snd (apipe_flush s)) = pipe_items s"
    using p'(2) s(1) by (auto simp: normal_owned_def apipe_flush_def)
  then show ?thesis using upipe_owned_normalI p'(1) s Upipe_normal
    by (metis map_prod_simp snd_conv upipe_flush.simps(1))
next
  case (Upipe_conflate p)
  then show ?thesis using assms by (simp add: conflate_flush_def)
qed

text \<open>A successful \<open>check_read\<close> promises a message: \<open>probe\<close> sees it and \<open>read\<close> returns it.\<close>

definition upipe_front :: "upipe \<Rightarrow> msg_t \<Rightarrow> bool" where
  "upipe_front u m \<longleftrightarrow> (\<forall>fn. upipe_probe u fn = Some (fn m, u)) \<and>
     (\<exists>u'. upipe_read u = Some (Some m, u'))"

lemma ypipe_check_read_idem:
  "ypipe_check_read p = (True, p') \<Longrightarrow> ypipe_check_read p' = (True, p')"
proof -
  assume h: "ypipe_check_read p = (True, p')"
  have q: "queue p' = queue p" using h by (auto simp: ypipe_check_read_def ypipe_cas_def Let_def split: if_splits)
  have "Some (yqueue_front_addr (queue p)) \<noteq> ypipe_r p' \<and> ypipe_r p' \<noteq> None"
  proof (cases "Some (yqueue_front_addr (queue p)) \<noteq> ypipe_r p \<and> ypipe_r p \<noteq> None")
    case True
    then have "p' = p" using h by (simp add: ypipe_check_read_def Let_def)
    then show ?thesis using True by simp
  next
    case False
    let ?p = "(snd (ypipe_cas p (Some (yqueue_front_addr (queue p))) None))\<lparr>ypipe_r := ypipe_c p\<rparr>"
    have "ypipe_check_read p = (if Some (yqueue_front_addr (queue p)) = ypipe_c p \<or> ypipe_c p = None
        then (False, ?p) else (True, ?p))"
      unfolding ypipe_check_read_def using False by (simp only: if_False Let_def ypipe_cas_def) simp
    then show ?thesis using h by (auto split: if_splits)
  qed
  then show ?thesis unfolding ypipe_check_read_def q by (simp add: Let_def)
qed

lemma upipe_check_read_owned:
  assumes "upipe_owned u M n"
  shows "upipe_owned (snd (upipe_check_read u)) M n"
    and "fst (upipe_check_read u) \<Longrightarrow> \<exists>m. upipe_front (snd (upipe_check_read u)) m"
proof -
  have "upipe_owned (snd (upipe_check_read u)) M n \<and>
     (fst (upipe_check_read u) \<longrightarrow> (\<exists>m. upipe_front (snd (upipe_check_read u)) m))"
  proof (cases u)
    case (Upipe_normal p)
    then obtain s where s: "normal_owned p s" "M = mset (pipe_items s)" "n = length (pipe_items s)"
      using assms by auto
    obtain p' where p': "ypipe_check_read p = (fst (apipe_check_read s), p')"
      "ypipe_repr message_pipe_granularity p' (snd (apipe_check_read s))"
      using ypipe_check_read_repr s(1) unfolding normal_owned_def by blast
    have "normal_owned p' (snd (apipe_check_read s))" "pipe_items (snd (apipe_check_read s)) = pipe_items s"
      using p'(2) s(1) by (auto simp: normal_owned_def apipe_check_read_def)
    then have o: "upipe_owned (Upipe_normal p') M n" using upipe_owned_normalI s by metis
    have "\<exists>m. upipe_front (Upipe_normal p') m" if "fst (apipe_check_read s)"
    proof -
      obtain m ms where m: "flushed s = m # ms"
        using \<open>fst (apipe_check_read s)\<close> by (cases "flushed s") (auto simp: apipe_check_read_def)
      have r: "ypipe_repr message_pipe_granularity p' s"
        using p'(2) m by (simp add: apipe_check_read_def)
      have c: "ypipe_check_read p' = (True, p')"
        using ypipe_check_read_idem p'(1) that by auto
      have pr: "ypipe_probe p' fn = Some (fn m, p')" for fn
        using ypipe_probe_repr[OF r m, of fn] c by (auto simp: ypipe_probe_def opt_simps)
      obtain p2 where "ypipe_read message_pipe_granularity p' = Some (Some m, p2)"
        using ypipe_read_repr[OF r] m by (auto simp: apipe_read_def)
      then show ?thesis using pr by (auto simp: upipe_front_def)
    qed
    then show ?thesis using o p'(1) Upipe_normal by simp
  next
    case (Upipe_conflate p)
    then show ?thesis using assms
      by (auto simp: conflate_check_read_def dbuffer_check_read_def upipe_front_def conflate_probe_def
          dbuffer_probe_def conflate_read_def dbuffer_read_def sendable_check)
  qed
  then show "upipe_owned (snd (upipe_check_read u)) M n"
    and "fst (upipe_check_read u) \<Longrightarrow> \<exists>m. upipe_front (snd (upipe_check_read u)) m" by blast+
qed

text \<open>Writing hands the message over to the pipe; what is left in the caller's structure is not
  to be closed (it is a bitwise copy, or an empty message).\<close>

lemma upipe_write_owned:
  assumes "upipe_owned u M n" and m: "sendable m" and inv: "store_inv st (add_mset m (M + E))"
    and inc: "inc \<longrightarrow> has_flag m flag_more"
  obtains u' m' st' M' n' where "upipe_write u m inc st = Some (u', m', st')"
    "upipe_owned u' M' n'" "store_inv st' (M' + E)" "msg_store.more st' = msg_store.more st"
proof (cases u)
  case (Upipe_normal p)
  then obtain s where s: "normal_owned p s" "M = mset (pipe_items s)" "n = length (pipe_items s)"
    using assms(1) by auto
  have r: "ypipe_repr message_pipe_granularity p s" using s(1) by (simp add: normal_owned_def)
  obtain p' where p': "ypipe_write message_pipe_granularity p m inc = Some p'"
    "ypipe_repr message_pipe_granularity p' (apipe_write s m inc)"
    using ypipe_write_repr[OF r] by blast
  have "normal_owned p' (apipe_write s m inc)"
    using p'(2) s(1) m inc by (auto simp: normal_owned_def apipe_write_def)
  note o = upipe_owned_normalI[OF this]
  have "mset (pipe_items (apipe_write s m inc)) = add_mset m M"
    using s(2) by (auto simp: apipe_write_def)
  then have "store_inv st (mset (pipe_items (apipe_write s m inc)) + E)" using inv by simp
  then show ?thesis using that[OF _ o] p'(1) Upipe_normal by simp
next
  case (Upipe_conflate p)
  let ?d = "cf_dbuffer p"
  have b: "msg_check (db_back ?d)" "msg_metadata (db_back ?d) = None" "msg_check m"
    using assms(1) Upipe_conflate m by (auto simp: sendable_def)
  have "store_inv st (add_mset (db_back ?d) (add_mset m (add_mset (db_front ?d) E)))"
    using inv assms(1) Upipe_conflate by (simp add: add_mset_commute)
  then obtain st' where mv: "msg_move (db_back ?d) m st = Some (Rc_ok, m, msg_init m, st')"
    "store_inv st' (add_mset m (add_mset (msg_init m) (add_mset (db_front ?d) E)))"
    using msg_move_correct b by metis
  have S: "store_inv st' (add_mset (db_front ?d) (add_mset m E))"
    using mv(2) by (subst (asm) add_mset_commute, subst (asm) store_inv_plain)
      (simp_all add: msg_init_def msg_init_base_def is_lmsg_def is_zcmsg_def add_mset_commute)
  have W: "upipe_write u m inc st = Some (Upipe_conflate (p\<lparr>cf_dbuffer :=
      ?d\<lparr>db_back := db_front ?d, db_front := m, db_has_msg := True\<rparr>\<rparr>), msg_init m, st')"
    using Upipe_conflate mv(1) b by (simp add: conflate_write_def dbuffer_write_def)
  have O: "upipe_owned (Upipe_conflate (p\<lparr>cf_dbuffer :=
      ?d\<lparr>db_back := db_front ?d, db_front := m, db_has_msg := True\<rparr>\<rparr>)) {#db_front ?d, m#} 1"
    using assms(1) Upipe_conflate m by simp
  show ?thesis by (rule that [OF W O]) (use S msg_move_more [OF mv(1)] in simp_all)
qed

text \<open>Destroying a pipe needs nothing of its contents; the messages \<open>L\<close> a normal pipe still holds
  stay referenced from nowhere.\<close>

lemma upipe_destroy_owned:
  assumes "upipe_owned u M n" and inv: "store_inv st (M + E)"
  obtains st' L where "upipe_destroy u st = Some st'" "store_inv st' (L + E)" "L \<subseteq># M"
    "msg_store.more st' = msg_store.more st"
proof (cases u)
  case (Upipe_normal p)
  then obtain s where s: "normal_owned p s" using assms by auto
  have r: "ypipe_repr message_pipe_granularity p s" using s by (simp add: normal_owned_def)
  then obtain as where "ypipe_view message_pipe_granularity p s as" by (rule ypipe_reprE)
  note as = ypipe_viewD(1)[OF this]
  obtain q where "yqueue_destroy (queue p) = Some q" using yqueue_destroy_frees_all[OF as] by blast
  then show ?thesis using that[of st M] inv Upipe_normal by simp
next
  case (Upipe_conflate p)
  let ?b = "db_back (cf_dbuffer p)" and ?f = "db_front (cf_dbuffer p)"
  have m: "msg_check ?b" "msg_metadata ?b = None" "msg_check ?f" "msg_metadata ?f = None"
    using assms(1) Upipe_conflate by (auto simp: sendable_def)
  have i: "store_inv st (add_mset ?b (add_mset ?f E))" using assms Upipe_conflate by (simp add: add_mset_commute)
  obtain b' st1 where 1: "msg_close ?b st = Some (Rc_ok, b', st1)" "store_inv st1 (add_mset ?f E)"
    using msg_close_correct[OF i m(1,2)] by metis
  obtain f' st2 where 2: "msg_close ?f st1 = Some (Rc_ok, f', st2)" "store_inv st2 E"
    using msg_close_correct[OF 1(2) m(3,4)] by metis
  show ?thesis
    using that[of st2 "{#}"] 1 2 Upipe_conflate msg_close_more[OF 1(1)] msg_close_more[OF 2(1)]
    by (simp add: dbuffer_destroy_def)
qed

end
