(* ===== verification/Zmq_Pipe.thy ===== *)
theory Zmq_Pipe
  imports Zmq_Upipe "HOL-Library.Signed_Division"
begin

text \<open>
  Pipes between sockets and sessions: \<open>pipe_t\<close> of \<open>src/libzmq/src/pipe.hpp\<close> and \<open>pipe.cpp\<close>,
  with the commands of \<open>object.cpp\<close> they exchange.  The \<open>world\<close> holds the message store, the
  underlying one-way pipes, the pipe ends, and the commands sent and not yet processed, in order.  A
  pipe end deletes itself and its inbound one-way pipe; a use of a deleted object is \<open>None\<close>.
  Calls to the event sink go through an argument, the code of the socket or session that owns the
  pipe end.
\<close>

datatype pipe_state =
    Active | Delimiter_received | Waiting_for_delimiter | Term_ack_sent
  | Term_req_sent1 | Term_req_sent2

datatype command =
    Cmd_activate_read | Cmd_activate_write "64 word" | Cmd_hiccup nat
  | Cmd_pipe_term | Cmd_pipe_term_ack | Cmd_pipe_hwm int int

datatype pipe_event = Read_activated | Write_activated | Hiccuped | Pipe_terminated

record pipe_t =
  inpipe :: "nat option"
  outpipe :: "nat option"
  in_active :: bool
  out_active :: bool
  hwm :: int
  lwm :: int
  inhwmboost :: int
  outhwmboost :: int
  msgs_read :: "64 word"
  msgs_written :: "64 word"
  peers_msgs_read :: "64 word"
  peer :: "nat option"
  sink_set :: bool
  state :: pipe_state
  delay :: bool
  router_socket_routing_id :: bytes
  server_socket_routing_id :: "32 word"
  credential :: bytes
  conflate :: bool

record world = msg_store +
  upipes :: "nat \<Rightarrow> upipe option"
  next_upipe :: nat
  pipes :: "nat \<Rightarrow> pipe_t option"
  next_pipe :: nat
  sent :: "(nat \<times> command) list"

definition put_upipe :: "nat \<Rightarrow> upipe \<Rightarrow> 'z world_scheme \<Rightarrow> 'z world_scheme" where
  "put_upipe k u w = w\<lparr>upipes := (upipes w)(k \<mapsto> u)\<rparr>"

definition put_pipe :: "nat \<Rightarrow> pipe_t \<Rightarrow> 'z world_scheme \<Rightarrow> 'z world_scheme" where
  "put_pipe p x w = w\<lparr>pipes := (pipes w)(p \<mapsto> x)\<rparr>"

text \<open>Addition of C \<open>int\<close>s: overflow is undefined.\<close>

definition int_add :: "int \<Rightarrow> int \<Rightarrow> int option" where
  "int_add a b = (if - (2 ^ 31) \<le> a + b \<and> a + b < 2 ^ 31 then Some (a + b) else None)"

text \<open>Sending a command reads the thread of its destination, which must still exist.\<close>

definition send_to :: "nat option \<Rightarrow> command \<Rightarrow> 'z world_scheme \<Rightarrow> 'z world_scheme option" where
  "send_to d c w =
     do {
       d \<leftarrow> d;
       _ \<leftarrow> pipes w d;
       Some (w\<lparr>sent := sent w @ [(d, c)]\<rparr>)
     }"

definition send_activate_read :: "nat option \<Rightarrow> 'z world_scheme \<Rightarrow> 'z world_scheme option" where
  "send_activate_read d w = send_to d Cmd_activate_read w"

definition send_activate_write :: "nat option \<Rightarrow> 64 word \<Rightarrow> 'z world_scheme \<Rightarrow> 'z world_scheme option" where
  "send_activate_write d n w = send_to d (Cmd_activate_write n) w"

definition send_hiccup :: "nat option \<Rightarrow> nat \<Rightarrow> 'z world_scheme \<Rightarrow> 'z world_scheme option" where
  "send_hiccup d k w = send_to d (Cmd_hiccup k) w"

definition send_pipe_term :: "nat option \<Rightarrow> 'z world_scheme \<Rightarrow> 'z world_scheme option" where
  "send_pipe_term d w = send_to d Cmd_pipe_term w"

definition send_pipe_term_ack :: "nat option \<Rightarrow> 'z world_scheme \<Rightarrow> 'z world_scheme option" where
  "send_pipe_term_ack d w = send_to d Cmd_pipe_term_ack w"

definition send_pipe_hwm :: "nat option \<Rightarrow> int \<Rightarrow> int \<Rightarrow> 'z world_scheme \<Rightarrow> 'z world_scheme option" where
  "send_pipe_hwm d i ou w = send_to d (Cmd_pipe_hwm i ou) w"

subsection \<open>Creation and settings\<close>

definition compute_lwm :: "int \<Rightarrow> int option" where
  "compute_lwm h = do { n \<leftarrow> int_add h 1; Some (n sdiv 2) }"

definition pipe_new :: "nat \<Rightarrow> nat \<Rightarrow> int \<Rightarrow> int \<Rightarrow> bool \<Rightarrow> pipe_t option" where
  "pipe_new ink outk inhwm outhwm conf =
     do {
       l \<leftarrow> compute_lwm inhwm;
       Some \<lparr>inpipe = Some ink, outpipe = Some outk, in_active = True, out_active = True,
         hwm = outhwm, lwm = l, inhwmboost = -1, outhwmboost = -1, msgs_read = 0, msgs_written = 0,
         peers_msgs_read = 0, peer = None, sink_set = False, state = Active, delay = True,
         router_socket_routing_id = [], server_socket_routing_id = 0, credential = [],
         conflate = conf\<rparr>
     }"

definition set_peer :: "nat \<Rightarrow> pipe_t \<Rightarrow> pipe_t option" where
  "set_peer q x = do { zmq_assert (peer x = None); Some (x\<lparr>peer := Some q\<rparr>) }"

definition set_event_sink :: "pipe_t \<Rightarrow> pipe_t option" where
  "set_event_sink x = do { zmq_assert (\<not> sink_set x); Some (x\<lparr>sink_set := True\<rparr>) }"

definition new_upipe :: "bool \<Rightarrow> 'z world_scheme \<Rightarrow> (nat \<times> 'z world_scheme) option" where
  "new_upipe conf w =
     do {
       u \<leftarrow> upipe_new conf;
       Some (next_upipe w, (put_upipe (next_upipe w) u w)\<lparr>next_upipe := Suc (next_upipe w)\<rparr>)
     }"

definition new_pipe :: "pipe_t \<Rightarrow> 'z world_scheme \<Rightarrow> nat \<times> 'z world_scheme" where
  "new_pipe x w = (next_pipe w, (put_pipe (next_pipe w) x w)\<lparr>next_pipe := Suc (next_pipe w)\<rparr>)"

text \<open>The arrays of two high water marks and two conflate flags are pairs.\<close>

definition pipepair ::
  "int \<times> int \<Rightarrow> bool \<times> bool \<Rightarrow> 'z world_scheme \<Rightarrow> (nat \<times> nat \<times> 'z world_scheme) option" where
  "pipepair hwms conf w =
     do {
       (u1, w) \<leftarrow> new_upipe (fst conf) w;
       (u2, w) \<leftarrow> new_upipe (snd conf) w;
       x0 \<leftarrow> pipe_new u1 u2 (snd hwms) (fst hwms) (fst conf);
       (p0, w) \<leftarrow> Some (new_pipe x0 w);
       x1 \<leftarrow> pipe_new u2 u1 (fst hwms) (snd hwms) (snd conf);
       (p1, w) \<leftarrow> Some (new_pipe x1 w);
       x0 \<leftarrow> set_peer p1 x0;
       x1 \<leftarrow> set_peer p0 x1;
       Some (p0, p1, put_pipe p1 x1 (put_pipe p0 x0 w))
     }"

definition set_server_socket_routing_id :: "32 word \<Rightarrow> pipe_t \<Rightarrow> pipe_t" where
  "set_server_socket_routing_id r x = x\<lparr>server_socket_routing_id := r\<rparr>"

definition set_router_socket_routing_id :: "bytes \<Rightarrow> pipe_t \<Rightarrow> pipe_t" where
  "set_router_socket_routing_id r x = x\<lparr>router_socket_routing_id := r\<rparr>"

definition set_nodelay :: "pipe_t \<Rightarrow> pipe_t" where
  "set_nodelay x = x\<lparr>delay := False\<rparr>"

definition set_hwms :: "int \<Rightarrow> int \<Rightarrow> pipe_t \<Rightarrow> pipe_t option" where
  "set_hwms inhwm outhwm x =
     do {
       i \<leftarrow> int_add inhwm (if inhwmboost x > 0 then inhwmboost x else 0);
       ou \<leftarrow> int_add outhwm (if outhwmboost x > 0 then outhwmboost x else 0);
       i \<leftarrow> Some (if inhwm \<le> 0 \<or> inhwmboost x = 0 then 0 else i);
       ou \<leftarrow> Some (if outhwm \<le> 0 \<or> outhwmboost x = 0 then 0 else ou);
       l \<leftarrow> compute_lwm i;
       Some (x\<lparr>lwm := l, hwm := ou\<rparr>)
     }"

definition set_hwms_boost :: "int \<Rightarrow> int \<Rightarrow> pipe_t \<Rightarrow> pipe_t" where
  "set_hwms_boost i ou x = x\<lparr>inhwmboost := i, outhwmboost := ou\<rparr>"

definition check_hwm :: "pipe_t \<Rightarrow> bool" where
  "check_hwm x =
     (\<not> (hwm x > 0 \<and> uint (msgs_written x - peers_msgs_read x) \<ge> hwm x))"

definition send_hwms_to_peer :: "int \<Rightarrow> int \<Rightarrow> nat \<Rightarrow> 'z world_scheme \<Rightarrow> 'z world_scheme option" where
  "send_hwms_to_peer i ou p w = do { x \<leftarrow> pipes w p; send_pipe_hwm (peer x) i ou w }"

subsection \<open>Reading\<close>

definition process_delimiter :: "nat \<Rightarrow> 'z world_scheme \<Rightarrow> 'z world_scheme option" where
  "process_delimiter p w =
     do {
       x \<leftarrow> pipes w p;
       zmq_assert (state x = Active \<or> state x = Waiting_for_delimiter);
       (if state x = Active then Some (put_pipe p (x\<lparr>state := Delimiter_received\<rparr>) w)
        else do {
          w \<leftarrow> send_pipe_term_ack (peer x) (put_pipe p (x\<lparr>outpipe := None\<rparr>) w);
          Some (put_pipe p (x\<lparr>outpipe := None, state := Term_ack_sent\<rparr>) w)
        })
     }"

definition pipe_check_read :: "nat \<Rightarrow> 'z world_scheme \<Rightarrow> (bool \<times> 'z world_scheme) option" where
  "pipe_check_read p w =
     do {
       x \<leftarrow> pipes w p;
       (if \<not> in_active x then Some (False, w)
        else if state x \<noteq> Active \<and> state x \<noteq> Waiting_for_delimiter then Some (False, w)
        else do {
          k \<leftarrow> inpipe x;
          u \<leftarrow> upipes w k;
          (ok, u) \<leftarrow> Some (upipe_check_read u);
          (if \<not> ok then Some (False, put_pipe p (x\<lparr>in_active := False\<rparr>) (put_upipe k u w))
           else do {
             (d, u) \<leftarrow> upipe_probe u is_delimiter;
             (if d then do {
                (r, u) \<leftarrow> upipe_read u;
                zmq_assert (r \<noteq> None);
                w \<leftarrow> process_delimiter p (put_upipe k u w);
                Some (False, w)
              }
              else Some (True, put_upipe k u w))
           })
        })
     }"

text \<open>The loop that skips credentials; \<open>True\<close> is returned with the first other message.\<close>

partial_function (option) pipe_read_message ::
  "nat \<Rightarrow> nat \<Rightarrow> msg_t \<Rightarrow> 'z world_scheme \<Rightarrow> (bool \<times> msg_t \<times> 'z world_scheme) option" where
  "pipe_read_message p k m w =
     do {
       x \<leftarrow> pipes w p;
       u \<leftarrow> upipes w k;
       (r, u) \<leftarrow> upipe_read u;
       (case r of
          None \<Rightarrow> Some (False, m, put_pipe p (x\<lparr>in_active := False\<rparr>) (put_upipe k u w))
        | Some m \<Rightarrow>
            if is_credential m
            then do {
              d \<leftarrow> msg_body m w;
              (c, m, w) \<leftarrow> msg_close m (put_pipe p (x\<lparr>credential := d\<rparr>) (put_upipe k u w));
              zmq_assert (c = Rc_ok);
              pipe_read_message p k m w
            }
            else Some (True, m, put_upipe k u w))
     }"

declare pipe_read_message.simps [code]

definition count_read :: "msg_t \<Rightarrow> pipe_t \<Rightarrow> pipe_t" where
  "count_read m x =
     (if \<not> has_flag m flag_more \<and> \<not> is_routing_id m then x\<lparr>msgs_read := msgs_read x + 1\<rparr> else x)"

definition pipe_read :: "nat \<Rightarrow> msg_t \<Rightarrow> 'z world_scheme \<Rightarrow> (bool \<times> msg_t \<times> 'z world_scheme) option" where
  "pipe_read p m w =
     do {
       x \<leftarrow> pipes w p;
       (if \<not> in_active x then Some (False, m, w)
        else if state x \<noteq> Active \<and> state x \<noteq> Waiting_for_delimiter then Some (False, m, w)
        else do {
          k \<leftarrow> inpipe x;
          (ok, m, w) \<leftarrow> pipe_read_message p k m w;
          (if \<not> ok then Some (False, m, w)
           else if is_delimiter m then do { w \<leftarrow> process_delimiter p w; Some (False, m, w) }
           else do {
             x \<leftarrow> pipes w p;
             x \<leftarrow> Some (count_read m x);
             w \<leftarrow> Some (put_pipe p x w);
             w \<leftarrow> (if lwm x > 0 \<and> uint (msgs_read x) mod lwm x = 0
                  then send_activate_write (peer x) (msgs_read x) w else Some w);
             Some (True, m, w)
           })
        })
     }"

subsection \<open>Writing\<close>

definition pipe_check_write :: "nat \<Rightarrow> 'z world_scheme \<Rightarrow> (bool \<times> 'z world_scheme) option" where
  "pipe_check_write p w =
     do {
       x \<leftarrow> pipes w p;
       (if \<not> out_active x \<or> state x \<noteq> Active then Some (False, w)
        else if \<not> check_hwm x then Some (False, put_pipe p (x\<lparr>out_active := False\<rparr>) w)
        else Some (True, w))
     }"

definition pipe_write :: "nat \<Rightarrow> msg_t \<Rightarrow> 'z world_scheme \<Rightarrow> (bool \<times> msg_t \<times> 'z world_scheme) option" where
  "pipe_write p m w =
     do {
       (ok, w) \<leftarrow> pipe_check_write p w;
       (if \<not> ok then Some (False, m, w)
        else do {
          x \<leftarrow> pipes w p;
          k \<leftarrow> outpipe x;
          u \<leftarrow> upipes w k;
          (u, m', w) \<leftarrow> upipe_write u m (has_flag m flag_more) w;
          x \<leftarrow> Some (if \<not> has_flag m flag_more \<and> \<not> is_routing_id m
                    then x\<lparr>msgs_written := msgs_written x + 1\<rparr> else x);
          Some (True, m', put_pipe p x (put_upipe k u w))
        })
     }"

definition pipe_rollback :: "nat \<Rightarrow> 'z world_scheme \<Rightarrow> 'z world_scheme option" where
  "pipe_rollback p w =
     do {
       x \<leftarrow> pipes w p;
       (case outpipe x of None \<Rightarrow> Some w
        | Some k \<Rightarrow> do {
            u \<leftarrow> upipes w k;
            (u, w) \<leftarrow> rollback_loop upipe_unwrite u w;
            Some (put_upipe k u w)
          })
     }"

definition pipe_flush :: "nat \<Rightarrow> 'z world_scheme \<Rightarrow> 'z world_scheme option" where
  "pipe_flush p w =
     do {
       x \<leftarrow> pipes w p;
       (if state x = Term_ack_sent then Some w
        else case outpipe x of None \<Rightarrow> Some w
        | Some k \<Rightarrow> do {
            u \<leftarrow> upipes w k;
            (ok, u) \<leftarrow> Some (upipe_flush u);
            w \<leftarrow> Some (put_upipe k u w);
            (if \<not> ok then send_activate_read (peer x) w else Some w)
          })
     }"

subsection \<open>Commands from the peer\<close>

text \<open>The sink is the code of the owner of the pipe end; calling it needs \<open>set_event_sink\<close> first.\<close>

definition call_sink ::
  "(pipe_event \<Rightarrow> nat \<Rightarrow> 'z world_scheme \<Rightarrow> 'z world_scheme option) \<Rightarrow> pipe_event \<Rightarrow> nat \<Rightarrow>
   'z world_scheme \<Rightarrow> 'z world_scheme option" where
  "call_sink sink e p w =
     do {
       x \<leftarrow> pipes w p;
       zmq_assert (sink_set x);
       sink e p w
     }"

definition process_activate_read ::
  "(pipe_event \<Rightarrow> nat \<Rightarrow> 'z world_scheme \<Rightarrow> 'z world_scheme option) \<Rightarrow> nat \<Rightarrow>
   'z world_scheme \<Rightarrow> 'z world_scheme option" where
  "process_activate_read sink p w =
     do {
       x \<leftarrow> pipes w p;
       (if \<not> in_active x \<and> (state x = Active \<or> state x = Waiting_for_delimiter)
        then call_sink sink Read_activated p (put_pipe p (x\<lparr>in_active := True\<rparr>) w)
        else Some w)
     }"

definition process_activate_write ::
  "(pipe_event \<Rightarrow> nat \<Rightarrow> 'z world_scheme \<Rightarrow> 'z world_scheme option) \<Rightarrow> 64 word \<Rightarrow> nat \<Rightarrow>
   'z world_scheme \<Rightarrow> 'z world_scheme option" where
  "process_activate_write sink n p w =
     do {
       x \<leftarrow> pipes w p;
       x \<leftarrow> Some (x\<lparr>peers_msgs_read := n\<rparr>);
       (if \<not> out_active x \<and> state x = Active
        then call_sink sink Write_activated p (put_pipe p (x\<lparr>out_active := True\<rparr>) w)
        else Some (put_pipe p x w))
     }"

definition delete_upipe :: "nat \<Rightarrow> 'z world_scheme \<Rightarrow> 'z world_scheme option" where
  "delete_upipe k w =
     do {
       u \<leftarrow> upipes w k;
       w \<leftarrow> upipe_destroy u w;
       Some (w\<lparr>upipes := (upipes w)(k := None)\<rparr>)
     }"

definition process_hiccup ::
  "(pipe_event \<Rightarrow> nat \<Rightarrow> 'z world_scheme \<Rightarrow> 'z world_scheme option) \<Rightarrow> nat \<Rightarrow> nat \<Rightarrow>
   'z world_scheme \<Rightarrow> 'z world_scheme option" where
  "process_hiccup sink newk p w =
     do {
       x \<leftarrow> pipes w p;
       k \<leftarrow> outpipe x;
       u \<leftarrow> upipes w k;
       (_, u) \<leftarrow> Some (upipe_flush u);
       (u, w, n) \<leftarrow> drain_loop upipe_read u w 0;
       w \<leftarrow> delete_upipe k (put_upipe k u w);
       x \<leftarrow> Some (x\<lparr>msgs_written := msgs_written x - of_nat n, outpipe := Some newk, out_active := True\<rparr>);
       w \<leftarrow> Some (put_pipe p x w);
       (if state x = Active then call_sink sink Hiccuped p w else Some w)
     }"

definition process_pipe_term :: "nat \<Rightarrow> 'z world_scheme \<Rightarrow> 'z world_scheme option" where
  "process_pipe_term p w =
     do {
       x \<leftarrow> pipes w p;
       zmq_assert (state x = Active \<or> state x = Delimiter_received \<or> state x = Term_req_sent1);
       (if state x = Active
        then if delay x then Some (put_pipe p (x\<lparr>state := Waiting_for_delimiter\<rparr>) w)
          else send_pipe_term_ack (peer x) (put_pipe p (x\<lparr>state := Term_ack_sent, outpipe := None\<rparr>) w)
        else if state x = Delimiter_received
        then send_pipe_term_ack (peer x) (put_pipe p (x\<lparr>state := Term_ack_sent, outpipe := None\<rparr>) w)
        else send_pipe_term_ack (peer x) (put_pipe p (x\<lparr>state := Term_req_sent2, outpipe := None\<rparr>) w))
     }"

definition process_pipe_term_ack ::
  "(pipe_event \<Rightarrow> nat \<Rightarrow> 'z world_scheme \<Rightarrow> 'z world_scheme option) \<Rightarrow> nat \<Rightarrow>
   'z world_scheme \<Rightarrow> 'z world_scheme option" where
  "process_pipe_term_ack sink p w =
     do {
       w \<leftarrow> call_sink sink Pipe_terminated p w;
       x \<leftarrow> pipes w p;
       w \<leftarrow> (if state x = Term_req_sent1
            then send_pipe_term_ack (peer x) (put_pipe p (x\<lparr>outpipe := None\<rparr>) w)
            else do {
              zmq_assert (state x = Term_ack_sent \<or> state x = Term_req_sent2);
              Some w
            });
       k \<leftarrow> inpipe x;
       u \<leftarrow> upipes w k;
       (u, w, _) \<leftarrow> (if \<not> conflate x then drain_loop upipe_read u w 0 else Some (u, w, 0));
       w \<leftarrow> delete_upipe k (put_upipe k u w);
       Some (w\<lparr>pipes := (pipes w)(p := None)\<rparr>)
     }"

definition process_pipe_hwm :: "int \<Rightarrow> int \<Rightarrow> nat \<Rightarrow> 'z world_scheme \<Rightarrow> 'z world_scheme option" where
  "process_pipe_hwm i ou p w =
     do {
       x \<leftarrow> pipes w p;
       x \<leftarrow> set_hwms i ou x;
       Some (put_pipe p x w)
     }"

text \<open>The dispatch of \<open>object_t::process_command\<close> for the commands a pipe end gets.\<close>

fun process_command ::
  "(pipe_event \<Rightarrow> nat \<Rightarrow> 'z world_scheme \<Rightarrow> 'z world_scheme option) \<Rightarrow> nat \<Rightarrow> command \<Rightarrow>
   'z world_scheme \<Rightarrow> 'z world_scheme option" where
  "process_command sink p Cmd_activate_read w = process_activate_read sink p w"
| "process_command sink p (Cmd_activate_write n) w = process_activate_write sink n p w"
| "process_command sink p (Cmd_hiccup k) w = process_hiccup sink k p w"
| "process_command sink p Cmd_pipe_term w = process_pipe_term p w"
| "process_command sink p Cmd_pipe_term_ack w = process_pipe_term_ack sink p w"
| "process_command sink p (Cmd_pipe_hwm i ou) w = process_pipe_hwm i ou p w"

subsection \<open>Hiccup and termination\<close>

definition pipe_hiccup :: "nat \<Rightarrow> 'z world_scheme \<Rightarrow> 'z world_scheme option" where
  "pipe_hiccup p w =
     do {
       x \<leftarrow> pipes w p;
       (if state x \<noteq> Active then Some w
        else do {
          (k, w) \<leftarrow> new_upipe (conflate x) w;
          send_hiccup (peer x) k (put_pipe p (x\<lparr>inpipe := Some k, in_active := True\<rparr>) w)
        })
     }"

text \<open>The last part of \<open>terminate\<close>: stop the outbound flow and write the delimiter.\<close>

definition terminate_finish :: "nat \<Rightarrow> 'z world_scheme \<Rightarrow> 'z world_scheme option" where
  "terminate_finish p w =
     do {
       x \<leftarrow> pipes w p;
       w \<leftarrow> Some (put_pipe p (x\<lparr>out_active := False\<rparr>) w);
       (case outpipe x of None \<Rightarrow> Some w
        | Some k \<Rightarrow> do {
            w \<leftarrow> pipe_rollback p w;
            u \<leftarrow> upipes w k;
            (u, _, w) \<leftarrow> upipe_write u (msg_init_delimiter msg_raw) False w;
            pipe_flush p (put_upipe k u w)
          })
     }"

definition pipe_terminate :: "bool \<Rightarrow> nat \<Rightarrow> 'z world_scheme \<Rightarrow> 'z world_scheme option" where
  "pipe_terminate dly p w =
     do {
       x \<leftarrow> pipes w p;
       x \<leftarrow> Some (x\<lparr>delay := dly\<rparr>);
       w \<leftarrow> Some (put_pipe p x w);
       (if state x = Term_req_sent1 \<or> state x = Term_req_sent2 then Some w
        else if state x = Term_ack_sent then Some w
        else if state x = Active \<or> state x = Delimiter_received
        then do {
          w \<leftarrow> send_pipe_term (peer x) w;
          terminate_finish p (put_pipe p (x\<lparr>state := Term_req_sent1\<rparr>) w)
        }
        else if state x = Waiting_for_delimiter \<and> \<not> delay x
        then do {
          w \<leftarrow> pipe_rollback p w;
          w \<leftarrow> send_pipe_term_ack (peer x) (put_pipe p (x\<lparr>outpipe := None\<rparr>) w);
          terminate_finish p (put_pipe p (x\<lparr>outpipe := None, state := Term_ack_sent\<rparr>) w)
        }
        else terminate_finish p w)
     }"

end
