(* ===== verification/Zmq_Pipe_Inv.thy ===== *)
theory Zmq_Pipe_Inv
  imports Zmq_Pipe
begin

text \<open>
  The ownership invariant of a world: every one-way pipe is well formed, and the messages in
  all of them, together with those held elsewhere (\<open>E\<close>), are exactly the holders of the shared
  contents.  Each operation of \<open>src/libzmq/src/pipe.cpp\<close> on one-way pipes is shown to keep it.
\<close>

definition pipes_inv :: "'z world_scheme \<Rightarrow> msg_t multiset \<Rightarrow> bool" where
  "pipes_inv w E \<longleftrightarrow> finite (dom (upipes w)) \<and> (\<forall>k \<in> dom (upipes w). k < next_upipe w) \<and>
     (\<exists>H. (\<forall>k u. upipes w k = Some u \<longrightarrow> (\<exists>n. upipe_owned u (H k) n)) \<and>
          store_inv w ((\<Sum>k \<in> dom (upipes w). H k) + E))"

lemma store_inv_cong:
  "contents w' = contents w \<Longrightarrow> next_content w' = next_content w \<Longrightarrow> store_inv w' M = store_inv w M"
  by (simp add: store_inv_def)

lemma store_inv_world [simp]:
  "store_inv (put_pipe p x w) M = store_inv w M"
  "store_inv (put_upipe k u w) M = store_inv w M"
  "store_inv (w\<lparr>sent := s\<rparr>) M = store_inv w M"
  "store_inv (w\<lparr>upipes := us\<rparr>) M = store_inv w M"
  "store_inv (w\<lparr>next_upipe := i\<rparr>) M = store_inv w M"
  "store_inv (w\<lparr>pipes := ps\<rparr>) M = store_inv w M"
  "store_inv (w\<lparr>next_pipe := j\<rparr>) M = store_inv w M"
  by (simp_all add: store_inv_def put_pipe_def put_upipe_def)

lemma world_selectors [simp]:
  "upipes (put_pipe p x w) = upipes w" "next_upipe (put_pipe p x w) = next_upipe w"
  "sent (put_pipe p x w) = sent w" "pipes (put_pipe p x w) = (pipes w)(p \<mapsto> x)"
  "upipes (put_upipe k u w) = (upipes w)(k \<mapsto> u)" "next_upipe (put_upipe k u w) = next_upipe w"
  "sent (put_upipe k u w) = sent w" "pipes (put_upipe k u w) = pipes w"
  "next_pipe (put_pipe p x w) = next_pipe w" "next_pipe (put_upipe k u w) = next_pipe w"
  by (simp_all add: put_pipe_def put_upipe_def)

lemma pipes_inv_world [simp]:
  "pipes_inv (put_pipe p x w) E = pipes_inv w E"
  "pipes_inv (w\<lparr>sent := s\<rparr>) E = pipes_inv w E"
  "pipes_inv (w\<lparr>pipes := ps\<rparr>) E = pipes_inv w E"
  "pipes_inv (w\<lparr>next_pipe := j\<rparr>) E = pipes_inv w E"
  by (simp_all add: pipes_inv_def)

lemma world_more:
  assumes "msg_store.more w' = msg_store.more w"
  shows "upipes w' = upipes w" "next_upipe w' = next_upipe w" "pipes w' = pipes w"
    "sent w' = sent w" "next_pipe w' = next_pipe w"
  using assms by (cases w; cases w'; simp)+

text \<open>Working on one pipe: \<open>F\<close> is what the others hold.\<close>

lemma pipes_focus:
  fixes w :: "'z world_scheme"
  assumes inv: "pipes_inv w E" and k: "upipes w k = Some u"
  obtains M n F where "upipe_owned u M n" "store_inv w (M + (F + E))"
    "\<And>(w' :: 'z world_scheme) u' M' n' E'. upipe_owned u' M' n' \<Longrightarrow> store_inv w' (M' + (F + E')) \<Longrightarrow>
       upipes w' = (upipes w)(k \<mapsto> u') \<Longrightarrow> next_upipe w' = next_upipe w \<Longrightarrow> pipes_inv w' E'"
    "\<And>(w' :: 'z world_scheme) E'. store_inv w' (F + E') \<Longrightarrow> upipes w' = (upipes w)(k := None) \<Longrightarrow>
       next_upipe w' = next_upipe w \<Longrightarrow> pipes_inv w' E'"
proof -
  obtain H where H: "\<forall>k u. upipes w k = Some u \<longrightarrow> (\<exists>n. upipe_owned u (H k) n)"
    "store_inv w ((\<Sum>k \<in> dom (upipes w). H k) + E)"
    and fin: "finite (dom (upipes w))" and nx: "\<forall>k \<in> dom (upipes w). k < next_upipe w"
    using inv by (auto simp: pipes_inv_def)
  let ?D = "dom (upipes w)"
  define F where "F = (\<Sum>i \<in> ?D - {k}. H i)"
  have kD: "k \<in> ?D" using k by auto
  have sum: "(\<Sum>i \<in> ?D. H i) = H k + F" using fin kD unfolding F_def by (rule sum.remove)
  obtain n where n: "upipe_owned u (H k) n" using H(1) k by blast
  have upd: "pipes_inv w' E'" if "upipe_owned u' M' n'" "store_inv w' (M' + (F + E'))"
      "upipes w' = (upipes w)(k \<mapsto> u')" "next_upipe w' = next_upipe w" for w' :: "'z world_scheme" and u' M' n' E'
  proof -
    let ?H = "H(k := M')"
    have d: "dom (upipes w') = ?D" using that(3) kD by auto
    have "(\<Sum>i \<in> ?D. ?H i) = M' + F"
      using fin kD unfolding F_def by (subst sum.remove[of _ k]) (auto intro: sum.cong)
    moreover have "\<forall>i v. upipes w' i = Some v \<longrightarrow> (\<exists>n. upipe_owned v (?H i) n)"
      using that(1,3) H(1) by auto
    ultimately show ?thesis
      unfolding pipes_inv_def d using fin nx that(2,4) by (intro conjI exI[of _ ?H]) (simp_all add: ac_simps)
  qed
  have del: "pipes_inv w' E'" if "store_inv w' (F + E')" "upipes w' = (upipes w)(k := None)"
      "next_upipe w' = next_upipe w" for w' :: "'z world_scheme" and E'
  proof -
    have d: "dom (upipes w') = ?D - {k}" using that(2) by auto
    show ?thesis
      unfolding pipes_inv_def d using fin nx that H(1)
      by (intro conjI exI[of _ H]) (auto simp: F_def)
  qed
  show ?thesis
  proof (rule that[OF n _ upd del])
    show "store_inv w (H k + (F + E))" using H(2) unfolding sum by (simp add: ac_simps)
  qed
qed

lemma pipes_inv_plain: "plain P \<Longrightarrow> pipes_inv w (E + P) = pipes_inv w E"
  unfolding pipes_inv_def using store_inv_plain_union by (metis add.assoc)

lemma pipes_inv_new_upipe:
  assumes inv: "pipes_inv w E"
  obtains w' where "new_upipe c w = Some (next_upipe w, w')" "pipes_inv w' E" "pipes w' = pipes w"
    "sent w' = sent w" "dom (upipes w') = insert (next_upipe w) (dom (upipes w))"
    "next_upipe w' = Suc (next_upipe w)" "next_pipe w' = next_pipe w"
proof -
  let ?k = "next_upipe w" and ?D = "dom (upipes w)"
  obtain u M where u: "upipe_new c = Some u" "upipe_owned u M 0" "plain M" using upipe_new_owned by blast
  let ?w = "(put_upipe ?k u w)\<lparr>next_upipe := Suc ?k\<rparr>"
  obtain H where H: "\<forall>k u. upipes w k = Some u \<longrightarrow> (\<exists>n. upipe_owned u (H k) n)"
    "store_inv w ((\<Sum>k \<in> ?D. H k) + E)" and fin: "finite ?D" and nx: "\<forall>k \<in> ?D. k < ?k"
    using inv by (auto simp: pipes_inv_def)
  let ?H = "H(?k := M)"
  have kD: "?k \<notin> ?D" using nx by blast
  have d: "dom (upipes ?w) = insert ?k ?D" by simp
  have "(\<Sum>i \<in> insert ?k ?D. ?H i) = M + (\<Sum>i \<in> ?D. H i)"
    using fin kD by (simp, intro sum.cong) auto
  then have "store_inv ?w ((\<Sum>i \<in> insert ?k ?D. ?H i) + E)"
    using H(2) store_inv_plain_union[OF u(3), of w "(\<Sum>i \<in> ?D. H i) + E"] by (simp add: ac_simps)
  moreover have "\<forall>i v. upipes ?w i = Some v \<longrightarrow> (\<exists>n. upipe_owned v (?H i) n)"
    using H(1) u(2) by auto
  moreover have "\<forall>i \<in> insert ?k ?D. i < next_upipe ?w" using nx by (auto simp: less_Suc_eq)
  ultimately have "pipes_inv ?w E" unfolding pipes_inv_def d using fin by blast
  then show ?thesis using that[of ?w] u(1) by (simp add: new_upipe_def)
qed

subsection \<open>Operations on one pipe\<close>

lemma pipes_inv_flush:
  fixes w :: "'z world_scheme"
  assumes "pipes_inv w E" "upipes w k = Some u"
  shows "pipes_inv (put_upipe k (snd (upipe_flush u)) w) E"
proof -
  obtain M n F where f: "upipe_owned u M n" "store_inv w (M + (F + E))"
    "\<And>(w' :: 'z world_scheme) u' M' n' E'. upipe_owned u' M' n' \<Longrightarrow> store_inv w' (M' + (F + E')) \<Longrightarrow>
       upipes w' = (upipes w)(k \<mapsto> u') \<Longrightarrow> next_upipe w' = next_upipe w \<Longrightarrow> pipes_inv w' E'"
    using pipes_focus[OF assms] by metis
  show ?thesis by (rule f(3)[OF upipe_flush_owned[OF f(1)]]) (use f(2) in simp_all)
qed

lemma pipes_inv_check_read:
  fixes w :: "'z world_scheme"
  assumes "pipes_inv w E" "upipes w k = Some u"
  shows "pipes_inv (put_upipe k (snd (upipe_check_read u)) w) E"
    and "fst (upipe_check_read u) \<Longrightarrow> \<exists>m. upipe_front (snd (upipe_check_read u)) m"
proof -
  obtain M n F where f: "upipe_owned u M n" "store_inv w (M + (F + E))"
    "\<And>(w' :: 'z world_scheme) u' M' n' E'. upipe_owned u' M' n' \<Longrightarrow> store_inv w' (M' + (F + E')) \<Longrightarrow>
       upipes w' = (upipes w)(k \<mapsto> u') \<Longrightarrow> next_upipe w' = next_upipe w \<Longrightarrow> pipes_inv w' E'"
    using pipes_focus[OF assms] by metis
  show "pipes_inv (put_upipe k (snd (upipe_check_read u)) w) E"
    by (rule f(3)[OF upipe_check_read_owned(1)[OF f(1)]]) (use f(2) in simp_all)
  show "fst (upipe_check_read u) \<Longrightarrow> \<exists>m. upipe_front (snd (upipe_check_read u)) m"
    using upipe_check_read_owned(2)[OF f(1)] .
qed

lemma pipes_inv_read:
  fixes w :: "'z world_scheme"
  assumes "pipes_inv w E" "upipes w k = Some u"
  obtains r u' where "upipe_read u = Some (r, u')" "pipes_inv (put_upipe k u' w) (opt_mset r + E)"
    "\<forall>m. r = Some m \<longrightarrow> sendable m"
proof -
  obtain M n F where f: "upipe_owned u M n" "store_inv w (M + (F + E))"
    "\<And>(w' :: 'z world_scheme) u' M' n' E'. upipe_owned u' M' n' \<Longrightarrow> store_inv w' (M' + (F + E')) \<Longrightarrow>
       upipes w' = (upipes w)(k \<mapsto> u') \<Longrightarrow> next_upipe w' = next_upipe w \<Longrightarrow> pipes_inv w' E'"
    using pipes_focus[OF assms] by metis
  obtain r u' M' n' P where r: "upipe_read u = Some (r, u')" "upipe_owned u' M' n'"
    "opt_mset r + M' = M + P" "plain P" "\<forall>m. r = Some m \<longrightarrow> sendable m"
    using upipe_read_law[OF f(1)] by metis
  have "store_inv w (opt_mset r + M' + (F + E))"
    unfolding r(3) using f(2) store_inv_plain_union[OF r(4), of w "M + (F + E)"] by (simp add: ac_simps)
  then have "pipes_inv (put_upipe k u' w) (opt_mset r + E)"
    by (intro f(3)[OF r(2)]) (simp_all add: ac_simps)
  with r that show ?thesis by blast
qed

lemma pipes_inv_drain:
  fixes w :: "'z world_scheme"
  assumes "pipes_inv w E" "upipes w k = Some u"
    and own: "\<And>M n. upipe_owned u M n \<Longrightarrow> upipe_owned u1 M n"
  obtains u' w' j where "drain_loop upipe_read u1 w i = Some (u', w', j)"
    "pipes_inv (put_upipe k u' w') E" "msg_store.more w' = msg_store.more w"
proof -
  obtain M n F where f: "upipe_owned u M n" "store_inv w (M + (F + E))"
    "\<And>(w' :: 'z world_scheme) u' M' n' E'. upipe_owned u' M' n' \<Longrightarrow> store_inv w' (M' + (F + E')) \<Longrightarrow>
       upipes w' = (upipes w)(k \<mapsto> u') \<Longrightarrow> next_upipe w' = next_upipe w \<Longrightarrow> pipes_inv w' E'"
    using pipes_focus[OF assms(1,2)] by metis
  obtain u' w' M' n' j where d: "drain_loop upipe_read u1 w i = Some (u', w', j)" "upipe_owned u' M' n'"
    "store_inv w' (M' + (F + E))" "msg_store.more w' = msg_store.more w"
    using up.drain_correct[OF own[OF f(1)] f(2)] by metis
  have "pipes_inv (put_upipe k u' w') E"
    by (rule f(3)[OF d(2)]) (use d(3) world_more[OF d(4)] in simp_all)
  with d that show ?thesis by blast
qed

lemma pipes_inv_rollback:
  fixes w :: "'z world_scheme"
  assumes "pipes_inv w E" "upipes w k = Some u"
  obtains u' w' where "rollback_loop upipe_unwrite u w = Some (u', w')"
    "pipes_inv (put_upipe k u' w') E" "msg_store.more w' = msg_store.more w"
proof -
  obtain M n F where f: "upipe_owned u M n" "store_inv w (M + (F + E))"
    "\<And>(w' :: 'z world_scheme) u' M' n' E'. upipe_owned u' M' n' \<Longrightarrow> store_inv w' (M' + (F + E')) \<Longrightarrow>
       upipes w' = (upipes w)(k \<mapsto> u') \<Longrightarrow> next_upipe w' = next_upipe w \<Longrightarrow> pipes_inv w' E'"
    using pipes_focus[OF assms] by metis
  obtain u' w' M' n' where d: "rollback_loop upipe_unwrite u w = Some (u', w')" "upipe_owned u' M' n'"
    "store_inv w' (M' + (F + E))" "msg_store.more w' = msg_store.more w"
    using up.rollback_correct[OF f(1,2)] by metis
  have "pipes_inv (put_upipe k u' w') E"
    by (rule f(3)[OF d(2)]) (use d(3) world_more[OF d(4)] in simp_all)
  with d that show ?thesis by blast
qed

lemma pipes_inv_write:
  fixes w :: "'z world_scheme"
  assumes inv: "pipes_inv w (add_mset m E)" and u: "upipes w k = Some u"
    and m: "sendable m" and inc: "inc \<longrightarrow> has_flag m flag_more"
  obtains u' m' w' where "upipe_write u m inc w = Some (u', m', w')"
    "pipes_inv (put_upipe k u' w') E" "msg_store.more w' = msg_store.more w"
proof -
  obtain M n F where f: "upipe_owned u M n" "store_inv w (M + (F + add_mset m E))"
    "\<And>(w' :: 'z world_scheme) u' M' n' E'. upipe_owned u' M' n' \<Longrightarrow> store_inv w' (M' + (F + E')) \<Longrightarrow>
       upipes w' = (upipes w)(k \<mapsto> u') \<Longrightarrow> next_upipe w' = next_upipe w \<Longrightarrow> pipes_inv w' E'"
    using pipes_focus[OF inv u] by metis
  have s: "store_inv w (add_mset m (M + (F + E)))" using f(2) by simp
  obtain u' m' w' M' n' where d: "upipe_write u m inc w = Some (u', m', w')" "upipe_owned u' M' n'"
    "store_inv w' (M' + (F + E))" "msg_store.more w' = msg_store.more w"
    using upipe_write_owned[OF f(1) m s inc] by metis
  have "pipes_inv (put_upipe k u' w') E"
    by (rule f(3)[OF d(2)]) (use d(3) world_more[OF d(4)] in simp_all)
  with d that show ?thesis by blast
qed

text \<open>Deleting a pipe may strand the messages \<open>L\<close> still in it.\<close>

lemma pipes_inv_delete:
  fixes w :: "'z world_scheme"
  assumes inv: "pipes_inv w E" and u: "upipes w k = Some u"
  obtains w' L where "delete_upipe k w = Some w'" "pipes_inv w' (L + E)" "pipes w' = pipes w"
    "sent w' = sent w" "dom (upipes w') = dom (upipes w) - {k}" "next_upipe w' = next_upipe w"
proof -
  obtain M n F where f: "upipe_owned u M n" "store_inv w (M + (F + E))"
    "\<And>(w' :: 'z world_scheme) E'. store_inv w' (F + E') \<Longrightarrow> upipes w' = (upipes w)(k := None) \<Longrightarrow>
       next_upipe w' = next_upipe w \<Longrightarrow> pipes_inv w' E'"
    using pipes_focus[OF inv u] by metis
  obtain w1 L where d: "upipe_destroy u w = Some w1" "store_inv w1 (L + (F + E))"
    "msg_store.more w1 = msg_store.more w"
    using upipe_destroy_owned[OF f(1,2)] by metis
  let ?w = "w1\<lparr>upipes := (upipes w1)(k := None)\<rparr>"
  have "pipes_inv ?w (L + E)"
    by (rule f(3)) (use d(2) world_more[OF d(3)] in \<open>simp_all add: ac_simps\<close>)
  moreover have "delete_upipe k w = Some ?w" using u d(1) by (simp add: delete_upipe_def)
  ultimately show ?thesis using that[of ?w L] world_more[OF d(3)] by simp
qed

text \<open>A message taken out of a pipe can be looked at and closed.\<close>

lemma pipes_inv_close:
  fixes w :: "'z world_scheme"
  assumes inv: "pipes_inv w (add_mset m E)" and m: "sendable m"
  obtains m' w' where "msg_close m w = Some (Rc_ok, m', w')" "pipes_inv w' E"
    "msg_store.more w' = msg_store.more w"
proof -
  obtain H where H: "\<forall>k u. upipes w k = Some u \<longrightarrow> (\<exists>n. upipe_owned u (H k) n)"
    "store_inv w ((\<Sum>k \<in> dom (upipes w). H k) + add_mset m E)"
    using inv by (auto simp: pipes_inv_def)
  then have s: "store_inv w (add_mset m ((\<Sum>k \<in> dom (upipes w). H k) + E))" by simp
  obtain m' w' where c: "msg_close m w = Some (Rc_ok, m', w')"
    "store_inv w' ((\<Sum>k \<in> dom (upipes w). H k) + E)"
    using msg_close_correct[OF s] m unfolding sendable_def by metis
  note mo = msg_close_more[OF c(1)]
  have "pipes_inv w' E"
    using inv H(1) c(2) unfolding pipes_inv_def world_more[OF mo] by blast
  with c(1) mo that show ?thesis by blast
qed

lemma pipes_inv_body:
  assumes "pipes_inv w (add_mset m E)" "has_body m"
  obtains d where "msg_body m w = Some d"
proof -
  obtain M where "store_inv w (M + add_mset m E)" using assms(1) by (auto simp: pipes_inv_def)
  from has_body_Some[OF this _ assms(2)] show ?thesis using that by auto
qed

subsection \<open>Flow control\<close>

text \<open>The number of messages written and not yet reported as read.\<close>

definition unacked :: "pipe_t \<Rightarrow> int" where
  "unacked x = uint (msgs_written x - peers_msgs_read x)"

lemma uint_minus_step:
  fixes a b :: "64 word"
  assumes "uint (a - b) < h" "h < 2 ^ 31"
  shows "uint (a + 1 - b) = uint (a - b) + 1"
proof -
  have e: "a + 1 - b = (a - b) + 1" by (simp add: algebra_simps)
  show ?thesis unfolding e using assms by (subst uint_plus_if') auto
qed

lemma upipe_write_more:
  "upipe_write u m inc st = Some (u', m', st') \<Longrightarrow> msg_store.more st' = msg_store.more st"
  by (cases u) (auto simp: opt_simps conflate_write_def dbuffer_write_def split: if_splits
      dest: msg_move_more)

lemma pipe_write_unacked:
  assumes "pipe_write p m w = Some (True, m', w')" "pipes w p = Some x" "0 < hwm x" "hwm x < 2 ^ 31"
  shows "unacked x < hwm x" "\<exists>x'. pipes w' p = Some x' \<and> hwm x' = hwm x \<and> unacked x' \<le> hwm x"
proof -
  have c: "pipe_check_write p w = Some (True, w)"
    using assms(1,2) by (auto simp: pipe_write_def pipe_check_write_def opt_simps split: if_splits)
  then have h: "check_hwm x" using assms(2) by (auto simp: pipe_check_write_def split: if_splits)
  then show lt: "unacked x < hwm x" using assms(3) by (simp add: check_hwm_def unacked_def not_le)
  obtain k u u' w1 where w1: "upipe_write u m (has_flag m flag_more) w = Some (u', m', w1)"
    and w': "w' = put_pipe p (if \<not> has_flag m flag_more \<and> \<not> is_routing_id m
        then x\<lparr>msgs_written := msgs_written x + 1\<rparr> else x) (put_upipe k u' w1)"
    using assms(1,2) c by (auto simp: pipe_write_def opt_simps)
  show "\<exists>x'. pipes w' p = Some x' \<and> hwm x' = hwm x \<and> unacked x' \<le> hwm x"
    using w' lt uint_minus_step[of "msgs_written x" "peers_msgs_read x" "hwm x"] assms(4)
    by (auto simp: unacked_def)
qed

lemma compute_lwm_half:
  assumes "0 \<le> h" "h < 2 ^ 31 - 1"
  shows "compute_lwm h = Some ((h + 1) div 2)"
  using assms by (simp add: compute_lwm_def int_add_def signed_divide_int_def)

text \<open>What a reader owes its peer: \<open>N\<close> is the count in the last \<open>activate_write\<close> it sent (0 before
  the first).\<close>

definition notified :: "pipe_t \<Rightarrow> 64 word \<Rightarrow> bool" where
  "notified y N \<longleftrightarrow> uint N \<le> uint (msgs_read y) \<and> uint (msgs_read y) - uint N < lwm y \<and>
     uint N mod lwm y = 0"

lemma uint_succ:
  fixes r :: "64 word"
  assumes "r \<noteq> -1"
  shows "uint (r + 1) = uint r + 1"
proof -
  have "\<not> r + 1 \<le> r" using assms by (simp add: inc_less_eq_self_iff_eq)
  then have lt: "uint r < uint (r + 1)" by (simp add: word_less_def not_le)
  have "uint (r + 1) \<le> uint r + 1" using uint_add_le[of r 1] by simp
  with lt show ?thesis by simp
qed

lemma notified_step:
  assumes n: "notified y N" and l: "0 < lwm y" and r: "r = msgs_read y \<or> r = msgs_read y + 1"
    and b: "msgs_read y \<noteq> -1" and nz: "uint r mod lwm y \<noteq> 0"
  shows "uint N \<le> uint r \<and> uint r - uint N < lwm y"
proof (cases "r = msgs_read y")
  case True
  then show ?thesis using n by (simp add: notified_def)
next
  case False
  then have ur: "uint r = uint (msgs_read y) + 1" using r uint_succ[OF b] by auto
  have le: "uint N \<le> uint (msgs_read y)" "uint (msgs_read y) - uint N < lwm y"
    "uint N mod lwm y = 0" using n by (auto simp: notified_def)
  have "uint r - uint N \<noteq> lwm y"
  proof
    assume "uint r - uint N = lwm y"
    then have "uint r = uint N + lwm y" by simp
    then show False using nz le(3) by simp
  qed
  then show ?thesis using le(1,2) ur by linarith
qed

lemma pipe_read_message_frame':
  assumes "pipe_read_message p k m w = Some y"
  shows "\<forall>x. pipes w p = Some x \<longrightarrow>
    (\<exists>x'. pipes (snd (snd y)) p = Some x' \<and> msgs_read x' = msgs_read x \<and> lwm x' = lwm x \<and>
      peer x' = peer x \<and> sent (snd (snd y)) = sent w)" (is "?P p w y")
proof (rule pipe_read_message.raw_induct[where P = "\<lambda>p k m w y. ?P p w y", OF _ assms])
  fix rec p k m w y
  assume rec: "\<And>p k m w y. rec p k m w = Some y \<Longrightarrow> ?P p w y"
    and eq: "do {
       x \<leftarrow> pipes w p;
       u \<leftarrow> upipes w k;
       (r, u) \<leftarrow> upipe_read u;
       (case r of
          None \<Rightarrow> Some (False, m, put_pipe p (x\<lparr>in_active := False\<rparr>) (put_upipe k u w))
        | Some m \<Rightarrow>
            if is_credential m
            then do {
              d \<leftarrow> msg_body m w;
              (c, m, w) \<leftarrow> msg_close m (put_pipe p (x\<lparr>credential := d\<rparr>) (put_upipe k u w));
              zmq_assert (c = Rc_ok);
              rec p k m w
            }
            else Some (True, m, put_upipe k u w))
     } = Some y"
  show "?P p w y"
  proof (intro allI impI)
    fix x assume x: "pipes w p = Some x"
    obtain u r u' where u: "upipes w k = Some u" "upipe_read u = Some (r, u')"
      using eq by (auto simp: opt_simps)
    show "\<exists>x'. pipes (snd (snd y)) p = Some x' \<and> msgs_read x' = msgs_read x \<and> lwm x' = lwm x \<and>
      peer x' = peer x \<and> sent (snd (snd y)) = sent w"
    proof (cases r)
      case None
      then show ?thesis using eq u x by auto
    next
      case (Some m1)
      show ?thesis
      proof (cases "is_credential m1")
        case False
        then show ?thesis using eq u x Some by auto
      next
        case True
        let ?w = "\<lambda>d. put_pipe p (x\<lparr>credential := d\<rparr>) (put_upipe k u' w)"
        obtain d c m2 w2 where c: "msg_close m1 (?w d) = Some (c, m2, w2)" "rec p k m2 w2 = Some y"
          using eq u x Some True by (auto simp: opt_simps)
        note mo = world_more[OF msg_close_more[OF c(1)]]
        have "pipes w2 p = Some (x\<lparr>credential := d\<rparr>)" using mo by simp
        with rec[OF c(2)] mo show ?thesis by auto
      qed
    qed
  qed
qed

lemma pipe_read_message_frame:
  assumes "pipe_read_message p k m w = Some (ok, m', w')" "pipes w p = Some x"
  obtains x' where "pipes w' p = Some x'" "msgs_read x' = msgs_read x" "lwm x' = lwm x"
    "peer x' = peer x" "sent w' = sent w"
  using pipe_read_message_frame'[OF assms(1)] assms(2) by auto

subsection \<open>Properties\<close>


text \<open>C34. A reader keeps its peer informed: after every successful read the peer has been told a count
  of read messages that is less than the low water mark behind the true one, and a new
  \<open>activate_write\<close> is sent exactly when the count reaches a multiple of the low water mark.\<close>

theorem read_notifies_peer:
  assumes "pipe_read p m w = Some (True, m', w')" "pipes w p = Some y" "notified y N" "0 < lwm y"
    "msgs_read y \<noteq> -1"
  shows "\<exists>y' N'. pipes w' p = Some y' \<and> notified y' N' \<and> lwm y' = lwm y \<and>
    (if uint (msgs_read y') mod lwm y = 0
     then N' = msgs_read y' \<and> (\<exists>q. peer y = Some q \<and> sent w' = sent w @ [(q, Cmd_activate_write N')])
     else N' = N \<and> sent w' = sent w)"
proof -
  obtain k w1 where r: "inpipe y = Some k" "pipe_read_message p k m w = Some (True, m', w1)"
    and st: "\<not> is_delimiter m'"
    using assms(1,2) by (auto simp: pipe_read_def opt_simps split: if_splits)
  obtain y1 where y1: "pipes w1 p = Some y1" "msgs_read y1 = msgs_read y" "lwm y1 = lwm y"
    "peer y1 = peer y" "sent w1 = sent w"
    using pipe_read_message_frame[OF r(2) assms(2)] by blast
  let ?y = "count_read m' y1"
  have y: "msgs_read ?y = msgs_read y \<or> msgs_read ?y = msgs_read y + 1" "lwm ?y = lwm y" "peer ?y = peer y"
    using y1 by (auto simp: count_read_def)
  have w': "(if lwm ?y > 0 \<and> uint (msgs_read ?y) mod lwm ?y = 0
      then send_activate_write (peer ?y) (msgs_read ?y) (put_pipe p ?y w1) else Some (put_pipe p ?y w1)) = Some w'"
    using assms(1,2) r st y1(1) by (auto simp: pipe_read_def opt_simps split: if_splits)
  show ?thesis
  proof (cases "uint (msgs_read ?y) mod lwm y = 0")
    case True
    then have "send_activate_write (peer y) (msgs_read ?y) (put_pipe p ?y w1) = Some w'"
      using w' y assms(4) by simp
    then have "pipes w' p = Some ?y \<and> (\<exists>q. peer y = Some q \<and>
        sent w' = sent w @ [(q, Cmd_activate_write (msgs_read ?y))])"
      using y1(5) by (auto simp: send_activate_write_def send_to_def opt_simps)
    moreover have "notified ?y (msgs_read ?y)" using True y(2) assms(4) by (simp add: notified_def)
    ultimately show ?thesis using True y(2)
      by (intro exI[of _ ?y] exI[of _ "msgs_read ?y"]) simp
  next
    case False
    then have "w' = put_pipe p ?y w1" using w' y by simp
    moreover have "uint N mod lwm y = 0" using assms(3) by (simp add: notified_def)
    then have "notified ?y N"
      using notified_step[OF assms(3,4) y(1) assms(5) False] y(2) by (simp add: notified_def)
    ultimately show ?thesis using False y y1(5) by (intro exI[of _ ?y] exI[of _ N]) simp
  qed
qed

text \<open>Flow control does not deadlock: the low water mark of the reader, computed from the same high
  water mark as the writer's, is positive and at most that mark, so once the reader has read
  everything and the writer has heard its last notification, the writer may write again.\<close>

theorem drained_pipe_is_writable:
  assumes "compute_lwm (hwm x) = Some (lwm y)" "0 < hwm x" "hwm x < 2 ^ 31 - 1"
    "notified y (peers_msgs_read x)" "msgs_written x = msgs_read y"
  shows "0 < lwm y \<and> lwm y \<le> hwm x \<and> check_hwm x"
proof -
  have l: "lwm y = (hwm x + 1) div 2" using compute_lwm_half[of "hwm x"] assms(1-3) by simp
  have "uint (msgs_written x - peers_msgs_read x) = uint (msgs_read y) - uint (peers_msgs_read x)"
    using assms(4,5) by (simp add: uint_sub_if' notified_def)
  then show ?thesis using assms(2,4) l by (auto simp: check_hwm_def notified_def)
qed

text \<open>A pipe end with high water marks of 10, for the witness.\<close>

definition pipe_10 :: pipe_t where
  "pipe_10 = the (pipe_new 0 1 10 10 False)"

theorem drained_pipe_is_writable_witness:
  "0 < lwm pipe_10 \<and> lwm pipe_10 \<le> hwm pipe_10 \<and> check_hwm pipe_10"
  by (rule drained_pipe_is_writable)
     (simp_all add: pipe_10_def pipe_new_def compute_lwm_def int_add_def notified_def signed_divide_int_def)

text \<open>The low water mark is not always below the high one, as the comment in \<open>compute_lwm\<close> demands:
  for a high water mark of 1 both are equal, and only then.\<close>

theorem lwm_equals_hwm_only_at_one:
  assumes "0 < h" "h < 2 ^ 31 - 1"
  shows "\<exists>l. compute_lwm h = Some l \<and> 0 < l \<and> l \<le> h \<and> (l = h \<longleftrightarrow> h = 1)"
  using compute_lwm_half[of h] assms by auto

theorem lwm_equals_hwm_only_at_one_witness:
  "\<exists>l. compute_lwm 1000 = Some l \<and> 0 < l \<and> l \<le> 1000 \<and> (l = 1000 \<longleftrightarrow> (1000 :: int) = 1)"
  by (rule lwm_equals_hwm_only_at_one) simp_all

end
