(* ===== verification/Zmq_Handshake.thy ===== *)
theory Zmq_Handshake
  imports Zmq_Pipe_Inv
begin

unbundle bit_operations_syntax

text \<open>
  Two pipe ends made by \<open>pipepair\<close> and everything their owners and the command mailboxes can do to
  them, in any order: the asynchronous termination handshake of \<open>src/libzmq/src/pipe.cpp\<close>.  The
  invariant relates the states of the two ends, the commands under way in both directions and the
  one-way pipes both refer to.
\<close>

subsection \<open>Mailboxes\<close>

definition inbox :: "nat \<Rightarrow> 'z world_scheme \<Rightarrow> command list" where
  "inbox p w = map snd (filter (\<lambda>x. fst x = p) (sent w))"

fun take_first :: "nat \<Rightarrow> (nat \<times> command) list \<Rightarrow> (command \<times> (nat \<times> command) list) option" where
  "take_first p [] = None"
| "take_first p ((d, c) # xs) =
     (if d = p then Some (c, xs)
      else map_option (map_prod id (Cons (d, c))) (take_first p xs))"

text \<open>The owner of end \<open>p\<close> reads the next command addressed to it and processes it.\<close>

definition deliver :: "nat \<Rightarrow> 'z world_scheme \<Rightarrow> 'z world_scheme option" where
  "deliver p w =
     (case take_first p (sent w) of None \<Rightarrow> Some w
      | Some (c, rest) \<Rightarrow> process_command (\<lambda>_ _ w. Some w) p c (w\<lparr>sent := rest\<rparr>))"

lemma take_first_None: "take_first p xs = None \<longleftrightarrow> filter (\<lambda>x. fst x = p) xs = []"
  by (induction xs) auto

lemma take_first_Some:
  "take_first p xs = Some (c, ys) \<Longrightarrow>
   filter (\<lambda>x. fst x = p) xs = (p, c) # filter (\<lambda>x. fst x = p) ys \<and>
   (q \<noteq> p \<longrightarrow> filter (\<lambda>x. fst x = q) ys = filter (\<lambda>x. fst x = q) xs)"
  by (induction xs arbitrary: ys) (auto split: if_splits)

lemma inbox_frame [simp]:
  "inbox p (put_pipe q x w) = inbox p w" "inbox p (put_upipe k u w) = inbox p w"
  "inbox p (w\<lparr>upipes := f\<rparr>) = inbox p w" "inbox p (w\<lparr>pipes := g\<rparr>) = inbox p w"
  "inbox p (w\<lparr>sent := sent w @ [(d, c)]\<rparr>) = (if d = p then inbox p w @ [c] else inbox p w)"
  by (simp_all add: inbox_def put_pipe_def put_upipe_def)

subsection \<open>The shape of a pair of pipe ends\<close>

fun hiccups :: "command list \<Rightarrow> nat list" where
  "hiccups [] = []"
| "hiccups (Cmd_hiccup k # cs) = k # hiccups cs"
| "hiccups (_ # cs) = hiccups cs"

fun terms :: "command list \<Rightarrow> command list" where
  "terms [] = []"
| "terms (Cmd_pipe_term # cs) = Cmd_pipe_term # terms cs"
| "terms (Cmd_pipe_term_ack # cs) = Cmd_pipe_term_ack # terms cs"
| "terms (_ # cs) = terms cs"

text \<open>No hiccup follows a termination request and nothing follows an acknowledgement.  Changes of
  the water marks are not part of this protocol.\<close>

fun inbox_ok :: "command list \<Rightarrow> bool" where
  "inbox_ok [] = True"
| "inbox_ok (Cmd_pipe_term # cs) = (hiccups cs = [] \<and> inbox_ok cs)"
| "inbox_ok (Cmd_pipe_term_ack # cs) = (cs = [])"
| "inbox_ok (Cmd_pipe_hwm i ou # cs) = False"
| "inbox_ok (_ # cs) = inbox_ok cs"

fun is_pipe_hwm :: "command \<Rightarrow> bool" where
  "is_pipe_hwm (Cmd_pipe_hwm i ou) = True"
| "is_pipe_hwm _ = False"

fun is_hiccup :: "command \<Rightarrow> bool" where
  "is_hiccup (Cmd_hiccup k) = True"
| "is_hiccup _ = False"

lemma hiccups_append [simp]: "hiccups (xs @ ys) = hiccups xs @ hiccups ys"
  by (induction xs rule: hiccups.induct) auto

lemma terms_append [simp]: "terms (xs @ ys) = terms xs @ terms ys"
  by (induction xs rule: terms.induct) auto

lemma inbox_ok_snoc:
  "inbox_ok xs \<Longrightarrow> \<not> is_pipe_hwm c \<Longrightarrow> Cmd_pipe_term_ack \<notin> set (terms xs) \<Longrightarrow>
   (is_hiccup c \<longrightarrow> Cmd_pipe_term \<notin> set (terms xs)) \<Longrightarrow> inbox_ok (xs @ [c])"
  by (induction xs rule: inbox_ok.induct) (cases c; simp)+

text \<open>The states the two ends can be in together (\<open>None\<close> for a deleted end), with the termination
  commands under way to each, up to exchanging the ends.\<close>

definition hs_table ::
  "(pipe_state option \<times> pipe_state option \<times> command list \<times> command list) set" where
  "hs_table =
     {(Some Active, Some Active, [], []),
      (Some Active, Some Delimiter_received, [], []),
      (Some Delimiter_received, Some Delimiter_received, [], []),
      (Some Term_req_sent1, Some Active, [], [Cmd_pipe_term]),
      (Some Term_req_sent1, Some Delimiter_received, [], [Cmd_pipe_term]),
      (Some Term_req_sent1, Some Waiting_for_delimiter, [], []),
      (Some Term_req_sent1, Some Term_ack_sent, [Cmd_pipe_term_ack], []),
      (Some Term_req_sent1, Some Term_req_sent1, [Cmd_pipe_term], [Cmd_pipe_term]),
      (Some Term_req_sent1, Some Term_req_sent2, [Cmd_pipe_term, Cmd_pipe_term_ack], []),
      (Some Term_req_sent2, Some Term_req_sent2, [Cmd_pipe_term_ack], [Cmd_pipe_term_ack]),
      (Some Term_req_sent2, None, [Cmd_pipe_term_ack], []),
      (Some Term_ack_sent, None, [Cmd_pipe_term_ack], []),
      (None, None, [], [])}"

definition hs_ok ::
  "pipe_state option \<Rightarrow> pipe_state option \<Rightarrow> command list \<Rightarrow> command list \<Rightarrow> bool" where
  "hs_ok sa sb pa pb = ((sa, sb, pa, pb) \<in> hs_table \<or> (sb, sa, pb, pa) \<in> hs_table)"

text \<open>The states in which an end still owns its outbound pipe.\<close>

definition may_send :: "pipe_state \<Rightarrow> bool" where
  "may_send s = (s = Active \<or> s = Delimiter_received \<or> s = Waiting_for_delimiter \<or> s = Term_req_sent1)"

text \<open>The states in which a termination request may still come.\<close>

definition awaits_term :: "pipe_state \<Rightarrow> bool" where
  "awaits_term s = (s = Active \<or> s = Delimiter_received \<or> s = Term_req_sent1)"

text \<open>The one-way pipes on the way from an end to its peer: the current outbound pipe and those that
  pending hiccups will put in its place.\<close>

definition out_chain :: "pipe_t option \<Rightarrow> command list \<Rightarrow> nat list" where
  "out_chain xa qa =
     (case xa of None \<Rightarrow> [] | Some x \<Rightarrow>
       (case outpipe x of None \<Rightarrow> [] | Some k \<Rightarrow> k # hiccups qa))"

lemma out_chain_cong: "hiccups qa' = hiccups qa \<Longrightarrow> out_chain xa qa' = out_chain xa qa"
  by (simp add: out_chain_def cong: option.case_cong)

lemma out_chain_eq: "outpipe x' = outpipe x \<Longrightarrow> out_chain (Some x') qa = out_chain (Some x) qa"
  by (simp add: out_chain_def)

lemma out_chain_None: "outpipe x = None \<Longrightarrow> out_chain (Some x) qa = []"
  by (simp add: out_chain_def)

definition in_ref :: "pipe_t option \<Rightarrow> nat set" where
  "in_ref xa = set_option (Option.bind xa inpipe)"

definition half_ok ::
  "nat \<Rightarrow> pipe_t option \<Rightarrow> pipe_t option \<Rightarrow> command list \<Rightarrow> nat set \<Rightarrow> bool" where
  "half_ok b xa xb qa D =
     (case xa of None \<Rightarrow> qa = []
      | Some x \<Rightarrow> peer x = Some b \<and> sink_set x \<and> (outpipe x \<noteq> None \<longleftrightarrow> may_send (state x)) \<and>
          inbox_ok qa \<and> (\<not> awaits_term (state x) \<longrightarrow> hiccups qa = []) \<and> inpipe x \<noteq> None \<and>
          in_ref xa \<subseteq> D \<and> set (out_chain xa qa) \<subseteq> D \<and> distinct (out_chain xa qa) \<and>
          (outpipe x \<noteq> None \<longrightarrow> xb \<noteq> None \<and> in_ref xb = {last (out_chain xa qa)}))"

definition shape ::
  "nat \<Rightarrow> nat \<Rightarrow> pipe_t option \<Rightarrow> pipe_t option \<Rightarrow> command list \<Rightarrow> command list \<Rightarrow> nat set \<Rightarrow> bool" where
  "shape a b xa xb qa qb D \<longleftrightarrow>
     a \<noteq> b \<and> half_ok b xa xb qa D \<and> half_ok a xb xa qb D \<and>
     hs_ok (map_option state xa) (map_option state xb) (terms qa) (terms qb) \<and>
     (set (out_chain xa qa) \<union> in_ref xb) \<inter> (set (out_chain xb qb) \<union> in_ref xa) = {}"

lemma shape_sym: "shape a b xa xb qa qb D \<Longrightarrow> shape b a xb xa qb qa D"
  by (auto simp: shape_def hs_ok_def)

text \<open>An end that may send has a live peer that waits for no acknowledgement.\<close>

lemma hs_ok_may_send:
  assumes "hs_ok (Some s) sb pa pb" "may_send s"
  shows "sb \<noteq> None \<and> Cmd_pipe_term_ack \<notin> set pb"
  using assms by (cases s) (auto simp: hs_ok_def hs_table_def may_send_def)

lemma hs_ok_active: "hs_ok (Some Active) sb pa pb \<Longrightarrow> Cmd_pipe_term \<notin> set pb"
  by (auto simp: hs_ok_def hs_table_def)

text \<open>The moves of the handshake, on the table.\<close>

lemma hs_send_term:
  "hs_ok (Some s) sb pa pb \<Longrightarrow> s = Active \<or> s = Delimiter_received \<Longrightarrow>
   hs_ok (Some Term_req_sent1) sb pa (pb @ [Cmd_pipe_term])"
  by (auto simp: hs_ok_def hs_table_def)

lemma hs_delimiter: "hs_ok (Some Active) sb pa pb \<Longrightarrow> hs_ok (Some Delimiter_received) sb pa pb"
  by (auto simp: hs_ok_def hs_table_def)

lemma hs_ack_waiting:
  "hs_ok (Some Waiting_for_delimiter) sb pa pb \<Longrightarrow>
   hs_ok (Some Term_ack_sent) sb pa (pb @ [Cmd_pipe_term_ack])"
  by (auto simp: hs_ok_def hs_table_def)

text \<open>A termination request only arrives where \<open>process_pipe_term\<close> expects it, an acknowledgement
  only where \<open>process_pipe_term_ack\<close> does.\<close>

lemma hs_recv_term:
  assumes "hs_ok (Some s) sb (Cmd_pipe_term # pa) pb"
  shows "s = Active \<or> s = Delimiter_received \<or> s = Term_req_sent1"
    and "s = Active \<Longrightarrow> hs_ok (Some Waiting_for_delimiter) sb pa pb"
    and "s = Active \<or> s = Delimiter_received \<Longrightarrow>
           hs_ok (Some Term_ack_sent) sb pa (pb @ [Cmd_pipe_term_ack])"
    and "s = Term_req_sent1 \<Longrightarrow> hs_ok (Some Term_req_sent2) sb pa (pb @ [Cmd_pipe_term_ack])"
  using assms by (auto simp: hs_ok_def hs_table_def)

lemma hs_recv_ack:
  assumes "hs_ok (Some s) sb (Cmd_pipe_term_ack # pa) pb"
  shows "s = Term_req_sent1 \<or> s = Term_req_sent2 \<or> s = Term_ack_sent"
    and "s = Term_req_sent1 \<Longrightarrow> sb = Some Term_ack_sent \<and> hs_ok None sb pa (pb @ [Cmd_pipe_term_ack])"
    and "s \<noteq> Term_req_sent1 \<Longrightarrow> (sb = None \<or> sb = Some Term_req_sent2) \<and> hs_ok None sb pa pb"
  using assms by (auto simp: hs_ok_def hs_table_def)

lemma shape_peer:
  assumes "shape a b (Some x) xb qa qb D" "may_send (state x)"
  obtains y where "xb = Some y" "inbox_ok qb" "Cmd_pipe_term_ack \<notin> set (terms qb)"
  using assms hs_ok_may_send[of "state x"] by (cases xb) (auto simp: shape_def half_ok_def)

text \<open>A step of one end that keeps its inbound pipe and leaves the hiccups for the peer alone.\<close>

lemma half_ok_Some:
  "half_ok b (Some x) xb qa D \<longleftrightarrow>
     peer x = Some b \<and> sink_set x \<and> (outpipe x \<noteq> None \<longleftrightarrow> may_send (state x)) \<and>
     inbox_ok qa \<and> (\<not> awaits_term (state x) \<longrightarrow> hiccups qa = []) \<and> inpipe x \<noteq> None \<and>
     in_ref (Some x) \<subseteq> D \<and> set (out_chain (Some x) qa) \<subseteq> D \<and> distinct (out_chain (Some x) qa) \<and>
     (outpipe x \<noteq> None \<longrightarrow> xb \<noteq> None \<and> in_ref xb = {last (out_chain (Some x) qa)})"
  by (simp add: half_ok_def)

lemma in_ref_Some: "in_ref (Some x) = set_option (inpipe x)"
  by (simp add: in_ref_def)

lemma half_ok_step:
  assumes "half_ok b (Some x) xb qa D"
    and "peer x' = peer x" "sink_set x' = sink_set x" "inpipe x' = inpipe x"
    and "outpipe x' \<noteq> None \<longleftrightarrow> may_send (state x')" "inbox_ok qa'"
    and "\<not> awaits_term (state x') \<longrightarrow> hiccups qa' = []"
    and "outpipe x' = None \<or> outpipe x \<noteq> None \<and> out_chain (Some x') qa' = out_chain (Some x) qa"
  shows "half_ok b (Some x') xb qa' D"
proof -
  have r: "in_ref (Some x') = in_ref (Some x)" using assms(4) by (simp add: in_ref_Some)
  show ?thesis
    using assms(1-3,4-7) assms(8) out_chain_None[of x' qa'] unfolding half_ok_Some r
    by (elim disjE conjE) simp_all
qed

lemma shape_update:
  assumes sh: "shape a b (Some x) (Some y) qa qb D"
    and own: "half_ok b (Some x') (Some y) qa' D"
    and i: "inpipe x' = inpipe x"
    and hs: "hs_ok (Some (state x')) (Some (state y)) (terms qa') (terms qb')"
    and qb': "inbox_ok qb'" "hiccups qb' = hiccups qb"
    and sub: "set (out_chain (Some x') qa') \<subseteq> set (out_chain (Some x) qa)"
  shows "shape a b (Some x') (Some y) qa' qb' D"
proof -
  have r: "in_ref (Some x') = in_ref (Some x)" using i by (simp add: in_ref_Some)
  have c: "out_chain (Some y) qb' = out_chain (Some y) qb" using qb'(2) by (rule out_chain_cong)
  have h: "half_ok a (Some y) (Some x) qb D" using sh by (simp add: shape_def)
  have "half_ok a (Some y) (Some x') qb' D"
    using h qb' unfolding half_ok_Some r c by simp
  moreover have "(set (out_chain (Some x') qa') \<union> in_ref (Some y)) \<inter>
      (set (out_chain (Some y) qb') \<union> in_ref (Some x')) = {}"
    using sh sub unfolding shape_def c r by blast
  ultimately show ?thesis using sh own hs by (simp add: shape_def)
qed

text \<open>Fields outside the handshake do not matter.\<close>

definition same_end :: "pipe_t \<Rightarrow> pipe_t \<Rightarrow> bool" where
  "same_end x x' \<longleftrightarrow> state x' = state x \<and> inpipe x' = inpipe x \<and> outpipe x' = outpipe x \<and>
     peer x' = peer x \<and> sink_set x' = sink_set x"

lemma shape_quiet:
  assumes "shape a b (Some x) xb qa qb D" "same_end x x'"
  shows "shape a b (Some x') xb qa qb D"
proof -
  have "out_chain (Some x') qa = out_chain (Some x) qa" "in_ref (Some x') = in_ref (Some x)"
    using assms(2) by (simp_all add: same_end_def out_chain_def in_ref_Some)
  then show ?thesis using assms
    by (cases xb) (auto simp: shape_def half_ok_def same_end_def)
qed

text \<open>A command that is neither a hiccup nor part of the handshake may be sent while the outbound
  pipe is owned, and may be processed any time.\<close>

definition other_cmd :: "command \<Rightarrow> bool" where
  "other_cmd c \<longleftrightarrow> hiccups [c] = [] \<and> terms [c] = [] \<and> \<not> is_pipe_hwm c"

lemma other_cmd_simps [simp]:
  "other_cmd Cmd_activate_read" "other_cmd (Cmd_activate_write n)" "\<not> other_cmd (Cmd_pipe_hwm i ou)"
  "\<not> other_cmd (Cmd_hiccup k)" "\<not> other_cmd Cmd_pipe_term" "\<not> other_cmd Cmd_pipe_term_ack"
  by (simp_all add: other_cmd_def)

lemma shapeD:
  assumes "shape a b (Some x) xb qa qb D"
  shows "half_ok b (Some x) xb qa D"
    "hs_ok (Some (state x)) (map_option state xb) (terms qa) (terms qb)"
  using assms by (simp_all add: shape_def)

lemma shape_send_other:
  assumes "shape a b (Some x) xb qa qb D" "may_send (state x)" "other_cmd c"
  shows "shape a b (Some x) xb qa (qb @ [c]) D"
proof -
  obtain y where y: "xb = Some y" "inbox_ok qb" "Cmd_pipe_term_ack \<notin> set (terms qb)"
    using shape_peer[OF assms(1,2)] by blast
  have "inbox_ok (qb @ [c])" using inbox_ok_snoc[OF y(2) _ y(3), of c] assms(3) by (cases c) auto
  moreover have "hiccups (qb @ [c]) = hiccups qb" "terms (qb @ [c]) = terms qb"
    using assms(3) by (simp_all add: other_cmd_def)
  ultimately show ?thesis
    using assms(1) shapeD[OF assms(1)] y(1) shape_update[of a b x y qa qb D x qa "qb @ [c]"] by simp
qed

lemma shape_recv_other:
  assumes "shape a b (Some x) xb (c # qa) qb D" "other_cmd c"
  shows "shape a b (Some x) xb qa qb D"
proof -
  have "hiccups (c # qa) = hiccups qa" "terms (c # qa) = terms qa" "inbox_ok (c # qa) \<Longrightarrow> inbox_ok qa"
    using assms(2) by (cases c; simp)+
  moreover from this(1) have "out_chain (Some x) (c # qa) = out_chain (Some x) qa"
    by (rule out_chain_cong)
  ultimately show ?thesis using assms(1) by (simp add: shape_def half_ok_def)
qed

lemma may_send_simps [simp]:
  "may_send Active" "may_send Delimiter_received" "may_send Waiting_for_delimiter"
  "may_send Term_req_sent1" "\<not> may_send Term_ack_sent" "\<not> may_send Term_req_sent2"
  by (simp_all add: may_send_def)

lemma awaits_term_simps [simp]:
  "awaits_term Active" "awaits_term Delimiter_received" "awaits_term Term_req_sent1"
  "\<not> awaits_term Waiting_for_delimiter" "\<not> awaits_term Term_ack_sent" "\<not> awaits_term Term_req_sent2"
  by (simp_all add: awaits_term_def)

lemma shape_send_term:
  assumes "shape a b (Some x) xb qa qb D" "state x = Active \<or> state x = Delimiter_received"
  shows "shape a b (Some (x\<lparr>state := Term_req_sent1\<rparr>)) xb qa (qb @ [Cmd_pipe_term]) D"
proof -
  have s: "may_send (state x)" "awaits_term (state x)" using assms(2) by auto
  obtain y where y: "xb = Some y" "inbox_ok qb" "Cmd_pipe_term_ack \<notin> set (terms qb)"
    using shape_peer[OF assms(1) s(1)] by blast
  show ?thesis
    unfolding y(1)
  proof (rule shape_update[OF assms(1)[unfolded y(1)]])
    show "inbox_ok (qb @ [Cmd_pipe_term])" using inbox_ok_snoc[OF y(2) _ y(3), of Cmd_pipe_term] by simp
    show "hs_ok (Some (state (x\<lparr>state := Term_req_sent1\<rparr>))) (Some (state y)) (terms qa)
        (terms (qb @ [Cmd_pipe_term]))"
      using hs_send_term[of "state x" "Some (state y)"] shapeD(2)[OF assms(1)] assms(2) y(1) by simp
    show "half_ok b (Some (x\<lparr>state := Term_req_sent1\<rparr>)) (Some y) qa D"
      by (rule half_ok_step[OF shapeD(1)[OF assms(1), unfolded y(1)]])
         (use s shapeD(1)[OF assms(1)] in \<open>auto simp: half_ok_Some out_chain_def\<close>)
  qed (simp_all add: out_chain_def)
qed

text \<open>Giving up the outbound pipe with an acknowledgement.\<close>

lemma shape_send_ack:
  assumes "shape a b (Some x) xb (pre @ qa) qb D" "may_send (state x)"
    and h: "hs_ok (Some s') (map_option state xb) (terms qa) (terms qb @ [Cmd_pipe_term_ack])"
    and s: "\<not> may_send s'" and pre: "pre = [] \<or> pre = [Cmd_pipe_term]" and hq: "hiccups qa = []"
  shows "shape a b (Some (x\<lparr>state := s', outpipe := None\<rparr>)) xb qa (qb @ [Cmd_pipe_term_ack]) D"
proof -
  obtain y where y: "xb = Some y" "inbox_ok qb" "Cmd_pipe_term_ack \<notin> set (terms qb)"
    using shape_peer[OF assms(1,2)] by blast
  have qa: "inbox_ok qa" using shapeD(1)[OF assms(1)] pre by (auto simp: half_ok_Some)
  show ?thesis
    unfolding y(1)
  proof (rule shape_update[OF assms(1)[unfolded y(1)]])
    show "inbox_ok (qb @ [Cmd_pipe_term_ack])"
      using inbox_ok_snoc[OF y(2) _ y(3), of Cmd_pipe_term_ack] by simp
    show "half_ok b (Some (x\<lparr>state := s', outpipe := None\<rparr>)) (Some y) qa D"
      by (rule half_ok_step[OF shapeD(1)[OF assms(1), unfolded y(1)]]) (use s qa hq in auto)
  qed (use h y(1) in \<open>simp_all add: out_chain_def\<close>)
qed

lemma shape_delimiter_active:
  assumes "shape a b (Some x) xb qa qb D" "state x = Active"
  shows "shape a b (Some (x\<lparr>state := Delimiter_received\<rparr>)) xb qa qb D"
proof -
  obtain y where y: "xb = Some y" "inbox_ok qb" using shape_peer[OF assms(1)] assms(2) by auto
  show ?thesis
    unfolding y(1)
  proof (rule shape_update[OF assms(1)[unfolded y(1)]])
    show "half_ok b (Some (x\<lparr>state := Delimiter_received\<rparr>)) (Some y) qa D"
      by (rule half_ok_step[OF shapeD(1)[OF assms(1), unfolded y(1)]])
         (use assms(2) shapeD(1)[OF assms(1)] in \<open>auto simp: half_ok_Some out_chain_def\<close>)
    show "hs_ok (Some (state (x\<lparr>state := Delimiter_received\<rparr>))) (Some (state y)) (terms qa) (terms qb)"
      using hs_delimiter shapeD(2)[OF assms(1)] assms(2) y(1) by simp
  qed (use y in \<open>simp_all add: out_chain_def\<close>)
qed

lemma shape_ack_waiting:
  assumes "shape a b (Some x) xb qa qb D" "state x = Waiting_for_delimiter"
  shows "shape a b (Some (x\<lparr>state := Term_ack_sent, outpipe := None\<rparr>)) xb qa
    (qb @ [Cmd_pipe_term_ack]) D"
proof (rule shape_send_ack[where pre = "[]", simplified, OF assms(1)])
  show "hs_ok (Some Term_ack_sent) (map_option state xb) (terms qa) (terms qb @ [Cmd_pipe_term_ack])"
    using hs_ack_waiting shapeD(2)[OF assms(1)] assms(2) by simp
  show "hiccups qa = []" using shapeD(1)[OF assms(1)] assms(2) by (simp add: half_ok_Some)
qed (use assms(2) in simp_all)

lemma shape_recv_term_waiting:
  assumes "shape a b (Some x) xb (Cmd_pipe_term # qa) qb D" "state x = Active"
  shows "shape a b (Some (x\<lparr>state := Waiting_for_delimiter\<rparr>)) xb qa qb D"
proof -
  obtain y where y: "xb = Some y" "inbox_ok qb" using shape_peer[OF assms(1)] assms(2) by auto
  have q: "hiccups qa = []" "inbox_ok qa" using shapeD(1)[OF assms(1)] by (auto simp: half_ok_Some)
  have c: "out_chain (Some (x\<lparr>state := Waiting_for_delimiter\<rparr>)) qa = out_chain (Some x) (Cmd_pipe_term # qa)"
    by (cases "outpipe x") (simp_all add: out_chain_def)
  have h: "half_ok b (Some x) (Some y) (Cmd_pipe_term # qa) D" using shapeD(1)[OF assms(1)] y(1) by simp
  show ?thesis
    unfolding y(1)
  proof (rule shape_update[OF assms(1)[unfolded y(1)]])
    show "half_ok b (Some (x\<lparr>state := Waiting_for_delimiter\<rparr>)) (Some y) qa D"
      by (rule half_ok_step[OF h]) (use q assms(2) c h in \<open>auto simp: half_ok_Some\<close>)
    show "hs_ok (Some (state (x\<lparr>state := Waiting_for_delimiter\<rparr>))) (Some (state y)) (terms qa) (terms qb)"
      using hs_recv_term(2) shapeD(2)[OF assms(1)] assms(2) y(1) by simp
  qed (use y c in simp_all)
qed

lemma shape_recv_term_ack:
  assumes sh: "shape a b (Some x) xb (Cmd_pipe_term # qa) qb D"
    and s': "s' = (if state x = Term_req_sent1 then Term_req_sent2 else Term_ack_sent)"
  shows "shape a b (Some (x\<lparr>state := s', outpipe := None\<rparr>)) xb qa (qb @ [Cmd_pipe_term_ack]) D"
proof (rule shape_send_ack[where pre = "[Cmd_pipe_term]", simplified, OF sh])
  have h: "hs_ok (Some (state x)) (map_option state xb) (Cmd_pipe_term # terms qa) (terms qb)"
    using shapeD(2)[OF sh] by simp
  show "may_send (state x)" using hs_recv_term(1)[OF h] by auto
  show "hs_ok (Some s') (map_option state xb) (terms qa) (terms qb @ [Cmd_pipe_term_ack])"
    using hs_recv_term(1,3,4)[OF h] s' by auto
  show "\<not> may_send s'" using s' by simp
  show "hiccups qa = []" using shapeD(1)[OF sh] by (simp add: half_ok_Some)
qed

text \<open>A hiccup at an active end, with the fresh pipe \<open>k\<close>.\<close>

lemma shape_send_hiccup:
  assumes sh: "shape a b (Some x) xb qa qb D" and s: "state x = Active" and k: "k \<notin> D"
  shows "shape a b (Some (x\<lparr>inpipe := Some k, in_active := v\<rparr>)) xb qa (qb @ [Cmd_hiccup k]) (insert k D)"
proof -
  let ?x = "x\<lparr>inpipe := Some k, in_active := v\<rparr>"
  obtain y where y: "xb = Some y" "inbox_ok qb" "Cmd_pipe_term_ack \<notin> set (terms qb)"
    using shape_peer[OF sh] s by auto
  have hs: "hs_ok (Some Active) (Some (state y)) (terms qa) (terms qb)" using shapeD(2)[OF sh] s y(1) by simp
  have "inbox_ok (qb @ [Cmd_hiccup k])"
    using inbox_ok_snoc[OF y(2) _ y(3), of "Cmd_hiccup k"] hs_ok_active[OF hs] by simp
  have ay: "awaits_term (state y)" "may_send (state y)"
    using hs by (auto simp: hs_ok_def hs_table_def)
  have hx: "half_ok b (Some x) (Some y) qa D" and hy: "half_ok a (Some y) (Some x) qb D"
    and dis: "(set (out_chain (Some x) qa) \<union> in_ref (Some y)) \<inter>
      (set (out_chain (Some y) qb) \<union> in_ref (Some x)) = {}" and ab: "a \<noteq> b"
    using sh y(1) by (simp_all add: shape_def)
  obtain k0 where k0: "outpipe y = Some k0" using hy ay by (auto simp: half_ok_Some)
  have cx: "out_chain (Some ?x) qa = out_chain (Some x) qa" by (rule out_chain_eq) simp
  have cy: "out_chain (Some y) (qb @ [Cmd_hiccup k]) = out_chain (Some y) qb @ [k]"
    using k0 by (simp add: out_chain_def)
  have rx: "in_ref (Some ?x) = {k}" by (simp add: in_ref_Some)
  have "half_ok b (Some ?x) (Some y) qa (insert k D)"
    using hx unfolding half_ok_Some cx rx by auto
  moreover have "half_ok a (Some y) (Some ?x) (qb @ [Cmd_hiccup k]) (insert k D)"
    using hy k ay \<open>inbox_ok (qb @ [Cmd_hiccup k])\<close> unfolding half_ok_Some cy rx by auto
  moreover have "(set (out_chain (Some ?x) qa) \<union> in_ref (Some y)) \<inter>
      (set (out_chain (Some y) (qb @ [Cmd_hiccup k])) \<union> in_ref (Some ?x)) = {}"
    using dis hx hy k unfolding cx cy rx half_ok_Some by auto
  ultimately show ?thesis using ab hs s y(1) by (simp add: shape_def)
qed

text \<open>Processing a hiccup: the old outbound pipe \<open>k0\<close> is deleted.\<close>

lemma shape_recv_hiccup:
  assumes sh: "shape a b (Some x) xb (Cmd_hiccup k # qa) qb D" and k0: "outpipe x = Some k0"
    and x': "outpipe x' = Some k" "inpipe x' = inpipe x" "state x' = state x" "peer x' = peer x"
      "sink_set x' = sink_set x"
  shows "k0 \<in> D" "k \<in> D - {k0}" "shape a b (Some x') xb qa qb (D - {k0})"
proof -
  have hx: "half_ok b (Some x) xb (Cmd_hiccup k # qa) D" using sh by (simp add: shape_def)
  have cx: "out_chain (Some x) (Cmd_hiccup k # qa) = k0 # out_chain (Some x') qa"
    using k0 x' by (simp add: out_chain_def)
  have rx: "in_ref (Some x') = in_ref (Some x)" using x' by (simp add: in_ref_Some)
  show "k0 \<in> D" using hx unfolding half_ok_Some cx by simp
  have ne: "out_chain (Some x') qa \<noteq> []" and hdk: "k \<in> set (out_chain (Some x') qa)"
    using x' by (simp_all add: out_chain_def)
  show "k \<in> D - {k0}" using hx hdk unfolding half_ok_Some cx by auto
  obtain y where y: "xb = Some y" and ry: "in_ref (Some y) = {last (out_chain (Some x') qa)}"
    using hx k0 ne unfolding half_ok_Some cx by auto
  have hy: "half_ok a (Some y) (Some x) qb D"
    and dis: "(set (k0 # out_chain (Some x') qa) \<union> in_ref (Some y)) \<inter>
      (set (out_chain (Some y) qb) \<union> in_ref (Some x)) = {}" and ab: "a \<noteq> b"
    and hs: "hs_ok (Some (state x)) (Some (state y)) (terms qa) (terms qb)"
    using sh y cx by (simp_all add: shape_def)
  have "half_ok b (Some x') (Some y) qa (D - {k0})"
    using hx dis ry ne x' k0 unfolding half_ok_Some cx rx y by (auto split: if_splits)
  moreover have "half_ok a (Some y) (Some x') qb (D - {k0})"
    using hy dis hx ry ne unfolding half_ok_Some rx cx by (auto split: if_splits)
  moreover have "(set (out_chain (Some x') qa) \<union> in_ref (Some y)) \<inter>
      (set (out_chain (Some y) qb) \<union> in_ref (Some x')) = {}"
    using dis unfolding rx by auto
  ultimately show "shape a b (Some x') xb qa qb (D - {k0})" using ab hs x' y by (simp add: shape_def)
qed

text \<open>Deleting an end on the acknowledgement, with its inbound pipe.\<close>

lemma shape_recv_ack:
  assumes sh: "shape a b (Some x) xb (Cmd_pipe_term_ack # qa) qb D" and k: "inpipe x = Some k"
    and qb': "qb' = (if state x = Term_req_sent1 then qb @ [Cmd_pipe_term_ack] else qb)"
  shows "k \<in> D" "qa = []" "shape a b None xb qa qb' (D - {k})"
proof -
  have hx: "half_ok b (Some x) xb (Cmd_pipe_term_ack # qa) D"
    and hs: "hs_ok (Some (state x)) (map_option state xb) (Cmd_pipe_term_ack # terms qa) (terms qb)"
    and hxb: "half_ok a xb (Some x) qb D" and ab: "a \<noteq> b"
    and dis: "in_ref xb \<inter> in_ref (Some x) = {}"
    using sh by (auto simp: shape_def)
  show "k \<in> D" using hx k by (simp add: half_ok_Some in_ref_Some)
  show qa: "qa = []" using hx by (simp add: half_ok_Some)
  have out: "out_chain None qa = []" "in_ref None = {}" by (simp_all add: out_chain_def in_ref_def)
  show "shape a b None xb qa qb' (D - {k})"
  proof (cases xb)
    case None
    then have "qb' = []" using hxb hs_recv_ack[OF hs] qb' by (auto simp: half_ok_def)
    then show ?thesis using None hs_recv_ack[OF hs] qa ab hxb qb'
      by (auto simp: shape_def half_ok_def out_chain_def in_ref_def split: if_splits)
  next
    case (Some y)
    have ns: "\<not> may_send (state y)" using hs_recv_ack[OF hs] Some by (cases "state x = Term_req_sent1") auto
    then have oy: "outpipe y = None" using hxb Some by (auto simp: half_ok_Some)
    have cy: "out_chain (Some y) q = []" for q using oy by (rule out_chain_None)
    have ok: "hs_ok None (Some (state y)) [] (terms qb')"
      using hs_recv_ack(1)[OF hs] hs_recv_ack(2,3)[OF hs] qb' qa Some by (auto split: if_splits)
    have "inbox_ok qb'"
    proof (cases "state x = Term_req_sent1")
      case True
      then have "Cmd_pipe_term_ack \<notin> set (terms qb)"
        using hs Some by (auto simp: hs_ok_def hs_table_def)
      then show ?thesis using True inbox_ok_snoc[of qb Cmd_pipe_term_ack] hxb Some qb'
        by (simp add: half_ok_Some)
    qed (use hxb Some qb' in \<open>simp add: half_ok_Some\<close>)
    moreover have "hiccups qb' = hiccups qb" using qb' by simp
    ultimately have "half_ok a (Some y) None qb' (D - {k})"
      using hxb dis k oy unfolding Some half_ok_Some cy in_ref_Some by auto
    then show ?thesis using Some ok ab qa cy ns by (simp add: shape_def half_ok_def out)
  qed
qed

subsection \<open>The invariant of a pair in a world\<close>

definition hs_inv :: "nat \<Rightarrow> nat \<Rightarrow> 'z world_scheme \<Rightarrow> msg_t multiset \<Rightarrow> bool" where
  "hs_inv a b w E \<longleftrightarrow> pipes_inv w E \<and>
     shape a b (pipes w a) (pipes w b) (inbox a w) (inbox b w) (dom (upipes w))"

lemma hs_inv_sym: "hs_inv a b w E \<Longrightarrow> hs_inv b a w E"
  by (simp add: hs_inv_def shape_sym)

lemma hs_inv_frame:
  assumes "hs_inv a b w E" "pipes_inv w' E'" "pipes w' = pipes w" "sent w' = sent w"
    "dom (upipes w') = dom (upipes w)"
  shows "hs_inv a b w' E'"
  using assms by (simp add: hs_inv_def inbox_def)

lemma hs_inv_quiet:
  assumes "hs_inv a b w E" "pipes w a = Some x" "same_end x x'"
  shows "hs_inv a b (put_pipe a x' w) E"
proof -
  have "shape a b (Some x) (pipes w b) (inbox a w) (inbox b w) (dom (upipes w))" "pipes_inv w E"
    using assms by (simp_all add: hs_inv_def)
  moreover from this(1) have "a \<noteq> b" by (simp add: shape_def)
  ultimately show ?thesis using shape_quiet[OF _ assms(3)] by (simp add: hs_inv_def)
qed

lemma pipe_update_order [simp]:
  "x\<lparr>outpipe := k, state := s\<rparr> = x\<lparr>state := s, outpipe := k\<rparr>"
  by simp

lemma hs_inv_D:
  assumes "hs_inv a b w E" "pipes w a = Some x"
  shows "pipes_inv w E" "a \<noteq> b" "peer x = Some b" "sink_set x"
    "outpipe x \<noteq> None \<longleftrightarrow> may_send (state x)"
    "\<exists>k u. inpipe x = Some k \<and> upipes w k = Some u"
    "\<And>k. outpipe x = Some k \<Longrightarrow> \<exists>u. upipes w k = Some u"
    "may_send (state x) \<Longrightarrow> \<exists>y. pipes w b = Some y"
proof -
  have sh: "shape a b (Some x) (pipes w b) (inbox a w) (inbox b w) (dom (upipes w))"
    using assms by (simp add: hs_inv_def)
  note h = shapeD(1)[OF sh, unfolded half_ok_Some]
  show "pipes_inv w E" using assms by (simp add: hs_inv_def)
  show "a \<noteq> b" using sh by (simp add: shape_def)
  show "peer x = Some b" "sink_set x" "outpipe x \<noteq> None \<longleftrightarrow> may_send (state x)" using h by blast+
  show "\<exists>k u. inpipe x = Some k \<and> upipes w k = Some u" using h by (auto simp: in_ref_Some)
  show "\<exists>u. upipes w k = Some u" if "outpipe x = Some k" for k
    using h that by (auto simp: out_chain_def)
  show "\<exists>y. pipes w b = Some y" if "may_send (state x)"
    using shape_peer[OF sh that] by auto
qed

text \<open>Sending, and what the handshake makes of it.\<close>

lemma hs_send_other:
  assumes inv: "hs_inv a b w E" and x: "pipes w a = Some x" and s: "may_send (state x)" "other_cmd c"
  obtains w' where "send_to (peer x) c w = Some w'" "hs_inv a b w' E" "pipes w' = pipes w"
    "upipes w' = upipes w"
proof -
  obtain y where y: "pipes w b = Some y" using hs_inv_D(8)[OF inv x] s by blast
  have sh: "shape a b (Some x) (pipes w b) (inbox a w) (inbox b w @ [c]) (dom (upipes w))"
    using inv x s shape_send_other by (simp add: hs_inv_def)
  then show ?thesis
    using that[of "w\<lparr>sent := sent w @ [(b, c)]\<rparr>"] inv x y hs_inv_D(2,3)[OF inv x]
    by (simp add: send_to_def hs_inv_def)
qed

lemma flush_ok:
  assumes inv: "hs_inv a b w E" and x: "pipes w a = Some x"
  obtains w' where "pipe_flush a w = Some w'" "hs_inv a b w' E" "pipes w' = pipes w"
proof (cases "state x = Term_ack_sent \<or> outpipe x = None")
  case True
  then show ?thesis using that[of w] inv x by (auto simp: pipe_flush_def)
next
  case False
  then obtain k where k: "outpipe x = Some k" by auto
  then have s: "may_send (state x)" using hs_inv_D(5)[OF inv x] by blast
  obtain u where u: "upipes w k = Some u" using hs_inv_D(7)[OF inv x k] by blast
  let ?w = "put_upipe k (snd (upipe_flush u)) w"
  have w1: "hs_inv a b ?w E"
    by (rule hs_inv_frame[OF inv pipes_inv_flush[OF hs_inv_D(1)[OF inv x] u]]) (use u in auto)
  obtain w2 where w2: "send_to (peer x) Cmd_activate_read ?w = Some w2" "hs_inv a b w2 E" "pipes w2 = pipes w"
    using hs_send_other[OF w1, of x Cmd_activate_read] x s by auto
  show ?thesis
  proof (cases "fst (upipe_flush u)")
    case True
    then show ?thesis using that[of ?w] w1 False k u x by (simp add: pipe_flush_def case_prod_beta)
  next
    case F: False
    then show ?thesis using that[of w2] w2 False k u x
      by (simp add: pipe_flush_def case_prod_beta send_activate_read_def)
  qed
qed

lemma rollback_ok:
  assumes inv: "hs_inv a b w E" and x: "pipes w a = Some x"
  obtains w' where "pipe_rollback a w = Some w'" "hs_inv a b w' E" "pipes w' = pipes w"
    "dom (upipes w') = dom (upipes w)"
proof (cases "outpipe x")
  case None
  then show ?thesis using that[of w] inv x by (simp add: pipe_rollback_def)
next
  case (Some k)
  obtain u where u: "upipes w k = Some u" using hs_inv_D(7)[OF inv x Some] by blast
  obtain u' w1 where r: "rollback_loop upipe_unwrite u w = Some (u', w1)"
    "pipes_inv (put_upipe k u' w1) E" "msg_store.more w1 = msg_store.more w"
    using pipes_inv_rollback[OF hs_inv_D(1)[OF inv x] u] by metis
  note m = world_more[OF r(3)]
  have "hs_inv a b (put_upipe k u' w1) E"
    by (rule hs_inv_frame[OF inv r(2)]) (use m u in auto)
  then show ?thesis using that[of "put_upipe k u' w1"] r(1) u x Some m by (auto simp: pipe_rollback_def)
qed

lemma process_delimiter_ok:
  assumes inv: "hs_inv a b w E" and x: "pipes w a = Some x"
    and s: "state x = Active \<or> state x = Waiting_for_delimiter"
  obtains w' where "process_delimiter a w = Some w'" "hs_inv a b w' E"
proof -
  have sh: "shape a b (Some x) (pipes w b) (inbox a w) (inbox b w) (dom (upipes w))"
    using inv x by (simp add: hs_inv_def)
  have ab: "a \<noteq> b" and p: "peer x = Some b" and pi: "pipes_inv w E" using hs_inv_D[OF inv x] by auto
  show ?thesis
  proof (cases "state x = Active")
    case True
    show ?thesis
      using that[of "put_pipe a (x\<lparr>state := Delimiter_received\<rparr>) w"] True x pi ab
        shape_delimiter_active[OF sh True]
      by (simp add: process_delimiter_def hs_inv_def)
  next
    case False
    then have W: "state x = Waiting_for_delimiter" using s by simp
    obtain y where y: "pipes w b = Some y" using hs_inv_D(8)[OF inv x] W by auto
    let ?x = "x\<lparr>outpipe := None, state := Term_ack_sent\<rparr>"
    let ?w = "put_pipe a ?x ((put_pipe a (x\<lparr>outpipe := None\<rparr>) w)\<lparr>sent := sent w @ [(b, Cmd_pipe_term_ack)]\<rparr>)"
    have i: "inbox a ?w = inbox a w" "inbox b ?w = inbox b w @ [Cmd_pipe_term_ack]"
      using ab by (simp_all add: inbox_def)
    have "process_delimiter a w = Some ?w"
      using W x y p ab by (simp add: process_delimiter_def send_pipe_term_ack_def send_to_def)
    moreover have "hs_inv a b ?w E"
      unfolding hs_inv_def i using shape_ack_waiting[OF sh W] pi ab by simp
    ultimately show ?thesis by (rule that)
  qed
qed

subsection \<open>Reading and writing\<close>

lemma check_read_ok:
  assumes inv: "hs_inv a b w E" and x: "pipes w a = Some x"
  obtains r w' L where "pipe_check_read a w = Some (r, w')" "hs_inv a b w' (L + E)"
proof (cases "in_active x \<and> (state x = Active \<or> state x = Waiting_for_delimiter)")
  case False
  then show ?thesis using that[of False w "{#}"] inv x by (auto simp: pipe_check_read_def)
next
  case True
  obtain k u where k: "inpipe x = Some k" and u: "upipes w k = Some u" using hs_inv_D(6)[OF inv x] by blast
  let ?u = "snd (upipe_check_read u)" and ?ok = "fst (upipe_check_read u)"
  let ?w = "put_upipe k ?u w"
  have pi: "pipes_inv ?w E" and fr: "?ok \<Longrightarrow> \<exists>m. upipe_front ?u m"
    using pipes_inv_check_read[OF hs_inv_D(1)[OF inv x] u] by auto
  have w1: "hs_inv a b ?w E" by (rule hs_inv_frame[OF inv pi]) (use u in auto)
  show ?thesis
  proof (cases ?ok)
    case False
    have "hs_inv a b (put_pipe a (x\<lparr>in_active := False\<rparr>) ?w) E"
      by (rule hs_inv_quiet[OF w1]) (use x in \<open>simp_all add: same_end_def\<close>)
    moreover have "pipe_check_read a w = Some (False, put_pipe a (x\<lparr>in_active := False\<rparr>) ?w)"
      using True False x k u by (auto simp: pipe_check_read_def case_prod_beta)
    ultimately show ?thesis using that[of False _ "{#}"] by simp
  next
    case ok: True
    then obtain m u2 where m: "\<And>fn. upipe_probe ?u fn = Some (fn m, ?u)" "upipe_read ?u = Some (Some m, u2)"
      using fr by (auto simp: upipe_front_def)
    show ?thesis
    proof (cases "is_delimiter m")
      case False
      then show ?thesis
        using that[of True ?w "{#}"] w1 True ok x k u m(1) by (auto simp: pipe_check_read_def case_prod_beta)
    next
      case d: True
      have k2: "upipes ?w k = Some ?u" by simp
      have "pipes_inv (put_upipe k u2 ?w) (opt_mset (Some m) + E)"
        using pipes_inv_read[OF pi k2] m(2) by (metis option.inject prod.inject)
      then have "hs_inv a b (put_upipe k u2 ?w) (opt_mset (Some m) + E)"
        by (rule hs_inv_frame[OF w1]) auto
      moreover have "put_upipe k u2 ?w = put_upipe k u2 w" by (simp add: put_upipe_def)
      ultimately have w2: "hs_inv a b (put_upipe k u2 w) (opt_mset (Some m) + E)" by simp
      obtain w3 where "process_delimiter a (put_upipe k u2 w) = Some w3" "hs_inv a b w3 (opt_mset (Some m) + E)"
        using process_delimiter_ok[OF w2, of x] x True by auto
      then show ?thesis
        using that[of False w3 "{#m#}"] True ok x k u m d by (auto simp: pipe_check_read_def case_prod_beta)
    qed
  qed
qed

lemma same_end_refl [simp]: "same_end x x"
  by (simp add: same_end_def)

lemma same_end_trans: "same_end x y \<Longrightarrow> same_end y z \<Longrightarrow> same_end x z"
  by (simp add: same_end_def)

text \<open>The loop over credentials ends, because each turn takes a message out of the pipe.\<close>

lemma read_message_ok:
  assumes "hs_inv a b w E" "pipes w a = Some x" "inpipe x = Some k" "upipes w k = Some u"
    "upipe_owned u M n"
  shows "\<exists>ok m' w' x'. pipe_read_message a k m w = Some (ok, m', w') \<and> pipes w' a = Some x' \<and>
    same_end x x' \<and> (ok \<longrightarrow> sendable m') \<and> hs_inv a b w' (if ok then add_mset m' E else E)"
  using assms
proof (induction n arbitrary: w x u M m rule: less_induct)
  case (less n)
  note inv = less.prems(1) and x = less.prems(2) and k = less.prems(3) and u = less.prems(4)
  obtain r u' where r: "upipe_read u = Some (r, u')" "pipes_inv (put_upipe k u' w) (opt_mset r + E)"
    "\<forall>m. r = Some m \<longrightarrow> sendable m"
    using pipes_inv_read[OF hs_inv_D(1)[OF inv x] u] by metis
  obtain M' n' where o: "upipe_owned u' M' n'" "\<forall>m. r = Some m \<longrightarrow> n' < n"
    using upipe_read_law[OF less.prems(5)] r(1) by (metis option.inject prod.inject)
  let ?w = "put_upipe k u' w"
  have w1: "hs_inv a b ?w (opt_mset r + E)" by (rule hs_inv_frame[OF inv r(2)]) (use u in auto)
  show ?case
  proof (cases r)
    case None
    have "hs_inv a b (put_pipe a (x\<lparr>in_active := False\<rparr>) ?w) E"
      using hs_inv_quiet[OF w1, of x "x\<lparr>in_active := False\<rparr>"] x None by (simp add: same_end_def)
    then show ?thesis using None x u r(1) by (subst pipe_read_message.simps) (auto simp: same_end_def)
  next
    case (Some m1)
    show ?thesis
    proof (cases "is_credential m1")
      case False
      then show ?thesis using Some x u r w1 by (subst pipe_read_message.simps) auto
    next
      case cr: True
      then have sm: "sendable m1" "has_body m1" using r(3) Some by (auto simp: sendable_def)
      have p1: "pipes_inv ?w (add_mset m1 E)" using r(2) Some by simp
      obtain d where "msg_body m1 ?w = Some d" using pipes_inv_body[OF p1 sm(2)] by blast
      moreover have "msg_body m1 ?w = msg_body m1 w" by (cases "msg_type m1") (simp_all add: msg_body_def put_upipe_def)
      ultimately have d: "msg_body m1 w = Some d" by simp
      let ?x = "x\<lparr>credential := d\<rparr>"
      let ?w2 = "put_pipe a ?x ?w"
      have w2: "hs_inv a b ?w2 (add_mset m1 E)"
        using hs_inv_quiet[OF w1, of x ?x] x Some by (simp add: same_end_def)
      have p2: "pipes_inv ?w2 (add_mset m1 E)" using p1 by simp
      obtain m2 w3 where c: "msg_close m1 ?w2 = Some (Rc_ok, m2, w3)" "pipes_inv w3 E"
        "msg_store.more w3 = msg_store.more ?w2"
        using pipes_inv_close[OF p2 sm(1)] by metis
      note mo = world_more[OF c(3)]
      have w3: "hs_inv a b w3 E" by (rule hs_inv_frame[OF w2 c(2)]) (simp_all add: mo)
      have lt: "n' < n" using o(2) Some by simp
      have "\<exists>ok m' w' x'. pipe_read_message a k m2 w3 = Some (ok, m', w') \<and> pipes w' a = Some x' \<and>
          same_end ?x x' \<and> (ok \<longrightarrow> sendable m') \<and> hs_inv a b w' (if ok then add_mset m' E else E)"
        by (rule less.IH[OF lt w3 _ _ _ o(1)]) (use mo k in simp_all)
      moreover have "same_end x ?x" by (simp add: same_end_def)
      moreover have "pipe_read_message a k m w = pipe_read_message a k m2 w3"
        using Some x u r(1) cr d c(1) by (subst pipe_read_message.simps) simp
      ultimately show ?thesis using same_end_trans by metis
    qed
  qed
qed

lemma read_ok:
  assumes inv: "hs_inv a b w E" and x: "pipes w a = Some x"
  obtains r m' w' L where "pipe_read a m w = Some (r, m', w')" "hs_inv a b w' (L + E)"
    "r \<Longrightarrow> sendable m' \<and> L = {#m'#}" "\<not> r \<Longrightarrow> plain L"
proof (cases "in_active x \<and> (state x = Active \<or> state x = Waiting_for_delimiter)")
  case False
  then show ?thesis using that[of False m w "{#}"] inv x by (auto simp: pipe_read_def plain_def)
next
  case True
  obtain k u where k: "inpipe x = Some k" and u: "upipes w k = Some u" using hs_inv_D(6)[OF inv x] by blast
  obtain M n where o: "upipe_owned u M n" using pipes_focus[OF hs_inv_D(1)[OF inv x] u] by metis
  obtain ok m1 w1 x1 where r: "pipe_read_message a k m w = Some (ok, m1, w1)" "pipes w1 a = Some x1"
    "same_end x x1" "ok \<longrightarrow> sendable m1" "hs_inv a b w1 (if ok then add_mset m1 E else E)"
    using read_message_ok[OF inv x k u o, of m] by blast
  have st: "state x1 = state x" using r(3) by (simp add: same_end_def)
  show ?thesis
  proof (cases "ok \<and> \<not> is_delimiter m1")
    case False
    show ?thesis
    proof (cases ok)
      case True
      then have d: "is_delimiter m1" using False by simp
      obtain w2 where "process_delimiter a w1 = Some w2" "hs_inv a b w2 (add_mset m1 E)"
        using process_delimiter_ok[OF r(5) r(2)] \<open>in_active x \<and> _\<close> st True by auto
      then show ?thesis
        using that[of False m1 w2 "{#m1#}"] x k r(1) True d \<open>in_active x \<and> _\<close>
        by (auto simp: pipe_read_def plain_def is_lmsg_def is_zcmsg_def is_delimiter_def)
    next
      case False
      then show ?thesis
        using that[of False m1 w1 "{#}"] x k r \<open>in_active x \<and> _\<close> by (auto simp: pipe_read_def plain_def)
    qed
  next
    case ok: True
    let ?x = "count_read m1 x1"
    have "same_end x1 ?x" by (simp add: same_end_def count_read_def)
    then have w2: "hs_inv a b (put_pipe a ?x w1) (add_mset m1 E)"
      using hs_inv_quiet[OF r(5) r(2)] ok by simp
    have s: "may_send (state ?x)" using True st \<open>same_end x1 ?x\<close> by (auto simp: same_end_def)
    obtain w3 where w3: "send_to (peer ?x) (Cmd_activate_write (msgs_read ?x)) (put_pipe a ?x w1) = Some w3"
      "hs_inv a b w3 (add_mset m1 E)"
      using hs_send_other[OF w2, of ?x "Cmd_activate_write (msgs_read ?x)"] s by auto
    show ?thesis
    proof (cases "lwm ?x > 0 \<and> uint (msgs_read ?x) mod lwm ?x = 0")
      case lw: True
      then show ?thesis using that[of True m1 w3 "{#m1#}"] w3 x k r ok True
        by (auto simp: pipe_read_def send_activate_write_def)
    next
      case lw: False
      then have "pipe_read a m w = Some (True, m1, put_pipe a ?x w1)"
        using x k r ok True by (auto simp: pipe_read_def)
      then show ?thesis using that[of True m1 _ "{#m1#}"] w2 r(4) ok by auto
    qed
  qed
qed

lemma check_write_ok:
  assumes inv: "hs_inv a b w E" and x: "pipes w a = Some x"
  obtains r w' x' where "pipe_check_write a w = Some (r, w')" "hs_inv a b w' E" "pipes w' a = Some x'"
    "same_end x x'" "r \<Longrightarrow> w' = w \<and> state x = Active"
proof (cases "out_active x \<and> state x = Active \<and> \<not> check_hwm x")
  case True
  have "hs_inv a b (put_pipe a (x\<lparr>out_active := False\<rparr>) w) E"
    by (rule hs_inv_quiet[OF inv x]) (simp add: same_end_def)
  then show ?thesis using that[of False "put_pipe a (x\<lparr>out_active := False\<rparr>) w"] True x
    by (auto simp: pipe_check_write_def same_end_def)
next
  case False
  then show ?thesis
    using that[OF _ inv x, of "out_active x \<and> state x = Active"] x
    by (cases "out_active x \<and> state x = Active") (auto simp: pipe_check_write_def)
qed

lemma write_ok:
  assumes inv: "hs_inv a b w (add_mset m E)" and x: "pipes w a = Some x" and m: "sendable m"
  obtains r m' w' where "pipe_write a m w = Some (r, m', w')"
    "hs_inv a b w' (if r then E else add_mset m E)"
proof -
  obtain r w1 x1 where c: "pipe_check_write a w = Some (r, w1)" "hs_inv a b w1 (add_mset m E)"
    "pipes w1 a = Some x1" "same_end x x1" "r \<Longrightarrow> w1 = w \<and> state x = Active"
    using check_write_ok[OF inv x] by metis
  show ?thesis
  proof (cases r)
    case False
    then show ?thesis using that[of False m w1] c by (simp add: pipe_write_def)
  next
    case True
    then have w1: "w1 = w" "x1 = x" "may_send (state x)" using c(3,5) x by auto
    then obtain k where k: "outpipe x = Some k" using hs_inv_D(5)[OF inv x] by auto
    obtain u where u: "upipes w k = Some u" using hs_inv_D(7)[OF inv x k] by blast
    obtain u' m' w2 where wr: "upipe_write u m (has_flag m flag_more) w = Some (u', m', w2)"
      "pipes_inv (put_upipe k u' w2) E" "msg_store.more w2 = msg_store.more w"
      using pipes_inv_write[OF hs_inv_D(1)[OF inv x] u m, of "has_flag m flag_more"] by metis
    note mo = world_more[OF wr(3)]
    have w2: "hs_inv a b (put_upipe k u' w2) E"
      by (rule hs_inv_frame[OF inv wr(2)]) (use mo u in auto)
    let ?x = "if \<not> has_flag m flag_more \<and> \<not> is_routing_id m
      then x\<lparr>msgs_written := msgs_written x + 1\<rparr> else x"
    have "hs_inv a b (put_pipe a ?x (put_upipe k u' w2)) E"
      by (rule hs_inv_quiet[OF w2, of x]) (use mo x in \<open>simp_all add: same_end_def\<close>)
    moreover have "pipe_write a m w = Some (True, m', put_pipe a ?x (put_upipe k u' w2))"
      using c(1) w1 True x k u wr(1) by (simp add: pipe_write_def)
    ultimately show ?thesis using that[of True] by simp
  qed
qed

lemma hiccup_ok:
  assumes inv: "hs_inv a b w E" and x: "pipes w a = Some x"
  obtains w' where "pipe_hiccup a w = Some w'" "hs_inv a b w' E"
proof (cases "state x = Active")
  case False
  then show ?thesis using that[of w] inv x by (simp add: pipe_hiccup_def)
next
  case True
  obtain y where y: "pipes w b = Some y" using hs_inv_D(8)[OF inv x] True by auto
  let ?k = "next_upipe w" and ?x = "x\<lparr>inpipe := Some (next_upipe w), in_active := True\<rparr>"
  obtain w1 where n: "new_upipe (conflate x) w = Some (?k, w1)" "pipes_inv w1 E" "pipes w1 = pipes w"
    "sent w1 = sent w" "dom (upipes w1) = insert ?k (dom (upipes w))"
    using pipes_inv_new_upipe[OF hs_inv_D(1)[OF inv x]] by metis
  have kD: "?k \<notin> dom (upipes w)" using hs_inv_D(1)[OF inv x] by (auto simp: pipes_inv_def)
  have sh: "shape a b (Some x) (pipes w b) (inbox a w) (inbox b w) (dom (upipes w))"
    using inv x by (simp add: hs_inv_def)
  let ?w = "(put_pipe a ?x w1)\<lparr>sent := sent w1 @ [(b, Cmd_hiccup ?k)]\<rparr>"
  have ab: "a \<noteq> b" using hs_inv_D(2)[OF inv x] .
  have i: "inbox a ?w = inbox a w" "inbox b ?w = inbox b w @ [Cmd_hiccup ?k]"
    using ab n(4) by (simp_all add: inbox_def)
  have "hs_inv a b ?w E"
    unfolding hs_inv_def i using shape_send_hiccup[OF sh True kD, of True] n ab by simp
  moreover have "pipe_hiccup a w = Some ?w"
    using True x y n ab hs_inv_D(3)[OF inv x] by (simp add: pipe_hiccup_def send_hiccup_def send_to_def)
  ultimately show ?thesis by (rule that[rotated])
qed

subsection \<open>Termination\<close>

lemma delimiter_sendable [simp]:
  "sendable (msg_init_delimiter msg_raw)" "plain {#msg_init_delimiter msg_raw#}"
  by (simp_all add: sendable_def msg_init_delimiter_def msg_init_base_def msg_check_def plain_def
      is_lmsg_def is_zcmsg_def is_credential_def flag_credential_def msg_raw_def)

lemma terminate_finish_ok:
  assumes inv: "hs_inv a b w E" and x: "pipes w a = Some x"
  obtains w' where "terminate_finish a w = Some w'" "hs_inv a b w' E"
proof -
  let ?x = "x\<lparr>out_active := False\<rparr>"
  have w1: "hs_inv a b (put_pipe a ?x w) E" by (rule hs_inv_quiet[OF inv x]) (simp add: same_end_def)
  show ?thesis
  proof (cases "outpipe x")
    case None
    then show ?thesis using that[OF _ w1] x by (simp add: terminate_finish_def)
  next
    case (Some k)
    obtain w2 where w2: "pipe_rollback a (put_pipe a ?x w) = Some w2" "hs_inv a b w2 E"
      "pipes w2 = pipes (put_pipe a ?x w)" "dom (upipes w2) = dom (upipes (put_pipe a ?x w))"
      using rollback_ok[OF w1, of ?x] by auto
    have x2: "pipes w2 a = Some ?x" using w2(3) by simp
    obtain u where u: "upipes w2 k = Some u" using hs_inv_D(7)[OF w2(2) x2, of k] Some by auto
    let ?d = "msg_init_delimiter msg_raw"
    have "pipes_inv w2 (add_mset ?d E)"
      using hs_inv_D(1)[OF w2(2) x2] pipes_inv_plain[OF delimiter_sendable(2), of w2 E] by simp
    then obtain u' m' w3 where wr: "upipe_write u ?d False w2 = Some (u', m', w3)"
      "pipes_inv (put_upipe k u' w3) E" "msg_store.more w3 = msg_store.more w2"
      using pipes_inv_write[OF _ u delimiter_sendable(1), of E False] by metis
    note mo = world_more[OF wr(3)]
    have w3: "hs_inv a b (put_upipe k u' w3) E" by (rule hs_inv_frame[OF w2(2) wr(2)]) (use mo u in auto)
    have x3: "pipes (put_upipe k u' w3) a = Some ?x" using mo x2 by simp
    obtain w4 where "pipe_flush a (put_upipe k u' w3) = Some w4" "hs_inv a b w4 E"
      using flush_ok[OF w3 x3] by metis
    then show ?thesis using that x Some w2(1) u wr(1) by (auto simp: terminate_finish_def)
  qed
qed

lemma terminate_ok:
  assumes inv: "hs_inv a b w E" and x: "pipes w a = Some x"
  obtains w' where "pipe_terminate d a w = Some w'" "hs_inv a b w' E"
proof -
  let ?x = "x\<lparr>delay := d\<rparr>"
  let ?w = "put_pipe a ?x w"
  have w1: "hs_inv a b ?w E" by (rule hs_inv_quiet[OF inv x]) (simp add: same_end_def)
  have x1: "pipes ?w a = Some ?x" by simp
  note D = hs_inv_D[OF w1 x1]
  have sh: "shape a b (Some ?x) (pipes w b) (inbox a w) (inbox b w) (dom (upipes w))"
    using w1 D(2) by (simp add: hs_inv_def)
  have p: "peer x = Some b" and ab: "a \<noteq> b" using D(2,3) by auto
  consider "state x = Active \<or> state x = Delimiter_received"
    | "state x = Waiting_for_delimiter" "\<not> d" | "state x = Waiting_for_delimiter" "d"
    | "\<not> may_send (state x) \<or> state x = Term_req_sent1"
    by (cases "state x") auto
  then show ?thesis
  proof cases
    case 1
    obtain y where y: "pipes w b = Some y" using D(8) 1 ab by auto
    let ?x2 = "?x\<lparr>state := Term_req_sent1\<rparr>"
    let ?w2 = "put_pipe a ?x2 (?w\<lparr>sent := sent w @ [(b, Cmd_pipe_term)]\<rparr>)"
    have i: "inbox a ?w2 = inbox a w" "inbox b ?w2 = inbox b w @ [Cmd_pipe_term]"
      using ab by (simp_all add: inbox_def)
    have "hs_inv a b ?w2 E"
      unfolding hs_inv_def i using shape_send_term[OF sh] 1 D(1) ab by simp
    then obtain w3 where "terminate_finish a ?w2 = Some w3" "hs_inv a b w3 E"
      using terminate_finish_ok[of a b ?w2 E ?x2] by auto
    then show ?thesis using that x y 1 p ab
      by (auto simp: pipe_terminate_def send_pipe_term_def send_to_def)
  next
    case 2
    obtain w2 where w2: "pipe_rollback a ?w = Some w2" "hs_inv a b w2 E" "pipes w2 = pipes ?w"
      using rollback_ok[OF w1 x1] by metis
    have x2: "pipes w2 a = Some ?x" using w2(3) by simp
    have sh2: "shape a b (Some ?x) (pipes w2 b) (inbox a w2) (inbox b w2) (dom (upipes w2))"
      using w2(2) x2 by (simp add: hs_inv_def)
    obtain y where y: "pipes w2 b = Some y" using hs_inv_D(8)[OF w2(2) x2] 2 by auto
    let ?x3 = "?x\<lparr>state := Term_ack_sent, outpipe := None\<rparr>"
    let ?w3 = "put_pipe a ?x3 ((put_pipe a (?x\<lparr>outpipe := None\<rparr>) w2)
      \<lparr>sent := sent w2 @ [(b, Cmd_pipe_term_ack)]\<rparr>)"
    have i: "inbox a ?w3 = inbox a w2" "inbox b ?w3 = inbox b w2 @ [Cmd_pipe_term_ack]"
      using ab by (simp_all add: inbox_def)
    have st: "state ?x = Waiting_for_delimiter" using 2 by simp
    have "hs_inv a b ?w3 E"
      unfolding hs_inv_def i
      using shape_ack_waiting[OF sh2 st] hs_inv_D(1)[OF w2(2) x2] ab by simp
    then obtain w4 where "terminate_finish a ?w3 = Some w4" "hs_inv a b w4 E"
      using terminate_finish_ok[of a b ?w3 E ?x3] by auto
    then show ?thesis using that x y 2 p ab w2(1) x2
      by (auto simp: pipe_terminate_def send_pipe_term_ack_def send_to_def)
  next
    case 3
    obtain w2 where "terminate_finish a ?w = Some w2" "hs_inv a b w2 E"
      using terminate_finish_ok[OF w1 x1] by metis
    then show ?thesis using that x 3 by (auto simp: pipe_terminate_def)
  next
    case 4
    then show ?thesis using that[OF _ w1] x by (cases "state x") (auto simp: pipe_terminate_def)
  qed
qed

subsection \<open>Processing commands\<close>

text \<open>Command \<open>c\<close> was taken out of the mailbox of end \<open>a\<close> and is about to be processed.\<close>

definition pending :: "nat \<Rightarrow> nat \<Rightarrow> command \<Rightarrow> 'z world_scheme \<Rightarrow> msg_t multiset \<Rightarrow> bool" where
  "pending a b c w E \<longleftrightarrow> pipes_inv w E \<and>
     shape a b (pipes w a) (pipes w b) (c # inbox a w) (inbox b w) (dom (upipes w))"

lemma pendingD:
  assumes "pending a b c w E"
  obtains x where "pipes w a = Some x" "pipes_inv w E" "a \<noteq> b"
    "shape a b (Some x) (pipes w b) (c # inbox a w) (inbox b w) (dom (upipes w))"
    "half_ok b (Some x) (pipes w b) (c # inbox a w) (dom (upipes w))"
proof -
  have sh: "shape a b (pipes w a) (pipes w b) (c # inbox a w) (inbox b w) (dom (upipes w))"
    using assms by (simp add: pending_def)
  then obtain x where x: "pipes w a = Some x" by (cases "pipes w a") (auto simp: shape_def half_ok_def)
  moreover have "a \<noteq> b" using sh by (simp add: shape_def)
  moreover have "half_ok b (Some x) (pipes w b) (c # inbox a w) (dom (upipes w))"
    using sh x by (simp add: shape_def)
  moreover have "pipes_inv w E" using assms by (simp add: pending_def)
  moreover have "shape a b (Some x) (pipes w b) (c # inbox a w) (inbox b w) (dom (upipes w))"
    using sh x by simp
  ultimately show ?thesis by (intro that)
qed

lemma pending_other:
  assumes "pending a b c w E" "other_cmd c"
  shows "hs_inv a b w E"
proof -
  obtain x where "pipes w a = Some x" "pipes_inv w E"
    "shape a b (Some x) (pipes w b) (c # inbox a w) (inbox b w) (dom (upipes w))"
    using pendingD[OF assms(1)] by metis
  then show ?thesis using shape_recv_other[OF _ assms(2)] by (simp add: hs_inv_def)
qed

lemma recv_activate_read_ok:
  assumes "pending a b Cmd_activate_read w E"
  obtains w' where "process_activate_read (\<lambda>_ _ w. Some w) a w = Some w'" "hs_inv a b w' E"
proof -
  obtain x where x: "pipes w a = Some x" using pendingD[OF assms] by metis
  have w0: "hs_inv a b w E" using pending_other[OF assms] by simp
  have w1: "hs_inv a b (put_pipe a (x\<lparr>in_active := True\<rparr>) w) E"
    by (rule hs_inv_quiet[OF w0 x]) (simp add: same_end_def)
  show ?thesis
  proof (cases "\<not> in_active x \<and> (state x = Active \<or> state x = Waiting_for_delimiter)")
    case True
    then show ?thesis using that[OF _ w1] x hs_inv_D(4)[OF w0 x]
      by (auto simp: process_activate_read_def call_sink_def)
  next
    case False
    then show ?thesis using that[OF _ w0] x by (auto simp: process_activate_read_def)
  qed
qed

lemma recv_activate_write_ok:
  assumes "pending a b (Cmd_activate_write n) w E"
  obtains w' where "process_activate_write (\<lambda>_ _ w. Some w) n a w = Some w'" "hs_inv a b w' E"
proof -
  obtain x where x: "pipes w a = Some x" using pendingD[OF assms] by metis
  have w0: "hs_inv a b w E" using pending_other[OF assms] by simp
  let ?x = "x\<lparr>peers_msgs_read := n\<rparr>"
  have w1: "hs_inv a b (put_pipe a ?x w) E"
    by (rule hs_inv_quiet[OF w0 x]) (simp add: same_end_def)
  have w2: "hs_inv a b (put_pipe a (?x\<lparr>out_active := True\<rparr>) w) E"
    by (rule hs_inv_quiet[OF w0 x]) (simp add: same_end_def)
  show ?thesis
  proof (cases "\<not> out_active x \<and> state x = Active")
    case True
    then show ?thesis using that[OF _ w2] x hs_inv_D(4)[OF w0 x]
      by (simp add: process_activate_write_def call_sink_def)
  next
    case False
    then show ?thesis using that[OF _ w1] x by (auto simp: process_activate_write_def)
  qed
qed

lemma recv_hiccup_ok:
  assumes "pending a b (Cmd_hiccup k) w E"
  obtains w' L where "process_hiccup (\<lambda>_ _ w. Some w) k a w = Some w'" "hs_inv a b w' (L + E)"
proof -
  obtain x where x: "pipes w a = Some x" and pi: "pipes_inv w E" and ab: "a \<noteq> b"
    and sh: "shape a b (Some x) (pipes w b) (Cmd_hiccup k # inbox a w) (inbox b w) (dom (upipes w))"
    and h: "half_ok b (Some x) (pipes w b) (Cmd_hiccup k # inbox a w) (dom (upipes w))"
    using pendingD[OF assms] by metis
  have "awaits_term (state x)" using h by (auto simp: half_ok_Some)
  then have "may_send (state x)" by (auto simp: awaits_term_def)
  then obtain k0 where k0: "outpipe x = Some k0" using h by (auto simp: half_ok_Some)
  then obtain u where u: "upipes w k0 = Some u" using h by (auto simp: half_ok_Some out_chain_def)
  let ?u1 = "snd (upipe_flush u)"
  obtain u2 w2 n where d: "drain_loop upipe_read ?u1 w 0 = Some (u2, w2, n)"
    "pipes_inv (put_upipe k0 u2 w2) E" "msg_store.more w2 = msg_store.more w"
    using pipes_inv_drain[OF pi u upipe_flush_owned] by metis
  note mo = world_more[OF d(3)]
  have "upipes (put_upipe k0 u2 w2) k0 = Some u2" by simp
  then obtain w3 L where w3: "delete_upipe k0 (put_upipe k0 u2 w2) = Some w3" "pipes_inv w3 (L + E)"
    "pipes w3 = pipes w" "sent w3 = sent w" "dom (upipes w3) = dom (upipes w) - {k0}"
    using pipes_inv_delete[OF d(2)] mo u by (metis dom_fun_upd insert_absorb domI option.distinct(1) world_selectors(5,7,8))
  let ?x = "x\<lparr>msgs_written := msgs_written x - of_nat n, outpipe := Some k, out_active := True\<rparr>"
  have "shape a b (Some ?x) (pipes w b) (inbox a w) (inbox b w) (dom (upipes w) - {k0})"
    using shape_recv_hiccup(3)[OF sh k0, of ?x] by simp
  moreover have "inbox i w3 = inbox i w" for i using w3(4) by (simp add: inbox_def)
  ultimately have "hs_inv a b (put_pipe a ?x w3) (L + E)"
    unfolding hs_inv_def using w3 ab by simp
  moreover have "process_hiccup (\<lambda>_ _ w. Some w) k a w = Some (put_pipe a ?x w3)"
    using x k0 u d(1) w3(1) h by (simp add: process_hiccup_def case_prod_beta call_sink_def half_ok_Some)
  ultimately show ?thesis using that by blast
qed

lemma recv_term_ok:
  assumes "pending a b Cmd_pipe_term w E"
  obtains w' where "process_pipe_term a w = Some w'" "hs_inv a b w' E"
proof -
  obtain x where x: "pipes w a = Some x" and pi: "pipes_inv w E" and ab: "a \<noteq> b"
    and sh: "shape a b (Some x) (pipes w b) (Cmd_pipe_term # inbox a w) (inbox b w) (dom (upipes w))"
    and h: "half_ok b (Some x) (pipes w b) (Cmd_pipe_term # inbox a w) (dom (upipes w))"
    using pendingD[OF assms] by metis
  have hs: "hs_ok (Some (state x)) (map_option state (pipes w b)) (Cmd_pipe_term # terms (inbox a w))
      (terms (inbox b w))" using shapeD(2)[OF sh] by simp
  have st: "state x = Active \<or> state x = Delimiter_received \<or> state x = Term_req_sent1"
    using hs_recv_term(1)[OF hs] .
  then have ms: "may_send (state x)" by auto
  obtain y where y: "pipes w b = Some y" using shape_peer[OF sh ms] by metis
  have p: "peer x = Some b" using h by (simp add: half_ok_Some)
  show ?thesis
  proof (cases "state x = Active \<and> delay x")
    case True
    have "hs_inv a b (put_pipe a (x\<lparr>state := Waiting_for_delimiter\<rparr>) w) E"
      using shape_recv_term_waiting[OF sh] True pi ab by (simp add: hs_inv_def)
    then show ?thesis using that True x by (simp add: process_pipe_term_def)
  next
    case False
    let ?s = "if state x = Term_req_sent1 then Term_req_sent2 else Term_ack_sent"
    let ?x = "x\<lparr>state := ?s, outpipe := None\<rparr>"
    let ?w = "(put_pipe a ?x w)\<lparr>sent := sent w @ [(b, Cmd_pipe_term_ack)]\<rparr>"
    have i: "inbox a ?w = inbox a w" "inbox b ?w = inbox b w @ [Cmd_pipe_term_ack]"
      using ab by (simp_all add: inbox_def)
    have "hs_inv a b ?w E"
      unfolding hs_inv_def i using shape_recv_term_ack[OF sh refl] pi ab by simp
    moreover have "process_pipe_term a w = Some ?w"
      using False st x y p ab
      by (cases "state x") (auto simp: process_pipe_term_def send_pipe_term_ack_def send_to_def)
    ultimately show ?thesis by (intro that)
  qed
qed

lemma recv_ack_ok:
  assumes "pending a b Cmd_pipe_term_ack w E"
  obtains w' L where "process_pipe_term_ack (\<lambda>_ _ w. Some w) a w = Some w'" "hs_inv a b w' (L + E)"
proof -
  obtain x where x: "pipes w a = Some x" and pi: "pipes_inv w E" and ab: "a \<noteq> b"
    and sh: "shape a b (Some x) (pipes w b) (Cmd_pipe_term_ack # inbox a w) (inbox b w) (dom (upipes w))"
    and h: "half_ok b (Some x) (pipes w b) (Cmd_pipe_term_ack # inbox a w) (dom (upipes w))"
    using pendingD[OF assms] by metis
  have hs: "hs_ok (Some (state x)) (map_option state (pipes w b)) (Cmd_pipe_term_ack # terms (inbox a w))
      (terms (inbox b w))" using shapeD(2)[OF sh] by simp
  obtain k where k: "inpipe x = Some k" using h by (auto simp: half_ok_Some)
  then obtain u where u: "upipes w k = Some u" using h by (auto simp: half_ok_Some in_ref_Some)
  have p: "peer x = Some b" "sink_set x" using h by (simp_all add: half_ok_Some)
  let ?w1 = "if state x = Term_req_sent1
    then (put_pipe a (x\<lparr>outpipe := None\<rparr>) w)\<lparr>sent := sent w @ [(b, Cmd_pipe_term_ack)]\<rparr> else w"
  let ?q = "if state x = Term_req_sent1 then inbox b w @ [Cmd_pipe_term_ack] else inbox b w"
  have w1: "pipes_inv ?w1 E" "upipes ?w1 k = Some u" "upipes ?w1 = upipes w" using pi u by simp_all
  have i1: "inbox a ?w1 = inbox a w" "inbox b ?w1 = ?q" "pipes ?w1 b = pipes w b"
    using ab by (simp_all add: inbox_def)
  have step1: "(if state x = Term_req_sent1
      then send_pipe_term_ack (peer x) (put_pipe a (x\<lparr>outpipe := None\<rparr>) w)
      else do { zmq_assert (state x = Term_ack_sent \<or> state x = Term_req_sent2); Some w }) = Some ?w1"
  proof (cases "state x = Term_req_sent1")
    case True
    then obtain y where "pipes w b = Some y" using hs_recv_ack(2)[OF hs] by (cases "pipes w b") auto
    then show ?thesis using True p ab by (simp add: send_pipe_term_ack_def send_to_def)
  next
    case False
    then show ?thesis using hs_recv_ack(1)[OF hs] by auto
  qed
  obtain u2 w2 n where d: "(if \<not> conflate x then drain_loop upipe_read u ?w1 0 else Some (u, ?w1, 0)) = Some (u2, w2, n)"
    "pipes_inv (put_upipe k u2 w2) E" "msg_store.more w2 = msg_store.more ?w1"
  proof (cases "conflate x")
    case True
    have "put_upipe k u ?w1 = ?w1" using w1(2) by (simp add: put_upipe_def fun_upd_idem)
    then show ?thesis using that[of u ?w1 0] True w1(1) by simp
  next
    case False
    obtain u2 w2 n where "drain_loop upipe_read u ?w1 0 = Some (u2, w2, n)"
      "pipes_inv (put_upipe k u2 w2) E" "msg_store.more w2 = msg_store.more ?w1"
      using pipes_inv_drain[OF w1(1,2), of u 0] by blast
    then show ?thesis using that False by (metis (full_types))
  qed
  note mo = world_more[OF d(3)]
  have "upipes (put_upipe k u2 w2) k = Some u2" by simp
  then obtain w3 L where w3: "delete_upipe k (put_upipe k u2 w2) = Some w3" "pipes_inv w3 (L + E)"
    "pipes w3 = pipes w2" "sent w3 = sent w2" "dom (upipes w3) = dom (upipes w) - {k}"
    using pipes_inv_delete[OF d(2)] mo w1(3) u
    by (metis dom_fun_upd insert_absorb domI option.distinct(1) world_selectors(5,7,8))
  let ?w3 = "w3\<lparr>pipes := (pipes w3)(a := None)\<rparr>"
  have i3: "inbox a ?w3 = inbox a w" "inbox b ?w3 = ?q" "pipes ?w3 b = pipes w b"
    "dom (upipes ?w3) = dom (upipes w) - {k}"
    using i1 w3(3-5) mo ab by (simp_all add: inbox_def)
  have "hs_inv a b ?w3 (L + E)"
    unfolding hs_inv_def i3 using shape_recv_ack(3)[OF sh k refl] w3(2) by simp
  moreover have "process_pipe_term_ack (\<lambda>_ _ w. Some w) a w = Some ?w3"
    using x p step1 k w1(2) d(1) w3(1) by (simp add: process_pipe_term_ack_def call_sink_def)
  ultimately show ?thesis using that by blast
qed

lemma deliver_ok:
  assumes inv: "hs_inv a b w E"
  obtains w' L where "deliver a w = Some w'" "hs_inv a b w' (L + E)"
proof (cases "take_first a (sent w)")
  case None
  then show ?thesis using that[of w "{#}"] inv by (simp add: deliver_def)
next
  case (Some cr)
  obtain c rest where cr: "take_first a (sent w) = Some (c, rest)" using Some by (cases cr) auto
  let ?w = "w\<lparr>sent := rest\<rparr>"
  have ia: "inbox a w = c # inbox a ?w" using take_first_Some[OF cr, of b] by (simp add: inbox_def)
  have "a \<noteq> b" using inv by (simp add: hs_inv_def shape_def)
  then have ib: "inbox b ?w = inbox b w" using take_first_Some[OF cr, of b] by (simp add: inbox_def)
  have p: "pending a b c ?w E" using inv ia ib by (simp add: pending_def hs_inv_def)
  have dl: "deliver a w = process_command (\<lambda>_ _ w. Some w) a c ?w" using cr by (simp add: deliver_def)
  show ?thesis
  proof (cases c)
    case Cmd_activate_read
    then show ?thesis using recv_activate_read_ok[of a b ?w E] p dl that[of _ "{#}"] by (metis add.left_neutral process_command.simps(1))
  next
    case (Cmd_activate_write n)
    then show ?thesis using recv_activate_write_ok[of a b n ?w E] p dl that[of _ "{#}"] by (metis add.left_neutral process_command.simps(2))
  next
    case (Cmd_hiccup k)
    then show ?thesis using recv_hiccup_ok[of a b k ?w E] p dl that by (metis process_command.simps(3))
  next
    case Cmd_pipe_term
    then show ?thesis using recv_term_ok[of a b ?w E] p dl that[of _ "{#}"] by (metis add.left_neutral process_command.simps(4))
  next
    case Cmd_pipe_term_ack
    then show ?thesis using recv_ack_ok[of a b ?w E] p dl that by (metis process_command.simps(5))
  next
    case (Cmd_pipe_hwm i ou)
    obtain x where "half_ok b (Some x) (pipes ?w b) (c # inbox a ?w) (dom (upipes ?w))"
      using pendingD[OF p] by metis
    then show ?thesis using Cmd_pipe_hwm by (simp add: half_ok_Some)
  qed
qed

subsection \<open>The pair as a system\<close>

text \<open>What the owner of an end may do to it while it exists, and the arrival of a command.  \<open>U\<close> is
  the multiset of messages the two owners hold; a message that is written is handed over, one that
  is read is received.\<close>

datatype end_op =
    Do_check_read | Do_read msg_t | Do_check_write | Do_write msg_t | Do_rollback | Do_flush
  | Do_hiccup | Do_set_nodelay | Do_terminate bool | Do_deliver

fun end_step :: "nat \<Rightarrow> end_op \<Rightarrow> world \<Rightarrow> msg_t multiset \<Rightarrow> (world \<times> msg_t multiset) option" where
  "end_step p Do_check_read w U = do { (_, w) \<leftarrow> pipe_check_read p w; Some (w, U) }"
| "end_step p (Do_read m) w U =
     do { (ok, m, w) \<leftarrow> pipe_read p m w; Some (w, if ok then add_mset m U else U) }"
| "end_step p Do_check_write w U = do { (_, w) \<leftarrow> pipe_check_write p w; Some (w, U) }"
| "end_step p (Do_write m) w U =
     do { (ok, _, w) \<leftarrow> pipe_write p m w; Some (w, if ok then U - {#m#} else U) }"
| "end_step p Do_rollback w U = do { w \<leftarrow> pipe_rollback p w; Some (w, U) }"
| "end_step p Do_flush w U = do { w \<leftarrow> pipe_flush p w; Some (w, U) }"
| "end_step p Do_hiccup w U = do { w \<leftarrow> pipe_hiccup p w; Some (w, U) }"
| "end_step p Do_set_nodelay w U = do { x \<leftarrow> pipes w p; Some (put_pipe p (set_nodelay x) w, U) }"
| "end_step p (Do_terminate d) w U = do { w \<leftarrow> pipe_terminate d p w; Some (w, U) }"
| "end_step p Do_deliver w U = do { w \<leftarrow> deliver p w; Some (w, U) }"

fun enabled :: "nat \<Rightarrow> end_op \<Rightarrow> world \<Rightarrow> msg_t multiset \<Rightarrow> bool" where
  "enabled p (Do_write m) w U = (pipes w p \<noteq> None \<and> m \<in># U \<and> sendable m)"
| "enabled p Do_deliver w U = True"
| "enabled p _ w U = (pipes w p \<noteq> None)"

text \<open>A world with nothing in it, and the pair that \<open>pipepair\<close> makes there, its event sinks set.\<close>

definition world_new :: world where
  "world_new = \<lparr>contents = (\<lambda>_. None), next_content = 0, metadata_refs = (\<lambda>_. None), calls_ffn = [],
     upipes = (\<lambda>_. None), next_upipe = 0, pipes = (\<lambda>_. None), next_pipe = 0, sent = []\<rparr>"

definition pair_start :: "int \<times> int \<Rightarrow> bool \<times> bool \<Rightarrow> world option" where
  "pair_start hwms conf =
     do {
       (a, b, w) \<leftarrow> pipepair hwms conf world_new;
       x \<leftarrow> pipes w a;
       x \<leftarrow> set_event_sink x;
       y \<leftarrow> pipes w b;
       y \<leftarrow> set_event_sink y;
       Some (put_pipe b y (put_pipe a x w))
     }"

text \<open>The reachable states: the ends are 0 and 1; besides the steps of the ends, the owners make new
  messages with a body of any size and close messages they hold.\<close>

inductive reach :: "int \<times> int \<Rightarrow> bool \<times> bool \<Rightarrow> world \<Rightarrow> msg_t multiset \<Rightarrow> bool"
  for hwms conf where
  start: "pair_start hwms conf = Some w \<Longrightarrow> reach hwms conf w {#}"
| step: "reach hwms conf w U \<Longrightarrow> p \<in> {0, 1} \<Longrightarrow> enabled p x w U \<Longrightarrow> end_step p x w U = Some (w', U') \<Longrightarrow>
    reach hwms conf w' U'"
| make: "reach hwms conf w U \<Longrightarrow> msg_init_size n m w = (Rc_ok, m', w') \<Longrightarrow> fl AND flag_shared = 0 \<Longrightarrow>
    reach hwms conf w' (add_mset (msg_set_flags fl m') U)"
| drop: "reach hwms conf w (add_mset m U) \<Longrightarrow> sendable m \<Longrightarrow> msg_close m w = Some (r, m', w') \<Longrightarrow>
    reach hwms conf w' U"

inductive_cases reachE: "reach hwms conf w U"

lemma pipes_inv_world_new: "pipes_inv world_new {#}"
  by (simp add: pipes_inv_def world_new_def store_inv_def)

lemma pair_start_inv:
  assumes "pair_start hwms conf = Some w"
  shows "hs_inv 0 1 w {#}"
proof -
  obtain w1 where w1: "new_upipe (fst conf) world_new = Some (0, w1)" "pipes_inv w1 {#}"
    "pipes w1 = (\<lambda>_. None)" "sent w1 = []" "dom (upipes w1) = {0}" "next_upipe w1 = 1" "next_pipe w1 = 0"
    using pipes_inv_new_upipe[OF pipes_inv_world_new, of "fst conf"] by (auto simp: world_new_def)
  obtain w2 where w2: "new_upipe (snd conf) w1 = Some (1, w2)" "pipes_inv w2 {#}"
    "pipes w2 = (\<lambda>_. None)" "sent w2 = []" "dom (upipes w2) = {0, 1}" "next_pipe w2 = 0"
    by (rule pipes_inv_new_upipe[OF w1(2), of "snd conf"]) (use w1(3-7) in \<open>auto simp: insert_commute\<close>)
  obtain x0 x1 where x0: "pipe_new 0 1 (snd hwms) (fst hwms) (fst conf) = Some x0"
    and x1: "pipe_new 1 0 (fst hwms) (snd hwms) (snd conf) = Some x1"
    using assms w1(1) w2(1) by (auto simp: pair_start_def pipepair_def new_pipe_def opt_simps)
  have i: "inpipe x0 = Some 0" "outpipe x0 = Some 1" "peer x0 = None" "state x0 = Active" "\<not> sink_set x0"
    "inpipe x1 = Some 1" "outpipe x1 = Some 0" "peer x1 = None" "state x1 = Active" "\<not> sink_set x1"
    using x0 x1 by (auto simp: pipe_new_def opt_simps)
  let ?x0 = "x0\<lparr>peer := Some 1, sink_set := True\<rparr>" and ?x1 = "x1\<lparr>peer := Some 0, sink_set := True\<rparr>"
  define v0 where "v0 = snd (new_pipe x0 w2)"
  define v where "v = snd (new_pipe x1 v0)"
  have np: "new_pipe x0 w2 = (0, v0)" "new_pipe x1 v0 = (1, v)"
    using w2(6) by (simp_all add: new_pipe_def v0_def v_def)
  have v: "pipes_inv v {#}" "pipes v = [0 \<mapsto> x0, 1 \<mapsto> x1]" "sent v = []" "dom (upipes v) = {0, 1}"
    using w2(2-6) by (simp_all add: v_def v0_def new_pipe_def)
  have "pipepair hwms conf world_new = Some (0, 1,
      put_pipe 1 (x1\<lparr>peer := Some 0\<rparr>) (put_pipe 0 (x0\<lparr>peer := Some 1\<rparr>) v))"
    using w1(1) w2(1) x0 x1 np i(3,8) by (simp add: pipepair_def set_peer_def)
  then have w: "w = put_pipe 1 ?x1 (put_pipe 0 ?x0
      (put_pipe 1 (x1\<lparr>peer := Some 0\<rparr>) (put_pipe 0 (x0\<lparr>peer := Some 1\<rparr>) v)))"
    using assms i(5,10) by (simp add: pair_start_def set_event_sink_def)
  have pi: "pipes_inv w {#}" and pw: "pipes w = [0 \<mapsto> ?x0, 1 \<mapsto> ?x1]" and sw: "sent w = []"
    and uw: "dom (upipes w) = {0, 1}"
    unfolding w using v by (simp_all add: fun_upd_twist)
  have "shape 0 1 (Some ?x0) (Some ?x1) [] [] {0, 1}"
    using i by (simp add: shape_def half_ok_Some out_chain_def in_ref_Some hs_ok_def hs_table_def)
  then show ?thesis using pi pw sw uw by (simp add: hs_inv_def inbox_def)
qed

lemma pipes_inv_make:
  assumes inv: "pipes_inv w E" and ok: "msg_init_size n m w = (Rc_ok, m', w')"
    and fl: "fl AND flag_shared = 0"
  shows "pipes_inv w' (add_mset (msg_set_flags fl m') E)" "msg_store.more w' = msg_store.more w"
proof -
  obtain H where H: "\<forall>k u. upipes w k = Some u \<longrightarrow> (\<exists>n. upipe_owned u (H k) n)"
    "store_inv w ((\<Sum>k \<in> dom (upipes w). H k) + E)"
    using inv by (auto simp: pipes_inv_def)
  note c = msg_init_size_correct[OF H(2) ok fl]
  show m: "msg_store.more w' = msg_store.more w" by (rule c(2))
  show "pipes_inv w' (add_mset (msg_set_flags fl m') E)"
    using inv H(1) c(1) unfolding pipes_inv_def world_more[OF m] by (metis union_mset_add_mset_right)
qed

text \<open>Every enabled step succeeds and keeps the invariant.\<close>

lemma end_step_ok:
  assumes inv: "hs_inv p q w (L + U)" and en: "enabled p x w U"
  obtains w' U' L' where "end_step p x w U = Some (w', U')" "hs_inv p q w' (L' + U')"
proof (cases "x = Do_deliver")
  case True
  obtain w' L1 where "deliver p w = Some w'" "hs_inv p q w' (L1 + (L + U))"
    using deliver_ok[OF inv] by metis
  then show ?thesis using that[of w' U "L1 + L"] True by (simp add: ac_simps)
next
  case False
  obtain e where e: "pipes w p = Some e" using en False by (cases x) auto
  show ?thesis
  proof (cases x)
    case Do_check_read
    obtain r w' L1 where "pipe_check_read p w = Some (r, w')" "hs_inv p q w' (L1 + (L + U))"
      using check_read_ok[OF inv e] by metis
    then show ?thesis using that[of w' U "L1 + L"] Do_check_read by (simp add: ac_simps)
  next
    case (Do_read m)
    obtain r m' w' L1 where r: "pipe_read p m w = Some (r, m', w')" "hs_inv p q w' (L1 + (L + U))"
      "r \<Longrightarrow> sendable m' \<and> L1 = {#m'#}"
      using read_ok[OF inv e, of m] by metis
    then show ?thesis
      using that[of w' "if r then add_mset m' U else U" "if r then L else L1 + L"] Do_read
      by (cases r) (simp_all add: ac_simps)
  next
    case Do_check_write
    obtain r w' where "pipe_check_write p w = Some (r, w')" "hs_inv p q w' (L + U)"
      using check_write_ok[OF inv e] by metis
    then show ?thesis using that[of w' U L] Do_check_write by simp
  next
    case (Do_write m)
    then obtain V where V: "U = add_mset m V" and m: "sendable m" using en by (auto dest: multi_member_split)
    have "hs_inv p q w (add_mset m (L + V))" using inv V by simp
    then obtain r m' w' where "pipe_write p m w = Some (r, m', w')"
      "hs_inv p q w' (if r then L + V else add_mset m (L + V))"
      using write_ok[OF _ e m] by metis
    then show ?thesis using that[of w' "if r then V else U" L] Do_write V by (cases r) simp_all
  next
    case Do_rollback
    obtain w' where "pipe_rollback p w = Some w'" "hs_inv p q w' (L + U)" using rollback_ok[OF inv e] by metis
    then show ?thesis using that Do_rollback by simp
  next
    case Do_flush
    obtain w' where "pipe_flush p w = Some w'" "hs_inv p q w' (L + U)" using flush_ok[OF inv e] by metis
    then show ?thesis using that Do_flush by simp
  next
    case Do_hiccup
    obtain w' where "pipe_hiccup p w = Some w'" "hs_inv p q w' (L + U)" using hiccup_ok[OF inv e] by metis
    then show ?thesis using that Do_hiccup by simp
  next
    case Do_set_nodelay
    have "hs_inv p q (put_pipe p (set_nodelay e) w) (L + U)"
      by (rule hs_inv_quiet[OF inv e]) (simp add: same_end_def set_nodelay_def)
    then show ?thesis using that e Do_set_nodelay by simp
  next
    case (Do_terminate d)
    obtain w' where "pipe_terminate d p w = Some w'" "hs_inv p q w' (L + U)"
      using terminate_ok[OF inv e] by metis
    then show ?thesis using that Do_terminate by simp
  qed (use False in simp)
qed

lemma reach_inv: "reach hwms conf w U \<Longrightarrow> \<exists>L. hs_inv 0 1 w (L + U)"
proof (induction rule: reach.induct)
  case (start w)
  then show ?case using pair_start_inv[of hwms conf w] by (intro exI[of _ "{#}"]) simp
next
  case (step w U p x w' U')
  then obtain L where L: "hs_inv 0 1 w (L + U)" by blast
  then have "hs_inv p (1 - p) w (L + U)" using step.hyps(2) hs_inv_sym[OF L] by auto
  then obtain L' where "hs_inv p (1 - p) w' (L' + U')"
    using end_step_ok[of p "1 - p" w L U x] step.hyps(3,4) by (metis option.inject prod.inject)
  then have "hs_inv 0 1 w' (L' + U')" using step.hyps(2) hs_inv_sym[of 1 0 w' "L' + U'"] by auto
  then show ?case by blast
next
  case (make w U n m m' w' fl)
  then obtain L where L: "hs_inv 0 1 w (L + U)" by blast
  then have "pipes_inv w (L + U)" by (simp add: hs_inv_def)
  note mk = pipes_inv_make[OF this make.hyps(2,3)]
  have "hs_inv 0 1 w' (add_mset (msg_set_flags fl m') (L + U))"
    by (rule hs_inv_frame[OF L mk(1)]) (simp_all add: world_more[OF mk(2)])
  then show ?case by auto
next
  case (drop w m U r m' w')
  then obtain L where L: "hs_inv 0 1 w (L + add_mset m U)" by blast
  then have "pipes_inv w (add_mset m (L + U))" by (simp add: hs_inv_def)
  then obtain c: "pipes_inv w' (L + U)" "msg_store.more w' = msg_store.more w"
    using pipes_inv_close[OF _ drop.hyps(2)] drop.hyps(3) by (metis option.inject prod.inject)
  have "hs_inv 0 1 w' (L + U)"
    by (rule hs_inv_frame[OF L c(1)]) (simp_all add: world_more[OF c(2)])
  then show ?case by blast
qed

text \<open>Runs of the pair, to evaluate concrete interleavings.\<close>

fun pair_run ::
  "(nat \<times> end_op) list \<Rightarrow> world \<Rightarrow> msg_t multiset \<Rightarrow> (world \<times> msg_t multiset) option" where
  "pair_run [] w U = Some (w, U)"
| "pair_run ((p, x) # xs) w U = do { (w, U) \<leftarrow> end_step p x w U; pair_run xs w U }"

subsection \<open>Properties\<close>


text \<open>C2. The two ends agree on the progress of termination: in every reachable state their states and
  the termination commands under way form one of the thirteen combinations of \<open>hs_table\<close>; in
  particular no end is deleted while its peer can still send to it.\<close>

theorem handshake_states:
  assumes "reach hwms conf w U"
  shows "hs_ok (map_option state (pipes w 0)) (map_option state (pipes w 1))
      (terms (inbox 0 w)) (terms (inbox 1 w)) \<and>
    (\<forall>p \<in> {0, 1}. \<forall>e. pipes w p = Some e \<longrightarrow> outpipe e \<noteq> None \<longrightarrow> pipes w (1 - p) \<noteq> None)"
proof -
  obtain L where L: "hs_inv 0 1 w (L + U)" using reach_inv[OF assms] by blast
  then have "hs_ok (map_option state (pipes w 0)) (map_option state (pipes w 1))
      (terms (inbox 0 w)) (terms (inbox 1 w))" by (simp add: hs_inv_def shape_def)
  moreover have "\<forall>p \<in> {0, 1}. \<forall>e. pipes w p = Some e \<longrightarrow> outpipe e \<noteq> None \<longrightarrow> pipes w (1 - p) \<noteq> None"
    using hs_inv_D(5,8)[OF L] hs_inv_D(5,8)[OF hs_inv_sym[OF L]] by auto
  ultimately show ?thesis by blast
qed

definition pair_0 :: world where
  "pair_0 = the (pair_start (10, 10) (False, False))"

lemma pair_0_start: "pair_start (10, 10) (False, False) = Some pair_0"
proof -
  have "\<not> Option.is_none (pair_start (10, 10) (False, False))" by code_simp
  then show ?thesis by (simp add: pair_0_def Option.is_none_def)
qed

lemma pair_0_live: "pipes pair_0 0 \<noteq> None"
proof -
  have "\<not> Option.is_none (pipes (the (pair_start (10, 10) (False, False))) 0)" by code_simp
  then show ?thesis by (simp add: pair_0_def Option.is_none_def)
qed


theorem handshake_states_witness:
  "hs_ok (map_option state (pipes pair_0 0)) (map_option state (pipes pair_0 1))
     (terms (inbox 0 pair_0)) (terms (inbox 1 pair_0))"
  using handshake_states[OF reach.start[OF pair_0_start]] by blast

definition lost_delimiter_run :: "(nat \<times> end_op) list" where
  "lost_delimiter_run =
     [(1, Do_terminate True), (0, Do_hiccup), (0, Do_deliver), (1, Do_deliver), (0, Do_deliver),
      (0, Do_check_read), (1, Do_deliver), (1, Do_flush), (1, Do_terminate True)]"

definition term_view ::
  "world \<Rightarrow> pipe_state option \<times> pipe_state option \<times> (nat \<times> command) list \<times> (bool \<times> bool) option" where
  "term_view w =
     (map_option state (pipes w 0), map_option state (pipes w 1), sent w,
      do {
        x \<leftarrow> pipes w 0;
        y \<leftarrow> pipes w 1;
        k \<leftarrow> inpipe x;
        u \<leftarrow> upipes w k;
        Some (outpipe y = Some k, fst (upipe_check_read (snd (upipe_flush u))))
      })"


definition leak_run :: "(world \<times> msg_t multiset) option" where
  "leak_run =
     (case msg_init_data [1, 2, 3] True msg_raw pair_0 of (_, m, w) \<Rightarrow>
       let m = msg_set_flags flag_more m
       in pair_run
         [(1, Do_write m), (1, Do_set_nodelay), (0, Do_terminate True), (1, Do_deliver),
          (0, Do_deliver), (1, Do_deliver), (1, Do_deliver)] w {#m#})"


text \<open>\<open>send_hwms_to_peer\<close> does not look at the state of the pipe: after end 0 has acknowledged and its
  peer has deleted itself, the call uses the deleted peer.\<close>

theorem send_hwms_after_peer_deleted:
  "map_option (\<lambda>(w, U). (map_option state (pipes w 0), Option.is_none (pipes w 1),
       Option.is_none (send_hwms_to_peer 10 10 0 w)))
     (pair_run [(0, Do_set_nodelay), (1, Do_terminate True), (0, Do_deliver), (1, Do_deliver)] pair_0 {#}) =
     Some (Some Term_ack_sent, True, True)"
  unfolding pair_0_def by code_simp

text \<open>Concrete inputs for the flow-control properties: a write to the fresh pair, and a read at the other
  end after a flush.\<close>

definition hello :: msg_t where
  "hello = (msg_init msg_raw)\<lparr>vsm_data := [104, 105]\<rparr>"

definition pair_1 :: world where
  "pair_1 = fst (the (pair_run [(1, Do_write hello), (1, Do_flush)] pair_0 {#hello#}))"


theorem read_notifies_peer_witness:
  "\<exists>m' w' y' N'. pipe_read 0 msg_raw pair_1 = Some (True, m', w') \<and> pipes w' 0 = Some y' \<and> notified y' N'"
proof -
  have "map_option fst (pipe_read 0 msg_raw pair_1) = Some True"
    unfolding pair_1_def pair_0_def by code_simp
  then obtain m' w' where w: "pipe_read 0 msg_raw pair_1 = Some (True, m', w')" by auto
  have "\<not> Option.is_none (pipes pair_1 0)" unfolding pair_1_def pair_0_def by code_simp
  then have x: "pipes pair_1 0 = Some (the (pipes pair_1 0))" by (auto simp: Option.is_none_def)
  have l: "lwm (the (pipes pair_1 0)) = 5" unfolding pair_1_def pair_0_def by code_simp
  have r: "msgs_read (the (pipes pair_1 0)) = 0" unfolding pair_1_def pair_0_def by code_simp
  have n: "notified (the (pipes pair_1 0)) 0" using l r by (simp add: notified_def)
  show ?thesis using read_notifies_peer[OF w x n] l r w by auto
qed

end
