(* ===== verification/Zmq_Links.thy ===== *)
theory Zmq_Links
  imports Zmq_Handshake
begin

text \<open>
  Many connections in one world.  The termination handshake was proved for one pair of pipe ends;
  here a set of pairs shares the world, and what one end does leaves the other pairs alone.  The
  interface \<open>outbound_pipes\<close> states what a socket that writes to a set of pipes relies on: writing
  and flushing do not fail, an accepted message moves into the pipe, a refused one stays with the
  caller, and the operations on messages keep the count of references.  It is interpreted on the
  ends of any set of separate connections.
\<close>

definition separate :: "(nat \<times> nat) set \<Rightarrow> bool" where
  "separate L \<longleftrightarrow> (\<forall>(a, b) \<in> L. \<forall>(c, d) \<in> L. (a, b) = (c, d) \<or> {a, b} \<inter> {c, d} = {})"

text \<open>The outbound pipes of the first ends are ordinary ones, not conflating.\<close>

definition out_normal :: "nat \<Rightarrow> 'z world_scheme \<Rightarrow> bool" where
  "out_normal a w \<longleftrightarrow> (\<forall>x k. pipes w a = Some x \<longrightarrow> outpipe x = Some k \<longrightarrow> (\<exists>q. upipes w k = Some (Upipe_normal q)))"

definition links_inv :: "(nat \<times> nat) set \<Rightarrow> 'z world_scheme \<Rightarrow> msg_t multiset \<Rightarrow> bool" where
  "links_inv L w E \<longleftrightarrow> pipes_inv w E \<and> separate L \<and>
     (\<forall>(a, b) \<in> L. pipes w a \<noteq> None \<and> hs_inv a b w E \<and> out_normal a w)"

lemma links_invD:
  assumes "links_inv L w E" "(a, b) \<in> L"
  obtains x where "pipes w a = Some x" "hs_inv a b w E" "out_normal a w"
  using assms by (auto simp: links_inv_def)

lemma hs_inv_other:
  assumes "hs_inv a b w E" "pipes_inv w' E'" "pipes w' a = pipes w a" "pipes w' b = pipes w b"
    "inbox a w' = inbox a w" "inbox b w' = inbox b w" "dom (upipes w') = dom (upipes w)"
  shows "hs_inv a b w' E'"
  using assms by (simp add: hs_inv_def)

subsection \<open>What an operation of one end leaves alone\<close>

definition upipes_kept :: "'z world_scheme \<Rightarrow> 'z world_scheme \<Rightarrow> bool" where
  "upipes_kept w w' \<longleftrightarrow> dom (upipes w') = dom (upipes w) \<and>
     (\<forall>k q. upipes w k = Some (Upipe_normal q) \<longrightarrow> (\<exists>q'. upipes w' k = Some (Upipe_normal q')))"

lemma upipes_kept_refl [simp]: "upipes_kept w w"
  by (simp add: upipes_kept_def)

lemma upipe_write_normal:
  "upipe_write (Upipe_normal q) m inc st = Some (u', m', st') \<Longrightarrow> m' = m \<and> st' = st \<and> (\<exists>q'. u' = Upipe_normal q')"
  by (auto simp: opt_simps)

lemma write_frame:
  fixes w :: "'z world_scheme"
  assumes "pipe_write a m w = Some (r, m', w')" "out_normal a w" "pipes w a = Some x"
  shows "m' = m" "\<And>c. c \<noteq> a \<Longrightarrow> pipes w' c = pipes w c" "sent w' = sent w" "upipes_kept w w'"
    "\<exists>x'. pipes w' a = Some x' \<and> outpipe x' = outpipe x \<and>
       msgs_written x' = (if r \<and> \<not> has_flag m flag_more \<and> \<not> is_routing_id m then msgs_written x + 1 else msgs_written x)"
proof -
  consider (full) "r = False" "m' = m" "w' = w \<or> w' = put_pipe a (x\<lparr>out_active := False\<rparr>) w"
    | (sent) k q u' where "r = True" "outpipe x = Some k" "upipes w k = Some (Upipe_normal q)"
      "upipe_write (Upipe_normal q) m (has_flag m flag_more) w = Some (u', m', w)"
      "w' = put_pipe a (if \<not> has_flag m flag_more \<and> \<not> is_routing_id m then x\<lparr>msgs_written := msgs_written x + 1\<rparr> else x) (put_upipe k u' w)"
  proof (cases "pipe_check_write a w")
    case (Some y)
    obtain ok w1 where y: "y = (ok, w1)" by (cases y)
    show thesis
    proof (cases ok)
      case False
      then show thesis using full Some y assms(1,3)
        by (auto simp: pipe_write_def pipe_check_write_def split: if_splits)
    next
      case True
      then have w1: "w1 = w" using Some y assms(3) by (auto simp: pipe_check_write_def split: if_splits)
      obtain k u u' w2 where k: "outpipe x = Some k" "upipes w k = Some u"
        "upipe_write u m (has_flag m flag_more) w = Some (u', m', w2)" "r = True"
        "w' = put_pipe a (if \<not> has_flag m flag_more \<and> \<not> is_routing_id m then x\<lparr>msgs_written := msgs_written x + 1\<rparr> else x) (put_upipe k u' w2)"
        using assms(1,3) Some y True w1 by (auto simp: pipe_write_def opt_simps)
      obtain q where q: "u = Upipe_normal q" using assms(2,3) k(1,2) by (auto simp: out_normal_def)
      have "w2 = w" using upipe_write_normal k(3) q by blast
      then show thesis using sent k q by blast
    qed
  qed (use assms(1) in \<open>simp add: pipe_write_def\<close>)
  then have "m' = m \<and> (\<forall>c. c \<noteq> a \<longrightarrow> pipes w' c = pipes w c) \<and> sent w' = sent w \<and> upipes_kept w w' \<and>
    (\<exists>x'. pipes w' a = Some x' \<and> outpipe x' = outpipe x \<and>
       msgs_written x' = (if r \<and> \<not> has_flag m flag_more \<and> \<not> is_routing_id m then msgs_written x + 1 else msgs_written x))"
  proof cases
    case full
    then show ?thesis using assms(3) by (auto simp: upipes_kept_def)
  next
    case (sent k q u')
    then show ?thesis using upipe_write_normal[OF sent(4)] by (auto simp: upipes_kept_def)
  qed
  then show "m' = m" "\<And>c. c \<noteq> a \<Longrightarrow> pipes w' c = pipes w c" "sent w' = sent w" "upipes_kept w w'"
    "\<exists>x'. pipes w' a = Some x' \<and> outpipe x' = outpipe x \<and>
       msgs_written x' = (if r \<and> \<not> has_flag m flag_more \<and> \<not> is_routing_id m then msgs_written x + 1 else msgs_written x)"
    by blast+
qed

lemma upipe_flush_normal: "\<exists>q'. snd (upipe_flush (Upipe_normal q)) = Upipe_normal q'"
  by (cases "ypipe_flush q") simp

lemma flush_frame:
  assumes "pipe_flush a w = Some w'" "out_normal a w" "pipes w a = Some x"
  shows "pipes w' = pipes w" "\<And>c. peer x \<noteq> Some c \<Longrightarrow> inbox c w' = inbox c w" "upipes_kept w w'"
proof -
  consider "w' = w" | k q ok u' where "outpipe x = Some k" "upipes w k = Some (Upipe_normal q)"
    "upipe_flush (Upipe_normal q) = (ok, u')"
    "w' = put_upipe k u' w \<or> send_activate_read (peer x) (put_upipe k u' w) = Some w'"
  proof (cases "state x = Term_ack_sent \<or> outpipe x = None")
    case True
    then show thesis using that(1) assms(1,3) by (auto simp: pipe_flush_def split: if_splits)
  next
    case False
    then obtain k q where k: "outpipe x = Some k" "upipes w k = Some (Upipe_normal q)"
      using assms(2,3) by (auto simp: out_normal_def)
    obtain ok u' where f: "upipe_flush (Upipe_normal q) = (ok, u')" by fastforce
    have "w' = put_upipe k u' w \<or> send_activate_read (peer x) (put_upipe k u' w) = Some w'"
      using assms(1,3) False k f by (simp add: pipe_flush_def del: upipe_flush.simps split: if_splits)
    then show thesis using that(2) k f by blast
  qed
  then have "pipes w' = pipes w \<and> (\<forall>c. peer x \<noteq> Some c \<longrightarrow> inbox c w' = inbox c w) \<and> upipes_kept w w'"
  proof cases
    case 2
    obtain q' where "u' = Upipe_normal q'" using 2(3) upipe_flush_normal[of q] by auto
    then show ?thesis using 2(2,4)
      by (auto simp: send_activate_read_def send_to_def opt_simps inbox_def upipes_kept_def split: if_splits)
  qed simp
  then show "pipes w' = pipes w" "\<And>c. peer x \<noteq> Some c \<Longrightarrow> inbox c w' = inbox c w" "upipes_kept w w'" by blast+
qed

lemma out_normal_kept:
  assumes "out_normal a w" "upipes_kept w w'" "pipes w a = Some x" "pipes w' a = Some x'" "outpipe x' = outpipe x"
  shows "out_normal a w'"
  using assms by (auto simp: out_normal_def upipes_kept_def)

subsection \<open>References to messages\<close>

lemma pipes_inv_store:
  fixes w :: "'z world_scheme"
  assumes "pipes_inv w (A + E)" "\<And>M. store_inv w (M + A) \<Longrightarrow> store_inv w' (M + B)"
    "msg_store.more w' = msg_store.more w"
  shows "pipes_inv w' (B + E)"
proof -
  note mo = world_more[OF assms(3)]
  obtain H where H: "\<forall>k u. upipes w k = Some u \<longrightarrow> (\<exists>n. upipe_owned u (H k) n)"
    "store_inv w ((\<Sum>k \<in> dom (upipes w). H k) + (A + E))" using assms(1) by (auto simp: pipes_inv_def)
  have "store_inv w' ((\<Sum>k \<in> dom (upipes w). H k) + E + B)" using assms(2)[of "(\<Sum>k \<in> dom (upipes w). H k) + E"] H(2) by (simp add: ac_simps)
  then show ?thesis using assms(1) H(1) mo by (auto simp: pipes_inv_def ac_simps)
qed

lemma refcnt_update_more: "refcnt_update c f st = Some st' \<Longrightarrow> msg_store.more st' = msg_store.more st"
  by (auto simp: refcnt_update_def split: option.splits)

lemma msg_add_refs_more: "msg_add_refs n m st = Some (m', st') \<Longrightarrow> msg_store.more st' = msg_store.more st"
  by (auto simp: msg_add_refs_def opt_simps split: if_splits dest: refcnt_update_more)

lemma msg_rm_refs_more: "msg_rm_refs n m st = Some (b, m', st') \<Longrightarrow> msg_store.more st' = msg_store.more st"
  by (auto simp: msg_rm_refs_def opt_simps split: if_splits dest: refcnt_sub_more msg_close_more,
      (metis refcnt_sub_more content_free_more)+)

text \<open>A part without the \<open>more\<close> flag that is no routing id is counted by the pipe that takes it.\<close>

definition counted :: "msg_t \<Rightarrow> bool" where
  "counted m \<longleftrightarrow> \<not> has_flag m flag_more \<and> \<not> is_routing_id m"

text \<open>\<open>written_to A m w w'\<close>: the pipes of \<open>A\<close>, and only they, counted the message.\<close>

definition written_to :: "nat set \<Rightarrow> msg_t \<Rightarrow> 'z world_scheme \<Rightarrow> 'z world_scheme \<Rightarrow> bool" where
  "written_to A m w w' \<longleftrightarrow> (\<forall>p x. pipes w p = Some x \<longrightarrow>
     (\<exists>x'. pipes w' p = Some x' \<and> msgs_written x' = msgs_written x + (if p \<in> A \<and> counted m then 1 else 0)))"

lemma written_to_empty: "pipes w' = pipes w \<Longrightarrow> written_to {} m w w'"
  by (simp add: written_to_def)

lemma written_to_trans:
  assumes "written_to A m w w1" "written_to B m w1 w2" "A \<inter> B = {}"
  shows "written_to (A \<union> B) m w w2"
  unfolding written_to_def
proof (intro allI impI)
  fix p x assume "pipes w p = Some x"
  then obtain x1 where 1: "pipes w1 p = Some x1" "msgs_written x1 = msgs_written x + (if p \<in> A \<and> counted m then 1 else 0)"
    using assms(1) by (auto simp: written_to_def)
  then obtain x2 where 2: "pipes w2 p = Some x2" "msgs_written x2 = msgs_written x1 + (if p \<in> B \<and> counted m then 1 else 0)"
    using assms(2) unfolding written_to_def by metis
  show "\<exists>x'. pipes w2 p = Some x' \<and> msgs_written x' = msgs_written x + (if p \<in> A \<union> B \<and> counted m then 1 else 0)"
    using 1 2 assms(3) by (cases "p \<in> A"; cases "p \<in> B") auto
qed

text \<open>There is room for \<open>n\<close> more references to a message: for one that is not shared yet only the number
  is bounded, since its content has no other holder.\<close>

definition refs_room :: "nat \<Rightarrow> msg_t \<Rightarrow> 'z msg_store_scheme \<Rightarrow> bool" where
  "refs_room n m st \<longleftrightarrow> n + 1 < 2 ^ 31 \<and> (has_flag m flag_shared \<longrightarrow>
     (\<forall>ct. Option.bind (msg_content m) (contents st) = Some ct \<longrightarrow> unat (content_refcnt ct) + n < 2 ^ 32))"

lemma holders_room:
  assumes "store_inv st M" "m \<in># M" "refs_room n m st" "has_flag m flag_shared" "uses_content m c"
  shows "int (holders c M) + int n < 2 ^ 32"
proof -
  have "is_lmsg m \<or> is_zcmsg m" "msg_content m = Some c" using assms(5) by (auto simp: uses_content_def)
  then obtain ct where "contents st c = Some ct" "unat (content_refcnt ct) = holders c M"
    using assms(1,2,4) unfolding store_inv_def by (metis (no_types, lifting) option.inject)
  then have "holders c M + n < 2 ^ 32" using assms(3,4) \<open>msg_content m = Some c\<close> by (auto simp: refs_room_def)
  then show ?thesis by simp
qed

lemma add_refs_pipes:
  fixes w :: "'z world_scheme"
  assumes "pipes_inv w (add_mset m E)" "msg_metadata m = None" "refs_room n m w"
  obtains m' w' where "msg_add_refs (int n) m w = Some (m', w')" "pipes_inv w' (replicate_mset (n + 1) m' + E)"
    "m' = m \<or> m' = msg_set_flags flag_shared m" "msg_store.more w' = msg_store.more w"
proof -
  obtain F where F: "store_inv w (F + add_mset m E)" using assms(1) by (auto simp: pipes_inv_def)
  have n: "0 \<le> int n" "int n + 1 < 2 ^ 31" using assms(3) by (auto simp: refs_room_def)
  have law: "\<exists>m' w'. msg_add_refs (int n) m w = Some (m', w') \<and> store_inv w' (replicate_mset (n + 1) m' + M) \<and>
    (m' = m \<or> m' = msg_set_flags flag_shared m)" if "store_inv w (add_mset m M)" for M
    using msg_add_refs_correct[OF that assms(2) n] holders_room[OF that _ assms(3)] by (metis nat_int union_single_eq_member)
  obtain m' w' where r: "msg_add_refs (int n) m w = Some (m', w')" "m' = m \<or> m' = msg_set_flags flag_shared m"
    using law[of "F + E"] F by auto
  have "pipes_inv w' (replicate_mset (n + 1) m' + E)"
  proof (rule pipes_inv_store)
    show "pipes_inv w ({#m#} + E)" using assms(1) by simp
    show "store_inv w' (M + replicate_mset (n + 1) m')" if "store_inv w (M + {#m#})" for M
      using law[of M] that r(1) by (auto simp: ac_simps)
  qed (rule msg_add_refs_more[OF r(1)])
  then show thesis using that r msg_add_refs_more[OF r(1)] by blast
qed

lemma rm_refs_pipes:
  fixes w :: "'z world_scheme"
  assumes "pipes_inv w (replicate_mset n m + E)" "msg_check m" "msg_metadata m = None"
  obtains b m' w' where "msg_rm_refs (int n) m w = Some (b, m', w')" "pipes_inv w' E" "msg_store.more w' = msg_store.more w"
proof -
  obtain F where F: "store_inv w (F + (replicate_mset n m + E))" using assms(1) by (auto simp: pipes_inv_def)
  have law: "\<exists>b m' w'. msg_rm_refs (int n) m w = Some (b, m', w') \<and> store_inv w' M" if "store_inv w (replicate_mset n m + M)" for M
    using msg_rm_refs_correct[of w "int n" m M] that assms(2,3) by (metis nat_int of_nat_0_le_iff)
  obtain b m' w' where r: "msg_rm_refs (int n) m w = Some (b, m', w')" using law[of "F + E"] F by (auto simp: ac_simps)
  have "pipes_inv w' ({#} + E)"
  proof (rule pipes_inv_store[OF assms(1)])
    show "store_inv w' (M + {#})" if "store_inv w (M + replicate_mset n m)" for M
      using law[of M] that r by (auto simp: ac_simps)
  qed (rule msg_rm_refs_more[OF r])
  then show thesis using that r msg_rm_refs_more[OF r] by simp
qed

lemma msg_of_pipes:
  fixes w :: "'z world_scheme"
  assumes "pipes_inv w E" "sizeof_content + length d < 2 ^ 64"
  obtains m w' where "msg_of d m0 w = Some (m, w')" "pipes_inv w' (add_mset m E)" "msg_store.more w' = msg_store.more w"
    "sendable m" "msg_body m w' = Some d" "msg_flags m = 0"
proof -
  obtain F where F: "store_inv w F" using assms(1) by (auto simp: pipes_inv_def)
  have law: "\<exists>m w'. msg_of d m0 w = Some (m, w') \<and> store_inv w' (add_mset m M) \<and> msg_store.more w' = msg_store.more w \<and>
    sendable m \<and> msg_body m w' = Some d \<and> msg_flags m = 0" if M: "store_inv w M" for M
  proof -
    obtain m w' where m: "msg_of d m0 w = Some (m, w')" "store_inv w' (add_mset m M)" "msg_store.more w' = msg_store.more w"
      "msg_body m w' = Some d" "msg_check m" "msg_metadata m = None" "msg_flags m = 0" "is_vsm m \<or> is_lmsg m"
      by (rule msg_of_correct[OF M assms(2)])
    then have "sendable m" by (auto simp: sendable_def has_body_def)
    then show ?thesis using m by blast
  qed
  obtain m w' where m: "msg_of d m0 w = Some (m, w')" "msg_store.more w' = msg_store.more w" "sendable m"
    "msg_body m w' = Some d" "msg_flags m = 0" using law[OF F] by auto
  have "pipes_inv w' ({#m#} + E)"
  proof (rule pipes_inv_store)
    show "pipes_inv w ({#} + E)" using assms(1) by simp
    show "store_inv w' (M + {#m#})" if "store_inv w (M + {#})" for M using law[of M] that m(1) by auto
  qed (rule m(2))
  then show thesis using that m by simp
qed

subsection \<open>The interface of outbound pipes\<close>

locale outbound_pipes =
  fixes P :: "nat set"
    and inv :: "'z world_scheme \<Rightarrow> msg_t multiset \<Rightarrow> bool"
  assumes inv_write: "inv w (add_mset m E) \<Longrightarrow> p \<in> P \<Longrightarrow> sendable m \<Longrightarrow>
      \<exists>r w' x x'. pipe_write p m w = Some (r, m, w') \<and> inv w' (if r then E else add_mset m E) \<and>
        (\<forall>c. c \<noteq> p \<longrightarrow> pipes w' c = pipes w c) \<and> pipes w p = Some x \<and> pipes w' p = Some x' \<and>
        msgs_written x' = (if r \<and> \<not> has_flag m flag_more \<and> \<not> is_routing_id m then msgs_written x + 1 else msgs_written x)"
    and inv_flush: "inv w E \<Longrightarrow> p \<in> P \<Longrightarrow> \<exists>w'. pipe_flush p w = Some w' \<and> inv w' E \<and> pipes w' = pipes w"
    and inv_close: "inv w (add_mset m E) \<Longrightarrow> sendable m \<Longrightarrow>
      \<exists>m' w'. msg_close m w = Some (Rc_ok, m', w') \<and> inv w' E \<and> pipes w' = pipes w"
    and inv_add_refs: "inv w (add_mset m E) \<Longrightarrow> sendable m \<Longrightarrow> refs_room n m w \<Longrightarrow>
      \<exists>m' w'. msg_add_refs (int n) m w = Some (m', w') \<and> inv w' (replicate_mset (n + 1) m' + E) \<and>
        (m' = m \<or> m' = msg_set_flags flag_shared m) \<and> pipes w' = pipes w"
    and inv_rm_refs: "inv w (replicate_mset n m + E) \<Longrightarrow> sendable m \<Longrightarrow>
      \<exists>b m' w'. msg_rm_refs (int n) m w = Some (b, m', w') \<and> inv w' E \<and> pipes w' = pipes w"
    and inv_plain: "plain A \<Longrightarrow> inv w (E + A) = inv w E"

text \<open>The ends of a set of connections provide it.\<close>

lemma links_inv_frame:
  assumes "links_inv L w E" "pipes_inv w' E'" "(a, b) \<in> L" "pipes w' a \<noteq> None" "hs_inv a b w' E'" "upipes_kept w w'"
    "\<And>c. c \<noteq> a \<Longrightarrow> pipes w' c = pipes w c" "\<And>c. c \<noteq> a \<Longrightarrow> c \<noteq> b \<Longrightarrow> inbox c w' = inbox c w" "out_normal a w'"
  shows "links_inv L w' E'"
proof -
  have "pipes w' c \<noteq> None \<and> hs_inv c d w' E' \<and> out_normal c w'" if cd: "(c, d) \<in> L" for c d
  proof (cases "(c, d) = (a, b)")
    case False
    then have dj: "{a, b} \<inter> {c, d} = {}" using assms(1,3) cd unfolding links_inv_def separate_def by blast
    obtain y where y: "pipes w c = Some y" "hs_inv c d w E" "out_normal c w" by (rule links_invD[OF assms(1) cd])
    have same: "pipes w' c = pipes w c" "pipes w' d = pipes w d" "inbox c w' = inbox c w" "inbox d w' = inbox d w"
      using assms(7,8) dj by auto
    have "hs_inv c d w' E'"
      by (rule hs_inv_other[OF y(2) assms(2) same]) (use assms(6) in \<open>simp add: upipes_kept_def\<close>)
    moreover have "out_normal c w'" by (rule out_normal_kept[OF y(3) assms(6) y(1)]) (use same y in auto)
    ultimately show ?thesis using same y by simp
  qed (use assms in auto)
  then show ?thesis using assms(1,2) by (auto simp: links_inv_def)
qed

lemma links_inv_more:
  fixes w :: "'z world_scheme"
  assumes "links_inv L w E" "pipes_inv w' E'" "msg_store.more w' = msg_store.more w"
  shows "links_inv L w' E'"
proof -
  note mo = world_more[OF assms(3)]
  have "hs_inv a b w' E'" if "hs_inv a b w E" for a b
    by (rule hs_inv_frame[OF that assms(2)]) (use mo in auto)
  then show ?thesis using assms(1,2) mo by (auto simp: links_inv_def out_normal_def)
qed

interpretation lk: outbound_pipes "fst ` L" "links_inv L" for L
proof
  fix w :: "'z world_scheme" and m E p
  assume inv: "links_inv L w (add_mset m E)" and p: "p \<in> fst ` L" and m: "sendable m"
  obtain b where ab: "(p, b) \<in> L" using p by auto
  obtain x where x: "pipes w p = Some x" "hs_inv p b w (add_mset m E)" "out_normal p w" by (rule links_invD[OF inv ab])
  obtain r m' w' where w': "pipe_write p m w = Some (r, m', w')" "hs_inv p b w' (if r then E else add_mset m E)"
    by (rule write_ok[OF x(2,1) m])
  note f = write_frame[OF w'(1) x(3,1)]
  obtain x' where x': "pipes w' p = Some x'" "outpipe x' = outpipe x"
    "msgs_written x' = (if r \<and> \<not> has_flag m flag_more \<and> \<not> is_routing_id m then msgs_written x + 1 else msgs_written x)"
    using f(5) by blast
  have "links_inv L w' (if r then E else add_mset m E)"
  proof (rule links_inv_frame[OF inv _ ab _ w'(2) f(4,2)])
    show "pipes_inv w' (if r then E else add_mset m E)" using w'(2) by (simp add: hs_inv_def)
    show "out_normal p w'" by (rule out_normal_kept[OF x(3) f(4) x(1) x'(1,2)])
    show "inbox c w' = inbox c w" for c using f(3) by (simp add: inbox_def)
  qed (use x' in auto)
  then show "\<exists>r w' x x'. pipe_write p m w = Some (r, m, w') \<and> links_inv L w' (if r then E else add_mset m E) \<and>
        (\<forall>c. c \<noteq> p \<longrightarrow> pipes w' c = pipes w c) \<and> pipes w p = Some x \<and> pipes w' p = Some x' \<and>
        msgs_written x' = (if r \<and> \<not> has_flag m flag_more \<and> \<not> is_routing_id m then msgs_written x + 1 else msgs_written x)"
    using w'(1) f(1,2) x(1) x'(1,3) by blast
next
  fix w :: "'z world_scheme" and E p
  assume inv: "links_inv L w E" and p: "p \<in> fst ` L"
  obtain b where ab: "(p, b) \<in> L" using p by auto
  obtain x where x: "pipes w p = Some x" "hs_inv p b w E" "out_normal p w" by (rule links_invD[OF inv ab])
  obtain w' where w': "pipe_flush p w = Some w'" "hs_inv p b w' E" "pipes w' = pipes w" by (rule flush_ok[OF x(2,1)])
  note f = flush_frame[OF w'(1) x(3,1)]
  have peer: "peer x = Some b" using x(1,2) by (auto simp: hs_inv_def shape_def half_ok_def)
  have "links_inv L w' E"
  proof (rule links_inv_frame[OF inv _ ab _ w'(2) f(3)])
    show "pipes_inv w' E" using w'(2) by (simp add: hs_inv_def)
    show "out_normal p w'" by (rule out_normal_kept[OF x(3) f(3) x(1)]) (use x f in auto)
    show "inbox c w' = inbox c w" if "c \<noteq> p" "c \<noteq> b" for c using f(2) peer that by simp
  qed (use f x in auto)
  then show "\<exists>w'. pipe_flush p w = Some w' \<and> links_inv L w' E \<and> pipes w' = pipes w" using w' by blast
next
  fix w :: "'z world_scheme" and m E
  assume inv: "links_inv L w (add_mset m E)" and m: "sendable m"
  obtain m' w' where c: "msg_close m w = Some (Rc_ok, m', w')" "pipes_inv w' E" "msg_store.more w' = msg_store.more w"
    using pipes_inv_close[OF _ m, of w E] inv by (auto simp: links_inv_def)
  then show "\<exists>m' w'. msg_close m w = Some (Rc_ok, m', w') \<and> links_inv L w' E \<and> pipes w' = pipes w"
    using links_inv_more[OF inv c(2,3)] world_more[OF c(3)] by auto
next
  fix w :: "'z world_scheme" and m E n
  assume inv: "links_inv L w (add_mset m E)" and m: "sendable m" "refs_room n m w"
  have pi: "pipes_inv w (add_mset m E)" and md: "msg_metadata m = None" using inv m by (auto simp: links_inv_def sendable_def)
  obtain m' w' where c: "msg_add_refs (int n) m w = Some (m', w')" "pipes_inv w' (replicate_mset (n + 1) m' + E)"
    "m' = m \<or> m' = msg_set_flags flag_shared m" "msg_store.more w' = msg_store.more w"
    by (rule add_refs_pipes[OF pi md m(2)])
  show "\<exists>m' w'. msg_add_refs (int n) m w = Some (m', w') \<and> links_inv L w' (replicate_mset (n + 1) m' + E) \<and>
        (m' = m \<or> m' = msg_set_flags flag_shared m) \<and> pipes w' = pipes w"
    using c links_inv_more[OF inv c(2,4)] world_more[OF c(4)] by blast
next
  fix w :: "'z world_scheme" and m E n
  assume inv: "links_inv L w (replicate_mset n m + E)" and m: "sendable m"
  have pi: "pipes_inv w (replicate_mset n m + E)" and md: "msg_check m" "msg_metadata m = None"
    using inv m by (auto simp: links_inv_def sendable_def)
  obtain b m' w' where c: "msg_rm_refs (int n) m w = Some (b, m', w')" "pipes_inv w' E" "msg_store.more w' = msg_store.more w"
    by (rule rm_refs_pipes[OF pi md])
  show "\<exists>b m' w'. msg_rm_refs (int n) m w = Some (b, m', w') \<and> links_inv L w' E \<and> pipes w' = pipes w"
    using c links_inv_more[OF inv c(2,3)] world_more[OF c(3)] by blast
next
  fix w :: "'z world_scheme" and A E
  assume "plain A"
  then have "pipes_inv w (E + A) = pipes_inv w E" by (rule pipes_inv_plain)
  then show "links_inv L w (E + A) = links_inv L w E" by (auto simp: links_inv_def hs_inv_def)
qed


subsection \<open>Reading, and the interface of pipes that are also read\<close>

text \<open>What one end may change: its own pipe, the contents of one-way pipes, and what is under way to its
  peer.\<close>

definition end_kept :: "nat \<Rightarrow> pipe_t \<Rightarrow> 'z world_scheme \<Rightarrow> 'z world_scheme \<Rightarrow> bool" where
  "end_kept a x w w' \<longleftrightarrow> (\<forall>c. c \<noteq> a \<longrightarrow> pipes w' c = pipes w c) \<and> upipes_kept w w' \<and>
     (\<forall>c. peer x \<noteq> Some c \<longrightarrow> inbox c w' = inbox c w) \<and>
     (\<exists>x'. pipes w' a = Some x' \<and> peer x' = peer x \<and> (outpipe x' = outpipe x \<or> outpipe x' = None))"

lemma upipes_kept_trans: "upipes_kept w w1 \<Longrightarrow> upipes_kept w1 w2 \<Longrightarrow> upipes_kept w w2"
  unfolding upipes_kept_def by metis

lemma end_kept_trans:
  assumes "end_kept a x w w1" "pipes w1 a = Some x1" "end_kept a x1 w1 w2"
  shows "end_kept a x w w2"
proof -
  have "peer x1 = peer x" "outpipe x1 = outpipe x \<or> outpipe x1 = None" using assms(1,2) by (auto simp: end_kept_def)
  moreover have "upipes_kept w w2" using assms(1,3) upipes_kept_trans unfolding end_kept_def by blast
  ultimately show ?thesis using assms(1,3) by (auto simp: end_kept_def)
qed

lemma end_kept_put:
  "pipes w a = Some x \<Longrightarrow> peer y = peer x \<Longrightarrow> outpipe y = outpipe x \<or> outpipe y = None \<Longrightarrow> end_kept a x w (put_pipe a y w)"
  by (auto simp: end_kept_def upipes_kept_def inbox_def put_pipe_def)

lemma end_kept_more:
  fixes w :: "'z world_scheme"
  shows "pipes w a = Some x \<Longrightarrow> msg_store.more w' = msg_store.more w \<Longrightarrow> end_kept a x w w'"
  using world_more[of w' w] by (auto simp: end_kept_def upipes_kept_def inbox_def)

lemma upipe_read_normal: "upipe_read (Upipe_normal q) = Some (r, u') \<Longrightarrow> \<exists>q'. u' = Upipe_normal q'"
  by auto

lemma end_kept_upipe:
  assumes "pipes w a = Some x" "upipes w k = Some u" "upipe_read u = Some (r, u')"
  shows "end_kept a x w (put_upipe k u' w)"
proof -
  have "\<exists>q'. u' = Upipe_normal q'" if "u = Upipe_normal q" for q using upipe_read_normal assms(3) that by blast
  then show ?thesis using assms(1,2) by (auto simp: end_kept_def upipes_kept_def inbox_def put_upipe_def)
qed

lemma end_kept_send:
  assumes "pipes w a = Some x" "send_to (peer x) c w = Some w'"
  shows "end_kept a x w w'"
  using assms by (auto simp: end_kept_def upipes_kept_def send_to_def inbox_def opt_simps)

lemma read_message_kept:
  assumes "pipe_read_message p k m w = Some y"
  shows "\<forall>x. pipes w p = Some x \<longrightarrow> end_kept p x w (snd (snd y))" (is "?P p w y")
proof (rule pipe_read_message.raw_induct[where P = "\<lambda>p k m w y. ?P p w y", OF _ assms])
  fix rec p k m w y
  assume rec: "\<And>p k m w y. rec p k m w = Some y \<Longrightarrow> ?P p w y"
    and eq: "do {
       x \<leftarrow> pipes w p;
       u \<leftarrow> upipes w k;
       (r, u) \<leftarrow> upipe_read u;
       (case r of
          None \<Rightarrow> Some (False, m, put_pipe p (x\<lparr>in_active := False\<rparr>) (put_upipe k u w))
        | Some m \<Rightarrow>
            if is_credential m
            then do {
              d \<leftarrow> msg_body m w;
              (c, m, w) \<leftarrow> msg_close m (put_pipe p (x\<lparr>credential := d\<rparr>) (put_upipe k u w));
              zmq_assert (c = Rc_ok);
              rec p k m w
            }
            else Some (True, m, put_upipe k u w))
     } = Some y"
  show "?P p w y"
  proof (intro allI impI)
    fix x assume x: "pipes w p = Some x"
    obtain u r u' where u: "upipes w k = Some u" "upipe_read u = Some (r, u')"
      using eq by (auto simp: opt_simps)
    have k1: "end_kept p x w (put_upipe k u' w)" by (rule end_kept_upipe[OF x u])
    have x1: "pipes (put_upipe k u' w) p = Some x" using x by (simp add: put_upipe_def)
    show "end_kept p x w (snd (snd y))"
    proof (cases r)
      case None
      then show ?thesis using eq u x end_kept_trans[OF k1 x1 end_kept_put[OF x1, of "x\<lparr>in_active := False\<rparr>"]] by auto
    next
      case (Some m1)
      show ?thesis
      proof (cases "is_credential m1")
        case False
        then show ?thesis using eq u x Some k1 by auto
      next
        case True
        obtain d c m2 w2 where c: "msg_close m1 (put_pipe p (x\<lparr>credential := d\<rparr>) (put_upipe k u' w)) = Some (c, m2, w2)"
          "rec p k m2 w2 = Some y" using eq u x Some True by (auto simp: opt_simps)
        let ?x = "x\<lparr>credential := d\<rparr>"
        have x2: "pipes (put_pipe p ?x (put_upipe k u' w)) p = Some ?x" by (simp add: put_pipe_def)
        have k2: "end_kept p x w (put_pipe p ?x (put_upipe k u' w))"
          using end_kept_trans[OF k1 x1 end_kept_put[OF x1, of ?x]] by simp
        have k3: "end_kept p x w w2"
          by (rule end_kept_trans[OF k2 x2 end_kept_more[OF x2 msg_close_more[OF c(1)]]])
        have x3: "pipes w2 p = Some ?x" using world_more(3)[OF msg_close_more[OF c(1)]] x2 by simp
        show ?thesis using end_kept_trans[OF k3 x3] rec[OF c(2)] x3 by blast
      qed
    qed
  qed
qed

lemma read_message_frame:
  "pipe_read_message p k m w = Some (ok, m', w') \<Longrightarrow> pipes w p = Some x \<Longrightarrow> end_kept p x w w'"
  using read_message_kept by fastforce

lemma process_delimiter_frame:
  assumes "process_delimiter p w = Some w'" "pipes w p = Some x"
  shows "end_kept p x w w'"
proof (cases "state x = Active")
  case True
  then show ?thesis using assms by (auto simp: process_delimiter_def opt_simps intro!: end_kept_put)
next
  case False
  let ?x = "x\<lparr>outpipe := None\<rparr>"
  obtain w1 where w1: "send_to (peer x) Cmd_pipe_term_ack (put_pipe p ?x w) = Some w1"
    "w' = put_pipe p (x\<lparr>outpipe := None, state := Term_ack_sent\<rparr>) w1"
    using assms False by (auto simp: process_delimiter_def send_pipe_term_ack_def opt_simps)
  have x1: "pipes (put_pipe p ?x w) p = Some ?x" by (simp add: put_pipe_def)
  have k1: "end_kept p x w w1"
    by (rule end_kept_trans[OF end_kept_put[OF assms(2), of ?x] x1 end_kept_send[OF x1]]) (use w1 in auto)
  then obtain x2 where "pipes w1 p = Some x2" "peer x2 = peer x" by (auto simp: end_kept_def)
  then show ?thesis unfolding w1(2) using end_kept_trans[OF k1 _ end_kept_put] by auto
qed

lemma read_frame:
  assumes "pipe_read p m w = Some (r, m', w')" "pipes w p = Some x"
  shows "end_kept p x w w'"
proof (cases "in_active x \<and> (state x = Active \<or> state x = Waiting_for_delimiter)")
  case False
  then have "w' = w" using assms by (auto simp: pipe_read_def split: if_splits)
  then show ?thesis using assms(2) by (auto intro: end_kept_more)
next
  case True
  obtain k ok m1 w1 where k: "inpipe x = Some k" "pipe_read_message p k m w = Some (ok, m1, w1)"
    using assms True by (auto simp: pipe_read_def opt_simps)
  have k1: "end_kept p x w w1" by (rule read_message_frame[OF k(2) assms(2)])
  then obtain x1 where x1: "pipes w1 p = Some x1" "peer x1 = peer x" by (auto simp: end_kept_def)
  consider (no) "w' = w1" | (del) "process_delimiter p w1 = Some w'"
    | (yes) "w' = put_pipe p (count_read m1 x1) w1"
    | (act) "send_to (peer (count_read m1 x1)) (Cmd_activate_write (msgs_read (count_read m1 x1))) (put_pipe p (count_read m1 x1) w1) = Some w'"
    using assms True k x1 by (auto simp: pipe_read_def send_activate_write_def opt_simps split: if_splits)
  then show ?thesis
  proof cases
    case no
    then show ?thesis using k1 by simp
  next
    case del
    show ?thesis by (rule end_kept_trans[OF k1 x1(1) process_delimiter_frame[OF del x1(1)]])
  next
    case yes
    then show ?thesis using end_kept_trans[OF k1 x1(1) end_kept_put[OF x1(1)]] by (simp add: count_read_def)
  next
    case act
    let ?y = "count_read m1 x1"
    have y: "pipes (put_pipe p ?y w1) p = Some ?y" by (simp add: put_pipe_def)
    have "end_kept p x w (put_pipe p ?y w1)"
      by (rule end_kept_trans[OF k1 x1(1) end_kept_put[OF x1(1)]]) (simp_all add: count_read_def)
    then show ?thesis using end_kept_trans[OF _ y end_kept_send[OF y act]] by blast
  qed
qed

lemma rollback_loop_kept:
  assumes "rollback_loop upipe_unwrite u st = Some y"
  shows "(\<forall>q. u = Upipe_normal q \<longrightarrow> (\<exists>q'. fst y = Upipe_normal q')) \<and> msg_store.more (snd y) = msg_store.more st"
    (is "?P u st y")
proof -
  have "upipe_unwrite = upipe_unwrite \<longrightarrow> ?P u st y"
  proof (rule rollback_loop.raw_induct[where P = "\<lambda>uw u st y. uw = upipe_unwrite \<longrightarrow> ?P u st y", OF _ assms], rule impI)
    fix rec uw u st y
    assume rec: "\<And>uw u st y. rec uw u st = Some y \<Longrightarrow> uw = upipe_unwrite \<longrightarrow> ?P u st y"
      and eq: "do {
         (r, p) \<leftarrow> uw u;
         (case r of None \<Rightarrow> Some (p, st)
          | Some m \<Rightarrow> do {
              zmq_assert (has_flag m flag_more);
              (c, _, st) \<leftarrow> msg_close m st;
              zmq_assert (c = Rc_ok);
              rec uw p st
            })
       } = Some y" and uw: "uw = upipe_unwrite"
    obtain r u' where r: "upipe_unwrite u = Some (r, u')" using eq uw by (auto simp: opt_simps)
    have q': "\<exists>q'. u' = Upipe_normal q'" if "u = Upipe_normal q" for q using r that by auto
    show "?P u st y"
    proof (cases r)
      case None
      then show ?thesis using eq uw r q' by auto
    next
      case (Some m)
      then obtain c m' st' where c: "msg_close m st = Some (c, m', st')" "rec uw u' st' = Some y"
        using eq uw r by (auto simp: opt_simps)
      then show ?thesis using rec[OF c(2)] uw q' msg_close_more[OF c(1)] by fastforce
    qed
  qed
  then show ?thesis by simp
qed

lemma rollback_frame:
  fixes w :: "'z world_scheme"
  assumes "pipe_rollback p w = Some w'" "pipes w p = Some x"
  shows "upipes_kept w w'" "pipes w' = pipes w" "sent w' = sent w"
proof -
  have "upipes_kept w w' \<and> pipes w' = pipes w \<and> sent w' = sent w"
  proof (cases "outpipe x")
    case None
    then show ?thesis using assms by (simp add: pipe_rollback_def)
  next
    case (Some k)
    then obtain u u' w1 where r: "upipes w k = Some u" "rollback_loop upipe_unwrite u w = Some (u', w1)" "w' = put_upipe k u' w1"
      using assms by (auto simp: pipe_rollback_def opt_simps)
    have l: "\<exists>q'. u' = Upipe_normal q'" if "u = Upipe_normal q" for q using rollback_loop_kept[OF r(2)] that by simp
    have "msg_store.more w1 = msg_store.more w" using rollback_loop_kept[OF r(2)] by simp
    note mo = world_more[OF this]
    show ?thesis using r(1) mo l unfolding r(3) by (auto simp: upipes_kept_def put_upipe_def)
  qed
  then show "upipes_kept w w'" "pipes w' = pipes w" "sent w' = sent w" by blast+
qed

locale linked_pipes = outbound_pipes P inv for P :: "nat set" and inv :: "'z world_scheme \<Rightarrow> msg_t multiset \<Rightarrow> bool" +
  assumes inv_read: "inv w E \<Longrightarrow> p \<in> P \<Longrightarrow>
      \<exists>r m' w'. pipe_read p m w = Some (r, m', w') \<and> (r \<longrightarrow> sendable m') \<and> inv w' (if r then add_mset m' E else E) \<and>
        (\<forall>c. c \<noteq> p \<longrightarrow> pipes w' c = pipes w c)"
    and inv_rollback: "inv w E \<Longrightarrow> p \<in> P \<Longrightarrow> \<exists>w'. pipe_rollback p w = Some w' \<and> inv w' E \<and> pipes w' = pipes w"
    and inv_make: "inv w E \<Longrightarrow> sizeof_content + length d < 2 ^ 64 \<Longrightarrow>
      \<exists>m w'. msg_of d m0 w = Some (m, w') \<and> inv w' (add_mset m E) \<and> sendable m \<and> msg_body m w' = Some d \<and>
        msg_flags m = 0 \<and> pipes w' = pipes w"
    and inv_body: "inv w (add_mset m E) \<Longrightarrow> has_body m \<Longrightarrow> \<exists>d. msg_body m w = Some d"

interpretation lk: linked_pipes "fst ` L" "links_inv L" for L
proof
  fix w :: "'z world_scheme" and m E p
  assume inv: "links_inv L w E" and p: "p \<in> fst ` L"
  obtain b where ab: "(p, b) \<in> L" using p by auto
  obtain x where x: "pipes w p = Some x" "hs_inv p b w E" "out_normal p w" by (rule links_invD[OF inv ab])
  obtain r m' w' M where r: "pipe_read p m w = Some (r, m', w')" "hs_inv p b w' (M + E)" "r \<Longrightarrow> sendable m' \<and> M = {#m'#}" "\<not> r \<Longrightarrow> plain M"
    using read_ok[OF x(2,1), of m] by metis
  have k: "end_kept p x w w'" by (rule read_frame[OF r(1) x(1)])
  have peer: "peer x = Some b" using x(1,2) by (auto simp: hs_inv_def shape_def half_ok_def)
  have "links_inv L w' (M + E)"
  proof (rule links_inv_frame[OF inv _ ab _ r(2)])
    show "pipes_inv w' (M + E)" using r(2) by (simp add: hs_inv_def)
    obtain x' where x': "pipes w' p = Some x'" "outpipe x' = outpipe x \<or> outpipe x' = None" "upipes_kept w w'"
      using k by (auto simp: end_kept_def)
    show "out_normal p w'"
    proof (cases "outpipe x' = None")
      case True
      then show ?thesis using x'(1) by (simp add: out_normal_def)
    next
      case False
      then show ?thesis using out_normal_kept[OF x(3) x'(3) x(1) x'(1)] x'(2) by auto
    qed
  qed (use k peer in \<open>auto simp: end_kept_def\<close>)
  then have "links_inv L w' (if r then add_mset m' E else E)"
    using r(3,4) lk.inv_plain[of M L w' E] by (auto simp: add.commute)
  then show "\<exists>r m' w'. pipe_read p m w = Some (r, m', w') \<and> (r \<longrightarrow> sendable m') \<and>
      links_inv L w' (if r then add_mset m' E else E) \<and> (\<forall>c. c \<noteq> p \<longrightarrow> pipes w' c = pipes w c)"
    using r(1,3) k by (auto simp: end_kept_def)
next
  fix w :: "'z world_scheme" and E p
  assume inv: "links_inv L w E" and p: "p \<in> fst ` L"
  obtain b where ab: "(p, b) \<in> L" using p by auto
  obtain x where x: "pipes w p = Some x" "hs_inv p b w E" "out_normal p w" by (rule links_invD[OF inv ab])
  obtain w' where w': "pipe_rollback p w = Some w'" "hs_inv p b w' E" using rollback_ok[OF x(2,1)] by metis
  note f = rollback_frame[OF w'(1) x(1)]
  have "links_inv L w' E"
  proof (rule links_inv_frame[OF inv _ ab _ w'(2) f(1)])
    show "pipes_inv w' E" using w'(2) by (simp add: hs_inv_def)
    show "out_normal p w'" by (rule out_normal_kept[OF x(3) f(1) x(1)]) (use x f in auto)
  qed (use f x in \<open>auto simp: inbox_def\<close>)
  then show "\<exists>w'. pipe_rollback p w = Some w' \<and> links_inv L w' E \<and> pipes w' = pipes w" using w' f by blast
next
  fix w :: "'z world_scheme" and E m0 and d :: bytes
  assume inv: "links_inv L w E" and d: "sizeof_content + length d < 2 ^ 64"
  obtain m w' where m: "msg_of d m0 w = Some (m, w')" "pipes_inv w' (add_mset m E)" "msg_store.more w' = msg_store.more w"
    "sendable m" "msg_body m w' = Some d" "msg_flags m = 0"
    using msg_of_pipes[OF _ d, of w E] inv by (auto simp: links_inv_def)
  then show "\<exists>m w'. msg_of d m0 w = Some (m, w') \<and> links_inv L w' (add_mset m E) \<and> sendable m \<and> msg_body m w' = Some d \<and>
      msg_flags m = 0 \<and> pipes w' = pipes w"
    using links_inv_more[OF inv m(2,3)] world_more[OF m(3)] by blast
next
  fix w :: "'z world_scheme" and m E
  assume "links_inv L w (add_mset m E)" "has_body m"
  then have pi: "pipes_inv w (add_mset m E)" "has_body m" by (simp_all add: links_inv_def)
  show "\<exists>d. msg_body m w = Some d" by (rule pipes_inv_body[OF pi]) blast
qed


subsection \<open>The connection of the examples\<close>

lemma pair_start_contents: "pair_start hwms conf = Some w \<Longrightarrow> contents w = (\<lambda>_. None)"
  by (auto simp: pair_start_def pipepair_def new_upipe_def new_pipe_def put_upipe_def put_pipe_def world_new_def opt_simps)

lemma pair_0_links: "links_inv {(0, 1)} pair_0 {#}"
proof -
  have "(case pipes pair_0 0 of Some x \<Rightarrow> (case outpipe x of Some k \<Rightarrow>
      (case upipes pair_0 k of Some u \<Rightarrow> (case u of Upipe_normal _ \<Rightarrow> True | _ \<Rightarrow> False) | None \<Rightarrow> False) | None \<Rightarrow> False) | None \<Rightarrow> False)"
    unfolding pair_0_def by code_simp
  then have "out_normal 0 pair_0" by (auto simp: out_normal_def split: option.splits upipe.splits)
  then show ?thesis using pair_start_inv[OF pair_0_start] pair_0_live
    by (simp add: links_inv_def separate_def hs_inv_def)
qed

end
