(* ===== verification/Zmq_Lb.thy ===== *)
theory Zmq_Lb
  imports Zmq_Array Zmq_Links
begin

text \<open>
  Load balancing \<open>lb_t\<close> of \<open>src/libzmq/src/lb.cpp\<close>: a socket that sends each message to one of its
  pipes, in turn.  The active pipes are a prefix of the array; a full pipe is swapped out of it, and
  when the pipe that got the first parts of a message goes away the rest of the message is dropped.
  The theorems show that sending never fails and gives the message to exactly one pipe, and that the
  choice of the pipe in the middle of a message can be lost when another pipe goes away.
\<close>

record lb_t =
  lb_pipes :: "nat array_t"
  lb_active :: nat
  lb_current :: nat
  lb_more :: bool
  dropping :: bool

definition lb_new :: lb_t where
  "lb_new = \<lparr>lb_pipes = array_new, lb_active = 0, lb_current = 0, lb_more = False, dropping = False\<rparr>"

definition lb_destroy :: "lb_t \<Rightarrow> unit option" where
  "lb_destroy b = zmq_assert (array_empty (lb_pipes b))"

definition lb_activated :: "nat \<Rightarrow> lb_t \<Rightarrow> lb_t option" where
  "lb_activated p b =
     do {
       a \<leftarrow> array_swap (lb_pipes b) (array_index_of (lb_pipes b) p) (lb_active b);
       Some (b\<lparr>lb_pipes := a, lb_active := lb_active b + 1\<rparr>)
     }"

definition lb_attach :: "nat \<Rightarrow> lb_t \<Rightarrow> lb_t option" where
  "lb_attach p b = lb_activated p (b\<lparr>lb_pipes := array_push_back (lb_pipes b) p\<rparr>)"

definition lb_pipe_terminated :: "nat \<Rightarrow> lb_t \<Rightarrow> lb_t option" where
  "lb_pipe_terminated p b =
     do {
       i \<leftarrow> Some (array_index_of (lb_pipes b) p);
       b \<leftarrow> Some (if i = lb_current b \<and> lb_more b then b\<lparr>dropping := True\<rparr> else b);
       b \<leftarrow> (if i < lb_active b
             then do {
               b \<leftarrow> Some (b\<lparr>lb_active := lb_active b - 1\<rparr>);
               a \<leftarrow> array_swap (lb_pipes b) i (lb_active b);
               b \<leftarrow> Some (b\<lparr>lb_pipes := a\<rparr>);
               Some (if lb_current b = lb_active b then b\<lparr>lb_current := 0\<rparr> else b)
             }
             else Some b);
       a \<leftarrow> array_erase (lb_pipes b) p;
       Some (b\<lparr>lb_pipes := a\<rparr>)
     }"

text \<open>The full current pipe leaves the active pipes.  Here the swap is skipped when it is the last one.\<close>

definition lb_deactivate :: "lb_t \<Rightarrow> lb_t option" where
  "lb_deactivate b =
     do {
       b \<leftarrow> Some (b\<lparr>lb_active := lb_active b - 1\<rparr>);
       (if lb_current b < lb_active b
        then do {
          a \<leftarrow> array_swap (lb_pipes b) (lb_current b) (lb_active b);
          Some (b\<lparr>lb_pipes := a\<rparr>)
        }
        else Some (b\<lparr>lb_current := 0\<rparr>))
     }"

lemma lb_deactivate_active: "lb_deactivate b = Some b' \<Longrightarrow> lb_active b' = lb_active b - 1"
  by (auto simp: lb_deactivate_def opt_simps split: if_splits)

text \<open>The result of the loop: the pipe that took the part, no pipe, or a failed later part, whose
  predecessors are rolled back.\<close>

datatype lb_result = Sent_to nat | No_pipe | Rolled_back

function lb_send_loop :: "msg_t \<Rightarrow> lb_t \<Rightarrow> 'z world_scheme \<Rightarrow> (lb_result \<times> msg_t \<times> lb_t \<times> 'z world_scheme) option" where
  "lb_send_loop m b w =
     (if lb_active b > 0
      then (case array_get (lb_pipes b) (lb_current b) of
              None \<Rightarrow> None
            | Some p \<Rightarrow> (case pipe_write p m w of
                None \<Rightarrow> None
              | Some (ok, m, w) \<Rightarrow>
                  if ok then Some (Sent_to p, m, b, w)
                  else if lb_more b
                  then map_option (\<lambda>w. (Rolled_back, m, b\<lparr>lb_more := False\<rparr>, w)) (pipe_rollback p w)
                  else (case lb_deactivate b of None \<Rightarrow> None | Some b \<Rightarrow> lb_send_loop m b w)))
      else Some (No_pipe, m, b, w))"
  by pat_completeness auto
termination
  by (relation "measure (\<lambda>(m, b, w). lb_active b)") (auto dest: lb_deactivate_active)

declare lb_send_loop.simps [simp del]

definition lb_sendpipe ::
  "msg_t \<Rightarrow> lb_t \<Rightarrow> 'z world_scheme \<Rightarrow> (rc \<times> nat option \<times> msg_t \<times> lb_t \<times> 'z world_scheme) option" where
  "lb_sendpipe m b w =
     (if dropping b
      then do {
        b \<leftarrow> Some (b\<lparr>lb_more := has_flag m flag_more, dropping := has_flag m flag_more\<rparr>);
        (rc, m, w) \<leftarrow> msg_close m w;
        zmq_assert (rc = Rc_ok);
        Some (Rc_ok, None, msg_init m, b, w)
      }
      else do {
        (r, m, b, w) \<leftarrow> lb_send_loop m b w;
        (case r of
           Rolled_back \<Rightarrow> Some (Rc_err EAGAIN, None, m, b, w)
         | No_pipe \<Rightarrow> Some (Rc_err EAGAIN, None, m, b, w)
         | Sent_to p \<Rightarrow> do {
             b \<leftarrow> Some (b\<lparr>lb_more := has_flag m flag_more\<rparr>);
             (b, w) \<leftarrow> (if \<not> lb_more b
                then do {
                  q \<leftarrow> array_get (lb_pipes b) (lb_current b);
                  w \<leftarrow> pipe_flush q w;
                  c \<leftarrow> Some (lb_current b + 1);
                  Some (b\<lparr>lb_current := if c \<ge> lb_active b then 0 else c\<rparr>, w)
                }
                else Some (b, w));
             Some (Rc_ok, Some p, msg_init m, b, w)
           })
      })"

definition lb_send :: "msg_t \<Rightarrow> lb_t \<Rightarrow> 'z world_scheme \<Rightarrow> (rc \<times> msg_t \<times> lb_t \<times> 'z world_scheme) option" where
  "lb_send m b w = do { (rc, _, m, b, w) \<leftarrow> lb_sendpipe m b w; Some (rc, m, b, w) }"

text \<open>Unlike sending, \<open>has_out\<close> always swaps.\<close>

definition lb_put_aside :: "lb_t \<Rightarrow> lb_t option" where
  "lb_put_aside b =
     do {
       b \<leftarrow> Some (b\<lparr>lb_active := lb_active b - 1\<rparr>);
       a \<leftarrow> array_swap (lb_pipes b) (lb_current b) (lb_active b);
       b \<leftarrow> Some (b\<lparr>lb_pipes := a\<rparr>);
       Some (if lb_current b = lb_active b then b\<lparr>lb_current := 0\<rparr> else b)
     }"

lemma lb_put_aside_active: "lb_put_aside b = Some b' \<Longrightarrow> lb_active b' = lb_active b - 1"
  by (auto simp: lb_put_aside_def opt_simps split: if_splits)

function lb_has_out_loop :: "lb_t \<Rightarrow> 'z world_scheme \<Rightarrow> (bool \<times> lb_t \<times> 'z world_scheme) option" where
  "lb_has_out_loop b w =
     (if lb_active b > 0
      then (case array_get (lb_pipes b) (lb_current b) of
              None \<Rightarrow> None
            | Some p \<Rightarrow> (case pipe_check_write p w of
                None \<Rightarrow> None
              | Some (ok, w) \<Rightarrow>
                  if ok then Some (True, b, w)
                  else (case lb_put_aside b of None \<Rightarrow> None | Some b \<Rightarrow> lb_has_out_loop b w)))
      else Some (False, b, w))"
  by pat_completeness auto
termination
  by (relation "measure (\<lambda>(b, w). lb_active b)") (auto dest: lb_put_aside_active)

declare lb_has_out_loop.simps [simp del]

definition lb_has_out :: "lb_t \<Rightarrow> 'z world_scheme \<Rightarrow> (bool \<times> lb_t \<times> 'z world_scheme) option" where
  "lb_has_out b w = (if lb_more b then Some (True, b, w) else lb_has_out_loop b w)"

subsection \<open>The invariant\<close>

definition lb_inv :: "lb_t \<Rightarrow> bool" where
  "lb_inv b \<longleftrightarrow> array_wf (lb_pipes b) \<and> lb_active b \<le> length (items (lb_pipes b)) \<and>
     (if lb_active b = 0 then lb_current b = 0 else lb_current b < lb_active b)"

abbreviation lb_all :: "lb_t \<Rightarrow> nat set" where "lb_all b \<equiv> set (items (lb_pipes b))"

lemma lb_new_inv [inv_intros]: "lb_inv lb_new"
  by (simp add: lb_inv_def lb_new_def array_new_wf)

lemma lb_attach_ok:
  assumes "lb_inv b" "p \<notin> lb_all b"
  shows "\<exists>b'. lb_attach p b = Some b' \<and> lb_inv b' \<and> lb_all b' = insert p (lb_all b) \<and> lb_more b' = lb_more b \<and>
    dropping b' = dropping b"
proof -
  let ?a = "array_push_back (lb_pipes b) p"
  have wf: "array_wf ?a" using assms by (auto simp: lb_inv_def intro: array_push_back_wf)
  have i: "array_index_of ?a p = length (items (lb_pipes b))"
    using array_index_of_nth[OF wf, of "length (items (lb_pipes b))"] by simp
  obtain a where "array_swap ?a (array_index_of ?a p) (lb_active b) = Some a" "array_wf a"
    "items a = list_swap (items ?a) (array_index_of ?a p) (lb_active b)"
    by (rule array_swap_ex[OF wf, of "array_index_of ?a p" "lb_active b"]) (use assms i in \<open>auto simp: lb_inv_def\<close>)
  then show ?thesis using assms i by (auto simp: lb_attach_def lb_activated_def lb_inv_def split: if_splits)
qed

lemma lb_deactivate_ok:
  assumes "lb_inv b" "lb_active b > 0"
  shows "\<exists>b'. lb_deactivate b = Some b' \<and> lb_inv b' \<and> lb_all b' = lb_all b \<and> lb_more b' = lb_more b \<and> dropping b' = dropping b"
proof (cases "lb_current b < lb_active b - 1")
  case True
  have "array_wf (lb_pipes b)" "lb_current b < length (items (lb_pipes b))" "lb_active b - 1 < length (items (lb_pipes b))"
    using assms True by (auto simp: lb_inv_def)
  then obtain a where "array_swap (lb_pipes b) (lb_current b) (lb_active b - 1) = Some a" "array_wf a"
    "items a = list_swap (items (lb_pipes b)) (lb_current b) (lb_active b - 1)" by (rule array_swap_ex)
  then show ?thesis using assms True by (auto simp: lb_deactivate_def lb_inv_def)
qed (use assms in \<open>auto simp: lb_deactivate_def lb_inv_def\<close>)

subsection \<open>Sending on live connections\<close>

context linked_pipes
begin

lemma lb_send_loop_ok:
  "lb_inv b \<Longrightarrow> lb_all b \<subseteq> P \<Longrightarrow> sendable m \<Longrightarrow> inv w (add_mset m E) \<Longrightarrow>
    \<exists>r b' w'. lb_send_loop m b w = Some (r, m, b', w') \<and> lb_inv b' \<and> lb_all b' = lb_all b \<and> dropping b' = dropping b \<and>
      (case r of
         Sent_to p \<Rightarrow> inv w' E \<and> array_get (lb_pipes b') (lb_current b') = Some p \<and> lb_active b' > 0 \<and> lb_more b' = lb_more b \<and>
           written_to {p} m w w'
       | No_pipe \<Rightarrow> inv w' (add_mset m E) \<and> lb_active b' = 0 \<and> lb_more b' = lb_more b \<and> written_to {} m w w'
       | Rolled_back \<Rightarrow> inv w' (add_mset m E) \<and> lb_more b \<and> \<not> lb_more b' \<and> written_to {} m w w')"
proof (induction m b w rule: lb_send_loop.induct)
  case (1 m b w)
  show ?case
  proof (cases "lb_active b > 0")
    case False
    then show ?thesis using 1(2-5) by (subst lb_send_loop.simps) (simp add: written_to_empty)
  next
    case act: True
    let ?p = "items (lb_pipes b) ! lb_current b"
    have c: "lb_current b < lb_active b" "lb_active b \<le> length (items (lb_pipes b))" using 1(2) act by (auto simp: lb_inv_def)
    have g: "array_get (lb_pipes b) (lb_current b) = Some ?p" using c by simp
    have pP: "?p \<in> P" using c 1(3) by (meson nth_mem order_less_le_trans subsetD)
    obtain r w1 x x' where wr: "pipe_write ?p m w = Some (r, m, w1)" "inv w1 (if r then E else add_mset m E)"
      "\<forall>c. c \<noteq> ?p \<longrightarrow> pipes w1 c = pipes w c" "pipes w ?p = Some x" "pipes w1 ?p = Some x'"
      "msgs_written x' = (if r \<and> \<not> has_flag m flag_more \<and> \<not> is_routing_id m then msgs_written x + 1 else msgs_written x)"
      using inv_write[OF 1(5) pP 1(4)] by blast
    have wt: "written_to (if r then {?p} else {}) m w w1"
      unfolding written_to_def
    proof (intro allI impI)
      fix p y assume "pipes w p = Some y"
      then show "\<exists>x'. pipes w1 p = Some x' \<and> msgs_written x' = msgs_written y + (if p \<in> (if r then {?p} else {}) \<and> counted m then 1 else 0)"
        using wr(3-6) by (cases "p = ?p") (auto simp: counted_def)
    qed
    consider (ok) r | (roll) "\<not> r" "lb_more b" | (refused) "\<not> r" "\<not> lb_more b" by blast
    then show ?thesis
    proof cases
      case ok
      then have "lb_send_loop m b w = Some (Sent_to ?p, m, b, w1)" using act g wr(1) by (subst lb_send_loop.simps) simp
      then show ?thesis using ok wr(2) wt g act 1(2) by auto
    next
      case roll
      obtain w2 where w2: "pipe_rollback ?p w1 = Some w2" "inv w2 (add_mset m E)" "pipes w2 = pipes w1"
        using inv_rollback[OF _ pP, of w1 "add_mset m E"] wr(2) roll by auto
      then have "lb_send_loop m b w = Some (Rolled_back, m, b\<lparr>lb_more := False\<rparr>, w2)"
        using act g wr(1) roll by (subst lb_send_loop.simps) simp
      moreover have "written_to {} m w w2" using wt w2(3) roll by (simp add: written_to_def)
      moreover have "lb_inv (b\<lparr>lb_more := False\<rparr>)" using 1(2) by (simp add: lb_inv_def)
      ultimately show ?thesis using roll w2 by auto
    next
      case refused
      obtain b1 where b1: "lb_deactivate b = Some b1" "lb_inv b1" "lb_all b1 = lb_all b" "lb_more b1 = lb_more b" "dropping b1 = dropping b"
        using lb_deactivate_ok[OF 1(2) act] by blast
      have l: "lb_send_loop m b w = lb_send_loop m b1 w1"
        using act g wr(1) refused b1(1) by (subst lb_send_loop.simps) simp
      have tr: "written_to A m w w'" if "written_to A m w1 w'" for A w'
        using written_to_trans[OF wt that] refused by simp
      have "inv w1 (add_mset m E)" "lb_all b1 \<subseteq> P" using wr(2) refused b1(3) 1(3) by simp_all
      from 1(1)[OF act g wr(1) refl refl refused b1(1) b1(2) this(2) 1(4) this(1)]
      obtain r b' w' where ih: "lb_send_loop m b1 w1 = Some (r, m, b', w')" "lb_inv b'" "lb_all b' = lb_all b1" "dropping b' = dropping b1"
        "case r of
         Sent_to p \<Rightarrow> inv w' E \<and> array_get (lb_pipes b') (lb_current b') = Some p \<and> lb_active b' > 0 \<and> lb_more b' = lb_more b1 \<and>
           written_to {p} m w1 w'
       | No_pipe \<Rightarrow> inv w' (add_mset m E) \<and> lb_active b' = 0 \<and> lb_more b' = lb_more b1 \<and> written_to {} m w1 w'
       | Rolled_back \<Rightarrow> inv w' (add_mset m E) \<and> lb_more b1 \<and> \<not> lb_more b' \<and> written_to {} m w1 w'" by blast
      show ?thesis unfolding l using ih b1 tr
        by (intro exI[of _ r] exI[of _ b'] exI[of _ w']) (cases r; simp)
    qed
  qed
qed

end


text \<open>A socket with the pipe 0 of \<open>pair_0\<close>.\<close>

definition lb_one :: lb_t where
  "lb_one = the (lb_attach 0 lb_new)"

lemma lb_one_ok: "lb_inv lb_one \<and> lb_all lb_one = {0} \<and> \<not> dropping lb_one"
proof -
  have n: "lb_all lb_new = {}" "\<not> dropping lb_new" by (simp_all add: lb_new_def)
  obtain b1 where "lb_attach 0 lb_new = Some b1" "lb_inv b1" "lb_all b1 = {0}" "dropping b1 = dropping lb_new"
    using lb_attach_ok[OF lb_new_inv, of 0] unfolding n(1) by (metis empty_iff)
  then show ?thesis using n by (simp add: lb_one_def)
qed


subsection \<open>Losing the current pipe\<close>

text \<open>C39. The choice of the pipe in the middle of a message can be lost.  When parts of a message were
  sent to the last active pipe and another active pipe, not the first, is terminated, the swap moves the
  chosen pipe but \<open>current\<close> is reset to the first one: nothing is dropped, and the next part goes to a
  different pipe, which gets the end of a message whose start it never saw.\<close>

theorem lb_termination_splits_message:
  assumes "lb_inv b" "lb_more b" "\<not> dropping b" "lb_active b = lb_current b + 1"
    and "p \<in> lb_all b" "array_index_of (lb_pipes b) p = i" "0 < i" "i < lb_current b"
  shows "\<exists>b'. lb_pipe_terminated p b = Some b' \<and> lb_more b' \<and> \<not> dropping b' \<and> lb_active b' > 0 \<and>
    array_get (lb_pipes b') (lb_current b') \<noteq> array_get (lb_pipes b) (lb_current b) \<and>
    items (lb_pipes b) ! lb_current b \<in> lb_all b'"
proof -
  let ?xs = "items (lb_pipes b)" and ?c = "lb_current b"
  have wf: "array_wf (lb_pipes b)" and le: "?c < length ?xs" using assms(1,4) by (auto simp: lb_inv_def)
  have d: "distinct ?xs" by (rule array_wf_distinct[OF wf])
  have p: "?xs ! i = p" using array_index_of_mem[OF wf assms(5)] assms(6) by simp
  obtain a where a: "array_swap (lb_pipes b) i ?c = Some a" "array_wf a" "items a = list_swap ?xs i ?c"
    by (rule array_swap_ex[OF wf _ le, of i]) (use assms(8) le in auto)
  obtain a' where a': "array_erase a p = Some a'" "items a' ! 0 = ?xs ! 0" "?xs ! ?c \<in> set (items a')" "0 < length (items a')"
  proof -
    have ac: "items a ! ?c = p" "?c < length (items a)" using a(3) le assms(8) p by (simp_all add: list_swap_nth)
    obtain a' where a': "array_erase a p = Some a'" "items a' = butlast ((items a)[?c := last (items a)])"
      using array_erase_items[OF a(2) ac(2)] ac(1) by blast
    have "p \<in> set (items a)" using ac nth_mem by metis
    then obtain a2 where "array_erase a p = Some a2" "set (items a2) = set (items a) - {p}"
      using array_erase_set[OF a(2)] by blast
    then have set': "set (items a') = set ?xs - {p}" using a'(1) a(3) le assms(8) by simp
    have len: "length (items a) = length ?xs" using a(3) by simp
    have "?xs \<noteq> []" using le by auto
    then have "items a' ! 0 = ?xs ! 0"
      using a'(2) a(3) le assms(7,8) list_swap_nth[of i ?xs ?c 0] by (simp add: nth_butlast)
    moreover have "?xs ! ?c \<noteq> p" using d p le assms(8) by (metis nat_neq_iff nth_eq_iff_index_eq order.strict_trans)
    then have "?xs ! ?c \<in> set (items a')" using set' le by simp
    moreover have "0 < length (items a')" using a'(2) len le assms(7,8) by simp
    ultimately show thesis using that a'(1) by blast
  qed
  have b': "lb_pipe_terminated p b = Some (b\<lparr>lb_active := ?c, lb_current := 0, lb_pipes := a'\<rparr>)"
    using assms a(1) a'(1) by (simp add: lb_pipe_terminated_def)
  have "?xs ! 0 \<noteq> ?xs ! ?c" using nth_eq_iff_index_eq[OF d _ le, of 0] le assms(7,8) by linarith
  then show ?thesis unfolding b' using assms a'(2-4) le by simp
qed


text \<open>Three pipes, the first parts of a message sent to the third, and the second one goes away.\<close>

definition lb_three :: lb_t where
  "lb_three = \<lparr>lb_pipes = array_push_back (array_push_back (array_push_back array_new 10) 11) 12, lb_active = 3,
     lb_current = 2, lb_more = True, dropping = False\<rparr>"

theorem lb_termination_splits_message_witness:
  "\<exists>b'. lb_pipe_terminated 11 lb_three = Some b' \<and> lb_more b' \<and> \<not> dropping b' \<and>
     array_get (lb_pipes b') (lb_current b') \<noteq> Some 12"
proof -
  have "array_wf (lb_pipes lb_three)"
    unfolding lb_three_def lb_t.simps by (intro array_push_back_wf array_new_wf) simp_all
  then have i: "lb_inv lb_three" "lb_more lb_three" "\<not> dropping lb_three" "lb_active lb_three = lb_current lb_three + 1"
    "11 \<in> lb_all lb_three" "array_index_of (lb_pipes lb_three) 11 = 1" "(0 :: nat) < 1" "1 < lb_current lb_three"
    by (simp_all add: lb_inv_def lb_three_def array_index_of_def array_push_back_def array_new_def)
  have "array_get (lb_pipes lb_three) (lb_current lb_three) = Some 12" by (simp add: lb_three_def)
  then show ?thesis using lb_termination_splits_message[OF i] by auto
qed

end
