(* ===== verification/Zmq_Dist.thy ===== *)
theory Zmq_Dist
  imports Zmq_Array Zmq_Links
begin

text \<open>
  The distributor \<open>dist_t\<close> of \<open>src/libzmq/src/dist.cpp\<close>, which sends a message to many outbound pipes.
  Its array of pipes has three nested regions at the front: the matching, the active and the
  eligible pipes; the rest is passive.  Every operation moves pipes between regions by swaps.  The
  first part refines these to operations on four sets; the second part is the distribution of a
  message, which writes to real pipes (\<open>pipe_write\<close>, \<open>pipe_flush\<close>) and keeps the reference count of
  a shared content right when some pipe is full.
\<close>

record dist_t =
  dist_pipes :: "nat array_t"
  matching :: nat
  active :: nat
  eligible :: nat
  dist_more :: bool

text \<open>Sizes are of the unsigned type \<open>size_type\<close>, so zero minus one wraps.\<close>

definition pred_size :: "nat \<Rightarrow> nat" where
  "pred_size n = (if n = 0 then 2 ^ 64 - 1 else n - 1)"

lemma pred_size_pos [simp]: "0 < n \<Longrightarrow> pred_size n = n - 1"
  by (simp add: pred_size_def)

definition dist_new :: dist_t where
  "dist_new = \<lparr>dist_pipes = array_new, matching = 0, active = 0, eligible = 0, dist_more = False\<rparr>"

definition dist_destroy :: "dist_t \<Rightarrow> unit option" where
  "dist_destroy d = zmq_assert (array_empty (dist_pipes d))"

definition dist_attach :: "nat \<Rightarrow> dist_t \<Rightarrow> dist_t option" where
  "dist_attach p d =
     (let a = array_push_back (dist_pipes d) p
      in if dist_more d
         then do {
           a \<leftarrow> array_swap a (eligible d) (pred_size (array_size a));
           Some (d\<lparr>dist_pipes := a, eligible := eligible d + 1\<rparr>)
         }
         else do {
           a \<leftarrow> array_swap a (active d) (pred_size (array_size a));
           Some (d\<lparr>dist_pipes := a, active := active d + 1, eligible := eligible d + 1\<rparr>)
         })"

definition dist_match :: "nat \<Rightarrow> dist_t \<Rightarrow> dist_t option" where
  "dist_match p d =
     (if array_index_of (dist_pipes d) p < matching d then Some d
      else if array_index_of (dist_pipes d) p \<ge> eligible d then Some d
      else do {
        a \<leftarrow> array_swap (dist_pipes d) (array_index_of (dist_pipes d) p) (matching d);
        Some (d\<lparr>dist_pipes := a, matching := matching d + 1\<rparr>)
      })"

definition dist_unmatch :: "dist_t \<Rightarrow> dist_t" where
  "dist_unmatch d = d\<lparr>matching := 0\<rparr>"

function reverse_match_loop :: "nat \<Rightarrow> dist_t \<Rightarrow> dist_t option" where
  "reverse_match_loop i d =
     (if i < eligible d
      then (case array_swap (dist_pipes d) i (matching d) of
              None \<Rightarrow> None
            | Some a \<Rightarrow> reverse_match_loop (i + 1) (d\<lparr>dist_pipes := a, matching := matching d + 1\<rparr>))
      else Some d)"
  by pat_completeness auto
termination
  by (relation "measure (\<lambda>(i, d). eligible d - i)") auto

declare reverse_match_loop.simps [simp del]

definition dist_reverse_match :: "dist_t \<Rightarrow> dist_t option" where
  "dist_reverse_match d = reverse_match_loop (matching d) (dist_unmatch d)"

definition dist_pipe_terminated :: "nat \<Rightarrow> dist_t \<Rightarrow> dist_t option" where
  "dist_pipe_terminated p d =
     do {
       d \<leftarrow> (if array_index_of (dist_pipes d) p < matching d
             then do {
               a \<leftarrow> array_swap (dist_pipes d) (array_index_of (dist_pipes d) p) (pred_size (matching d));
               Some (d\<lparr>dist_pipes := a, matching := pred_size (matching d)\<rparr>)
             }
             else Some d);
       d \<leftarrow> (if array_index_of (dist_pipes d) p < active d
             then do {
               a \<leftarrow> array_swap (dist_pipes d) (array_index_of (dist_pipes d) p) (pred_size (active d));
               Some (d\<lparr>dist_pipes := a, active := pred_size (active d)\<rparr>)
             }
             else Some d);
       d \<leftarrow> (if array_index_of (dist_pipes d) p < eligible d
             then do {
               a \<leftarrow> array_swap (dist_pipes d) (array_index_of (dist_pipes d) p) (pred_size (eligible d));
               Some (d\<lparr>dist_pipes := a, eligible := pred_size (eligible d)\<rparr>)
             }
             else Some d);
       a \<leftarrow> array_erase (dist_pipes d) p;
       Some (d\<lparr>dist_pipes := a\<rparr>)
     }"

definition dist_activated :: "nat \<Rightarrow> dist_t \<Rightarrow> dist_t option" where
  "dist_activated p d =
     do {
       d \<leftarrow> (if eligible d < array_size (dist_pipes d)
             then do {
               a \<leftarrow> array_swap (dist_pipes d) (array_index_of (dist_pipes d) p) (eligible d);
               Some (d\<lparr>dist_pipes := a, eligible := eligible d + 1\<rparr>)
             }
             else Some d);
       (if \<not> dist_more d \<and> active d < array_size (dist_pipes d)
        then do {
          a \<leftarrow> array_swap (dist_pipes d) (pred_size (eligible d)) (active d);
          Some (d\<lparr>dist_pipes := a, active := active d + 1\<rparr>)
        }
        else Some d)
     }"

text \<open>A full pipe leaves the three regions.\<close>

definition dist_deactivate :: "nat \<Rightarrow> dist_t \<Rightarrow> dist_t option" where
  "dist_deactivate p d =
     do {
       a \<leftarrow> array_swap (dist_pipes d) (array_index_of (dist_pipes d) p) (pred_size (matching d));
       d \<leftarrow> Some (d\<lparr>dist_pipes := a, matching := pred_size (matching d)\<rparr>);
       a \<leftarrow> array_swap (dist_pipes d) (array_index_of (dist_pipes d) p) (pred_size (active d));
       d \<leftarrow> Some (d\<lparr>dist_pipes := a, active := pred_size (active d)\<rparr>);
       a \<leftarrow> array_swap (dist_pipes d) (active d) (pred_size (eligible d));
       Some (d\<lparr>dist_pipes := a, eligible := pred_size (eligible d)\<rparr>)
     }"

definition dist_write :: "nat \<Rightarrow> msg_t \<Rightarrow> dist_t \<Rightarrow> 'z world_scheme \<Rightarrow> (bool \<times> msg_t \<times> dist_t \<times> 'z world_scheme) option" where
  "dist_write p m d w =
     do {
       (ok, m, w) \<leftarrow> pipe_write p m w;
       (if \<not> ok
        then do { d \<leftarrow> dist_deactivate p d; Some (False, m, d, w) }
        else do {
          w \<leftarrow> (if \<not> has_flag m flag_more then pipe_flush p w else Some w);
          Some (True, m, d, w)
        })
     }"

text \<open>The loop over the matching pipes; a failed write does not advance the index, since another pipe
  was swapped into its place, but shrinks the region.\<close>

lemma dist_deactivate_matching: "dist_deactivate p d = Some d' \<Longrightarrow> matching d' = pred_size (matching d)"
  by (auto simp: dist_deactivate_def opt_simps)

lemma dist_write_matching:
  "dist_write p m d w = Some (ok, m', d', w') \<Longrightarrow> matching d' = (if ok then matching d else pred_size (matching d))"
  by (auto simp: dist_write_def opt_simps dest: dist_deactivate_matching split: if_splits)

function dist_loop ::
  "nat \<Rightarrow> int \<Rightarrow> msg_t \<Rightarrow> dist_t \<Rightarrow> 'z world_scheme \<Rightarrow> (int \<times> msg_t \<times> dist_t \<times> 'z world_scheme) option" where
  "dist_loop i failed m d w =
     (if i < matching d
      then (case array_get (dist_pipes d) i of
              None \<Rightarrow> None
            | Some p \<Rightarrow> (case dist_write p m d w of
                None \<Rightarrow> None
              | Some (ok, m, d, w) \<Rightarrow>
                  if ok then dist_loop (i + 1) failed m d w else dist_loop i (failed + 1) m d w))
      else Some (failed, m, d, w))"
  by pat_completeness auto
termination
  by (relation "measure (\<lambda>(i, failed, m, d, w). matching d - i)") (auto dest!: dist_write_matching)

declare dist_loop.simps [simp del]

definition distribute :: "msg_t \<Rightarrow> dist_t \<Rightarrow> 'z world_scheme \<Rightarrow> (msg_t \<times> dist_t \<times> 'z world_scheme) option" where
  "distribute m d w =
     (if matching d = 0
      then do {
        (rc, m, w) \<leftarrow> msg_close m w;
        zmq_assert (rc = Rc_ok);
        Some (msg_init m, d, w)
      }
      else if is_vsm m
      then do {
        (_, m, d, w) \<leftarrow> dist_loop 0 0 m d w;
        (rc, m, w) \<leftarrow> msg_close m w;
        zmq_assert (rc = Rc_ok);
        Some (msg_init m, d, w)
      }
      else do {
        (m, w) \<leftarrow> msg_add_refs (int (matching d) - 1) m w;
        (failed, m, d, w) \<leftarrow> dist_loop 0 0 m d w;
        (_, m, w) \<leftarrow> (if failed \<noteq> 0 then msg_rm_refs failed m w else Some (True, m, w));
        Some (msg_init m, d, w)
      })"

definition send_to_matching :: "msg_t \<Rightarrow> dist_t \<Rightarrow> 'z world_scheme \<Rightarrow> (msg_t \<times> dist_t \<times> 'z world_scheme) option" where
  "send_to_matching m d w =
     do {
       msg_more \<leftarrow> Some (has_flag m flag_more);
       (m, d, w) \<leftarrow> distribute m d w;
       d \<leftarrow> Some (if \<not> msg_more then d\<lparr>active := eligible d\<rparr> else d);
       Some (m, d\<lparr>dist_more := msg_more\<rparr>, w)
     }"

definition send_to_all :: "msg_t \<Rightarrow> dist_t \<Rightarrow> 'z world_scheme \<Rightarrow> (msg_t \<times> dist_t \<times> 'z world_scheme) option" where
  "send_to_all m d w = send_to_matching m (d\<lparr>matching := active d\<rparr>) w"

definition dist_has_out :: "dist_t \<Rightarrow> bool" where
  "dist_has_out d = True"

fun check_hwm_loop :: "nat list \<Rightarrow> 'z world_scheme \<Rightarrow> bool option" where
  "check_hwm_loop [] w = Some True"
| "check_hwm_loop (p # ps) w =
     do { x \<leftarrow> pipes w p; (if \<not> check_hwm x then Some False else check_hwm_loop ps w) }"

definition dist_check_hwm :: "dist_t \<Rightarrow> 'z world_scheme \<Rightarrow> bool option" where
  "dist_check_hwm d w = check_hwm_loop (take (matching d) (items (dist_pipes d))) w"

subsection \<open>The regions as sets\<close>

definition region :: "nat \<Rightarrow> dist_t \<Rightarrow> nat set" where
  "region n d = set (take n (items (dist_pipes d)))"

abbreviation matching_set :: "dist_t \<Rightarrow> nat set" where "matching_set d \<equiv> region (matching d) d"
abbreviation active_set :: "dist_t \<Rightarrow> nat set" where "active_set d \<equiv> region (active d) d"
abbreviation eligible_set :: "dist_t \<Rightarrow> nat set" where "eligible_set d \<equiv> region (eligible d) d"
abbreviation all_set :: "dist_t \<Rightarrow> nat set" where "all_set d \<equiv> set (items (dist_pipes d))"

definition dist_inv :: "dist_t \<Rightarrow> bool" where
  "dist_inv d \<longleftrightarrow> array_wf (dist_pipes d) \<and> matching d \<le> active d \<and> active d \<le> eligible d \<and>
     eligible d \<le> length (items (dist_pipes d)) \<and> (\<not> dist_more d \<longrightarrow> active d = eligible d)"

text \<open>A swap and the first \<open>n\<close> elements.\<close>

lemma set_take_swap:
  assumes "distinct xs" "i < length xs" "j < length xs"
  shows "set (take n (list_swap xs i j)) =
    (if i < n \<and> \<not> j < n then insert (xs ! j) (set (take n xs) - {xs ! i})
     else if j < n \<and> \<not> i < n then insert (xs ! i) (set (take n xs) - {xs ! j})
     else set (take n xs))"
proof -
  have mem: "x \<in> set (take n ys) \<longleftrightarrow> (\<exists>k < n. k < length ys \<and> ys ! k = x)" for x and ys :: "'a list"
    by (auto simp: in_set_conv_nth)
  have nth: "k < length xs \<Longrightarrow> list_swap xs i j ! k = (if k = j then xs ! i else if k = i then xs ! j else xs ! k)" for k
    by (rule list_swap_nth[OF assms(2,3)])
  have inj: "k < length xs \<Longrightarrow> l < length xs \<Longrightarrow> xs ! k = xs ! l \<longleftrightarrow> k = l" for k l
    using assms(1) by (simp add: nth_eq_iff_index_eq)
  consider (down) "i < n" "\<not> j < n" | (up) "j < n" "\<not> i < n" | (same) "i < n \<longleftrightarrow> j < n" by blast
  then show ?thesis
  proof cases
    case down
    have "x \<in> set (take n (list_swap xs i j)) \<longleftrightarrow> x \<in> insert (xs ! j) (set (take n xs) - {xs ! i})" for x
      unfolding mem length_list_swap Diff_iff insert_iff empty_iff using down assms(2,3) nth inj by metis
    then show ?thesis using down by auto
  next
    case up
    have "x \<in> set (take n (list_swap xs i j)) \<longleftrightarrow> x \<in> insert (xs ! i) (set (take n xs) - {xs ! j})" for x
      unfolding mem length_list_swap Diff_iff insert_iff empty_iff using up assms(2,3) nth inj by metis
    then show ?thesis using up by auto
  next
    case same
    have "x \<in> set (take n (list_swap xs i j)) \<longleftrightarrow> x \<in> set (take n xs)" for x
      unfolding mem length_list_swap using same assms(2,3) nth by metis
    then show ?thesis using same by auto
  qed
qed


lemma set_take_Suc: "e < length xs \<Longrightarrow> set (take (Suc e) xs) = insert (xs ! e) (set (take e xs))"
  by (simp add: take_Suc_conv_app_nth)

lemma nth_notin_take: "distinct xs \<Longrightarrow> n \<le> i \<Longrightarrow> i < length xs \<Longrightarrow> xs ! i \<notin> set (take n xs)"
  by (auto simp: in_set_conv_nth nth_eq_iff_index_eq)

lemma nth_in_take: "i < n \<Longrightarrow> i < length xs \<Longrightarrow> xs ! i \<in> set (take n xs)"
  by (auto simp: in_set_conv_nth)

text \<open>Moving the element at \<open>i\<close> to the end of a region, from outside and from inside.\<close>

lemma list_swap_commute: "list_swap xs i j = list_swap xs j i"
  by (cases "i = j") (simp_all add: list_swap_def list_update_swap)

lemma swap_grow:
  assumes "distinct xs" "e \<le> i" "i < length xs"
  shows "set (take (Suc e) (list_swap xs i e)) = insert (xs ! i) (set (take e xs))"
    "n \<le> e \<Longrightarrow> set (take n (list_swap xs i e)) = set (take n xs)"
    "i < n \<Longrightarrow> set (take n (list_swap xs i e)) = set (take n xs)"
proof -
  have e: "e < length xs" using assms by simp
  show "set (take (Suc e) (list_swap xs i e)) = insert (xs ! i) (set (take e xs))"
  proof (cases "i = e")
    case True
    then show ?thesis using set_take_Suc[OF e] by simp
  next
    case False
    then have "\<not> i < Suc e" using assms by simp
    then show ?thesis
      using set_take_swap[OF assms(1,3) e, of "Suc e"] set_take_Suc[OF e] nth_notin_take[OF assms(1), of e e] e by simp
  qed
  show "n \<le> e \<Longrightarrow> set (take n (list_swap xs i e)) = set (take n xs)"
    "i < n \<Longrightarrow> set (take n (list_swap xs i e)) = set (take n xs)"
    using set_take_swap[OF assms(1,3) e, of n] assms by auto
qed

lemma swap_shrink:
  assumes "distinct xs" "i < n" "n \<le> length xs"
  shows "set (take (n - 1) (list_swap xs i (n - 1))) = set (take n xs) - {xs ! i}"
    "k \<le> i \<Longrightarrow> set (take k (list_swap xs i (n - 1))) = set (take k xs)"
    "n \<le> k \<Longrightarrow> set (take k (list_swap xs i (n - 1))) = set (take k xs)"
proof -
  have l: "i < length xs" "n - 1 < length xs" using assms by auto
  have S: "set (take n xs) = insert (xs ! (n - 1)) (set (take (n - 1) xs))"
    using set_take_Suc[OF l(2)] assms by simp
  have "xs ! i \<noteq> xs ! (n - 1)" if "i \<noteq> n - 1" using that assms(1) l by (simp add: nth_eq_iff_index_eq)
  then show "set (take (n - 1) (list_swap xs i (n - 1))) = set (take n xs) - {xs ! i}"
    using set_take_swap[OF assms(1) l, of "n - 1"] assms S nth_notin_take[OF assms(1), of "n - 1" "n - 1"] l
    by (cases "i = n - 1") auto
  show "k \<le> i \<Longrightarrow> set (take k (list_swap xs i (n - 1))) = set (take k xs)"
    "n \<le> k \<Longrightarrow> set (take k (list_swap xs i (n - 1))) = set (take k xs)"
    using set_take_swap[OF assms(1) l, of k] assms by auto
qed

lemma index_in_region:
  assumes "dist_inv d" "p \<in> all_set d"
  shows "array_index_of (dist_pipes d) p < length (items (dist_pipes d))"
    "items (dist_pipes d) ! array_index_of (dist_pipes d) p = p"
    "array_index_of (dist_pipes d) p < n \<longleftrightarrow> p \<in> region n d"
proof -
  have wf: "array_wf (dist_pipes d)" using assms(1) by (simp add: dist_inv_def)
  note i = array_index_of_mem[OF wf assms(2)]
  then show "array_index_of (dist_pipes d) p < length (items (dist_pipes d))"
    "items (dist_pipes d) ! array_index_of (dist_pipes d) p = p" by auto
  show "array_index_of (dist_pipes d) p < n \<longleftrightarrow> p \<in> region n d"
    using nth_in_take[OF _ i(1), of n] nth_notin_take[OF array_wf_distinct[OF wf] _ i(1), of n] i(2)
    by (auto simp: region_def not_less[symmetric])
qed

subsection \<open>Refinement of the operations\<close>

lemma dist_new_inv: "dist_inv dist_new"
  by (simp add: dist_inv_def dist_new_def array_new_wf)

lemma attach_refines:
  assumes "dist_inv d" "p \<notin> all_set d"
  shows "\<exists>d'. dist_attach p d = Some d' \<and> dist_inv d' \<and> dist_more d' = dist_more d \<and>
    matching_set d' = matching_set d \<and> active_set d' = active_set d \<union> (if dist_more d then {} else {p}) \<and>
    eligible_set d' = insert p (eligible_set d) \<and> all_set d' = insert p (all_set d)"
proof -
  let ?a = "array_push_back (dist_pipes d) p" and ?xs = "items (dist_pipes d) @ [p]"
  define e where "e = (if dist_more d then eligible d else active d)"
  have inv: "array_wf (dist_pipes d)" "matching d \<le> active d" "active d \<le> eligible d"
    "eligible d \<le> length (items (dist_pipes d))" "\<not> dist_more d \<Longrightarrow> active d = eligible d"
    using assms(1) by (auto simp: dist_inv_def)
  have ea: "e = eligible d" using inv(5) by (auto simp: e_def)
  have wf: "array_wf ?a" using array_push_back_wf[OF inv(1) assms(2)] .
  have l: "length (items (dist_pipes d)) < length (items ?a)" "e < length (items ?a)" using inv ea by simp_all
  obtain a' where a': "array_swap ?a e (length (items (dist_pipes d))) = Some a'" "array_wf a'"
    "items a' = list_swap ?xs e (length (items (dist_pipes d)))"
    by (rule array_swap_ex[OF wf l(2,1)]) simp
  have sym: "list_swap ?xs e (length (items (dist_pipes d))) = list_swap ?xs (length (items (dist_pipes d))) e"
    by (rule list_swap_commute)
  have ds: "distinct ?xs" using array_wf_distinct[OF wf] by simp
  note g = swap_grow[OF ds, of e "length (items (dist_pipes d))", folded sym a'(3)]
  define d' where "d' = (if dist_more d then d\<lparr>dist_pipes := a', eligible := eligible d + 1\<rparr>
    else d\<lparr>dist_pipes := a', active := active d + 1, eligible := eligible d + 1\<rparr>)"
  have at: "dist_attach p d = Some d'"
    using a'(1) by (simp add: dist_attach_def d'_def e_def split: if_splits)
  have reg: "set (take n (items a')) = set (take n (items (dist_pipes d)))" if "n \<le> eligible d" for n
    using g(2)[of n] that inv(4) ea by simp
  have top: "set (take (Suc (eligible d)) (items a')) = insert p (eligible_set d)"
    using g(1) inv(4) ea by (simp add: region_def)
  have "set (items a') = insert p (all_set d)" using l by (simp add: a'(3))
  moreover have "length (items a') = Suc (length (items (dist_pipes d)))" by (simp add: a'(3))
  ultimately have "dist_inv d' \<and> dist_more d' = dist_more d \<and> matching_set d' = matching_set d \<and>
    active_set d' = active_set d \<union> (if dist_more d then {} else {p}) \<and>
    eligible_set d' = insert p (eligible_set d) \<and> all_set d' = insert p (all_set d)"
    using inv a'(2) reg[of "matching d"] reg[of "active d"] top
    by (auto simp: d'_def dist_inv_def region_def)
  then show ?thesis using at by blast
qed

lemma match_refines:
  assumes "dist_inv d" "p \<in> all_set d" "\<not> dist_more d"
  shows "\<exists>d'. dist_match p d = Some d' \<and> dist_inv d' \<and> dist_more d' = dist_more d \<and>
    matching_set d' = matching_set d \<union> ({p} \<inter> eligible_set d) \<and> active_set d' = active_set d \<and>
    eligible_set d' = eligible_set d \<and> all_set d' = all_set d"
proof -
  let ?a = "dist_pipes d" and ?i = "array_index_of (dist_pipes d) p"
  have inv: "array_wf ?a" "matching d \<le> active d" "active d = eligible d" "eligible d \<le> length (items ?a)"
    using assms(1,3) by (auto simp: dist_inv_def)
  note ix = index_in_region[OF assms(1,2)]
  consider "?i < matching d" | "\<not> ?i < matching d" "\<not> ?i < eligible d" | "\<not> ?i < matching d" "?i < eligible d" by blast
  then show ?thesis
  proof cases
    case 1
    then have "{p} \<inter> eligible_set d \<subseteq> matching_set d" using ix(3)[of "matching d"] by blast
    moreover have "dist_match p d = Some d" using 1 by (simp add: dist_match_def)
    ultimately show ?thesis using assms(1) by auto
  next
    case 2
    then have "{p} \<inter> eligible_set d = {}" using ix(3)[of "eligible d"] by simp
    moreover have "dist_match p d = Some d" using 2 by (simp add: dist_match_def)
    ultimately show ?thesis using assms(1) by auto
  next
    case 3
    have m: "matching d < length (items ?a)" using 3 ix(1) by simp
    obtain a' where a': "array_swap ?a ?i (matching d) = Some a'" "array_wf a'"
      "items a' = list_swap (items ?a) ?i (matching d)" by (rule array_swap_ex[OF inv(1) ix(1) m])
    have le: "matching d \<le> ?i" using 3 by simp
    note g = swap_grow[OF array_wf_distinct[OF inv(1)] le ix(1), folded a'(3)]
    define d' where "d' = d\<lparr>dist_pipes := a', matching := matching d + 1\<rparr>"
    have "p \<in> eligible_set d" using 3 ix(3) by blast
    moreover have "set (take (Suc (matching d)) (items a')) = insert p (matching_set d)"
      using g(1) ix(2) by (simp add: region_def)
    moreover have "set (take (eligible d) (items a')) = eligible_set d" using g(3)[OF 3(2)] by (simp add: region_def)
    moreover have "set (items a') = all_set d" using ix(1) m by (simp add: a'(3))
    moreover have "length (items a') = length (items ?a)" by (simp add: a'(3))
    ultimately have "dist_inv d' \<and> dist_more d' = dist_more d \<and> matching_set d' = matching_set d \<union> ({p} \<inter> eligible_set d) \<and>
      active_set d' = active_set d \<and> eligible_set d' = eligible_set d \<and> all_set d' = all_set d"
      using inv a'(2) 3 by (auto simp: d'_def dist_inv_def region_def)
    then show ?thesis using 3 a'(1) by (auto simp: dist_match_def d'_def)
  qed
qed


text \<open>Moving a pipe out of the first \<open>n\<close> places, if it is there.\<close>

definition leave :: "nat \<Rightarrow> nat \<Rightarrow> nat array_t \<Rightarrow> (nat array_t \<times> nat) option" where
  "leave p n a =
     (if array_index_of a p < n
      then do { a \<leftarrow> array_swap a (array_index_of a p) (pred_size n); Some (a, pred_size n) }
      else Some (a, n))"

lemma array_region:
  assumes "array_wf a" "p \<in> set (items a)"
  shows "array_index_of a p < n \<longleftrightarrow> p \<in> set (take n (items a))"
proof -
  note i = array_index_of_mem[OF assms]
  show ?thesis
    using nth_in_take[OF _ i(1), of n] nth_notin_take[OF array_wf_distinct[OF assms(1)] _ i(1), of n] i(2)
    by (auto simp: not_less[symmetric])
qed

lemma leave_region:
  assumes "array_wf a" "p \<in> set (items a)" "n \<le> length (items a)"
  obtains a' n' where "leave p n a = Some (a', n')" "array_wf a'" "set (items a') = set (items a)"
    "length (items a') = length (items a)" "n' = (if p \<in> set (take n (items a)) then n - 1 else n)"
    "set (take n' (items a')) = set (take n (items a)) - {p}"
    "\<And>k. n \<le> k \<Longrightarrow> set (take k (items a')) = set (take k (items a))"
    "\<And>k. p \<notin> set (take k (items a)) \<Longrightarrow> k \<le> n' \<Longrightarrow> set (take k (items a')) = set (take k (items a))"
proof (cases "array_index_of a p < n")
  case False
  then show ?thesis using that[of a n] assms array_region[OF assms(1,2), of n] by (auto simp: leave_def)
next
  case True
  let ?i = "array_index_of a p"
  note i = array_index_of_mem[OF assms(1,2)]
  have l: "n - 1 < length (items a)" using True assms(3) by simp
  obtain a' where a': "array_swap a ?i (n - 1) = Some a'" "array_wf a'" "items a' = list_swap (items a) ?i (n - 1)"
    by (rule array_swap_ex[OF assms(1) i(1) l])
  note s = swap_shrink[OF array_wf_distinct[OF assms(1)] True assms(3), folded a'(3)]
  have "leave p n a = Some (a', n - 1)" using True a'(1) by (simp add: leave_def)
  moreover have "set (items a') = set (items a)" "length (items a') = length (items a)"
    using a'(3) i(1) l by simp_all
  moreover have "n - 1 = (if p \<in> set (take n (items a)) then n - 1 else n)" using True array_region[OF assms(1,2)] by simp
  moreover have "set (take (n - 1) (items a')) = set (take n (items a)) - {p}" using s(1) i(2) by simp
  moreover have "set (take k (items a')) = set (take k (items a))" if "p \<notin> set (take k (items a))" for k
    using s(2)[of k] that array_region[OF assms(1,2), of k] by simp
  ultimately show ?thesis using that[of a' "n - 1"] a'(2) s(3) by blast
qed

lemma dist_pipe_terminated_leave:
  "dist_pipe_terminated p d =
     do {
       (a, m) \<leftarrow> leave p (matching d) (dist_pipes d);
       (a, ac) \<leftarrow> leave p (active d) a;
       (a, e) \<leftarrow> leave p (eligible d) a;
       a \<leftarrow> array_erase a p;
       Some (d\<lparr>matching := m, active := ac, eligible := e, dist_pipes := a\<rparr>)
     }"
proof -
  have "(if array_index_of (dist_pipes d) p < n (d :: dist_t)
             then do {
               a \<leftarrow> array_swap (dist_pipes d) (array_index_of (dist_pipes d) p) (pred_size (n d));
               Some (f d a (pred_size (n d)))
             }
             else Some d) = do { (a, k) \<leftarrow> leave p (n d) (dist_pipes d); Some (f d a k) }"
    if "f d (dist_pipes d) (n d) = d" for n d and f :: "dist_t \<Rightarrow> nat array_t \<Rightarrow> nat \<Rightarrow> dist_t"
    using that by (simp add: leave_def)
  from this[of "\<lambda>d a k. d\<lparr>dist_pipes := a, matching := k\<rparr>" _ matching] this[of "\<lambda>d a k. d\<lparr>dist_pipes := a, active := k\<rparr>" _ active]
    this[of "\<lambda>d a k. d\<lparr>dist_pipes := a, eligible := k\<rparr>" _ eligible]
  show ?thesis by (simp add: dist_pipe_terminated_def case_prod_unfold)
qed

lemma take_butlast_update: "k \<le> i \<Longrightarrow> i < length xs \<Longrightarrow> take k (butlast (xs[i := v])) = take k xs"
  by (rule nth_equalityI) (auto simp: nth_butlast)

text \<open>Leaving the three regions in turn.\<close>

lemma leave3:
  assumes "dist_inv d" "p \<in> all_set d"
  obtains a1 m1 a2 n2 a3 n3 where "leave p (matching d) (dist_pipes d) = Some (a1, m1)"
    "leave p (active d) a1 = Some (a2, n2)" "leave p (eligible d) a2 = Some (a3, n3)"
    "array_wf a3" "p \<in> set (items a3)" "length (items a3) = length (items (dist_pipes d))"
    "dist_inv (d\<lparr>matching := m1, active := n2, eligible := n3, dist_pipes := a3\<rparr>)"
    "set (take m1 (items a3)) = matching_set d - {p}" "set (take n2 (items a3)) = active_set d - {p}"
    "set (take n3 (items a3)) = eligible_set d - {p}" "set (items a3) = all_set d"
    "\<And>k. k \<le> m1 \<Longrightarrow> p \<notin> region k d \<Longrightarrow> set (take k (items a3)) = region k d"
proof -
  let ?a = "dist_pipes d" and ?R = "\<lambda>k a. set (take k (items (a :: nat array_t)))"
  have inv: "array_wf ?a" "matching d \<le> active d" "active d \<le> eligible d" "eligible d \<le> length (items ?a)"
    "\<not> dist_more d \<Longrightarrow> active d = eligible d" using assms(1) by (auto simp: dist_inv_def)
  have m: "matching d \<le> length (items ?a)" using inv by simp
  obtain a1 m1 where 1: "leave p (matching d) ?a = Some (a1, m1)" "array_wf a1" "set (items a1) = set (items ?a)"
    "length (items a1) = length (items ?a)" "m1 = (if p \<in> ?R (matching d) ?a then matching d - 1 else matching d)"
    "?R m1 a1 = ?R (matching d) ?a - {p}" "\<And>k. matching d \<le> k \<Longrightarrow> ?R k a1 = ?R k ?a"
    "\<And>k. p \<notin> ?R k ?a \<Longrightarrow> k \<le> m1 \<Longrightarrow> ?R k a1 = ?R k ?a"
    by (rule leave_region[OF inv(1) assms(2) m]) blast
  have p1: "p \<in> set (items a1)" "active d \<le> length (items a1)" using assms(2) 1 inv by auto
  obtain a2 n2 where 2: "leave p (active d) a1 = Some (a2, n2)" "array_wf a2" "set (items a2) = set (items a1)"
    "length (items a2) = length (items a1)" "n2 = (if p \<in> ?R (active d) a1 then active d - 1 else active d)"
    "?R n2 a2 = ?R (active d) a1 - {p}" "\<And>k. active d \<le> k \<Longrightarrow> ?R k a2 = ?R k a1"
    "\<And>k. p \<notin> ?R k a1 \<Longrightarrow> k \<le> n2 \<Longrightarrow> ?R k a2 = ?R k a1"
    by (rule leave_region[OF 1(2) p1]) blast
  have p2: "p \<in> set (items a2)" "eligible d \<le> length (items a2)" using p1 2 1 inv by auto
  obtain a3 n3 where 3: "leave p (eligible d) a2 = Some (a3, n3)" "array_wf a3" "set (items a3) = set (items a2)"
    "length (items a3) = length (items a2)" "n3 = (if p \<in> ?R (eligible d) a2 then eligible d - 1 else eligible d)"
    "?R n3 a3 = ?R (eligible d) a2 - {p}" "\<And>k. p \<notin> ?R k a2 \<Longrightarrow> k \<le> n3 \<Longrightarrow> ?R k a3 = ?R k a2"
    by (rule leave_region[OF 2(2) p2]) blast
  have sub: "?R k a \<subseteq> ?R l a" if "k \<le> l" for k l a using that by (simp add: set_take_subset_set_take)
  have less: "k < l" if "p \<notin> ?R k a" "p \<in> ?R l a" for k l a using that sub[of l k a] by (auto simp: not_less[symmetric])
  have eq1: "?R (active d) a1 = ?R (active d) ?a" "?R (eligible d) a2 = ?R (eligible d) ?a"
    using 1(7)[of "active d"] 1(7)[of "eligible d"] 2(7)[of "eligible d"] inv(2,3) by auto
  have ord: "m1 \<le> n2" "n2 \<le> n3"
    using 1(5) 2(5) 3(5) inv(2,3) sub[OF inv(2), of ?a] sub[OF inv(3), of ?a]
      less[of "matching d" ?a "active d"] less[of "active d" ?a "eligible d"] unfolding eq1
    by (auto split: if_splits)
  have "?R m1 a2 = ?R m1 a1" using 2(8)[of m1] ord(1) 1(6) by auto
  then have r: "?R m1 a3 = ?R (matching d) ?a - {p}" "?R n2 a3 = ?R (active d) ?a - {p}" "?R n3 a3 = ?R (eligible d) ?a - {p}"
    using 3(6,7) ord 1(6) 2(6) eq1 by auto
  have "n2 = n3" if "\<not> dist_more d" using inv(5)[OF that] 2(5) 3(5) eq1 by simp
  moreover have "n3 \<le> length (items a3)" using 3(4,5) p2(2) by auto
  ultimately have "dist_inv (d\<lparr>matching := m1, active := n2, eligible := n3, dist_pipes := a3\<rparr>)"
    using 3(2) ord by (auto simp: dist_inv_def)
  moreover have "?R k a3 = ?R k ?a" if "k \<le> m1" "p \<notin> ?R k ?a" for k
    using 1(8)[OF that(2,1)] 2(8)[of k] 3(7)[of k] that ord by auto
  ultimately show thesis using that[OF 1(1) 2(1) 3(1)] 1(3,4) 2(3,4) 3(2-4) p2(1) r by (simp add: region_def)
qed

lemma terminated_refines:
  assumes "dist_inv d" "p \<in> all_set d"
  shows "\<exists>d'. dist_pipe_terminated p d = Some d' \<and> dist_inv d' \<and> dist_more d' = dist_more d \<and>
    matching_set d' = matching_set d - {p} \<and> active_set d' = active_set d - {p} \<and>
    eligible_set d' = eligible_set d - {p} \<and> all_set d' = all_set d - {p}"
proof -
  obtain a1 m1 a2 n2 a3 n3 where l: "leave p (matching d) (dist_pipes d) = Some (a1, m1)"
    "leave p (active d) a1 = Some (a2, n2)" "leave p (eligible d) a2 = Some (a3, n3)"
    "array_wf a3" "p \<in> set (items a3)"
    "dist_inv (d\<lparr>matching := m1, active := n2, eligible := n3, dist_pipes := a3\<rparr>)"
    "set (take m1 (items a3)) = matching_set d - {p}" "set (take n2 (items a3)) = active_set d - {p}"
    "set (take n3 (items a3)) = eligible_set d - {p}" "set (items a3) = all_set d"
    by (rule leave3[OF assms])
  obtain a4 where 4: "array_erase a3 p = Some a4" "array_wf a4" "set (items a4) = set (items a3) - {p}"
    "length (items a4) = length (items a3) - 1" by (rule array_erase_correct[OF l(4,5)])
  let ?i = "array_index_of a3 p"
  note i = array_index_of_mem[OF l(4,5)]
  have ge: "n3 \<le> ?i" using array_region[OF l(4,5), of n3] l(9) by (auto simp: not_less[symmetric])
  have it: "items a4 = butlast ((items a3)[?i := last (items a3)])"
    using array_erase_items[OF l(4) i(1)] 4(1) i(2) by auto
  have keep: "take k (items a4) = take k (items a3)" if "k \<le> n3" for k
    unfolding it by (rule take_butlast_update) (use that ge i(1) in auto)
  have ord: "m1 \<le> n3" "n2 \<le> n3" using l(6) by (auto simp: dist_inv_def)
  have len: "n3 \<le> length (items a4)" using ge i(1) 4(4) by simp
  define d' where "d' = d\<lparr>matching := m1, active := n2, eligible := n3, dist_pipes := a4\<rparr>"
  have "dist_pipe_terminated p d = Some d'"
    unfolding dist_pipe_terminated_leave using l(1-3) 4(1) by (simp add: d'_def)
  moreover have "dist_inv d'" using 4(2) l(6) len by (auto simp: dist_inv_def d'_def)
  moreover have "matching_set d' = matching_set d - {p}" "active_set d' = active_set d - {p}"
    "eligible_set d' = eligible_set d - {p}" "all_set d' = all_set d - {p}" "dist_more d' = dist_more d"
    using l(7-) keep ord 4(3) by (simp_all add: d'_def region_def)
  ultimately show ?thesis by blast
qed

lemma deactivate_refines:
  assumes "dist_inv d" "p \<in> matching_set d"
  shows "\<exists>d'. dist_deactivate p d = Some d' \<and> dist_inv d' \<and> dist_more d' = dist_more d \<and>
    matching_set d' = matching_set d - {p} \<and> active_set d' = active_set d - {p} \<and>
    eligible_set d' = eligible_set d - {p} \<and> all_set d' = all_set d \<and> matching d' = matching d - 1 \<and>
    (\<forall>k < matching d. p \<notin> region k d \<longrightarrow> region k d' = region k d)"
proof -
  have p: "p \<in> all_set d" using assms(2) by (auto simp: region_def dest: in_set_takeD)
  obtain a1 m1 a2 n2 a3 n3 where l: "leave p (matching d) (dist_pipes d) = Some (a1, m1)"
    "leave p (active d) a1 = Some (a2, n2)" "leave p (eligible d) a2 = Some (a3, n3)"
    "dist_inv (d\<lparr>matching := m1, active := n2, eligible := n3, dist_pipes := a3\<rparr>)"
    "set (take m1 (items a3)) = matching_set d - {p}" "set (take n2 (items a3)) = active_set d - {p}"
    "set (take n3 (items a3)) = eligible_set d - {p}" "set (items a3) = all_set d"
    "\<And>k. k \<le> m1 \<Longrightarrow> p \<notin> region k d \<Longrightarrow> set (take k (items a3)) = region k d"
    by (rule leave3[OF assms(1) p]) blast
  have inv: "array_wf (dist_pipes d)" "matching d \<le> active d" "active d \<le> eligible d"
    "eligible d \<le> length (items (dist_pipes d))" using assms(1) by (auto simp: dist_inv_def)
  have i0: "array_index_of (dist_pipes d) p < matching d" using index_in_region(3)[OF assms(1) p] assms(2) by blast
  then have s1: "array_swap (dist_pipes d) (array_index_of (dist_pipes d) p) (pred_size (matching d)) = Some a1" "m1 = pred_size (matching d)"
    using l(1) by (auto simp: leave_def opt_simps)
  have moved: "array_index_of a' p = j" if "array_wf a" "p \<in> set (items a)" "array_swap a (array_index_of a p) j = Some a'" for a a' j
  proof -
    note im = array_index_of_mem[OF that(1,2)]
    have b: "j < length (items a)" using array_swap_bounds[OF that(3)] by simp
    have "items a' ! j = p" using array_swap_items[OF that(3)] list_swap_nth[OF im(1) b b] im(2) by simp
    then show ?thesis using array_index_of_nth[OF array_swap_wf[OF that(1,3)], of j] b array_swap_items[OF that(3)] by simp
  qed
  have i1: "array_index_of a1 p = matching d - 1" using moved[OF inv(1) p s1(1)] i0 by simp
  have w1: "array_wf a1" "p \<in> set (items a1)" "length (items a1) = length (items (dist_pipes d))"
    using array_swap_wf[OF inv(1) s1(1)] array_swap_items[OF s1(1)] array_swap_bounds[OF s1(1)] p by auto
  have i1': "array_index_of a1 p < active d" using i1 i0 inv by simp
  then have s2: "array_swap a1 (array_index_of a1 p) (pred_size (active d)) = Some a2" "n2 = pred_size (active d)"
    using l(2) by (auto simp: leave_def opt_simps)
  have i2: "array_index_of a2 p = active d - 1" using moved[OF w1(1,2) s2(1)] i1' by simp
  then have "array_index_of a2 p < eligible d" using i1' inv by simp
  then have s3: "array_swap a2 (array_index_of a2 p) (pred_size (eligible d)) = Some a3" "n3 = pred_size (eligible d)"
    using l(3) by (auto simp: leave_def opt_simps)
  have "0 < active d" using i0 inv by simp
  then have "dist_deactivate p d = Some (d\<lparr>matching := m1, active := n2, eligible := n3, dist_pipes := a3\<rparr>)"
    using s1 s2 s3 i2 by (simp add: dist_deactivate_def)
  moreover have "m1 = matching d - 1" using s1(2) i0 by simp
  ultimately show ?thesis using l(4-) by (simp add: region_def)
qed

lemma activated_refines:
  assumes "dist_inv d" "p \<in> all_set d - eligible_set d"
  shows "\<exists>d'. dist_activated p d = Some d' \<and> dist_inv d' \<and> dist_more d' = dist_more d \<and>
    matching_set d' = matching_set d \<and> active_set d' = active_set d \<union> (if dist_more d then {} else {p}) \<and>
    eligible_set d' = insert p (eligible_set d) \<and> all_set d' = all_set d"
proof -
  let ?a = "dist_pipes d" and ?i = "array_index_of (dist_pipes d) p"
  have inv: "array_wf ?a" "matching d \<le> active d" "active d \<le> eligible d" "eligible d \<le> length (items ?a)"
    "\<not> dist_more d \<Longrightarrow> active d = eligible d" using assms(1) by (auto simp: dist_inv_def)
  have p: "p \<in> all_set d" using assms(2) by simp
  note ix = index_in_region[OF assms(1) p]
  have ge: "eligible d \<le> ?i" using ix(3)[of "eligible d"] assms(2) by (simp add: not_less[symmetric])
  have e: "eligible d < length (items ?a)" using ge ix(1) by simp
  obtain a' where a': "array_swap ?a ?i (eligible d) = Some a'" "array_wf a'" "items a' = list_swap (items ?a) ?i (eligible d)"
    by (rule array_swap_ex[OF inv(1) ix(1) e])
  note g = swap_grow[OF array_wf_distinct[OF inv(1)] ge ix(1), folded a'(3)]
  have len: "length (items a') = length (items ?a)" by (simp add: a'(3))
  have top: "set (take (Suc (eligible d)) (items a')) = insert p (eligible_set d)" using g(1) ix(2) by (simp add: region_def)
  have reg: "set (take k (items a')) = region k d" if "k \<le> eligible d" for k using g(2)[OF that] by (simp add: region_def)
  have all: "set (items a') = all_set d" using a'(3) ix(1) e by simp
  show ?thesis
  proof (cases "dist_more d")
    case True
    then have "dist_activated p d = Some (d\<lparr>dist_pipes := a', eligible := eligible d + 1\<rparr>)"
      using a'(1) e by (simp add: dist_activated_def)
    then show ?thesis using True inv a'(2) len e top reg[of "matching d"] reg[of "active d"] all
      by (simp add: dist_inv_def) (simp add: region_def)
  next
    case False
    then have ae: "active d = eligible d" using inv by simp
    obtain a'' where a'': "array_swap a' (eligible d) (eligible d) = Some a''" "array_wf a''"
      "items a'' = list_swap (items a') (eligible d) (eligible d)"
      using array_swap_ex[OF a'(2), of "eligible d" "eligible d"] e len by metis
    then have it: "items a'' = items a'" by simp
    have "dist_activated p d = Some (d\<lparr>dist_pipes := a'', eligible := eligible d + 1, active := eligible d + 1\<rparr>)"
      using a'(1) a''(1) e False ae len by (simp add: dist_activated_def)
    then show ?thesis using False inv a''(2) it len e top reg[of "matching d"] reg[of "active d"] all ae
      by (simp add: dist_inv_def) (simp add: region_def)
  qed
qed


text \<open>Reversing the match: after \<open>k\<close> rounds the first \<open>k\<close> places hold the pipes that stood behind the
  matching ones, and the places not yet reached are untouched.\<close>

lemma reverse_loop:
  assumes "array_wf (dist_pipes d)" "eligible d \<le> length xs" "length (items (dist_pipes d)) = length xs"
    "i = prev + matching d" "i \<le> eligible d"
    "take (matching d) (items (dist_pipes d)) = take (matching d) (drop prev xs)"
    "drop i (items (dist_pipes d)) = drop i xs"
    "set (take (eligible d) (items (dist_pipes d))) = set (take (eligible d) xs)" "all_set d = set xs"
  shows "\<exists>a. reverse_match_loop i d = Some (d\<lparr>dist_pipes := a, matching := eligible d - prev\<rparr>) \<and> array_wf a \<and>
    length (items a) = length xs \<and> take (eligible d - prev) (items a) = take (eligible d - prev) (drop prev xs) \<and>
    set (take (eligible d) (items a)) = set (take (eligible d) xs) \<and> set (items a) = set xs"
  using assms
proof (induction "eligible d - i" arbitrary: i d)
  case 0
  then have i: "i = eligible d" by simp
  then have m: "matching d = eligible d - prev" using 0 by simp
  have "reverse_match_loop i d = Some d" using i by (simp add: reverse_match_loop.simps)
  moreover have "d = d\<lparr>dist_pipes := dist_pipes d, matching := eligible d - prev\<rparr>" using m by simp
  ultimately show ?case using 0 m by (intro exI[of _ "dist_pipes d"]) simp
next
  case (Suc n)
  let ?k = "matching d" and ?ys = "items (dist_pipes d)"
  have lt: "i < eligible d" "i < length ?ys" "?k \<le> i" "?k < length ?ys" using Suc by auto
  obtain a where a: "array_swap (dist_pipes d) i ?k = Some a" "array_wf a" "items a = list_swap ?ys i ?k"
    by (rule array_swap_ex[OF Suc(3) lt(2,4)])
  let ?d = "d\<lparr>dist_pipes := a, matching := ?k + 1\<rparr>"
  have step: "reverse_match_loop i d = reverse_match_loop (i + 1) ?d"
    using lt(1) a(1) by (subst reverse_match_loop.simps) simp
  have yi: "?ys ! i = xs ! i" using Suc(9) lt(2) Suc(5) by (metis hd_drop_conv_nth)
  have tk: "take (?k + 1) (items a) = take (?k + 1) (drop prev xs)"
  proof (rule nth_equalityI)
    fix j assume "j < length (take (?k + 1) (items a))"
    then have j: "j \<le> ?k" "j < length ?ys" using lt by (auto simp: a(3))
    have "j < ?k \<Longrightarrow> ?ys ! j = drop prev xs ! j" using arg_cong[OF Suc(8), of "\<lambda>l. l ! j"] by simp
    moreover have "drop prev xs ! ?k = xs ! i" using Suc(6) lt Suc(5) by simp
    ultimately show "take (?k + 1) (items a) ! j = take (?k + 1) (drop prev xs) ! j"
      using j lt yi by (auto simp: a(3) list_swap_nth le_less)
  qed (use lt Suc(5,6) in \<open>simp add: a(3)\<close>)
  have dr: "drop (i + 1) (items a) = drop (i + 1) xs"
  proof -
    have "drop (i + 1) (items a) = drop (i + 1) ?ys" using lt by (simp add: a(3) list_swap_def)
    also have "\<dots> = drop (i + 1) xs" using arg_cong[OF Suc(9), of "drop 1"] by simp
    finally show ?thesis .
  qed
  have st: "set (take (eligible d) (items a)) = set (take (eligible d) xs)"
    using swap_grow(3)[OF array_wf_distinct[OF Suc(3)] lt(3,2,1)] Suc(10) by (simp add: a(3))
  have "\<exists>b. reverse_match_loop (i + 1) ?d = Some (?d\<lparr>dist_pipes := b, matching := eligible ?d - prev\<rparr>) \<and> array_wf b \<and>
    length (items b) = length xs \<and> take (eligible ?d - prev) (items b) = take (eligible ?d - prev) (drop prev xs) \<and>
    set (take (eligible ?d) (items b)) = set (take (eligible ?d) xs) \<and> set (items b) = set xs"
    by (rule Suc(1)) (use Suc lt a tk dr st in simp_all)
  then show ?case unfolding step by simp
qed

lemma set_take_drop:
  assumes "distinct xs" "n \<le> m"
  shows "set (take (m - n) (drop n xs)) = set (take m xs) - set (take n xs)"
proof -
  define A B where "A = take n xs" and "B = take (m - n) (drop n xs)"
  have "take m xs = A @ B" unfolding A_def B_def using assms(2) by (metis le_add_diff_inverse take_add)
  moreover have "distinct (A @ B)" using assms(1) calculation by (metis distinct_take)
  ultimately have "set B = set (take m xs) - set A" by auto
  then show ?thesis by (simp add: A_def B_def)
qed

lemma reverse_match_refines:
  assumes "dist_inv d" "\<not> dist_more d"
  shows "\<exists>d'. dist_reverse_match d = Some d' \<and> dist_inv d' \<and> dist_more d' = dist_more d \<and>
    matching_set d' = eligible_set d - matching_set d \<and> active_set d' = active_set d \<and>
    eligible_set d' = eligible_set d \<and> all_set d' = all_set d"
proof -
  let ?xs = "items (dist_pipes d)"
  have inv: "array_wf (dist_pipes d)" "matching d \<le> active d" "active d = eligible d" "eligible d \<le> length ?xs"
    using assms by (auto simp: dist_inv_def)
  obtain a where a: "reverse_match_loop (matching d) (dist_unmatch d) =
      Some (dist_unmatch d\<lparr>dist_pipes := a, matching := eligible d - matching d\<rparr>)" "array_wf a"
    "length (items a) = length ?xs" "take (eligible d - matching d) (items a) = take (eligible d - matching d) (drop (matching d) ?xs)"
    "set (take (eligible d) (items a)) = set (take (eligible d) ?xs)" "set (items a) = set ?xs"
    using reverse_loop[of "dist_unmatch d" ?xs "matching d" "matching d"] inv by (auto simp: dist_unmatch_def)
  have "set (take (eligible d - matching d) (items a)) = eligible_set d - matching_set d"
    unfolding a(4) region_def by (rule set_take_drop[OF array_wf_distinct[OF inv(1)]]) (use inv in simp)
  then show ?thesis
    using a inv by (simp add: dist_reverse_match_def dist_unmatch_def dist_inv_def region_def)
qed


subsection \<open>Distribution\<close>

text \<open>Only the last frame of a message counts, and routing ids do not.\<close>

lemma region_mono: "k \<le> l \<Longrightarrow> region k d \<subseteq> region l d"
  by (simp add: region_def set_take_subset_set_take)

lemma flags_shared [simp]:
  "has_flag (msg_set_flags flag_shared m) flag_more = has_flag m flag_more"
  "is_routing_id (msg_set_flags flag_shared m) = is_routing_id m"
  "is_credential (msg_set_flags flag_shared m) = is_credential m"
  by (simp_all add: has_flag_def is_routing_id_def is_credential_def msg_set_flags_def bit.conj_disj_distrib2 msg_flag_defs)

lemma sendable_shared: "sendable m \<Longrightarrow> sendable (msg_set_flags flag_shared m)"
  by (simp add: sendable_def msg_check_def has_body_def is_vsm_def is_cmsg_def is_lmsg_def is_zcmsg_def)

lemma distribute_shared:
  assumes "matching d \<noteq> 0" "\<not> is_vsm m" "msg_add_refs (int (matching d) - 1) m w = Some (m1, w1)"
    and "dist_loop 0 0 m1 d w1 = Some (f, m2, d', w2)"
    and "(if f \<noteq> 0 then msg_rm_refs f m2 w2 else Some (True, m2, w2)) = Some (b, m', w')"
  shows "distribute m d w = Some (msg_init m', d', w')"
  using assms by (simp add: distribute_def)

context outbound_pipes
begin

lemma dist_write_ok:
  assumes "dist_inv d" "p \<in> matching_set d" "p \<in> P" "sendable m" "inv w (add_mset m E)"
  shows "\<exists>r d' w'. dist_write p m d w = Some (r, m, d', w') \<and> inv w' (if r then E else add_mset m E) \<and>
    (if r then d' = d else dist_deactivate p d = Some d') \<and> written_to (if r then {p} else {}) m w w'"
proof -
  obtain r w1 x x' where 1: "pipe_write p m w = Some (r, m, w1)" "inv w1 (if r then E else add_mset m E)"
    "\<forall>c. c \<noteq> p \<longrightarrow> pipes w1 c = pipes w c" "pipes w p = Some x" "pipes w1 p = Some x'"
    "msgs_written x' = (if r \<and> \<not> has_flag m flag_more \<and> \<not> is_routing_id m then msgs_written x + 1 else msgs_written x)"
    using inv_write[OF assms(5,3,4)] by blast
  have wt: "written_to (if r then {p} else {}) m w w1"
    unfolding written_to_def
  proof (intro allI impI)
    fix q y assume q: "pipes w q = Some y"
    show "\<exists>y'. pipes w1 q = Some y' \<and> msgs_written y' = msgs_written y + (if q \<in> (if r then {p} else {}) \<and> counted m then 1 else 0)"
      using q 1(3-6) by (cases "q = p") (auto simp: counted_def)
  qed
  show ?thesis
  proof (cases r)
    case False
    obtain d' where "dist_deactivate p d = Some d'" using deactivate_refines[OF assms(1,2)] by blast
    then show ?thesis using False 1(1,2) wt by (auto simp: dist_write_def)
  next
    case True
    have "\<exists>w2. (if \<not> has_flag m flag_more then pipe_flush p w1 else Some w1) = Some w2 \<and> inv w2 E \<and> pipes w2 = pipes w1"
      using inv_flush[of w1 E p] 1(2) True assms(3) by auto
    then obtain w2 where w2: "(if \<not> has_flag m flag_more then pipe_flush p w1 else Some w1) = Some w2" "inv w2 E" "pipes w2 = pipes w1"
      by blast
    have "written_to {p} m w w2" using wt True w2(3) by (simp add: written_to_def)
    then show ?thesis using True 1(1) w2 by (auto simp: dist_write_def)
  qed
qed

lemma dist_loop_ok:
  assumes "sendable m"
  shows "dist_inv d \<Longrightarrow> all_set d \<subseteq> P \<Longrightarrow> i \<le> matching d \<Longrightarrow> inv w (replicate_mset (matching d - i) m + E) \<Longrightarrow>
    \<exists>d' w'. dist_loop i failed m d w = Some (failed + int (matching d - matching d'), m, d', w') \<and> dist_inv d' \<and>
      dist_more d' = dist_more d \<and> i \<le> matching d' \<and> matching d' \<le> matching d \<and>
      inv w' (replicate_mset (matching d - matching d') m + E) \<and> (\<forall>k \<le> i. region k d' = region k d) \<and>
      matching_set d' \<subseteq> matching_set d \<and> active_set d' = active_set d - (matching_set d - matching_set d') \<and>
      eligible_set d' = eligible_set d - (matching_set d - matching_set d') \<and> all_set d' = all_set d \<and>
      written_to (matching_set d' - region i d) m w w'"
proof (induction "matching d - i" arbitrary: i d w failed E rule: less_induct)
  case less
  show ?case
  proof (cases "i < matching d")
    case False
    then have i: "i = matching d" using less.prems by simp
    then have "dist_loop i failed m d w = Some (failed, m, d, w)" by (simp add: dist_loop.simps)
    then show ?thesis using i less.prems written_to_empty[of w w m] by (intro exI[of _ d] exI[of _ w]) simp
  next
    case True
    let ?xs = "items (dist_pipes d)" and ?p = "items (dist_pipes d) ! i"
    have wf: "array_wf (dist_pipes d)" and len: "matching d \<le> length ?xs" using less.prems(1) by (auto simp: dist_inv_def)
    have p: "?p \<in> matching_set d" "?p \<in> P" "?p \<notin> region i d" "region (Suc i) d = insert ?p (region i d)"
      using True len less.prems(2) nth_in_take[of i "matching d" ?xs] nth_notin_take[OF array_wf_distinct[OF wf], of i i] set_take_Suc[of i ?xs]
      by (auto simp: region_def)
    obtain n where n: "matching d - i = Suc n" using True by (metis Suc_diff_Suc)
    have "inv w (add_mset m (replicate_mset n m + E))" using less.prems(4) n by simp
    then obtain r d1 w1 where 1: "dist_write ?p m d w = Some (r, m, d1, w1)"
      "inv w1 (if r then replicate_mset n m + E else add_mset m (replicate_mset n m + E))"
      "if r then d1 = d else dist_deactivate ?p d = Some d1" "written_to (if r then {?p} else {}) m w w1"
      using dist_write_ok[OF less.prems(1) p(1,2) assms] by blast
    have get: "array_get (dist_pipes d) i = Some ?p" using True len by simp
    show ?thesis
    proof (cases r)
      case ok: True
      have step: "dist_loop i failed m d w = dist_loop (i + 1) failed m d w1"
        using True get 1(1,3) ok by (subst dist_loop.simps) simp
      have nm: "matching d - (i + 1) = n" using n by simp
      obtain d' w' where IH: "dist_loop (i + 1) failed m d w1 = Some (failed + int (matching d - matching d'), m, d', w')"
        "dist_inv d'" "dist_more d' = dist_more d" "i + 1 \<le> matching d'" "matching d' \<le> matching d"
        "inv w' (replicate_mset (matching d - matching d') m + E)" "\<And>k. k \<le> i + 1 \<Longrightarrow> region k d' = region k d"
        "matching_set d' \<subseteq> matching_set d" "active_set d' = active_set d - (matching_set d - matching_set d')"
        "eligible_set d' = eligible_set d - (matching_set d - matching_set d')" "all_set d' = all_set d"
        "written_to (matching_set d' - region (i + 1) d) m w1 w'"
        using less.hyps[of d "i + 1" w1 E failed] less.prems(1,2) True n 1(2) ok nm by auto
      have pin: "?p \<in> matching_set d'" using IH(7)[of "i + 1"] p(4) region_mono[OF IH(4), of d'] by auto
      have "written_to ({?p} \<union> (matching_set d' - region (i + 1) d)) m w w'"
        by (rule written_to_trans[of _ _ _ w1]) (use 1(4) ok IH(12) p(4) in auto)
      moreover have "{?p} \<union> (matching_set d' - region (i + 1) d) = matching_set d' - region i d"
        using pin p(3,4) by auto
      ultimately show ?thesis unfolding step using IH by (intro exI[of _ d'] exI[of _ w']) auto
    next
      case fail: False
      obtain e where e: "dist_deactivate ?p d = Some e" "dist_inv e" "dist_more e = dist_more d"
        "matching_set e = matching_set d - {?p}" "active_set e = active_set d - {?p}" "eligible_set e = eligible_set d - {?p}"
        "all_set e = all_set d" "matching e = matching d - 1" "\<And>k. k < matching d \<Longrightarrow> ?p \<notin> region k d \<Longrightarrow> region k e = region k d"
        using deactivate_refines[OF less.prems(1) p(1)] by blast
      have d1: "d1 = e" using e(1) 1(3) fail by simp
      have step: "dist_loop i failed m d w = dist_loop i (failed + 1) m e w1"
        using True get 1(1) fail d1 by (subst dist_loop.simps) simp
      have nm: "matching e - i = n" using n e(8) by simp
      have i1: "inv w1 (replicate_mset (matching e - i) m + add_mset m E)" unfolding nm using 1(2) fail by simp
      have lt: "matching e - i < matching d - i" "all_set e \<subseteq> P" "i \<le> matching e" using n nm less.prems(2) e(7,8) True by auto
      obtain d' w' where IH: "dist_loop i (failed + 1) m e w1 = Some (failed + 1 + int (matching e - matching d'), m, d', w')"
        "dist_inv d'" "dist_more d' = dist_more e" "i \<le> matching d'" "matching d' \<le> matching e"
        "inv w' (replicate_mset (matching e - matching d') m + add_mset m E)" "\<And>k. k \<le> i \<Longrightarrow> region k d' = region k e"
        "matching_set d' \<subseteq> matching_set e" "active_set d' = active_set e - (matching_set e - matching_set d')"
        "eligible_set d' = eligible_set e - (matching_set e - matching_set d')" "all_set d' = all_set e"
        "written_to (matching_set d' - region i e) m w1 w'"
        using less.hyps[OF lt(1) e(2) lt(2,3) i1, of "failed + 1"] by blast
      have reg: "region k e = region k d" if "k \<le> i" for k
        using e(9)[of k] p(3) region_mono[OF that, of d] that True by auto
      have cnt: "matching d - matching d' = Suc (matching e - matching d')" using e(8) IH(5) True by simp
      have wr: "written_to (matching_set d' - region i d) m w w'"
        using written_to_trans[of "{}" m w w1 "matching_set d' - region i d" w'] 1(4) fail IH(12) reg[of i] by simp
      have sub: "matching_set d - matching_set d' = insert ?p (matching_set e - matching_set d')"
        using e(4) p(1) IH(8) by auto
      have "dist_loop i failed m d w = Some (failed + int (matching d - matching d'), m, d', w')"
        unfolding step IH(1) cnt by simp
      moreover have "inv w' (replicate_mset (matching d - matching d') m + E)" using IH(6) cnt by simp
      moreover have "active_set d' = active_set d - (matching_set d - matching_set d')"
        "eligible_set d' = eligible_set d - (matching_set d - matching_set d')"
        unfolding IH(9,10) e(5,6) sub by auto
      ultimately show ?thesis using IH(2-5,7,8,11) e(3,4,7,8) reg wr by (intro exI[of _ d'] exI[of _ w']) auto
    qed
  qed
qed

text \<open>The whole distribution: nothing fails, no reference is lost, the message reaches exactly the
  matching pipes that had room, and the others become passive.\<close>

lemma distribute_ok:
  assumes "dist_inv d" "all_set d \<subseteq> P" "sendable m" "inv w (add_mset m E)" "refs_room (matching d - 1) m w"
  shows "\<exists>m' d' w'. distribute m d w = Some (msg_init m', d', w') \<and> inv w' E \<and> dist_inv d' \<and>
      dist_more d' = dist_more d \<and> matching_set d' \<subseteq> matching_set d \<and>
      active_set d' = active_set d - (matching_set d - matching_set d') \<and>
      eligible_set d' = eligible_set d - (matching_set d - matching_set d') \<and> all_set d' = all_set d \<and>
      written_to (matching_set d') m w w'"
proof -
  consider (none) "matching d = 0" | (vsm) "matching d \<noteq> 0" "is_vsm m" | (shared) "matching d \<noteq> 0" "\<not> is_vsm m" by blast
  then show ?thesis
  proof cases
    case none
    obtain m' w' where "msg_close m w = Some (Rc_ok, m', w')" "inv w' E" "pipes w' = pipes w"
      using inv_close[OF assms(4,3)] by blast
    then show ?thesis using none assms(1) written_to_empty[of w' w m] by (auto simp: distribute_def region_def)
  next
    case vsm
    have pl: "plain (replicate_mset k m)" for k using vsm(2) by (simp add: plain_def is_vsm_def is_lmsg_def is_zcmsg_def)
    have rep: "inv v (replicate_mset k m + E) = inv v E" for k v
      using inv_plain[OF pl, of v E k] by (simp add: add.commute)
    have "inv w (replicate_mset (matching d - 0) m + E)" using rep[of w 1] rep[of w "matching d"] assms(4) by simp
    from dist_loop_ok[OF assms(3,1,2) _ this, of 0] obtain d' w1 where l:
      "dist_loop 0 0 m d w = Some (int (matching d - matching d'), m, d', w1)" "dist_inv d'" "dist_more d' = dist_more d"
      "inv w1 (replicate_mset (matching d - matching d') m + E)" "matching_set d' \<subseteq> matching_set d"
      "active_set d' = active_set d - (matching_set d - matching_set d')"
      "eligible_set d' = eligible_set d - (matching_set d - matching_set d')" "all_set d' = all_set d"
      "written_to (matching_set d' - region 0 d) m w w1" by auto
    have "inv w1 (add_mset m E)" using l(4) rep[of w1] rep[of w1 1] by simp
    then obtain m' w' where c: "msg_close m w1 = Some (Rc_ok, m', w')" "inv w' E" "pipes w' = pipes w1"
      using inv_close[OF _ assms(3)] by blast
    have "written_to (matching_set d') m w w'" using l(9) c(3) by (simp add: written_to_def region_def)
    then show ?thesis using vsm l c by (auto simp: distribute_def)
  next
    case shared
    obtain n where n: "matching d = Suc n" using shared(1) not0_implies_Suc by blast
    obtain m1 w1 where a: "msg_add_refs (int n) m w = Some (m1, w1)" "inv w1 (replicate_mset (n + 1) m1 + E)"
      "m1 = m \<or> m1 = msg_set_flags flag_shared m" "pipes w1 = pipes w"
      using inv_add_refs[OF assms(4,3), of n] assms(5) n by auto
    have m1: "sendable m1" "counted m1 = counted m"
      using a(3) assms(3) sendable_shared by (auto simp: counted_def)
    have "inv w1 (replicate_mset (matching d - 0) m1 + E)" using a(2) n by simp
    from dist_loop_ok[OF m1(1) assms(1,2) _ this, of 0] obtain d' w2 where l:
      "dist_loop 0 0 m1 d w1 = Some (int (matching d - matching d'), m1, d', w2)" "dist_inv d'" "dist_more d' = dist_more d"
      "inv w2 (replicate_mset (matching d - matching d') m1 + E)" "matching_set d' \<subseteq> matching_set d"
      "active_set d' = active_set d - (matching_set d - matching_set d')"
      "eligible_set d' = eligible_set d - (matching_set d - matching_set d')" "all_set d' = all_set d"
      "written_to (matching_set d' - region 0 d) m1 w1 w2" by auto
    have "\<exists>b m' w'. (if int (matching d - matching d') \<noteq> 0 then msg_rm_refs (int (matching d - matching d')) m1 w2 else Some (True, m1, w2)) =
        Some (b, m', w') \<and> inv w' E \<and> pipes w' = pipes w2"
      using inv_rm_refs[OF l(4) m1(1)] l(4) by (cases "matching d - matching d' = 0") auto
    then obtain b m' w' where r: "(if int (matching d - matching d') \<noteq> 0 then msg_rm_refs (int (matching d - matching d')) m1 w2 else Some (True, m1, w2)) =
        Some (b, m', w')" "inv w' E" "pipes w' = pipes w2" by blast
    have "written_to (matching_set d') m w w'"
      using l(9) r(3) a(4) m1(2) by (simp add: written_to_def region_def)
    moreover have "distribute m d w = Some (msg_init m', d', w')"
      using distribute_shared[OF shared, of w m1 w1 "int (matching d - matching d')" m1 d' w2 b m' w'] a(1) n l(1) r(1) by simp
    ultimately show ?thesis using l r(2) by auto
  qed
qed

end

subsection \<open>The regions as an abstract specification\<close>

datatype region_op = Attach nat | Match nat | Unmatch | Reverse | Terminated nat | Activated nat

fun dist_op :: "region_op \<Rightarrow> dist_t \<Rightarrow> dist_t option" where
  "dist_op (Attach p) d = dist_attach p d"
| "dist_op (Match p) d = dist_match p d"
| "dist_op Unmatch d = Some (dist_unmatch d)"
| "dist_op Reverse d = dist_reverse_match d"
| "dist_op (Terminated p) d = dist_pipe_terminated p d"
| "dist_op (Activated p) d = dist_activated p d"

text \<open>What the operations do to the sets of matching, active, eligible and all pipes; \<open>mo\<close> says that a
  multipart message is being sent, during which no new pipe becomes active.\<close>

record regions =
  r_matching :: "nat set"
  r_active :: "nat set"
  r_eligible :: "nat set"
  r_all :: "nat set"

definition dist_view :: "dist_t \<Rightarrow> regions" where
  "dist_view d = \<lparr>r_matching = matching_set d, r_active = active_set d, r_eligible = eligible_set d, r_all = all_set d\<rparr>"

fun region_spec :: "bool \<Rightarrow> region_op \<Rightarrow> regions \<Rightarrow> regions" where
  "region_spec mo (Attach p) r = r\<lparr>r_active := r_active r \<union> (if mo then {} else {p}),
     r_eligible := insert p (r_eligible r), r_all := insert p (r_all r)\<rparr>"
| "region_spec mo (Match p) r = r\<lparr>r_matching := r_matching r \<union> ({p} \<inter> r_eligible r)\<rparr>"
| "region_spec mo Unmatch r = r\<lparr>r_matching := {}\<rparr>"
| "region_spec mo Reverse r = r\<lparr>r_matching := r_eligible r - r_matching r\<rparr>"
| "region_spec mo (Terminated p) r = \<lparr>r_matching = r_matching r - {p}, r_active = r_active r - {p},
     r_eligible = r_eligible r - {p}, r_all = r_all r - {p}\<rparr>"
| "region_spec mo (Activated p) r = r\<lparr>r_active := r_active r \<union> (if mo then {} else {p}), r_eligible := insert p (r_eligible r)\<rparr>"

text \<open>How the sockets call them: a pipe is attached once, only attached pipes are named, matching is
  computed between messages only, and a pipe is activated only while it is passive.\<close>

fun region_legal :: "bool \<Rightarrow> region_op \<Rightarrow> regions \<Rightarrow> bool" where
  "region_legal mo (Attach p) r = (p \<notin> r_all r)"
| "region_legal mo (Match p) r = (p \<in> r_all r \<and> \<not> mo)"
| "region_legal mo Unmatch r = True"
| "region_legal mo Reverse r = (\<not> mo)"
| "region_legal mo (Terminated p) r = (p \<in> r_all r)"
| "region_legal mo (Activated p) r = (p \<in> r_all r - r_eligible r)"

lemma unmatch_refines:
  "dist_inv d \<Longrightarrow> dist_inv (dist_unmatch d) \<and> dist_more (dist_unmatch d) = dist_more d \<and>
    dist_view (dist_unmatch d) = (dist_view d)\<lparr>r_matching := {}\<rparr>"
  by (auto simp: dist_inv_def dist_unmatch_def dist_view_def region_def)

lemma dist_op_refines:
  assumes "dist_inv d" "region_legal (dist_more d) x (dist_view d)"
  shows "\<exists>d'. dist_op x d = Some d' \<and> dist_inv d' \<and> dist_more d' = dist_more d \<and>
    dist_view d' = region_spec (dist_more d) x (dist_view d)"
proof (cases x)
  case (Attach p)
  then show ?thesis using attach_refines[of d p] assms by (auto simp: dist_view_def)
next
  case (Match p)
  then show ?thesis using match_refines[of d p] assms by (auto simp: dist_view_def)
next
  case Unmatch
  then show ?thesis using unmatch_refines[of d] assms by auto
next
  case Reverse
  then show ?thesis using reverse_match_refines[of d] assms by (auto simp: dist_view_def)
next
  case (Terminated p)
  then show ?thesis using terminated_refines[of d p] assms by (auto simp: dist_view_def)
next
  case (Activated p)
  then show ?thesis using activated_refines[of d p] assms by (auto simp: dist_view_def)
qed

fun dist_run :: "region_op list \<Rightarrow> dist_t \<Rightarrow> dist_t option" where
  "dist_run [] d = Some d"
| "dist_run (x # xs) d = do { d \<leftarrow> dist_op x d; dist_run xs d }"

fun region_legal_run :: "bool \<Rightarrow> region_op list \<Rightarrow> regions \<Rightarrow> bool" where
  "region_legal_run mo [] r = True"
| "region_legal_run mo (x # xs) r = (region_legal mo x r \<and> region_legal_run mo xs (region_spec mo x r))"

lemma dist_run_refines:
  assumes "dist_inv d" "region_legal_run (dist_more d) xs (dist_view d)"
  shows "\<exists>d'. dist_run xs d = Some d' \<and> dist_inv d' \<and> dist_more d' = dist_more d \<and>
    dist_view d' = fold (region_spec (dist_more d)) xs (dist_view d)"
  using assms
proof (induction xs arbitrary: d)
  case (Cons x xs)
  obtain d1 where d1: "dist_op x d = Some d1" "dist_inv d1" "dist_more d1 = dist_more d"
    "dist_view d1 = region_spec (dist_more d) x (dist_view d)"
    using dist_op_refines[of d x] Cons.prems by auto
  then show ?case using Cons.IH[of d1] Cons.prems by auto
qed simp

text \<open>C15. The distributor's array of pipes with three counters implements four sets: from a state whose
  regions are nested, every sequence of the operations (attach, match, unmatch, reverse_match,
  pipe_terminated, activated), called as the sockets call them, runs without an index out of range,
  keeps the regions nested, and changes the sets of matching, active, eligible and all pipes exactly
  as the set operations of \<open>region_spec\<close> do.\<close>
theorem dist_refines_regions:
  assumes "dist_inv d" "region_legal_run (dist_more d) xs (dist_view d)"
  shows "\<exists>d'. dist_run xs d = Some d' \<and> dist_inv d' \<and> dist_more d' = dist_more d \<and>
    dist_view d' = fold (region_spec (dist_more d)) xs (dist_view d)"
  by (rule dist_run_refines[OF assms])

definition sample_ops :: "region_op list" where
  "sample_ops = [Attach 3, Attach 5, Attach 7, Match 5, Match 7, Reverse, Terminated 5, Unmatch, Match 7]"

theorem dist_refines_regions_witness:
  "\<exists>d'. dist_run sample_ops dist_new = Some d' \<and> dist_inv d' \<and> r_matching (dist_view d') = {7} \<and> r_all (dist_view d') = {3, 7}"
proof -
  have l: "region_legal_run (dist_more dist_new) sample_ops (dist_view dist_new)"
    by (simp add: sample_ops_def dist_new_def dist_view_def region_def array_new_def)
  obtain d' where d': "dist_run sample_ops dist_new = Some d'" "dist_inv d'"
    "dist_view d' = fold (region_spec (dist_more dist_new)) sample_ops (dist_view dist_new)"
    using dist_refines_regions[OF dist_new_inv l] by auto
  have "r_matching (dist_view d') = {7} \<and> r_all (dist_view d') = {3, 7}"
    unfolding d'(3) by (auto simp: sample_ops_def dist_new_def dist_view_def region_def array_new_def)
  then show ?thesis using d' by auto
qed

subsection \<open>The distribution of a message\<close>

lemma finish_part:
  "dist_inv d \<Longrightarrow> dist_inv ((if \<not> mo then d\<lparr>active := eligible d\<rparr> else d)\<lparr>dist_more := mo\<rparr>)"
  by (auto simp: dist_inv_def)

context outbound_pipes
begin

lemma send_to_matching_ok:
  assumes "dist_inv d" "all_set d \<subseteq> P" "sendable m" "inv w (add_mset m E)" "refs_room (matching d - 1) m w"
  shows "\<exists>m' d' w'. send_to_matching m d w = Some (msg_init m', d', w') \<and> inv w' E \<and> dist_inv d' \<and>
    matching_set d' \<subseteq> matching_set d \<and> written_to (matching_set d') m w w' \<and>
    eligible_set d' = eligible_set d - (matching_set d - matching_set d') \<and> all_set d' = all_set d \<and>
    dist_more d' = has_flag m flag_more \<and>
    active_set d' = (if has_flag m flag_more then active_set d - (matching_set d - matching_set d') else eligible_set d')"
proof -
  obtain m' d1 w' where d1: "distribute m d w = Some (msg_init m', d1, w')" "inv w' E" "dist_inv d1"
    "matching_set d1 \<subseteq> matching_set d" "active_set d1 = active_set d - (matching_set d - matching_set d1)"
    "eligible_set d1 = eligible_set d - (matching_set d - matching_set d1)" "all_set d1 = all_set d"
    "written_to (matching_set d1) m w w'"
    using distribute_ok[OF assms] by blast
  define d' where "d' = (if \<not> has_flag m flag_more then d1\<lparr>active := eligible d1\<rparr> else d1)\<lparr>dist_more := has_flag m flag_more\<rparr>"
  have "send_to_matching m d w = Some (msg_init m', d', w')" using d1(1) by (simp add: send_to_matching_def d'_def)
  moreover have "dist_inv d'" unfolding d'_def by (rule finish_part[OF d1(3)])
  moreover have "matching_set d' = matching_set d1" "eligible_set d' = eligible_set d1" "all_set d' = all_set d1"
    "active_set d' = (if has_flag m flag_more then active_set d1 else eligible_set d1)" "dist_more d' = has_flag m flag_more"
    by (simp_all add: d'_def region_def)
  ultimately show ?thesis using d1 by metis
qed

text \<open>Sending to all pipes is sending to the active ones.\<close>

lemma send_to_all_ok:
  assumes "dist_inv d" "all_set d \<subseteq> P" "sendable m" "inv w (add_mset m E)" "refs_room (active d - 1) m w"
  shows "\<exists>m' d' w'. send_to_all m d w = Some (msg_init m', d', w') \<and> inv w' E \<and> dist_inv d' \<and>
    matching_set d' \<subseteq> active_set d \<and> written_to (matching_set d') m w w' \<and>
    eligible_set d' = eligible_set d - (active_set d - matching_set d') \<and> all_set d' = all_set d"
proof -
  let ?d = "d\<lparr>matching := active d\<rparr>"
  have r: "dist_inv ?d" "all_set ?d = all_set d" "matching_set ?d = active_set d" "eligible_set ?d = eligible_set d"
    using assms(1) by (auto simp: dist_inv_def region_def)
  then show ?thesis using send_to_matching_ok[of ?d m w E] assms unfolding send_to_all_def by auto
qed

end

text \<open>C14. Sending a message part to the matching pipes of a distributor whose pipes are live connections
  never fails an assertion and consumes exactly the caller's reference: afterwards every content's
  counter again equals the number of messages that hold it, although some writes were refused.  The
  pipes that accepted the part are those still matching; those that refused it are full and leave all
  three regions, and when the part was the last one every eligible pipe is active again.  The caller
  gets back an empty message.\<close>
theorem distribution_delivers:
  fixes w :: "'z world_scheme"
  assumes "dist_inv d" "all_set d \<subseteq> fst ` L" "sendable m" "links_inv L w (add_mset m E)" "refs_room (matching d - 1) m w"
  shows "\<exists>m' d' w'. send_to_matching m d w = Some (msg_init m', d', w') \<and> links_inv L w' E \<and> dist_inv d' \<and>
    matching_set d' \<subseteq> matching_set d \<and> written_to (matching_set d') m w w' \<and>
    eligible_set d' = eligible_set d - (matching_set d - matching_set d') \<and> all_set d' = all_set d \<and>
    dist_more d' = has_flag m flag_more \<and>
    active_set d' = (if has_flag m flag_more then active_set d - (matching_set d - matching_set d') else eligible_set d')"
  by (rule lk.send_to_matching_ok[OF assms])

text \<open>One subscriber, matching, on the connection \<open>pair_0\<close>.\<close>

definition dist_1 :: dist_t where
  "dist_1 = the (dist_run [Attach 0, Match 0] dist_new)"

lemma dist_1_ok: "dist_inv dist_1 \<and> all_set dist_1 = {0} \<and> matching_set dist_1 = {0}"
proof -
  have l: "region_legal_run (dist_more dist_new) [Attach 0, Match 0] (dist_view dist_new)"
    by (simp add: dist_new_def dist_view_def region_def array_new_def)
  obtain d' where d': "dist_run [Attach 0, Match 0] dist_new = Some d'" "dist_inv d'"
    "dist_view d' = fold (region_spec (dist_more dist_new)) [Attach 0, Match 0] (dist_view dist_new)"
    using dist_run_refines[OF dist_new_inv l] by auto
  have "r_matching (dist_view d') = {0} \<and> r_all (dist_view d') = {0}"
    unfolding d'(3) by (simp add: dist_new_def dist_view_def region_def array_new_def)
  then show ?thesis using d'(1,2) by (simp add: dist_1_def dist_view_def)
qed

theorem distribution_delivers_witness:
  "\<exists>m' d' w'. send_to_matching hello dist_1 pair_0 = Some (msg_init m', d', w') \<and> links_inv {(0, 1)} w' {#} \<and> dist_inv d'"
proof -
  have "sendable hello" "plain {#hello#}" by code_simp+
  moreover from this(2) have "links_inv {(0, 1)} pair_0 (add_mset hello {#})"
    using lk.inv_plain[of "{#hello#}" "{(0, 1)}" pair_0 "{#}"] pair_0_links by simp
  moreover have "refs_room (matching dist_1 - 1) hello pair_0"
  proof -
    have "matching dist_1 - 1 = 0" unfolding dist_1_def by code_simp
    moreover have "contents pair_0 = (\<lambda>_. None)" by (rule pair_start_contents[OF pair_0_start])
    ultimately show ?thesis by (simp add: refs_room_def)
  qed
  ultimately show ?thesis
    using distribution_delivers[of dist_1 "{(0, 1)}" hello pair_0 "{#}"] dist_1_ok by fastforce
qed

lemma msg_close_error: "msg_close m st = Some (r, m', st') \<Longrightarrow> r \<noteq> Rc_ok \<Longrightarrow> m' = m \<and> \<not> msg_check m"
  by (auto simp: msg_close_def opt_simps Let_def split: if_splits)

lemma conflate_write_takes:
  "conflate_write lf c m inc st = Some (c', m', st') \<Longrightarrow> m' = msg_init m"
  by (auto simp: conflate_write_def dbuffer_write_def msg_move_def opt_simps split: if_splits dest: msg_close_error)

lemma write_conflate:
  assumes "pipes w p = Some x" "outpipe x = Some k" "upipes w k = Some (Upipe_conflate c)"
    "pipe_write p m w = Some (True, m', w')"
  shows "m' = msg_init m"
proof -
  obtain w1 where "pipe_check_write p w = Some (True, w1)" using assms(4) by (auto simp: pipe_write_def opt_simps split: if_splits)
  moreover from this have "w1 = w" using assms(1) by (auto simp: pipe_check_write_def split: if_splits)
  ultimately show ?thesis using assms by (auto simp: pipe_write_def opt_simps dest: conflate_write_takes)
qed

text \<open>C37. A conflating pipe moves the message out of the distributor's hands: when the loop of
  \<open>distribute\<close> has written the message to a conflating pipe, it goes on with an empty message, so
  every pipe after it gets an empty body (and the references added for them are never returned).\<close>
theorem conflating_pipe_takes_message:
  assumes "array_get (dist_pipes d) i = Some p" "i < matching d" "pipes w p = Some x" "outpipe x = Some k"
    "upipes w k = Some (Upipe_conflate c)" "dist_write p m d w = Some (True, m', d', w')"
  shows "dist_loop i failed m d w = dist_loop (i + 1) failed (msg_init m) d w' \<and> msg_body (msg_init m) w' = Some []"
proof -
  have "m' = msg_init m" "d' = d"
    using assms(6) write_conflate[OF assms(3-5)] by (auto simp: dist_write_def opt_simps split: if_splits)
  moreover have "msg_body (msg_init m) w' = Some []" by (simp add: msg_body_def msg_init_def msg_init_base_def)
  ultimately show ?thesis using assms(1,2,6) by (subst dist_loop.simps) simp
qed

definition conflate_0 :: world where
  "conflate_0 = the (pair_start (10, 10) (True, True))"

theorem conflating_pipe_takes_message_witness:
  "\<exists>w'. dist_loop 0 0 hello dist_1 conflate_0 = dist_loop 1 0 (msg_init hello) dist_1 w'"
proof -
  have "(case dist_write 0 hello dist_1 conflate_0 of Some (True, m', d', w') \<Rightarrow> True | _ \<Rightarrow> False)"
    unfolding dist_1_def conflate_0_def by code_simp
  then obtain m' d' w' where w: "dist_write 0 hello dist_1 conflate_0 = Some (True, m', d', w')"
    by (auto split: option.splits bool.splits)
  have "(case pipes conflate_0 0 of Some x \<Rightarrow> (case outpipe x of Some k \<Rightarrow>
      (case upipes conflate_0 k of Some u \<Rightarrow> (case u of Upipe_conflate _ \<Rightarrow> True | _ \<Rightarrow> False) | None \<Rightarrow> False) | None \<Rightarrow> False) | None \<Rightarrow> False)"
    unfolding conflate_0_def by code_simp
  then obtain x k c where c: "pipes conflate_0 0 = Some x" "outpipe x = Some k" "upipes conflate_0 k = Some (Upipe_conflate c)"
    by (auto split: option.splits upipe.splits)
  have d: "array_get (dist_pipes dist_1) 0 = Some 0" "0 < matching dist_1"
    unfolding dist_1_def by code_simp+
  show ?thesis using conflating_pipe_takes_message[OF d c w, of 0] by auto
qed

end
