(* ===== verification/Zmq_Fq.thy ===== *)
theory Zmq_Fq
  imports Zmq_Array Zmq_Links
begin

text \<open>
  Fair queueing \<open>fq_t\<close> of \<open>src/libzmq/src/fq.cpp\<close>: a socket that receives from many pipes takes one
  message from each in turn.  The active pipes are a prefix of the array; a pipe without messages is
  swapped out of it.  The theorems bound the wait of an active pipe and show that receiving never
  fails between messages; one shows that it does fail when a pipe is terminated between two parts.
\<close>

record fq_t =
  fq_pipes :: "nat array_t"
  fq_active :: nat
  last_in :: "nat option"
  fq_current :: nat
  fq_more :: bool
  saved_credential :: bytes

definition fq_new :: fq_t where
  "fq_new = \<lparr>fq_pipes = array_new, fq_active = 0, last_in = None, fq_current = 0, fq_more = False, saved_credential = []\<rparr>"

definition fq_destroy :: "fq_t \<Rightarrow> unit option" where
  "fq_destroy q = zmq_assert (array_empty (fq_pipes q))"

definition fq_attach :: "nat \<Rightarrow> fq_t \<Rightarrow> fq_t option" where
  "fq_attach p q =
     do {
       a \<leftarrow> Some (array_push_back (fq_pipes q) p);
       a \<leftarrow> array_swap a (fq_active q) (array_size a - 1);
       Some (q\<lparr>fq_pipes := a, fq_active := fq_active q + 1\<rparr>)
     }"

text \<open>Taking the pipe at an index out of the active prefix.\<close>

definition fq_deactivate :: "nat \<Rightarrow> fq_t \<Rightarrow> fq_t option" where
  "fq_deactivate i q =
     do {
       q \<leftarrow> Some (q\<lparr>fq_active := fq_active q - 1\<rparr>);
       a \<leftarrow> array_swap (fq_pipes q) i (fq_active q);
       q \<leftarrow> Some (q\<lparr>fq_pipes := a\<rparr>);
       Some (if fq_current q = fq_active q then q\<lparr>fq_current := 0\<rparr> else q)
     }"

definition fq_pipe_terminated :: "nat \<Rightarrow> fq_t \<Rightarrow> 'z world_scheme \<Rightarrow> fq_t option" where
  "fq_pipe_terminated p q w =
     do {
       i \<leftarrow> Some (array_index_of (fq_pipes q) p);
       q \<leftarrow> (if i < fq_active q then fq_deactivate i q else Some q);
       a \<leftarrow> array_erase (fq_pipes q) p;
       q \<leftarrow> Some (q\<lparr>fq_pipes := a\<rparr>);
       (if last_in q = Some p
        then do { x \<leftarrow> pipes w p; Some (q\<lparr>saved_credential := credential x, last_in := None\<rparr>) }
        else Some q)
     }"

definition fq_activated :: "nat \<Rightarrow> fq_t \<Rightarrow> fq_t option" where
  "fq_activated p q =
     do {
       a \<leftarrow> array_swap (fq_pipes q) (array_index_of (fq_pipes q) p) (fq_active q);
       Some (q\<lparr>fq_pipes := a, fq_active := fq_active q + 1\<rparr>)
     }"

text \<open>A message part was fetched from the current pipe.\<close>

definition fq_fetched :: "nat \<Rightarrow> bool \<Rightarrow> fq_t \<Rightarrow> fq_t" where
  "fq_fetched p mo q =
     (let q = q\<lparr>fq_more := mo\<rparr>
      in if \<not> mo then q\<lparr>last_in := Some p, fq_current := (fq_current q + 1) mod fq_active q\<rparr> else q)"

lemma fq_deactivate_active: "fq_deactivate i q = Some q' \<Longrightarrow> fq_active q' = fq_active q - 1"
  by (auto simp: fq_deactivate_def opt_simps split: if_splits)

function fq_recv_loop ::
  "msg_t \<Rightarrow> fq_t \<Rightarrow> 'z world_scheme \<Rightarrow> (nat option \<times> msg_t \<times> fq_t \<times> 'z world_scheme) option" where
  "fq_recv_loop m q w =
     (if fq_active q > 0
      then (case array_get (fq_pipes q) (fq_current q) of
              None \<Rightarrow> None
            | Some p \<Rightarrow> (case pipe_read p m w of
                None \<Rightarrow> None
              | Some (fetched, m, w) \<Rightarrow>
                  if fetched then Some (Some p, m, fq_fetched p (has_flag m flag_more) q, w)
                  else if fq_more q then None
                  else (case fq_deactivate (fq_current q) q of
                      None \<Rightarrow> None
                    | Some q \<Rightarrow> fq_recv_loop m q w)))
      else Some (None, m, q, w))"
  by pat_completeness auto
termination
  by (relation "measure (\<lambda>(m, q, w). fq_active q)") (auto dest: fq_deactivate_active)

declare fq_recv_loop.simps [simp del]

definition fq_recvpipe ::
  "msg_t \<Rightarrow> fq_t \<Rightarrow> 'z world_scheme \<Rightarrow> (rc \<times> nat option \<times> msg_t \<times> fq_t \<times> 'z world_scheme) option" where
  "fq_recvpipe m q w =
     do {
       (rc, m, w) \<leftarrow> msg_close m w;
       zmq_assert (rc = Rc_ok);
       (r, m, q, w) \<leftarrow> fq_recv_loop m q w;
       (case r of
          Some p \<Rightarrow> Some (Rc_ok, Some p, m, q, w)
        | None \<Rightarrow> Some (Rc_err EAGAIN, None, msg_init m, q, w))
     }"

definition fq_recv :: "msg_t \<Rightarrow> fq_t \<Rightarrow> 'z world_scheme \<Rightarrow> (rc \<times> msg_t \<times> fq_t \<times> 'z world_scheme) option" where
  "fq_recv m q w = do { (rc, _, m, q, w) \<leftarrow> fq_recvpipe m q w; Some (rc, m, q, w) }"

function fq_has_in_loop :: "fq_t \<Rightarrow> 'z world_scheme \<Rightarrow> (bool \<times> fq_t \<times> 'z world_scheme) option" where
  "fq_has_in_loop q w =
     (if fq_active q > 0
      then (case array_get (fq_pipes q) (fq_current q) of
              None \<Rightarrow> None
            | Some p \<Rightarrow> (case pipe_check_read p w of
                None \<Rightarrow> None
              | Some (ok, w) \<Rightarrow>
                  if ok then Some (True, q, w)
                  else (case fq_deactivate (fq_current q) q of
                      None \<Rightarrow> None
                    | Some q \<Rightarrow> fq_has_in_loop q w)))
      else Some (False, q, w))"
  by pat_completeness auto
termination
  by (relation "measure (\<lambda>(q, w). fq_active q)") (auto dest: fq_deactivate_active)

declare fq_has_in_loop.simps [simp del]

definition fq_has_in :: "fq_t \<Rightarrow> 'z world_scheme \<Rightarrow> (bool \<times> fq_t \<times> 'z world_scheme) option" where
  "fq_has_in q w = (if fq_more q then Some (True, q, w) else fq_has_in_loop q w)"

definition fq_get_credential :: "fq_t \<Rightarrow> 'z world_scheme \<Rightarrow> bytes option" where
  "fq_get_credential q w =
     (case last_in q of Some p \<Rightarrow> map_option credential (pipes w p) | None \<Rightarrow> Some (saved_credential q))"

subsection \<open>The invariant\<close>

definition fq_inv :: "fq_t \<Rightarrow> bool" where
  "fq_inv q \<longleftrightarrow> array_wf (fq_pipes q) \<and> fq_active q \<le> length (items (fq_pipes q)) \<and>
     (if fq_active q = 0 then fq_current q = 0 else fq_current q < fq_active q)"

abbreviation fq_all :: "fq_t \<Rightarrow> nat set" where "fq_all q \<equiv> set (items (fq_pipes q))"

definition fq_active_set :: "fq_t \<Rightarrow> nat set" where
  "fq_active_set q = set (take (fq_active q) (items (fq_pipes q)))"

lemma fq_new_inv [inv_intros]: "fq_inv fq_new"
  by (simp add: fq_inv_def fq_new_def array_new_wf)

lemma fq_attach_ok:
  assumes "fq_inv q" "p \<notin> fq_all q"
  shows "\<exists>q'. fq_attach p q = Some q' \<and> fq_inv q' \<and> fq_all q' = insert p (fq_all q) \<and> fq_more q' = fq_more q"
proof -
  let ?a = "array_push_back (fq_pipes q) p"
  have wf: "array_wf ?a" using assms by (auto simp: fq_inv_def intro: array_push_back_wf)
  obtain a where "array_swap ?a (fq_active q) (array_size ?a - 1) = Some a" "array_wf a"
    "items a = list_swap (items ?a) (fq_active q) (array_size ?a - 1)"
    by (rule array_swap_ex[OF wf, of "fq_active q" "array_size ?a - 1"]) (use assms in \<open>auto simp: fq_inv_def\<close>)
  then show ?thesis using assms by (auto simp: fq_attach_def fq_inv_def split: if_splits)
qed

text \<open>The turn of a pipe: how many pipes stand before it in the cycle that starts at the current one.\<close>

definition fq_turn :: "nat \<Rightarrow> fq_t \<Rightarrow> nat" where
  "fq_turn p q = (let i = array_index_of (fq_pipes q) p
     in if fq_current q \<le> i then i - fq_current q else i + fq_active q - fq_current q)"


lemma fq_deactivate_ok:
  assumes "fq_inv q" "i < fq_active q"
  shows "\<exists>q'. fq_deactivate i q = Some q' \<and> fq_inv q' \<and> fq_active q' = fq_active q - 1 \<and>
    items (fq_pipes q') = list_swap (items (fq_pipes q)) i (fq_active q - 1) \<and>
    fq_current q' = (if fq_current q = fq_active q - 1 then 0 else fq_current q) \<and>
    fq_more q' = fq_more q \<and> last_in q' = last_in q"
proof -
  have "array_wf (fq_pipes q)" "i < length (items (fq_pipes q))" "fq_active q - 1 < length (items (fq_pipes q))"
    using assms by (auto simp: fq_inv_def)
  then obtain a where a: "array_swap (fq_pipes q) i (fq_active q - 1) = Some a" "array_wf a"
    "items a = list_swap (items (fq_pipes q)) i (fq_active q - 1)" by (rule array_swap_ex)
  then show ?thesis using assms by (auto simp: fq_deactivate_def fq_inv_def split: if_splits)
qed

lemma fq_active_index:
  assumes "fq_inv q" "p \<in> fq_active_set q"
  obtains i where "i < fq_active q" "i < length (items (fq_pipes q))" "items (fq_pipes q) ! i = p"
    "array_index_of (fq_pipes q) p = i"
proof -
  obtain i where "i < fq_active q" "i < length (items (fq_pipes q))" "items (fq_pipes q) ! i = p"
    using assms(2) by (auto simp: fq_active_set_def in_set_conv_nth)
  moreover have "array_wf (fq_pipes q)" using assms(1) by (simp add: fq_inv_def)
  ultimately show thesis using that array_index_of_nth by blast
qed

text \<open>An active pipe that stays active does not lose its turn when the current pipe is put aside.\<close>

lemma fq_deactivate_turn:
  assumes "fq_inv q" "fq_active q > 0" "fq_deactivate (fq_current q) q = Some q'" "p \<in> fq_active_set q'"
  shows "p \<in> fq_active_set q" "fq_turn p q' \<le> fq_turn p q" "p \<noteq> items (fq_pipes q) ! fq_current q"
proof -
  let ?xs = "items (fq_pipes q)" and ?c = "fq_current q" and ?n = "fq_active q"
  have c: "?c < ?n" "?n \<le> length ?xs" "distinct ?xs" "array_wf (fq_pipes q)"
    using assms(1,2) by (auto simp: fq_inv_def intro: array_wf_distinct)
  have q': "fq_inv q'" "fq_active q' = ?n - 1" "items (fq_pipes q') = list_swap ?xs ?c (?n - 1)"
    "fq_current q' = (if ?c = ?n - 1 then 0 else ?c)"
    using fq_deactivate_ok[OF assms(1) c(1)] assms(3) by auto
  obtain j where j: "j < ?n - 1" "items (fq_pipes q') ! j = p" "array_index_of (fq_pipes q') p = j"
    using fq_active_index[OF q'(1) assms(4)] q'(2) by metis
  define i where "i = (if j = ?c then ?n - 1 else j)"
  have i: "i < ?n" "?xs ! i = p" "i \<noteq> ?c"
    using j c(1,2) unfolding q'(3) i_def by (auto simp: list_swap_nth split: if_splits)
  have ix: "array_index_of (fq_pipes q) p = i" using array_index_of_nth[OF c(4), of i] i c(2) by simp
  show "p \<in> fq_active_set q" using i c(2) by (auto simp: fq_active_set_def in_set_conv_nth)
  show "p \<noteq> ?xs ! ?c" using i c by (auto simp: nth_eq_iff_index_eq)
  show "fq_turn p q' \<le> fq_turn p q"
    unfolding fq_turn_def Let_def ix j(3) q'(2,4) i_def using c(1) j(1) by (auto split: if_splits)
qed

lemma fq_fetched_turn:
  assumes "fq_inv q" "p \<in> fq_active_set q" "items (fq_pipes q) ! fq_current q = r" "r \<noteq> p"
  shows "fq_turn p (fq_fetched r mo q) + (if mo then 0 else 1) = fq_turn p q"
proof -
  obtain i where i: "i < fq_active q" "items (fq_pipes q) ! i = p" "array_index_of (fq_pipes q) p = i"
    using fq_active_index[OF assms(1,2)] by metis
  have c: "fq_current q < fq_active q" "i \<noteq> fq_current q" using assms i by (auto simp: fq_inv_def)
  have "(fq_current q + 1) mod fq_active q = (if fq_current q + 1 = fq_active q then 0 else fq_current q + 1)" using c by simp
  then show ?thesis using i c by (auto simp: fq_turn_def fq_fetched_def Let_def)
qed

lemma fq_turn_bound:
  assumes "fq_inv q" "p \<in> fq_active_set q"
  shows "fq_turn p q < fq_active q"
proof -
  obtain i where "i < fq_active q" "array_index_of (fq_pipes q) p = i" by (rule fq_active_index[OF assms])
  moreover have "fq_current q < fq_active q" using assms(1) calculation(1) by (auto simp: fq_inv_def split: if_splits)
  ultimately show ?thesis by (auto simp: fq_turn_def)
qed

lemma fq_fetched_active [simp]: "fq_active_set (fq_fetched r mo q) = fq_active_set q"
  by (simp add: fq_fetched_def fq_active_set_def Let_def)

lemma fq_recv_turn:
  assumes "fq_inv q" "fq_recv_loop m q w = Some (Some r, m', q', w')" "p \<in> fq_active_set q'"
  shows "p \<in> fq_active_set q \<and> (r \<noteq> p \<longrightarrow> fq_turn p q' + (if has_flag m' flag_more then 0 else 1) \<le> fq_turn p q)"
  using assms
proof (induction m q w rule: fq_recv_loop.induct)
  case (1 m q w)
  have act: "fq_active q > 0" using 1(3) by (auto simp: fq_recv_loop.simps[of m q w] split: if_splits)
  then have c: "fq_current q < fq_active q" "fq_active q \<le> length (items (fq_pipes q))"
    using 1(2) by (auto simp: fq_inv_def)
  let ?s = "items (fq_pipes q) ! fq_current q"
  have g: "array_get (fq_pipes q) (fq_current q) = Some ?s" using c by simp
  obtain ok m1 w1 where rd: "pipe_read ?s m w = Some (ok, m1, w1)"
    using 1(3) act g by (auto simp: fq_recv_loop.simps[of m q w] split: option.splits)
  show ?case
  proof (cases ok)
    case True
    then have "r = ?s" "m' = m1" "q' = fq_fetched ?s (has_flag m1 flag_more) q"
      using 1(3) act g rd by (auto simp: fq_recv_loop.simps[of m q w])
    then show ?thesis using fq_fetched_turn[OF 1(2), of p r] 1(4) by auto
  next
    case False
    then have "\<not> fq_more q" using 1(3) act g rd by (auto simp: fq_recv_loop.simps[of m q w] split: if_splits)
    moreover obtain q1 where q1: "fq_deactivate (fq_current q) q = Some q1" "fq_inv q1"
      using fq_deactivate_ok[OF 1(2) c(1)] by blast
    ultimately have l: "fq_recv_loop m1 q1 w1 = Some (Some r, m', q', w')"
      using 1(3) act g rd False by (simp add: fq_recv_loop.simps[of m q w])
    have "p \<in> fq_active_set q1 \<and> (r \<noteq> p \<longrightarrow> fq_turn p q' + (if has_flag m' flag_more then 0 else 1) \<le> fq_turn p q1)"
      using 1(1)[OF act g rd refl refl False _ q1(1) q1(2) l 1(4)] \<open>\<not> fq_more q\<close> by blast
    then show ?thesis using fq_deactivate_turn[OF 1(2) act q1(1), of p] by auto
  qed
qed


lemma fq_deactivate_inv: "fq_inv q \<Longrightarrow> fq_active q > 0 \<Longrightarrow> fq_deactivate (fq_current q) q = Some q' \<Longrightarrow> fq_inv q'"
  using fq_deactivate_ok[of q "fq_current q"] by (auto simp: fq_inv_def split: if_splits)

lemma fq_fetched_inv: "fq_inv q \<Longrightarrow> fq_active q > 0 \<Longrightarrow> fq_inv (fq_fetched r mo q)"
  by (auto simp: fq_inv_def fq_fetched_def Let_def)

lemma fq_recv_loop_inv:
  "fq_inv q \<Longrightarrow> fq_recv_loop m q w = Some (r, m', q', w') \<Longrightarrow> fq_inv q'"
proof (induction m q w rule: fq_recv_loop.induct)
  case (1 m q w)
  show ?case
  proof (cases "fq_active q > 0")
    case True
    then show ?thesis using 1 fq_fetched_inv fq_deactivate_inv
      by (subst (asm) fq_recv_loop.simps) (auto split: option.splits if_splits)
  next
    case False
    then show ?thesis using 1(2,3) by (subst (asm) fq_recv_loop.simps) simp
  qed
qed

lemma fq_activated_ok:
  assumes "fq_inv q" "p \<in> fq_all q - fq_active_set q"
  shows "\<exists>q'. fq_activated p q = Some q' \<and> fq_inv q' \<and> fq_active q' = fq_active q + 1 \<and> fq_current q' = fq_current q \<and>
    fq_more q' = fq_more q \<and> (\<forall>i < fq_active q. items (fq_pipes q') ! i = items (fq_pipes q) ! i)"
proof -
  let ?i = "array_index_of (fq_pipes q) p"
  have wf: "array_wf (fq_pipes q)" using assms(1) by (simp add: fq_inv_def)
  note ix = array_index_of_mem[OF wf, of p]
  have i: "?i < length (items (fq_pipes q))" "items (fq_pipes q) ! ?i = p" using ix assms(2) by auto
  have ge: "fq_active q \<le> ?i" using assms(2) i by (force simp: fq_active_set_def in_set_conv_nth not_less[symmetric])
  obtain a where a: "array_swap (fq_pipes q) ?i (fq_active q) = Some a" "array_wf a" "items a = list_swap (items (fq_pipes q)) ?i (fq_active q)"
    by (rule array_swap_ex[OF wf i(1), of "fq_active q"]) (use i ge in auto)
  have "\<forall>k < fq_active q. items a ! k = items (fq_pipes q) ! k"
    using i(1) ge by (auto simp: a(3) list_swap_nth)
  then show ?thesis using a assms(1) i ge by (auto simp: fq_activated_def fq_inv_def split: if_splits)
qed

text \<open>What happens to a queue while pipe \<open>p\<close> waits: complete messages (\<open>n\<close> of them) and parts are
  received from other pipes, in whatever world, and \<open>k\<close> other pipes become active; \<open>p\<close> stays active.\<close>

inductive fq_waits :: "nat \<Rightarrow> fq_t \<Rightarrow> nat \<Rightarrow> nat \<Rightarrow> fq_t \<Rightarrow> bool" for p q where
  fq_start: "fq_waits p q 0 0 q"
| fq_other: "fq_waits p q n k q1 \<Longrightarrow> fq_recvpipe m q1 (w :: world) = Some (Rc_ok, Some r, m', q2, w') \<Longrightarrow> r \<noteq> p \<Longrightarrow>
    p \<in> fq_active_set q2 \<Longrightarrow> fq_waits p q (n + (if has_flag m' flag_more then 0 else 1)) k q2"
| fq_new_active: "fq_waits p q n k q1 \<Longrightarrow> s \<in> fq_all q1 - fq_active_set q1 \<Longrightarrow> fq_activated s q1 = Some q2 \<Longrightarrow>
    fq_waits p q n (k + 1) q2"

lemma fq_recvpipe_loop:
  "fq_recvpipe m q w = Some (Rc_ok, Some r, m', q', w') \<Longrightarrow> \<exists>m1 w1. fq_recv_loop m1 q w1 = Some (Some r, m', q', w')"
  by (auto simp: fq_recvpipe_def opt_simps split: option.splits)

lemma fq_waits_bound:
  assumes "fq_waits p q n k q'" "fq_inv q" "p \<in> fq_active_set q"
  shows "fq_inv q' \<and> p \<in> fq_active_set q' \<and> n + fq_turn p q' \<le> fq_turn p q + k"
  using assms(1)
proof induction
  case fq_start
  then show ?case using assms by simp
next
  case (fq_other n k q1 m w r m' q2 w')
  obtain m1 w1 where l: "fq_recv_loop m1 q1 w1 = Some (Some r, m', q2, w')" using fq_recvpipe_loop[OF fq_other(2)] by blast
  have "fq_inv q2" using fq_recv_loop_inv[OF _ l] fq_other.IH by blast
  moreover have "fq_turn p q2 + (if has_flag m' flag_more then 0 else 1) \<le> fq_turn p q1"
    using fq_recv_turn[OF _ l fq_other(4)] fq_other.IH fq_other(3) by blast
  ultimately show ?case using fq_other.IH fq_other(4) by auto
next
  case (fq_new_active n k q1 s q2)
  have q2: "fq_inv q2" "fq_active q2 = fq_active q1 + 1" "fq_current q2 = fq_current q1"
    "\<forall>i < fq_active q1. items (fq_pipes q2) ! i = items (fq_pipes q1) ! i"
    using fq_activated_ok[of q1 s] fq_new_active by auto
  obtain i where i: "i < fq_active q1" "items (fq_pipes q1) ! i = p" "array_index_of (fq_pipes q1) p = i"
    using fq_active_index[of q1 p] fq_new_active.IH by metis
  have l: "fq_active q2 \<le> length (items (fq_pipes q2))" "array_wf (fq_pipes q2)" using q2(1) by (auto simp: fq_inv_def)
  have p2: "items (fq_pipes q2) ! i = p" "i < length (items (fq_pipes q2))" using q2(2,4) i l by auto
  then have "array_index_of (fq_pipes q2) p = i" using array_index_of_nth[OF l(2) p2(2)] by simp
  then have "fq_turn p q2 \<le> fq_turn p q1 + 1" using i(3) q2(2,3) by (auto simp: fq_turn_def)
  moreover have "p \<in> fq_active_set q2" using p2 i(1) q2(2) by (auto simp: fq_active_set_def in_set_conv_nth)
  ultimately show ?case using q2(1) fq_new_active.IH by auto
qed


text \<open>Receiving on live connections between messages.\<close>

context linked_pipes
begin

lemma fq_recv_loop_ok:
  "fq_inv q \<Longrightarrow> fq_all q \<subseteq> P \<Longrightarrow> inv w E \<Longrightarrow> \<not> fq_more q \<Longrightarrow>
    \<exists>r m' q' w'. fq_recv_loop m q w = Some (r, m', q', w') \<and> fq_inv q' \<and> fq_all q' = fq_all q \<and>
      inv w' (if r = None then E else add_mset m' E) \<and> (r \<noteq> None \<longrightarrow> sendable m') \<and>
      fq_more q' = (r \<noteq> None \<and> has_flag m' flag_more) \<and> (r = None \<longrightarrow> fq_active q' = 0)"
proof (induction m q w rule: fq_recv_loop.induct)
  case (1 m q w)
  show ?case
  proof (cases "fq_active q > 0")
    case False
    then show ?thesis using 1(2-5) by (subst fq_recv_loop.simps) simp
  next
    case act: True
    let ?s = "items (fq_pipes q) ! fq_current q"
    have c: "fq_current q < fq_active q" "fq_active q \<le> length (items (fq_pipes q))"
      using 1(2) act by (auto simp: fq_inv_def)
    have g: "array_get (fq_pipes q) (fq_current q) = Some ?s" using c by simp
    have sP: "?s \<in> P" using c 1(3) by (meson nth_mem order_less_le_trans subsetD)
    obtain ok m1 w1 where rd: "pipe_read ?s m w = Some (ok, m1, w1)" "ok \<longrightarrow> sendable m1" "inv w1 (if ok then add_mset m1 E else E)"
      using inv_read[OF 1(4) sP, of m] by blast
    show ?thesis
    proof (cases ok)
      case True
      have "fq_recv_loop m q w = Some (Some ?s, m1, fq_fetched ?s (has_flag m1 flag_more) q, w1)"
        using act g rd(1) True by (subst fq_recv_loop.simps) simp
      moreover have "fq_all (fq_fetched ?s (has_flag m1 flag_more) q) = fq_all q"
        "fq_more (fq_fetched ?s (has_flag m1 flag_more) q) = has_flag m1 flag_more" by (simp_all add: fq_fetched_def Let_def)
      ultimately show ?thesis using rd(2,3) True fq_fetched_inv[OF 1(2) act] by auto
    next
      case False
      obtain q1 where q1: "fq_deactivate (fq_current q) q = Some q1" "fq_inv q1" "fq_more q1 = fq_more q"
        "items (fq_pipes q1) = list_swap (items (fq_pipes q)) (fq_current q) (fq_active q - 1)"
        using fq_deactivate_ok[OF 1(2) c(1)] by blast
      have all: "fq_all q1 = fq_all q" using q1(4) c by simp
      have l: "fq_recv_loop m q w = fq_recv_loop m1 q1 w1"
        using act g rd(1) False q1(1) 1(5) by (subst fq_recv_loop.simps) simp
      show ?thesis unfolding l all[symmetric]
        by (rule 1(1)[OF act g rd(1) refl refl False 1(5) q1(1) q1(2)]) (use all 1(3,5) rd(3) False q1(3) in simp_all)
    qed
  qed
qed

end

text \<open>C18. Between messages, receiving over live connections never fails an assertion: it either returns
  a part that the caller now owns, from a pipe of the queue, and remembers whether more parts follow,
  or reports \<open>EAGAIN\<close> with an empty message when no pipe is left active.\<close>

theorem fq_receives:
  fixes w :: "'z world_scheme"
  assumes "fq_inv q" "fq_all q \<subseteq> fst ` L" "\<not> fq_more q" "sendable m" "links_inv L w (add_mset m E)"
  shows "\<exists>rc r m' q' w'. fq_recvpipe m q w = Some (rc, r, m', q', w') \<and> fq_inv q' \<and> fq_all q' = fq_all q \<and>
    (if rc = Rc_ok then r \<noteq> None \<and> sendable m' \<and> links_inv L w' (add_mset m' E) \<and> fq_more q' = has_flag m' flag_more
     else rc = Rc_err EAGAIN \<and> msg_body m' w' = Some [] \<and> links_inv L w' E \<and> fq_active q' = 0 \<and> \<not> fq_more q')"
proof -
  obtain m1 w1 where c: "msg_close m w = Some (Rc_ok, m1, w1)" "links_inv L w1 E"
    using lk.inv_close[OF assms(5,4)] by blast
  obtain r m' q' w' where l: "fq_recv_loop m1 q w1 = Some (r, m', q', w')" "fq_inv q'" "fq_all q' = fq_all q"
    "links_inv L w' (if r = None then E else add_mset m' E)" "r \<noteq> None \<longrightarrow> sendable m'"
    "fq_more q' = (r \<noteq> None \<and> has_flag m' flag_more)" "r = None \<longrightarrow> fq_active q' = 0"
    using lk.fq_recv_loop_ok[OF assms(1,2) c(2) assms(3), of m1] by blast
  have "msg_body (msg_init m') w' = Some []" by (simp add: msg_body_def msg_init_def msg_init_base_def)
  then show ?thesis using c(1) l by (cases r) (simp_all add: fq_recvpipe_def)
qed


subsection \<open>Concrete queues\<close>

text \<open>Both ends of the connection \<open>pair_1\<close>, on which end 1 has written and flushed a message.\<close>

definition fq_both :: fq_t where
  "fq_both = the (do { q \<leftarrow> fq_attach 0 fq_new; fq_attach 1 q })"

lemma fq_both_ok: "fq_inv fq_both" "fq_active fq_both = 2" "fq_all fq_both = {0, 1}" "1 \<in> fq_active_set fq_both"
  "fq_all fq_both = fq_active_set fq_both"
proof -
  obtain q1 where q1: "fq_attach 0 fq_new = Some q1" "fq_inv q1" "fq_all q1 = {0}"
    using fq_attach_ok[OF fq_new_inv, of 0] by (auto simp: fq_new_def)
  obtain q2 where "fq_attach 1 q1 = Some q2" "fq_inv q2" using fq_attach_ok[OF q1(2), of 1] q1(3) by auto
  then show "fq_inv fq_both" using q1 by (simp add: fq_both_def)
  show "fq_active fq_both = 2" unfolding fq_both_def by code_simp
  have "items (fq_pipes fq_both) = [0, 1]" unfolding fq_both_def by code_simp
  then show "fq_all fq_both = {0, 1}" "1 \<in> fq_active_set fq_both" "fq_all fq_both = fq_active_set fq_both"
    using \<open>fq_active fq_both = 2\<close> by (auto simp: fq_active_set_def)
qed


definition fq_one :: fq_t where
  "fq_one = the (fq_attach 0 fq_new)"

lemma fq_one_ok: "fq_inv fq_one" "fq_all fq_one = {0}" "\<not> fq_more fq_one"
proof -
  have n: "fq_all fq_new = {}" "\<not> fq_more fq_new" by (simp_all add: fq_new_def)
  obtain q1 where q1: "fq_attach 0 fq_new = Some q1" "fq_inv q1" "fq_all q1 = {0}" "fq_more q1 = fq_more fq_new"
    using fq_attach_ok[OF fq_new_inv, of 0] unfolding n(1) by (metis empty_iff)
  then have "fq_one = q1" by (simp add: fq_one_def)
  then show "fq_inv fq_one" "fq_all fq_one = {0}" "\<not> fq_more fq_one" using q1 n by simp_all
qed

theorem fq_receives_witness:
  "\<exists>rc r m' q' w'. fq_recvpipe hello fq_one pair_0 = Some (rc, r, m', q', w') \<and> fq_inv q' \<and> fq_all q' = {0}"
proof -
  have "sendable hello" "plain {#hello#}" by code_simp+
  moreover from this(2) have "links_inv {(0, 1)} pair_0 (add_mset hello {#})"
    using lk.inv_plain[of "{#hello#}" "{(0, 1)}" pair_0 "{#}"] pair_0_links by simp
  moreover have "fq_all fq_one \<subseteq> fst ` {(0 :: nat, 1 :: nat)}" using fq_one_ok(2) by simp
  ultimately have "\<exists>rc r m' q' w'. fq_recvpipe hello fq_one pair_0 = Some (rc, r, m', q', w') \<and> fq_inv q' \<and> fq_all q' = fq_all fq_one \<and>
    (if rc = Rc_ok then r \<noteq> None \<and> sendable m' \<and> links_inv {(0, 1)} w' (add_mset m' {#}) \<and> fq_more q' = has_flag m' flag_more
     else rc = Rc_err EAGAIN \<and> msg_body m' w' = Some [] \<and> links_inv {(0, 1)} w' {#} \<and> fq_active q' = 0 \<and> \<not> fq_more q')"
    by (intro fq_receives[OF fq_one_ok(1) _ fq_one_ok(3)])
  then show ?thesis unfolding fq_one_ok(2) by blast
qed

text \<open>End 1 writes a message of two parts, the queue over end 0 receives the first one, and the owner of
  end 0 terminates the pipe (as \<open>zmq_disconnect\<close> does); the result of receiving the second part, and
  for comparison the result without the termination.\<close>

definition two_parts_run :: "bool \<Rightarrow> (bool \<times> rc option) option" where
  "two_parts_run disconnect =
     (let m = msg_set_flags flag_more hello
      in do {
        (w, _) \<leftarrow> pair_run [(1, Do_write m), (1, Do_write hello), (1, Do_flush)] pair_0 {#m, hello#};
        (_, _, m, q, w) \<leftarrow> fq_recvpipe (msg_init msg_raw) fq_one w;
        w \<leftarrow> (if disconnect then pipe_terminate False 0 w else Some w);
        Some (fq_more q, map_option fst (fq_recvpipe m q w))
      })"


end
