(* ===== verification/Zmq_Whole.thy ===== *)
theory Zmq_Whole
  imports Zmq_Fq
begin

text \<open>
  Receiving whole messages.  A pipe makes the parts of a message visible together, so a reader that got
  a part with the \<open>more\<close> flag finds the next one without waiting.  \<open>whole\<close> says that every inbound pipe
  of a socket is cut at the end of a message, except the one being read; reading keeps it and makes
  the number of parts left smaller, so that the loops that read until something happens come to an end.
\<close>

text \<open>\<open>framed mid ms\<close>: the parts continue a message (if \<open>mid\<close>) and end with the end of a message.
  Credentials and delimiters stand between messages, and every part but a delimiter has a body.\<close>

fun framed :: "bool \<Rightarrow> msg_t list \<Rightarrow> bool" where
  "framed mid [] = (\<not> mid)"
| "framed mid (m # ms) =
     ((is_credential m \<or> is_delimiter m \<longrightarrow> \<not> mid \<and> \<not> has_flag m flag_more) \<and> (has_body m \<or> is_delimiter m) \<and>
      framed (has_flag m flag_more) ms)"

text \<open>A part that belongs to a message.\<close>

definition data_part :: "msg_t \<Rightarrow> bool" where
  "data_part m \<longleftrightarrow> has_body m \<and> \<not> is_credential m \<and> \<not> is_delimiter m"

text \<open>\<open>unread mid n u\<close>: \<open>n\<close> parts can be read; the parts completed but not flushed are whole messages too, and
  what is written of the next one are parts of a message.\<close>

definition unread :: "bool \<Rightarrow> nat \<Rightarrow> upipe \<Rightarrow> bool" where
  "unread mid n u \<longleftrightarrow> (\<exists>q s. u = Upipe_normal q \<and> normal_owned q s \<and> framed mid (flushed s) \<and> n = length (flushed s) \<and>
     framed False (complete s) \<and> (\<forall>m \<in> set (incomplete s). data_part m))"

lemma framed_append: "framed mid xs \<Longrightarrow> framed False ys \<Longrightarrow> framed mid (xs @ ys)"
  by (induction xs arbitrary: mid) auto

lemma framed_message:
  "\<forall>m \<in> set ms. data_part m \<and> has_flag m flag_more \<Longrightarrow> data_part m \<Longrightarrow> \<not> has_flag m flag_more \<Longrightarrow> framed mid (ms @ [m])"
  by (induction ms arbitrary: mid) (auto simp: data_part_def)

lemma unread_read:
  assumes "unread mid n u" "upipe_read u = Some (r, u')"
  shows "case r of
      None \<Rightarrow> \<not> mid \<and> unread False n u'
    | Some m \<Rightarrow> 0 < n \<and> unread (has_flag m flag_more) (n - 1) u' \<and>
        (is_credential m \<or> is_delimiter m \<longrightarrow> \<not> mid \<and> \<not> has_flag m flag_more) \<and> (has_body m \<or> is_delimiter m)"
proof -
  obtain q s where u: "u = Upipe_normal q" and s: "normal_owned q s" "framed mid (flushed s)" "n = length (flushed s)"
    "framed False (complete s)" "\<forall>m \<in> set (incomplete s). data_part m"
    using assms(1) by (auto simp: unread_def)
  obtain q' where q': "ypipe_read message_pipe_granularity q = Some (fst (apipe_read s), q')"
    "ypipe_repr message_pipe_granularity q' (snd (apipe_read s))"
    using ypipe_read_repr s(1) unfolding normal_owned_def by blast
  have o: "normal_owned q' (snd (apipe_read s))"
    using q'(2) s(1) by (auto simp: normal_owned_def apipe_read_def split: list.splits)
  have "r = fst (apipe_read s)" "u' = Upipe_normal q'" using assms(2) q'(1) u by auto
  then show ?thesis using s o by (cases "flushed s") (auto simp: apipe_read_def unread_def)
qed

lemma unread_write:
  assumes "unread mid n u" "upipe_write u m (has_flag m flag_more) st = Some (u', m', st')" "sendable m" "data_part m"
  shows "unread mid n u'"
proof -
  obtain q s where u: "u = Upipe_normal q" and s: "normal_owned q s" "framed mid (flushed s)" "n = length (flushed s)"
    "framed False (complete s)" "\<forall>m \<in> set (incomplete s). data_part m"
    using assms(1) by (auto simp: unread_def)
  have r: "ypipe_repr message_pipe_granularity q s" using s(1) by (simp add: normal_owned_def)
  obtain q' where q': "ypipe_write message_pipe_granularity q m (has_flag m flag_more) = Some q'"
    "ypipe_repr message_pipe_granularity q' (apipe_write s m (has_flag m flag_more))" using ypipe_write_repr[OF r] by blast
  have u': "u' = Upipe_normal q'" using assms(2) u q'(1) by simp
  have o: "normal_owned q' (apipe_write s m (has_flag m flag_more))"
    using q'(2) s(1) assms(3) by (auto simp: normal_owned_def apipe_write_def)
  have "\<forall>m \<in> set (incomplete s). data_part m \<and> has_flag m flag_more" using s(1,5) by (simp add: normal_owned_def)
  then have "framed False (complete s @ incomplete s @ [m])" if "\<not> has_flag m flag_more"
    using framed_append[OF s(4)] framed_message assms(4) that by blast
  then show ?thesis unfolding unread_def u' using o s assms(4)
    by (intro exI[of _ q'] exI[of _ "apipe_write s m (has_flag m flag_more)"]) (auto simp: apipe_write_def)
qed

lemma unread_flush:
  assumes "unread mid n u"
  obtains n' where "unread mid n' (snd (upipe_flush u))" "n \<le> n'"
proof -
  obtain q s where u: "u = Upipe_normal q" and s: "normal_owned q s" "framed mid (flushed s)" "n = length (flushed s)"
    "framed False (complete s)" "\<forall>m \<in> set (incomplete s). data_part m"
    using assms by (auto simp: unread_def)
  have r: "ypipe_repr message_pipe_granularity q s" using s(1) by (simp add: normal_owned_def)
  obtain q' where q': "ypipe_flush q = (fst (apipe_flush s), q')" "ypipe_repr message_pipe_granularity q' (snd (apipe_flush s))"
    using ypipe_flush_repr[OF r] by blast
  have "normal_owned q' (snd (apipe_flush s))" using q'(2) s(1) by (auto simp: normal_owned_def apipe_flush_def)
  then have "unread mid (length (flushed (snd (apipe_flush s)))) (Upipe_normal q')"
    unfolding unread_def using s framed_append[OF s(2,4)]
    by (intro exI[of _ q'] exI[of _ "snd (apipe_flush s)"]) (auto simp: apipe_flush_def)
  then show thesis using that[of "length (flushed (snd (apipe_flush s)))"] q'(1) u s(3) by (simp add: apipe_flush_def)
qed

lemma unread_new:
  assumes "upipe_new False = Some u"
  shows "unread False 0 u"
proof -
  obtain q :: "msg_t ypipe" where q: "ypipe_new message_pipe_granularity = Some q"
    "ypipe_repr message_pipe_granularity q apipe_new"
    using ypipe_new_repr[of message_pipe_granularity] by (auto simp: message_pipe_granularity_def)
  then have "normal_owned q apipe_new" by (simp add: normal_owned_def apipe_new_def)
  moreover have "u = Upipe_normal q" using assms q(1) by (simp add: upipe_new_def)
  ultimately show ?thesis by (auto simp: unread_def apipe_new_def)
qed

lemma read_message_whole:
  "unread mid n u \<Longrightarrow> pipe_read_message p k m w = Some (ok, m', w') \<Longrightarrow> pipes w p = Some x \<Longrightarrow> upipes w k = Some u \<Longrightarrow>
   \<exists>n' u' x'. (\<forall>j. j \<noteq> k \<longrightarrow> upipes w' j = upipes w j) \<and> upipes w' k = Some u' \<and>
     unread (ok \<and> has_flag m' flag_more) n' u' \<and> n' \<le> n \<and> (ok \<longrightarrow> n' < n) \<and> (mid \<longrightarrow> ok) \<and>
     (ok \<and> is_delimiter m' \<longrightarrow> \<not> mid \<and> \<not> has_flag m' flag_more) \<and> (ok \<longrightarrow> has_body m' \<or> is_delimiter m') \<and>
     pipes w' p = Some x' \<and> inpipe x' = inpipe x \<and> state x' = state x \<and> (ok \<longrightarrow> in_active x' = in_active x)"
proof (induction n arbitrary: mid m w u x rule: less_induct)
  case (less n)
  obtain r u1 where r: "upipe_read u = Some (r, u1)"
    using less.prems by (subst (asm) pipe_read_message.simps) (auto simp: opt_simps)
  note law = unread_read[OF less.prems(1) r]
  show ?case
  proof (cases r)
    case None
    then show ?thesis using law less.prems r by (subst (asm) pipe_read_message.simps) (auto simp: put_pipe_def put_upipe_def)
  next
    case (Some m1)
    show ?thesis
    proof (cases "is_credential m1")
      case False
      then have "ok" "m' = m1" "w' = put_upipe k u1 w"
        using Some less.prems(2-4) r by (auto simp: pipe_read_message.simps[of p k m w] opt_simps)
      then show ?thesis using law Some less.prems(3) by (intro exI[of _ "n - 1"]) (auto simp: put_upipe_def)
    next
      case True
      let ?w = "\<lambda>d. put_pipe p (x\<lparr>credential := d\<rparr>) (put_upipe k u1 w)"
      obtain d m2 w2 where c: "msg_close m1 (?w d) = Some (Rc_ok, m2, w2)" "pipe_read_message p k m2 w2 = Some (ok, m', w')"
        using Some True less.prems(2-4) r by (subst (asm) pipe_read_message.simps) (auto simp: opt_simps)
      note mo = world_more[OF msg_close_more[OF c(1)]]
      have w2: "pipes w2 p = Some (x\<lparr>credential := d\<rparr>)" "upipes w2 k = Some u1" "\<And>j. j \<noteq> k \<Longrightarrow> upipes w2 j = upipes w j"
        unfolding mo by (simp_all add: put_pipe_def put_upipe_def)
      have l: "0 < n" "\<not> mid" "unread False (n - 1) u1" using law Some True by auto
      have "n - 1 < n" using l(1) by simp
      from less.IH[OF this l(3) c(2) w2(1,2)] obtain n' u' x' where
        "\<forall>j. j \<noteq> k \<longrightarrow> upipes w' j = upipes w2 j" "upipes w' k = Some u'" "unread (ok \<and> has_flag m' flag_more) n' u'"
        "n' \<le> n - 1" "ok \<longrightarrow> n' < n - 1" "ok \<and> is_delimiter m' \<longrightarrow> \<not> has_flag m' flag_more" "ok \<longrightarrow> has_body m' \<or> is_delimiter m'" "pipes w' p = Some x'"
        "inpipe x' = inpipe x" "state x' = state x" "ok \<longrightarrow> in_active x' = in_active x" by auto
      then show ?thesis using w2(3) l(1,2) by (intro exI[of _ n'] exI[of _ u'] exI[of _ x']) auto
    qed
  qed
qed

text \<open>What a reader finds in its pipe: \<open>n\<close> parts, cut at the end of a message.  In the middle of a message the
  pipe is still open for reading.\<close>

definition waits :: "bool \<Rightarrow> nat \<Rightarrow> nat \<Rightarrow> 'z world_scheme \<Rightarrow> bool" where
  "waits mid p n w \<longleftrightarrow> (\<exists>x k u. pipes w p = Some x \<and> inpipe x = Some k \<and> upipes w k = Some u \<and> unread mid n u \<and>
     (mid \<longrightarrow> in_active x \<and> (state x = Active \<or> state x = Waiting_for_delimiter)))"

definition inpipe_of :: "'z world_scheme \<Rightarrow> nat \<Rightarrow> nat option" where
  "inpipe_of w p = Option.bind (pipes w p) inpipe"

lemma process_delimiter_upipes:
  "process_delimiter p w = Some w' \<Longrightarrow> pipes w p = Some x \<Longrightarrow>
   upipes w' = upipes w \<and> (\<exists>x'. pipes w' p = Some x' \<and> inpipe x' = inpipe x)"
  by (auto simp: process_delimiter_def send_pipe_term_ack_def send_to_def put_pipe_def opt_simps split: if_splits)

lemma read_whole:
  assumes "waits mid p n w" "pipe_read p m w = Some (r, m', w')"
  shows "\<exists>n'. waits (r \<and> has_flag m' flag_more) p n' w' \<and> n' \<le> n \<and> (r \<longrightarrow> n' < n \<and> has_body m') \<and> (mid \<longrightarrow> r) \<and>
    inpipe_of w' p = inpipe_of w p \<and> (\<forall>j. inpipe_of w p \<noteq> Some j \<longrightarrow> upipes w' j = upipes w j)"
proof -
  obtain x k u where x: "pipes w p = Some x" "inpipe x = Some k" "upipes w k = Some u" "unread mid n u"
    "mid \<longrightarrow> in_active x \<and> (state x = Active \<or> state x = Waiting_for_delimiter)" using assms(1) by (auto simp: waits_def)
  have ip: "inpipe_of w p = Some k" using x by (simp add: inpipe_of_def)
  show ?thesis
  proof (cases "in_active x \<and> (state x = Active \<or> state x = Waiting_for_delimiter)")
    case False
    then have "w' = w" "\<not> r" "\<not> mid" using assms(2) x by (auto simp: pipe_read_def split: if_splits)
    then show ?thesis using assms(1) by auto
  next
    case True
    obtain ok m1 w1 where m1: "pipe_read_message p k m w = Some (ok, m1, w1)" using assms(2) True x by (auto simp: pipe_read_def opt_simps)
    from read_message_whole[OF x(4) m1 x(1,3)] obtain n' u' x1 where l:
      "\<forall>j. j \<noteq> k \<longrightarrow> upipes w1 j = upipes w j" "upipes w1 k = Some u'" "unread (ok \<and> has_flag m1 flag_more) n' u'"
      "n' \<le> n" "ok \<longrightarrow> n' < n" "mid \<longrightarrow> ok" "ok \<and> is_delimiter m1 \<longrightarrow> \<not> mid \<and> \<not> has_flag m1 flag_more"
      "ok \<longrightarrow> has_body m1 \<or> is_delimiter m1" "pipes w1 p = Some x1" "inpipe x1 = inpipe x" "state x1 = state x" "ok \<longrightarrow> in_active x1 = in_active x" by blast
    consider (no) "\<not> ok" "\<not> r" "w' = w1" | (del) "ok" "is_delimiter m1" "\<not> r" "process_delimiter p w1 = Some w'"
      | (yes) "ok" "\<not> is_delimiter m1" "r" "m' = m1" "upipes w' = upipes w1" "pipes w' p = Some (count_read m1 x1)"
      using assms(2) True x m1 l(9)
      by (auto simp: pipe_read_def send_activate_write_def send_to_def put_pipe_def opt_simps split: if_splits)
    then show ?thesis
    proof cases
      case no
      then show ?thesis using l ip x(2) by (intro exI[of _ n']) (auto simp: waits_def inpipe_of_def)
    next
      case del
      note pd = process_delimiter_upipes[OF del(4) l(9)]
      then show ?thesis using l ip x(2) del by (intro exI[of _ n']) (auto simp: waits_def inpipe_of_def)
    next
      case yes
      then show ?thesis using l ip x(2) True by (intro exI[of _ n']) (auto simp: waits_def inpipe_of_def count_read_def)
    qed
  qed
qed

text \<open>Writers keep the reader's view: whatever pipe is written or flushed, the parts that wait are cut as
  before.\<close>

lemma write_waits:
  assumes "waits mid p n w" "pipe_write q m w = Some (r, m', w')" "sendable m" "data_part m"
  shows "waits mid p n w'"
proof -
  obtain x k u where x: "pipes w p = Some x" "inpipe x = Some k" "upipes w k = Some u" "unread mid n u"
    "mid \<longrightarrow> in_active x \<and> (state x = Active \<or> state x = Waiting_for_delimiter)" using assms(1) by (auto simp: waits_def)
  obtain y where y: "pipes w q = Some y" using assms(2) by (auto simp: pipe_write_def pipe_check_write_def opt_simps)
  consider (full) y' where "w' = put_pipe q y' w \<or> w' = w" "inpipe y' = inpipe y" "in_active y' = in_active y" "state y' = state y"
    | (sent) j v v' w1 y' where "upipes w j = Some v" "upipe_write v m (has_flag m flag_more) w = Some (v', m', w1)"
      "w' = put_pipe q y' (put_upipe j v' w1)" "inpipe y' = inpipe y" "in_active y' = in_active y" "state y' = state y"
  proof (cases "pipe_check_write q w")
    case (Some z)
    obtain ok w0 where z: "z = (ok, w0)" by (cases z)
    show thesis
    proof (cases ok)
      case False
      then show thesis using full[of "y\<lparr>out_active := False\<rparr>"] Some z assms(2) y
        by (auto simp: pipe_write_def pipe_check_write_def split: if_splits)
    next
      case True
      then have "w0 = w" using Some z y by (auto simp: pipe_check_write_def split: if_splits)
      then obtain j v v' w1 where "upipes w j = Some v" "upipe_write v m (has_flag m flag_more) w = Some (v', m', w1)"
        "w' = put_pipe q (if \<not> has_flag m flag_more \<and> \<not> is_routing_id m then y\<lparr>msgs_written := msgs_written y + 1\<rparr> else y) (put_upipe j v' w1)"
        using assms(2) Some z True y by (auto simp: pipe_write_def opt_simps)
      then show thesis by (rule sent) auto
    qed
  qed (use assms(2) in \<open>simp add: pipe_write_def\<close>)
  then show ?thesis
  proof cases
    case full
    then show ?thesis using x y by (cases "q = p") (auto simp: waits_def put_pipe_def)
  next
    case sent
    note mo = world_more[OF upipe_write_more[OF sent(2)]]
    have "unread mid n v'" if "j = k" using unread_write[OF _ sent(2) assms(3,4)] x(3,4) sent(1) that by simp
    moreover have new: "pipes w' = (pipes w)(q \<mapsto> y')" "upipes w' = (upipes w)(j \<mapsto> v')"
      using sent(3) mo by (simp_all add: put_pipe_def put_upipe_def)
    ultimately have "\<exists>u'. upipes w' k = Some u' \<and> unread mid n u'" using x(3,4) by (cases "j = k") auto
    moreover have "\<exists>x'. pipes w' p = Some x' \<and> inpipe x' = inpipe x \<and> in_active x' = in_active x \<and> state x' = state x"
      using new(1) x(1) y sent(4-6) by (cases "q = p") auto
    ultimately show ?thesis using x(2,5) unfolding waits_def by metis
  qed
qed

lemma flush_waits:
  assumes "waits mid p n w" "pipe_flush q w = Some w'"
  obtains n' where "waits mid p n' w'" "n \<le> n'"
proof -
  obtain x k u where x: "pipes w p = Some x" "inpipe x = Some k" "upipes w k = Some u" "unread mid n u"
    "mid \<longrightarrow> in_active x \<and> (state x = Active \<or> state x = Waiting_for_delimiter)" using assms(1) by (auto simp: waits_def)
  consider "w' = w" | j v where "upipes w j = Some v" "pipes w' = pipes w" "upipes w' = (upipes w)(j \<mapsto> snd (upipe_flush v))"
  proof -
    obtain y where y: "pipes w q = Some y" using assms(2) by (auto simp: pipe_flush_def opt_simps)
    show thesis
    proof (cases "state y = Term_ack_sent \<or> outpipe y = None")
      case True
      then show thesis using that(1) y assms(2) by (auto simp: pipe_flush_def split: if_splits)
    next
      case False
      then obtain j where j: "outpipe y = Some j" by auto
      obtain v where v: "upipes w j = Some v" using assms(2) y False j by (auto simp: pipe_flush_def opt_simps simp del: upipe_flush.simps)
      obtain ok v' where f: "upipe_flush v = (ok, v')" by fastforce
      have "w' = put_upipe j v' w \<or> send_activate_read (peer y) (put_upipe j v' w) = Some w'"
        using assms(2) y False j v f by (simp add: pipe_flush_def del: upipe_flush.simps split: if_splits)
      then have "pipes w' = pipes w" "upipes w' = (upipes w)(j \<mapsto> v')"
        by (auto simp: send_activate_read_def send_to_def put_upipe_def opt_simps)
      then show thesis using that(2) v f by simp
    qed
  qed
  then show thesis
  proof cases
    case 2
    show thesis
    proof (cases "j = k")
      case True
      obtain n' where "unread mid n' (snd (upipe_flush u))" "n \<le> n'" by (rule unread_flush[OF x(4)])
      then show thesis using that[of n'] 2 x True by (auto simp: waits_def)
    qed (use that[of n] 2 x in \<open>auto simp: waits_def\<close>)
  qed (use that assms(1) in blast)
qed

text \<open>All the inbound pipes of a socket: \<open>cur\<close> is the one in the middle of a message, and \<open>N\<close> parts wait.\<close>

definition whole :: "nat set \<Rightarrow> nat option \<Rightarrow> nat \<Rightarrow> 'z world_scheme \<Rightarrow> bool" where
  "whole P cur N w \<longleftrightarrow> finite P \<and> inj_on (inpipe_of w) P \<and>
     (\<exists>f. (\<forall>p \<in> P. waits (cur = Some p) p (f p) w) \<and> N = sum f P)"

lemma whole_frame:
  assumes "whole P cur N w" "pipes w' = pipes w" "upipes w' = upipes w"
  shows "whole P cur N w'"
proof -
  have "inpipe_of w' = inpipe_of w" using assms(2) by (auto simp: inpipe_of_def)
  then show ?thesis using assms by (simp add: whole_def waits_def)
qed

lemma whole_read:
  assumes "whole P cur N w" "p \<in> P" "cur = None \<or> cur = Some p" "pipe_read p m w = Some (r, m', w')"
    "\<And>c. c \<noteq> p \<Longrightarrow> pipes w' c = pipes w c"
  obtains N' where "whole P (if r \<and> has_flag m' flag_more then Some p else None) N' w'" "N' \<le> N" "r \<Longrightarrow> N' < N \<and> has_body m'"
    "cur = Some p \<Longrightarrow> r"
proof -
  obtain f where f: "finite P" "inj_on (inpipe_of w) P" "\<forall>p \<in> P. waits (cur = Some p) p (f p) w" "N = sum f P"
    using assms(1) by (auto simp: whole_def)
  obtain n' where n': "waits (r \<and> has_flag m' flag_more) p n' w'" "n' \<le> f p" "r \<longrightarrow> n' < f p \<and> has_body m'" "cur = Some p \<longrightarrow> r"
    "inpipe_of w' p = inpipe_of w p" "\<forall>j. inpipe_of w p \<noteq> Some j \<longrightarrow> upipes w' j = upipes w j"
    using read_whole[OF bspec[OF f(3) assms(2)] assms(4)] by blast
  let ?cur = "if r \<and> has_flag m' flag_more then Some p else None"
  have io: "inpipe_of w' c = inpipe_of w c" for c using n'(5) assms(5) by (cases "c = p") (auto simp: inpipe_of_def)
  have other: "waits (?cur = Some c) c (f c) w'" if c: "c \<in> P" "c \<noteq> p" for c
  proof -
    have "waits False c (f c) w" using f(3) c assms(3) by auto
    then obtain x k u where x: "pipes w c = Some x" "inpipe x = Some k" "upipes w k = Some u" "unread False (f c) u"
      by (auto simp: waits_def)
    have "inpipe_of w c = Some k" using x by (simp add: inpipe_of_def)
    then have "inpipe_of w p \<noteq> Some k" using f(2) c assms(2) by (metis inj_onD)
    then show ?thesis using x assms(5) n'(6) c(2) by (auto simp: waits_def)
  qed
  let ?f = "f(p := n')"
  have sp: "sum ?f P = n' + sum f (P - {p})" "N = f p + sum f (P - {p})"
    using sum.remove[OF f(1) assms(2), of ?f] sum.remove[OF f(1) assms(2), of f] f(4) by simp_all
  have "\<forall>c \<in> P. waits (?cur = Some c) c (?f c) w'" using other n'(1) by auto
  moreover have "inj_on (inpipe_of w') P" using f(2) io by (simp add: inj_on_def)
  ultimately have "whole P ?cur (sum ?f P) w'" using f(1) unfolding whole_def by (intro conjI exI[of _ ?f]) simp_all
  then show thesis using that sp n'(2-4) by simp
qed

subsection \<open>The fair queue over whole messages\<close>

text \<open>The pipe being read, when the queue is in the middle of a message.\<close>

definition fq_reading :: "fq_t \<Rightarrow> nat option" where
  "fq_reading q = (if fq_more q then Some (items (fq_pipes q) ! fq_current q) else None)"

definition fq_whole :: "fq_t \<Rightarrow> nat \<Rightarrow> 'z world_scheme \<Rightarrow> bool" where
  "fq_whole q N w \<longleftrightarrow> fq_inv q \<and> (fq_more q \<longrightarrow> 0 < fq_active q) \<and> whole (fq_all q) (fq_reading q) N w"

lemma fq_fetched_reading:
  assumes "0 < fq_active q"
  shows "fq_reading (fq_fetched p mo q) = (if mo then Some (items (fq_pipes q) ! fq_current q) else None)"
    "fq_all (fq_fetched p mo q) = fq_all q" "fq_more (fq_fetched p mo q) = mo" "fq_active (fq_fetched p mo q) = fq_active q"
  by (simp_all add: fq_reading_def fq_fetched_def Let_def)

context linked_pipes
begin

lemma fq_recv_loop_whole:
  "fq_whole q N w \<Longrightarrow> fq_all q \<subseteq> P \<Longrightarrow> inv w E \<Longrightarrow>
    \<exists>r m' q' w' N'. fq_recv_loop m q w = Some (r, m', q', w') \<and> fq_whole q' N' w' \<and> N' \<le> N \<and> fq_all q' = fq_all q \<and>
      (case r of None \<Rightarrow> inv w' E \<and> \<not> fq_more q \<and> \<not> fq_more q'
       | Some p \<Rightarrow> inv w' (add_mset m' E) \<and> sendable m' \<and> fq_more q' = has_flag m' flag_more \<and> N' < N \<and> has_body m')"
proof (induction m q w arbitrary: N rule: fq_recv_loop.induct)
  case (1 m q w)
  note fw = 1(2)[unfolded fq_whole_def]
  show ?case
  proof (cases "fq_active q > 0")
    case False
    then show ?thesis using 1(2,4) by (subst fq_recv_loop.simps) (auto simp: fq_whole_def)
  next
    case act: True
    let ?s = "items (fq_pipes q) ! fq_current q"
    have c: "fq_current q < fq_active q" "fq_active q \<le> length (items (fq_pipes q))"
      using fw act by (auto simp: fq_inv_def)
    have g: "array_get (fq_pipes q) (fq_current q) = Some ?s" using c by simp
    have sq: "?s \<in> fq_all q" using c by simp
    then have "?s \<in> P" using 1(3) by blast
    then obtain r m1 w1 where rd: "pipe_read ?s m w = Some (r, m1, w1)" "r \<longrightarrow> sendable m1"
      "inv w1 (if r then add_mset m1 E else E)" "\<forall>c. c \<noteq> ?s \<longrightarrow> pipes w1 c = pipes w c"
      using inv_read[OF 1(4)] by blast
    have cur: "fq_reading q = None \<or> fq_reading q = Some ?s" by (simp add: fq_reading_def)
    obtain N1 where N1: "whole (fq_all q) (if r \<and> has_flag m1 flag_more then Some ?s else None) N1 w1" "N1 \<le> N" "r \<Longrightarrow> N1 < N \<and> has_body m1"
      "fq_reading q = Some ?s \<Longrightarrow> r"
      by (rule whole_read[OF conjunct2[OF conjunct2[OF fw]] sq cur rd(1)]) (use rd(4) in auto)
    show ?thesis
    proof (cases r)
      case True
      let ?q = "fq_fetched ?s (has_flag m1 flag_more) q"
      have "fq_recv_loop m q w = Some (Some ?s, m1, ?q, w1)" using act g rd(1) True by (subst fq_recv_loop.simps) simp
      moreover have "fq_whole ?q N1 w1"
        using fq_fetched_inv[of q ?s] fq_fetched_reading[OF act, of ?s] fw act N1(1) True by (simp add: fq_whole_def)
      ultimately show ?thesis using rd(2,3) True N1(2,3) fq_fetched_reading[OF act, of ?s] by auto
    next
      case False
      then have nm: "\<not> fq_more q" using N1(4) by (auto simp: fq_reading_def)
      obtain q1 where q1: "fq_deactivate (fq_current q) q = Some q1" "fq_inv q1" "fq_more q1 = fq_more q"
        "items (fq_pipes q1) = list_swap (items (fq_pipes q)) (fq_current q) (fq_active q - 1)"
        using fq_deactivate_ok[of q "fq_current q"] fw c(1) by blast
      have all: "fq_all q1 = fq_all q" using q1(4) c by simp
      have l: "fq_recv_loop m q w = fq_recv_loop m1 q1 w1"
        using act g rd(1) False q1(1) nm by (subst fq_recv_loop.simps) simp
      have fw1: "fq_whole q1 N1 w1" using N1(1) False q1(2,3) nm all by (simp add: fq_whole_def fq_reading_def)
      have P1: "fq_all q1 \<subseteq> P" "inv w1 E" using all 1(3) rd(3) False by simp_all
      from 1(1)[OF act g rd(1) refl refl False nm q1(1) fw1 P1]
      show ?thesis unfolding l all q1(3) using N1(2) by (auto split: option.splits)
    qed
  qed
qed

lemma fq_recv_whole:
  assumes "fq_whole q N w" "fq_all q \<subseteq> P" "sendable m" "inv w (add_mset m E)"
  shows "\<exists>rc m' q' w' N'. fq_recv m q w = Some (rc, m', q', w') \<and> fq_whole q' N' w' \<and> fq_all q' = fq_all q \<and> N' \<le> N \<and>
    sendable m' \<and> inv w' (add_mset m' E) \<and>
    (if rc = Rc_ok then fq_more q' = has_flag m' flag_more \<and> N' < N \<and> has_body m'
     else rc = Rc_err EAGAIN \<and> plain {#m'#} \<and> \<not> has_flag m' flag_more \<and> \<not> fq_more q \<and> \<not> fq_more q')"
proof -
  obtain m1 w1 where c: "msg_close m w = Some (Rc_ok, m1, w1)" "inv w1 E" "pipes w1 = pipes w"
    using inv_close[OF assms(4,3)] by blast
  have "upipes w1 = upipes w" using world_more[OF msg_close_more[OF c(1)]] by simp
  then have fw: "fq_whole q N w1" using assms(1) c(3) whole_frame[of _ _ _ w w1] by (auto simp: fq_whole_def)
  obtain r m' q' w' N' where l: "fq_recv_loop m1 q w1 = Some (r, m', q', w')" "fq_whole q' N' w'" "N' \<le> N" "fq_all q' = fq_all q"
    "case r of None \<Rightarrow> inv w' E \<and> \<not> fq_more q \<and> \<not> fq_more q'
       | Some p \<Rightarrow> inv w' (add_mset m' E) \<and> sendable m' \<and> fq_more q' = has_flag m' flag_more \<and> N' < N \<and> has_body m'"
    using fq_recv_loop_whole[OF fw assms(2) c(2), of m1] by blast
  have i: "plain {#msg_init m'#}" "sendable (msg_init m')" by simp_all
  have f: "\<not> has_flag (msg_init m') flag_more" by (simp add: has_flag_def msg_init_def msg_init_base_def)
  have "inv w' (add_mset (msg_init m') E) = inv w' E" using inv_plain[OF i(1), of w' E] by simp
  then show ?thesis using c(1) l i f by (cases r) (auto simp: fq_recv_def fq_recvpipe_def)
qed

end

subsection \<open>A connection with a message of two parts\<close>

text \<open>End 1 of \<open>pair_0\<close> writes two parts and flushes them.\<close>

definition pair_with :: "msg_t \<Rightarrow> msg_t \<Rightarrow> world" where
  "pair_with m1 m2 = the (do {
     (_, _, w) \<leftarrow> pipe_write 1 m1 pair_0;
     (_, _, w) \<leftarrow> pipe_write 1 m2 w;
     pipe_flush 1 w })"

definition first_part :: msg_t where
  "first_part = msg_set_flags flag_more hello"

abbreviation pair_two :: world where
  "pair_two \<equiv> pair_with first_part hello"

definition sends_normally :: "nat \<Rightarrow> world \<Rightarrow> bool" where
  "sends_normally a w = (case pipes w a of None \<Rightarrow> True | Some x \<Rightarrow> (case outpipe x of None \<Rightarrow> True
     | Some k \<Rightarrow> (case upipes w k of Some (Upipe_normal _) \<Rightarrow> True | _ \<Rightarrow> False)))"

lemma sends_normally: "sends_normally a w \<Longrightarrow> out_normal a w"
  by (auto simp: sends_normally_def out_normal_def split: option.splits upipe.splits)

lemma hello_parts: "sendable first_part" "sendable hello" "data_part first_part" "data_part hello"
  "plain {#first_part#}" "plain {#hello#}"
  unfolding first_part_def data_part_def by code_simp+

lemma pair_start_waits:
  assumes "pair_start hwms (False, False) = Some w"
  shows "waits False 0 0 w"
proof -
  have "\<exists>u x. upipe_new False = Some u \<and> upipes w 0 = Some u \<and> pipes w 0 = Some x \<and> inpipe x = Some 0"
    using assms by (auto simp: pair_start_def pipepair_def new_pipe_def pipe_new_def set_peer_def set_event_sink_def
        put_pipe_def new_upipe_def put_upipe_def world_new_def opt_simps)
  then show ?thesis using unread_new by (auto simp: waits_def)
qed

lemma pair_with_ok:
  assumes m1: "sendable m1" "data_part m1" "plain {#m1#}" and m2: "sendable m2" "data_part m2" "plain {#m2#}"
    and "sends_normally 0 (pair_with m1 m2)"
  obtains n where "links_inv {(0, 1)} (pair_with m1 m2) {#}" "waits False 0 n (pair_with m1 m2)"
proof -
  have n1: "out_normal 1 pair_0" by (rule sends_normally, unfold pair_0_def, code_simp)
  have n0: "out_normal 0 (pair_with m1 m2)" by (rule sends_normally[OF assms(7)])
  have e1: "pipes pair_0 1 \<noteq> None"
  proof -
    have "\<not> Option.is_none (pipes (the (pair_start (10, 10) (False, False))) 1)" by code_simp
    then show ?thesis by (simp add: pair_0_def Option.is_none_def)
  qed
  have i: "links_inv {(1, 0)} pair_0 {#}"
    using hs_inv_sym[OF pair_start_inv[OF pair_0_start]] n1 e1 by (simp add: links_inv_def separate_def hs_inv_def)
  have one: "\<exists>r w'. pipe_write 1 m w = Some (r, m, w') \<and> links_inv {(1, 0)} w' {#} \<and> waits False 0 n w'"
    if m: "sendable m" "data_part m" "plain {#m#}" and w: "links_inv {(1, 0)} w {#}" "waits False 0 n w" for m w n
  proof -
    have "links_inv {(1, 0)} w (add_mset m {#})" using lk.inv_plain[OF m(3), of "{(1, 0)}" w "{#}"] w(1) by simp
    moreover have "1 \<in> fst ` {(1 :: nat, 0 :: nat)}" by simp
    ultimately obtain r w' where r: "pipe_write 1 m w = Some (r, m, w')" "links_inv {(1, 0)} w' (if r then {#} else add_mset m {#})"
      using lk.inv_write[of "{(1, 0)}" w m "{#}" 1] m(1) by blast
    then have "links_inv {(1, 0)} w' {#}" using lk.inv_plain[OF m(3), of "{(1, 0)}" w' "{#}"] by (auto split: if_splits)
    then show ?thesis using r(1) write_waits[OF w(2) r(1) m(1,2)] by blast
  qed
  obtain r1 w1 where w1: "pipe_write 1 m1 pair_0 = Some (r1, m1, w1)" "links_inv {(1, 0)} w1 {#}" "waits False 0 0 w1"
    using one[OF m1 i pair_start_waits[OF pair_0_start]] by blast
  obtain r2 w2 where w2: "pipe_write 1 m2 w1 = Some (r2, m2, w2)" "links_inv {(1, 0)} w2 {#}" "waits False 0 0 w2"
    using one[OF m2 w1(2,3)] by blast
  obtain w3 where w3: "pipe_flush 1 w2 = Some w3" "links_inv {(1, 0)} w3 {#}"
    using lk.inv_flush[OF w2(2), of 1] by auto
  obtain n where n: "waits False 0 n w3" by (rule flush_waits[OF w2(3) w3(1)])
  have p: "pair_with m1 m2 = w3" using w1(1) w2(1) w3(1) by (simp add: pair_with_def)
  have "hs_inv 0 1 w3 {#}" "pipes_inv w3 {#}" using w3(2) hs_inv_sym by (auto simp: links_inv_def)
  moreover have "pipes w3 0 \<noteq> None" using n by (auto simp: waits_def)
  ultimately have "links_inv {(0, 1)} (pair_with m1 m2) {#}" using n0 p by (simp add: links_inv_def separate_def)
  then show thesis using that n p by simp
qed

lemma pair_two_ok:
  obtains n where "links_inv {(0, 1)} pair_two {#}" "waits False 0 n pair_two"
proof -
  have "sends_normally 0 pair_two" unfolding pair_with_def first_part_def pair_0_def by code_simp
  then show thesis using pair_with_ok[OF hello_parts(1,3,5) hello_parts(2,4,6)] that by blast
qed

end
