(* ===== verification/Zmq_Table.thy ===== *)
theory Zmq_Table
  imports Bus_Prelude
begin

text \<open>
  The table of subnodes of a trie node, shared by \<open>trie_t\<close> (\<open>src/libzmq/src/trie.cpp\<close>) and
  \<open>generic_mtrie_t\<close> (\<open>src/libzmq/src/generic_mtrie_impl.hpp\<close>).  The union of a node pointer and a
  table of node pointers with its \<open>count\<close> is one list of optional subnodes of that length: empty,
  one node, or a table; a minimum gives the character of the first slot.  \<open>slot\<close> reads the table as a
  finite map from characters, and \<open>table_ok\<close> says that the count of live nodes is right and that the
  table has no dead ends.
\<close>

definition slot :: "nat \<Rightarrow> 'a option list \<Rightarrow> nat \<Rightarrow> 'a option" where
  "slot mn nx c = (if c < mn \<or> c \<ge> mn + length nx then None else nx ! (c - mn))"

definition table_ok :: "nat \<Rightarrow> nat \<Rightarrow> 'a option list \<Rightarrow> bool" where
  "table_ok mn lv nx \<longleftrightarrow> mn + length nx \<le> 256 \<and> mn < 256 \<and> lv = card {c. slot mn nx c \<noteq> None} \<and>
     (nx = [] \<or> slot mn nx mn \<noteq> None \<and> slot mn nx (mn + length nx - 1) \<noteq> None)"

text \<open>Extending the table so that it has a slot for character \<open>c\<close>.\<close>

definition trie_extend :: "nat \<Rightarrow> nat \<Rightarrow> 'a option list \<Rightarrow> nat \<times> 'a option list" where
  "trie_extend c mn nx =
     (if c < mn \<or> c \<ge> mn + length nx
      then
        if nx = [] then (c, [None])
        else if length nx = 1
        then let cnt = (if mn < c then c - mn else mn - c) + 1;
                 mn' = min mn c
             in (mn', (replicate cnt None)[mn - mn' := nx ! 0])
        else if mn < c
        then (mn, nx @ replicate (c - mn + 1 - length nx) None)
        else (c, replicate (mn - c) None @ nx)
      else (mn, nx))"

text \<open>The searches for the first and the last remaining node when a table is compacted.\<close>

fun first_live :: "nat \<Rightarrow> 'a option list \<Rightarrow> nat option" where
  "first_live i [] = None"
| "first_live i (x # xs) = (if x \<noteq> None then Some i else first_live (Suc i) xs)"

lemma slot_finite: "finite {c. slot mn nx c \<noteq> None}"
  by (rule finite_subset[of _ "{mn ..< mn + length nx}"]) (auto simp: slot_def)

lemma slot_Nil [simp]: "slot mn [] c = None"
  by (auto simp: slot_def)

lemma slot_update:
  "mn \<le> c \<Longrightarrow> c < mn + length nx \<Longrightarrow> slot mn (nx[c - mn := v]) = (slot mn nx)(c := v)"
  by (auto simp: slot_def fun_eq_iff nth_list_update)

lemma slot_single: "i < n \<Longrightarrow> slot a ((replicate n None)[i := x]) = Map.empty(a + i := x)"
  by (auto simp: slot_def fun_eq_iff nth_list_update)

lemma trie_extend_slot:
  assumes "table_ok mn lv nx" "trie_extend c mn nx = (mn', nx')" "c < 256"
  shows "slot mn' nx' = slot mn nx" "mn' \<le> c" "c < mn' + length nx'" "mn' + length nx' \<le> 256"
    "slot mn nx c \<noteq> None \<Longrightarrow> mn' = mn \<and> nx' = nx"
    "\<And>v. v \<noteq> None \<Longrightarrow> ((slot mn nx)(c := v)) mn' \<noteq> None \<and> ((slot mn nx)(c := v)) (mn' + length nx' - 1) \<noteq> None"
    "length nx' = 1 \<longleftrightarrow> nx = [] \<or> length nx = 1 \<and> c = mn"
proof -
  have ends: "nx \<noteq> [] \<Longrightarrow> slot mn nx mn \<noteq> None \<and> slot mn nx (mn + length nx - 1) \<noteq> None"
    and le: "mn + length nx \<le> 256" using assms(1) by (auto simp: table_ok_def)
  consider (inr) "mn \<le> c" "c < mn + length nx" | (nil) "nx = []"
    | (one) "c < mn \<or> mn + length nx \<le> c" "length nx = 1"
    | (above) "mn + length nx \<le> c" "1 < length nx" | (below) "c < mn" "1 < length nx"
    by (cases "length nx" rule: nat.exhaust) (auto simp: not_less not_le, linarith)
  then have "slot mn' nx' = slot mn nx \<and> mn' \<le> c \<and> c < mn' + length nx' \<and> mn' + length nx' \<le> 256 \<and>
    (slot mn nx c \<noteq> None \<longrightarrow> mn' = mn \<and> nx' = nx) \<and>
    (\<forall>v. v \<noteq> None \<longrightarrow> ((slot mn nx)(c := v)) mn' \<noteq> None \<and> ((slot mn nx)(c := v)) (mn' + length nx' - 1) \<noteq> None) \<and>
    (length nx' = 1 \<longleftrightarrow> nx = [] \<or> length nx = 1 \<and> c = mn)"
  proof cases
    case inr
    then have "mn' = mn" "nx' = nx" using assms(2) by (auto simp: trie_extend_def)
    moreover have "nx \<noteq> []" using inr by auto
    moreover have "length nx = 1 \<Longrightarrow> c = mn" using inr by simp
    ultimately show ?thesis using inr le ends by auto
  next
    case nil
    then have "mn' = c" "nx' = [None]" using assms(2) by (auto simp: trie_extend_def split: if_splits)
    then show ?thesis using nil assms(3) by (auto simp: slot_def fun_eq_iff)
  next
    case one
    then obtain x where x: "nx = [x]" by (cases nx) auto
    have d: "mn' = min mn c" "nx' = (replicate ((if mn < c then c - mn else mn - c) + 1) None)[mn - min mn c := x]"
      using assms(2) one x by (auto simp: trie_extend_def Let_def)
    have "slot mn' nx' = Map.empty(mn := x)"
      unfolding d by (subst slot_single) (auto simp: min_def)
    moreover have "slot mn nx = Map.empty(mn := x)"
      using slot_single[of 0 1 mn x] x by simp
    ultimately have "slot mn' nx' = slot mn nx" "slot mn nx = Map.empty(mn := x)" by simp_all
    moreover have "x \<noteq> None" using ends x calculation by auto
    moreover have "length nx' = (if mn < c then c - mn else mn - c) + 1" unfolding d length_list_update by simp
    ultimately show ?thesis using one x d(1) le assms(3) by (auto simp: min_def)
  next
    case above
    then have d: "mn' = mn" "nx' = nx @ replicate (c - mn + 1 - length nx) None"
      using assms(2) by (auto simp: trie_extend_def split: if_splits)
    have "slot mn' nx' = slot mn nx"
    proof
      fix e
      show "slot mn' nx' e = slot mn nx e"
        unfolding d using above by (auto simp: slot_def nth_append)
    qed
    then show ?thesis using above d ends le assms(3) by (auto simp: slot_def)
  next
    case below
    then have d: "mn' = c" "nx' = replicate (mn - c) None @ nx"
      using assms(2) by (auto simp: trie_extend_def split: if_splits)
    have "slot mn' nx' = slot mn nx"
    proof
      fix e
      have "(replicate (mn - c) None @ nx) ! (e - c) = nx ! (e - mn)" if "mn \<le> e"
      proof -
        have "\<not> e - c < mn - c" "e - c - (mn - c) = e - mn" using that below by linarith+
        then show ?thesis by (simp add: nth_append)
      qed
      then show "slot mn' nx' e = slot mn nx e"
        unfolding d using below by (auto simp: slot_def nth_append)
    qed
    moreover have "nx \<noteq> []" using below by auto
    ultimately show ?thesis using below d ends le assms(3) by (auto simp: slot_def)
  qed
  then show "slot mn' nx' = slot mn nx" "mn' \<le> c" "c < mn' + length nx'" "mn' + length nx' \<le> 256"
    "slot mn nx c \<noteq> None \<Longrightarrow> mn' = mn \<and> nx' = nx"
    "\<And>v. v \<noteq> None \<Longrightarrow> ((slot mn nx)(c := v)) mn' \<noteq> None \<and> ((slot mn nx)(c := v)) (mn' + length nx' - 1) \<noteq> None"
    "length nx' = 1 \<longleftrightarrow> nx = [] \<or> length nx = 1 \<and> c = mn" by blast+
qed


lemma live_card_pos: "slot mn nx c \<noteq> None \<Longrightarrow> 0 < card {e. slot mn nx e \<noteq> None}"
  using slot_finite[of mn nx] by (auto simp: card_gt_0_iff)

lemma live_card_add:
  "slot mn nx c = None \<Longrightarrow> v \<noteq> None \<Longrightarrow>
   card {e. ((slot mn nx)(c := v)) e \<noteq> None} = Suc (card {e. slot mn nx e \<noteq> None})"
proof -
  assume a: "slot mn nx c = None" "v \<noteq> None"
  then have "{e. ((slot mn nx)(c := v)) e \<noteq> None} = insert c {e. slot mn nx e \<noteq> None}" by auto
  then show ?thesis using a slot_finite[of mn nx] by simp
qed

lemma live_card_same:
  "slot mn nx c \<noteq> None \<Longrightarrow> v \<noteq> None \<Longrightarrow>
   card {e. ((slot mn nx)(c := v)) e \<noteq> None} = card {e. slot mn nx e \<noteq> None}"
  by (rule arg_cong[where f = card]) auto

lemma live_card_del:
  "slot mn nx c \<noteq> None \<Longrightarrow>
   card {e. ((slot mn nx)(c := None)) e \<noteq> None} = card {e. slot mn nx e \<noteq> None} - 1"
proof -
  assume a: "slot mn nx c \<noteq> None"
  then have "{e. ((slot mn nx)(c := None)) e \<noteq> None} = {e. slot mn nx e \<noteq> None} - {c}" by auto
  then show ?thesis using a slot_finite[of mn nx] by simp
qed

lemma table_add:
  assumes "table_ok mn lv nx" "trie_extend c mn nx = (mn', nx')" "c < 256"
  shows "nx' ! (c - mn') = slot mn nx c"
    "slot mn' (nx'[c - mn' := Some t]) = (slot mn nx)(c \<mapsto> t)"
    "table_ok mn' (if slot mn nx c = None then lv + 1 else lv) (nx'[c - mn' := Some t])"
    "slot mn nx c = None \<Longrightarrow> if length nx' = 1 then lv + 1 = 1 else lv + 1 > 1"
proof -
  note ext = trie_extend_slot[OF assms]
  have lv: "lv = card {e. slot mn nx e \<noteq> None}" using assms(1) by (simp add: table_ok_def)
  show "nx' ! (c - mn') = slot mn nx c" using ext(1,2,3) by (auto simp: slot_def fun_eq_iff dest: spec[of _ c])
  show s: "slot mn' (nx'[c - mn' := Some t]) = (slot mn nx)(c \<mapsto> t)" using slot_update ext(1,2,3) by metis
  show "table_ok mn' (if slot mn nx c = None then lv + 1 else lv) (nx'[c - mn' := Some t])"
    unfolding table_ok_def s length_list_update
    using ext(2,3,4) ext(6)[of "Some t"] live_card_add[of mn nx c "Some t"] live_card_same[of mn nx c "Some t"] lv assms(3)
    by simp
  show "if length nx' = 1 then lv + 1 = 1 else lv + 1 > 1" if "slot mn nx c = None"
  proof (cases "nx = []")
    case True
    then show ?thesis using ext(7) lv by simp
  next
    case False
    then have "slot mn nx mn \<noteq> None" using assms(1) by (simp add: table_ok_def)
    then have "0 < lv" "c \<noteq> mn" using that lv live_card_pos[of mn nx mn] by auto
    then show ?thesis using ext(7) False by simp
  qed
qed

lemma unat_byte [simp]: "unat (c :: byte) < 256"
  using unsigned_less[of c] by simp

text \<open>Compaction: the searches, and the table without its dead ends.\<close>

lemma first_live_Some:
  "first_live i xs = Some j \<Longrightarrow> i \<le> j \<and> j - i < length xs \<and> xs ! (j - i) \<noteq> None \<and> (\<forall>k < j - i. xs ! k = None)"
proof (induction i xs rule: first_live.induct)
  case (2 i x xs)
  show ?case
  proof (cases "x = None")
    case True
    with 2 have j: "Suc i \<le> j" "j - Suc i < length xs" "xs ! (j - Suc i) \<noteq> None" "\<forall>k < j - Suc i. xs ! k = None"
      by auto
    have "j - i = Suc (j - Suc i)" using j(1) by simp
    then show ?thesis using j True by (auto simp: nth_Cons split: nat.splits)
  qed (use 2 in auto)
qed simp

lemma first_live_ex: "k < length xs \<Longrightarrow> xs ! k \<noteq> None \<Longrightarrow> \<exists>j. first_live i xs = Some j"
proof (induction xs arbitrary: i k)
  case (Cons x xs)
  then show ?case by (cases k) auto
qed simp

lemma slot_drop: "i \<le> length nx \<Longrightarrow> \<forall>j < i. nx ! j = None \<Longrightarrow> slot (mn + i) (drop i nx) = slot mn nx"
  by (rule ext) (auto simp: slot_def)

lemma slot_take: "n \<le> length nx \<Longrightarrow> \<forall>j. n \<le> j \<and> j < length nx \<longrightarrow> nx ! j = None \<Longrightarrow> slot mn (take n nx) = slot mn nx"
proof
  fix e assume a: "n \<le> length nx" "\<forall>j. n \<le> j \<and> j < length nx \<longrightarrow> nx ! j = None"
  have "nx ! (e - mn) = None" if "mn + n \<le> e" "e < mn + length nx"
    using a(2)[rule_format, of "e - mn"] that by linarith
  then show "slot mn (take n nx) e = slot mn nx e"
    using a(1) by (auto simp: slot_def)
qed

lemma slot_nth: "j < length nx \<Longrightarrow> slot mn nx (mn + j) = nx ! j"
  by (simp add: slot_def)

lemma slot_Some_range: "slot mn nx c \<noteq> None \<Longrightarrow> mn \<le> c \<and> c < mn + length nx"
  by (auto simp: slot_def split: if_splits)

lemma slot_only:
  assumes "card {e. slot mn nx e \<noteq> None} = 1" "slot mn nx a \<noteq> None" "b \<noteq> a"
  shows "slot mn nx b = None"
proof -
  obtain x where "{e. slot mn nx e \<noteq> None} = {x}" using assms(1) by (rule card_1_singletonE)
  then show ?thesis using assms(2,3) by (metis (mono_tags, lifting) mem_Collect_eq singletonD)
qed

lemma ends_card:
  "a \<noteq> b \<Longrightarrow> slot mn nx a \<noteq> None \<Longrightarrow> slot mn nx b \<noteq> None \<Longrightarrow> 2 \<le> card {e. slot mn nx e \<noteq> None}"
  using card_mono[OF slot_finite, of "{a, b}" mn nx] by simp

text \<open>A table of which one end may be dead is valid again once it is cut down to its live ends.\<close>

lemma table_ok_cut:
  assumes "slot mn' nx' = slot mn nx" "lv = card {e. slot mn nx e \<noteq> None}" "nx' \<noteq> []" "mn' + length nx' \<le> 256"
    "nx' ! 0 \<noteq> None" "nx' ! (length nx' - 1) \<noteq> None"
  shows "table_ok mn' lv nx'"
  using assms slot_nth[of 0 nx' mn'] slot_nth[of "length nx' - 1" nx' mn']
  unfolding table_ok_def by (cases nx') (auto simp: Suc_leI)

lemma table_single:
  assumes "table_ok mn lv [x]"
  shows "lv = 1" "slot mn [x] = Map.empty(mn := x)" "x \<noteq> None"
proof -
  show s: "slot mn [x] = Map.empty(mn := x)" using slot_single[of 0 1 mn x] by simp
  then show "x \<noteq> None" using assms by (auto simp: table_ok_def)
  then show "lv = 1" using assms s by (auto simp: table_ok_def)
qed

text \<open>Deleting the node of character \<open>c\<close> from a table with at least two slots.\<close>

lemma table_del:
  assumes "table_ok mn lv nx" "slot mn nx c \<noteq> None" "length nx \<noteq> 1"
  defines "nx1 \<equiv> nx[c - mn := None]"
  shows "slot mn nx1 = (slot mn nx)(c := None)" "2 \<le> lv" "lv - 1 = card {e. slot mn nx1 e \<noteq> None}"
    "c \<noteq> mn \<Longrightarrow> nx1 ! 0 \<noteq> None" "c \<noteq> mn + length nx - 1 \<Longrightarrow> nx1 ! (length nx - 1) \<noteq> None" "nx1 ! (c - mn) = None"
    "1 < length nx" "mn + length nx \<le> 256" "mn \<le> c" "c < mn + length nx"
proof -
  show range: "mn \<le> c" "c < mn + length nx" using slot_Some_range[OF assms(2)] by auto
  show le: "mn + length nx \<le> 256" and n: "1 < length nx" using assms(1,3) range by (auto simp: table_ok_def)
  have lv: "lv = card {e. slot mn nx e \<noteq> None}" and ends: "slot mn nx mn \<noteq> None" "slot mn nx (mn + length nx - 1) \<noteq> None"
    using assms(1) range by (auto simp: table_ok_def)
  show s1: "slot mn nx1 = (slot mn nx)(c := None)" unfolding nx1_def using slot_update[OF range] by blast
  show "2 \<le> lv" unfolding lv by (rule ends_card[of mn "mn + length nx - 1"]) (use n ends in auto)
  show "lv - 1 = card {e. slot mn nx1 e \<noteq> None}" unfolding s1 lv using live_card_del[OF assms(2)] by simp
  have l: "0 < length nx1" "length nx - 1 < length nx1" using n by (auto simp: nx1_def)
  show "nx1 ! 0 \<noteq> None" if "c \<noteq> mn" using that ends slot_nth[OF l(1), of mn] s1 by simp
  show "nx1 ! (length nx - 1) \<noteq> None" if "c \<noteq> mn + length nx - 1"
    using that ends slot_nth[OF l(2), of mn] s1 n by simp
  show "nx1 ! (c - mn) = None" using range by (simp add: nx1_def)
qed

lemma table_del_left:
  assumes "table_ok mn lv nx" "slot mn nx mn \<noteq> None" "length nx \<noteq> 1"
  defines "nx1 \<equiv> nx[0 := None]"
  shows "\<exists>j. first_live 1 (drop 1 nx1) = Some j \<and> 0 < j \<and> j < length nx \<and> mn + j < 256 \<and>
    table_ok (mn + j) (lv - 1) (drop j nx1) \<and> slot (mn + j) (drop j nx1) = slot mn nx1"
proof -
  note d = table_del[OF assms(1-3), unfolded diff_self_eq_0, folded nx1_def]
  have l: "length nx1 = length nx" by (simp add: nx1_def)
  have lst: "nx1 ! (length nx - 1) \<noteq> None" using d(5,7) by simp
  have "length nx - 2 < length (drop 1 nx1)" "drop 1 nx1 ! (length nx - 2) \<noteq> None"
    using lst d(7) l by (auto simp: numeral_2_eq_2 Suc_diff_Suc)
  then obtain j where j: "first_live 1 (drop 1 nx1) = Some j" using first_live_ex by blast
  from first_live_Some[OF j] have jl: "1 \<le> j" "j < length nx" "nx1 ! j \<noteq> None" and
    jn: "\<And>k. k < j - 1 \<Longrightarrow> nx1 ! Suc k = None" using d(7) l by auto
  have "nx1 ! k = None" if "k < j" for k using that jn[of "k - 1"] d(6) by (cases k) auto
  then have sl: "slot (mn + j) (drop j nx1) = slot mn nx1" using jl l by (intro slot_drop) auto
  have "table_ok (mn + j) (lv - 1) (drop j nx1)"
    by (rule table_ok_cut[OF sl d(3)]) (use jl l lst d(8) in auto)
  then show ?thesis using j jl sl d(8) by auto
qed

lemma table_del_right:
  assumes "table_ok mn lv nx" "slot mn nx c \<noteq> None" "length nx \<noteq> 1" "c = mn + length nx - 1"
  defines "nx1 \<equiv> nx[c - mn := None]"
  shows "\<exists>j. first_live 1 (drop 1 (rev nx1)) = Some j \<and> j < length nx \<and>
    table_ok mn (lv - 1) (take (length nx - j) nx1) \<and> slot mn (take (length nx - j) nx1) = slot mn nx1"
proof -
  define n where "n = length nx - 1"
  note d = table_del[OF assms(1-3), folded nx1_def]
  have l: "length nx1 = Suc n" "length nx = Suc n" "0 < n" "c = mn + n" using d(7) assms(4) by (auto simp: nx1_def n_def)
  have hd: "nx1 ! 0 \<noteq> None" using d(4) l by simp
  obtain j where j: "first_live 1 (drop 1 (rev nx1)) = Some j"
    using first_live_ex[of "n - 1" "drop 1 (rev nx1)" 1] hd l by (auto simp: rev_nth)
  from first_live_Some[OF j] have jl: "1 \<le> j" "j < Suc n" "nx1 ! (n - j) \<noteq> None" and
    jn: "\<And>k. k < j - 1 \<Longrightarrow> nx1 ! (n - Suc k) = None" using l by (auto simp: rev_nth)
  have dead: "nx1 ! k = None" if "Suc n - j \<le> k" "k < length nx1" for k
    using that jn[of "n - k - 1"] d(6) l jl by (cases "k = n") (auto simp: Suc_diff_Suc)
  then have sl: "slot mn (take (Suc n - j) nx1) = slot mn nx1" using jl l by (intro slot_take) auto
  have "table_ok mn (lv - 1) (take (Suc n - j) nx1)"
    by (rule table_ok_cut[OF sl d(3)]) (use jl l hd d(8) in auto)
  then show ?thesis using j jl sl l by auto
qed

lemma table_del_mid:
  assumes "table_ok mn lv nx" "slot mn nx c \<noteq> None" "length nx \<noteq> 1" "c \<noteq> mn" "c \<noteq> mn + length nx - 1"
  shows "table_ok mn (lv - 1) (nx[c - mn := None])"
  by (rule table_ok_cut[OF refl table_del(3)[OF assms(1-3)]])
     (use table_del[OF assms(1-3)] assms(4,5) in auto)

text \<open>When a single node remains the table becomes that node.\<close>

lemma table_one:
  assumes "card {e. slot mn nx e \<noteq> None} = 1" "j < length nx" "nx ! j \<noteq> None" "mn + length nx \<le> 256"
  shows "table_ok (mn + j) 1 [nx ! j]" "slot (mn + j) [nx ! j] = slot mn nx"
proof -
  have j: "slot mn nx (mn + j) = nx ! j" using slot_nth[OF assms(2)] .
  show s: "slot (mn + j) [nx ! j] = slot mn nx"
  proof
    fix e show "slot (mn + j) [nx ! j] e = slot mn nx e"
      using slot_only[OF assms(1), of "mn + j" e] j assms(3) by (cases "e = mn + j") (auto simp: slot_def)
  qed
  show "table_ok (mn + j) 1 [nx ! j]" by (rule table_ok_cut[OF s]) (use assms in auto)
qed

end
