(* ===== verification/Zmq_Trie.thy ===== *)
theory Zmq_Trie
  imports Zmq_Table "HOL-Library.Sublist"
begin

text \<open>
  The subscription trie \<open>trie_t\<close> of \<open>src/libzmq/src/trie.cpp\<close>.  The union of a node pointer and a
  table of node pointers with its \<open>count\<close> is one list of optional subtries of that length: empty,
  one node, or a table.  \<open>trie_min\<close> is the character of the first slot.  \<open>None\<close> is a failed
  assertion or a null pointer.  The trie implements a multiset of byte strings: the laws say what
  \<open>add\<close>, \<open>rm\<close>, \<open>check\<close> and \<open>apply\<close> do to it, and that the assertions about
  \<open>live_nodes\<close> and the compaction of tables never fail.
\<close>

datatype trie =
  Trie (trie_refcnt: "32 word") (trie_min: nat) (live_nodes: nat) (trie_next: "trie option list")

abbreviation trie_count :: "trie \<Rightarrow> nat" where
  "trie_count t \<equiv> length (trie_next t)"

definition trie_new :: trie where
  "trie_new = Trie 0 0 0 []"

definition is_redundant :: "trie \<Rightarrow> bool" where
  "is_redundant t = (trie_refcnt t = 0 \<and> live_nodes t = 0)"

fun trie_add :: "bytes \<Rightarrow> trie \<Rightarrow> (bool \<times> trie) option" where
  "trie_add [] (Trie rc mn lv nx) = Some (rc + 1 = 1, Trie (rc + 1) mn lv nx)"
| "trie_add (c # cs) (Trie rc mn lv nx) =
     (let (mn, nx) = trie_extend (unat c) mn nx;
          i = unat c - mn
      in case nx ! i of
           Some child \<Rightarrow>
             do {
               (r, child) \<leftarrow> trie_add cs child;
               Some (r, Trie rc mn lv (nx[i := Some child]))
             }
         | None \<Rightarrow>
             do {
               zmq_assert (if length nx = 1 then lv + 1 = 1 else lv + 1 > 1);
               (r, child) \<leftarrow> trie_add cs trie_new;
               Some (r, Trie rc mn (lv + 1) (nx[i := Some child]))
             })"

definition prune_slot :: "nat \<Rightarrow> nat \<Rightarrow> nat \<Rightarrow> trie option list \<Rightarrow> (nat \<times> nat \<times> trie option list) option" where
  "prune_slot c mn lv nx =
     (if length nx = 1 then do { zmq_assert (lv = 1); Some (mn, lv - 1, []) }
      else do {
        nx \<leftarrow> Some (nx[c - mn := None]);
        zmq_assert (lv > 1);
        lv \<leftarrow> Some (lv - 1);
        (if lv = 1
         then
           if c = mn
           then do {
             zmq_assert (nx ! (length nx - 1) \<noteq> None);
             Some ((mn + length nx - 1) mod 256, lv, [nx ! (length nx - 1)])
           }
           else if c = mn + length nx - 1
           then do { zmq_assert (nx ! 0 \<noteq> None); Some (mn, lv, [nx ! 0]) }
           else None
         else if c = mn
         then do {
           i \<leftarrow> first_live 1 (drop 1 nx);
           new_min \<leftarrow> Some ((i + mn) mod 256);
           zmq_assert (new_min > mn);
           zmq_assert (length nx > new_min - mn);
           Some (new_min, lv, drop (new_min - mn) nx)
         }
         else if c = mn + length nx - 1
         then do {
           i \<leftarrow> first_live 1 (drop 1 (rev nx));
           Some (mn, lv, take (length nx - i) nx)
         }
         else Some (mn, lv, nx))
      })"

fun trie_rm :: "bytes \<Rightarrow> trie \<Rightarrow> (bool \<times> trie) option" where
  "trie_rm [] (Trie rc mn lv nx) =
     (if rc = 0 then Some (False, Trie rc mn lv nx) else Some (rc - 1 = 0, Trie (rc - 1) mn lv nx))"
| "trie_rm (c # cs) (Trie rc mn lv nx) =
     (if nx = [] \<or> unat c < mn \<or> unat c \<ge> mn + length nx then Some (False, Trie rc mn lv nx)
      else case nx ! (unat c - mn) of
        None \<Rightarrow> Some (False, Trie rc mn lv nx)
      | Some child \<Rightarrow>
          do {
            (r, child) \<leftarrow> trie_rm cs child;
            (if is_redundant child
             then do {
               (mn, lv, nx) \<leftarrow> prune_slot (unat c) mn lv nx;
               Some (r, Trie rc mn lv nx)
             }
             else Some (r, Trie rc mn lv (nx[unat c - mn := Some child])))
          })"

fun trie_check :: "trie \<Rightarrow> bytes \<Rightarrow> bool option" where
  "trie_check (Trie rc mn lv nx) d =
     (if rc \<noteq> 0 then Some True
      else case d of [] \<Rightarrow> Some False
      | c # cs \<Rightarrow>
          if unat c < mn \<or> unat c \<ge> mn + length nx then Some False
          else case nx ! (unat c - mn) of
            None \<Rightarrow> if length nx = 1 then None else Some False
          | Some child \<Rightarrow> trie_check child cs)"

text \<open>\<open>apply\<close> calls its argument on every subscription; the model returns these in the order of the
  calls.  \<open>buff\<close> is the path to the node.\<close>

lemma size_next [termination_simp]: "(i, Some t) \<in> set (enumerate n nx) \<Longrightarrow> size t < Suc (size_list (size_option size) nx)"
proof -
  assume "(i, Some t) \<in> set (enumerate n nx)"
  then have "Some t \<in> set nx" by (auto simp: enumerate_eq_zip dest: set_zip_rightD)
  then have "size_option size (Some t) \<le> size_list (size_option size) nx" by (rule size_list_estimation') simp
  then show ?thesis by simp
qed

lemma size_nth_next [termination_simp]:
  "nx ! i = Some t \<Longrightarrow> i < length nx \<Longrightarrow> size t < Suc (size_list (size_option size) nx)"
  using size_next[of i t 0 nx] by (simp add: in_set_enumerate_eq)

function trie_apply :: "bytes \<Rightarrow> trie \<Rightarrow> bytes list option" where
  "trie_apply buff (Trie rc mn lv nx) =
     map_option (\<lambda>ks. (if rc \<noteq> 0 then [buff] else []) @ ks)
       (if length nx = 1
        then case nx ! 0 of None \<Rightarrow> None | Some t \<Rightarrow> trie_apply (buff @ [of_nat mn]) t
        else map_option concat
          (those (map (\<lambda>(i, x). case x of None \<Rightarrow> Some [] | Some t \<Rightarrow> trie_apply (buff @ [of_nat (mn + i)]) t)
            (enumerate 0 nx))))"
  by pat_completeness auto
termination
  by (relation "measure (size \<circ> snd)") (auto simp: size_next size_nth_next)

subsection \<open>The trie as a multiset of keys\<close>

fun trie_lookup :: "trie \<Rightarrow> bytes \<Rightarrow> nat" where
  "trie_lookup (Trie rc mn lv nx) [] = unat rc"
| "trie_lookup (Trie rc mn lv nx) (c # cs) =
     (case slot mn nx (unat c) of None \<Rightarrow> 0 | Some t \<Rightarrow> trie_lookup t cs)"

inductive trie_wf :: "trie \<Rightarrow> bool" where
  trie_wf_node: "table_ok mn lv nx \<Longrightarrow> (\<And>c t. slot mn nx c = Some t \<Longrightarrow> trie_wf t \<and> \<not> is_redundant t) \<Longrightarrow>
    trie_wf (Trie rc mn lv nx)"

inductive_simps trie_wf_Trie: "trie_wf (Trie rc mn lv nx)"

lemma trie_wf_new [simp]: "trie_wf trie_new"
  by (simp add: trie_new_def trie_wf_Trie table_ok_def)

lemma trie_lookup_new [simp]: "trie_lookup trie_new k = 0"
  by (cases k) (simp_all add: trie_new_def)

lemma trie_lookup_Cons:
  "trie_lookup t (c # cs) = (case slot (trie_min t) (trie_next t) (unat c) of None \<Rightarrow> 0 | Some u \<Rightarrow> trie_lookup u cs)"
  by (cases t) simp

lemma trie_wf_replace:
  assumes "trie_wf (Trie rc mn lv nx)" "table_ok mn' lv' nx'" "slot mn' nx' = (slot mn nx)(c := v)"
    "\<And>t. v = Some t \<Longrightarrow> trie_wf t \<and> \<not> is_redundant t"
  shows "trie_wf (Trie rc' mn' lv' nx')"
  using assms by (auto simp: trie_wf_Trie split: if_splits)

text \<open>\<open>add\<close>: no assertion fails, the count of the key goes up by one, every other count stays, and
  the result says whether the key is new.\<close>

lemma trie_add_law:
  "trie_wf t \<Longrightarrow> trie_lookup t k + 1 < 2 ^ 32 \<Longrightarrow>
   \<exists>t'. trie_add k t = Some (trie_lookup t k = 0, t') \<and> trie_wf t' \<and> \<not> is_redundant t' \<and>
        trie_lookup t' = (trie_lookup t)(k := trie_lookup t k + 1)"
proof (induction k arbitrary: t)
  case Nil
  obtain rc mn lv nx where t: "t = Trie rc mn lv nx" by (cases t)
  have rc: "unat (rc + 1) = unat rc + 1"
    using Nil(2) unfolding t by (simp add: unat_word_ariths)
  then have "rc + 1 \<noteq> 0" by (metis add_is_0 one_neq_zero unat_0)
  moreover have "rc + 1 = 1 \<longleftrightarrow> unat rc = 0" by (simp add: unat_eq_0)
  moreover have "trie_lookup (Trie (rc + 1) mn lv nx) = (trie_lookup t)([] := unat rc + 1)"
  proof
    fix k show "trie_lookup (Trie (rc + 1) mn lv nx) k = ((trie_lookup t)([] := unat rc + 1)) k"
      using rc t by (cases k) auto
  qed
  ultimately show ?case using Nil(1) t by (auto simp: is_redundant_def trie_wf_Trie)
next
  case (Cons c cs)
  obtain rc mn lv nx where t: "t = Trie rc mn lv nx" by (cases t)
  obtain mn' nx' where e: "trie_extend (unat c) mn nx = (mn', nx')" by fastforce
  have ok: "table_ok mn lv nx" and sub: "\<And>c t. slot mn nx c = Some t \<Longrightarrow> trie_wf t \<and> \<not> is_redundant t"
    using Cons(2) t by (auto simp: trie_wf_Trie)
  note ta = table_add[OF ok e unat_byte]
  define u where "u = (case slot mn nx (unat c) of None \<Rightarrow> trie_new | Some u \<Rightarrow> u)"
  have u: "trie_wf u" "trie_lookup u cs = trie_lookup t (c # cs)"
    using sub by (auto simp: u_def t split: option.splits)
  with Cons(1)[of u] Cons(3) obtain u' where u': "trie_add cs u = Some (trie_lookup u cs = 0, u')" "trie_wf u'"
    "\<not> is_redundant u'" "trie_lookup u' = (trie_lookup u)(cs := trie_lookup u cs + 1)" by metis
  define lv' where "lv' = (if slot mn nx (unat c) = None then lv + 1 else lv)"
  define t' where "t' = Trie rc mn' lv' (nx'[unat c - mn' := Some u'])"
  have "trie_add (c # cs) t = Some (trie_lookup t (c # cs) = 0, t')"
    using ta(1) ta(4) u' u(2) by (cases "slot mn nx (unat c)") (auto simp: t e t'_def lv'_def u_def)
  moreover have "trie_wf t'"
    unfolding t'_def lv'_def by (rule trie_wf_replace[OF Cons(2)[unfolded t] ta(3,2)]) (use u' in auto)
  moreover have "\<not> is_redundant t'"
  proof -
    have "slot mn' (nx'[unat c - mn' := Some u']) (unat c) \<noteq> None" using ta(2)[of u'] by simp
    then have "0 < card {e. slot mn' (nx'[unat c - mn' := Some u']) e \<noteq> None}" by (rule live_card_pos)
    then have "0 < lv'" using ta(3)[of u'] unfolding table_ok_def lv'_def by simp
    then show ?thesis by (simp add: is_redundant_def t'_def)
  qed
  moreover have "trie_lookup t' = (trie_lookup t)(c # cs := trie_lookup t (c # cs) + 1)"
  proof
    fix k
    show "trie_lookup t' k = ((trie_lookup t)(c # cs := trie_lookup t (c # cs) + 1)) k"
    proof (cases k)
      case Nil
      then show ?thesis by (simp add: t'_def t)
    next
      case (Cons d ds)
      then show ?thesis
        using ta(2)[of u'] u' u(2) by (auto simp: t'_def t u_def word_unat_eq_iff split: option.splits)
    qed
  qed
  ultimately show ?case by blast
qed


lemma prune_slot_law:
  assumes "table_ok mn lv nx" "slot mn nx c \<noteq> None"
  shows "\<exists>mn' lv' nx'. prune_slot c mn lv nx = Some (mn', lv', nx') \<and> table_ok mn' lv' nx' \<and>
           slot mn' nx' = (slot mn nx)(c := None)"
proof (cases "length nx = 1")
  case True
  then obtain x where x: "nx = [x]" by (cases nx) auto
  note s = table_single[OF assms(1)[unfolded x]]
  have "slot mn ([] :: trie option list) = (slot mn nx)(c := None)" using s assms(2) x by (auto split: if_splits)
  then show ?thesis using x s(1) assms(1) by (simp add: prune_slot_def table_ok_def)
next
  case False
  define nx1 where "nx1 = nx[c - mn := None]"
  note d = table_del[OF assms False, folded nx1_def]
  have l: "length nx1 = length nx" "nx \<noteq> []" using d(7) by (auto simp: nx1_def)
  have ne: "lv - 1 \<noteq> 1" if "lv \<noteq> 2" using that d(2) by arith
  consider (one) "lv = 2" | (left) "lv \<noteq> 2" "c = mn" | (right) "lv \<noteq> 2" "c = mn + length nx - 1" "c \<noteq> mn"
    | (mid) "lv \<noteq> 2" "c \<noteq> mn" "c \<noteq> mn + length nx - 1" by blast
  then have "\<exists>mn' nx'. prune_slot c mn lv nx = Some (mn', lv - 1, nx') \<and> table_ok mn' (lv - 1) nx' \<and> slot mn' nx' = slot mn nx1"
  proof cases
    case one
    have c1: "card {e. slot mn nx1 e \<noteq> None} = 1" using d(3) one by simp
    have "\<not> (c \<noteq> mn \<and> c \<noteq> mn + length nx - 1)"
    proof
      assume c: "c \<noteq> mn \<and> c \<noteq> mn + length nx - 1"
      have "0 < length nx1" "length nx - 1 < length nx1" using d(7) l by linarith+
      then have "slot mn nx1 (mn + 0) \<noteq> None" "slot mn nx1 (mn + (length nx - 1)) \<noteq> None"
        using c d(4,5) by (simp_all only: slot_nth) blast+
      then show False using slot_only[OF c1, of "mn + 0" "mn + (length nx - 1)"] d(7) by simp
    qed
    then consider "c = mn" | "c = mn + length nx - 1" "c \<noteq> mn" by blast
    then show ?thesis
    proof cases
      case 1
      then have "nx1 ! (length nx - 1) \<noteq> None" using d(5,7) by simp
      then show ?thesis using 1 one d(7,8) l table_one[OF c1, of "length nx - 1"]
        unfolding prune_slot_def nx1_def[symmetric] by simp
    next
      case 2
      then have "nx1 ! 0 \<noteq> None" using d(4) by simp
      then show ?thesis using 2 one d(7,8) l table_one[OF c1, of 0]
        unfolding prune_slot_def nx1_def[symmetric] by simp
    qed
  next
    case left
    have n0: "nx1 = nx[0 := None]" using left(2) by (simp add: nx1_def)
    obtain j where "first_live 1 (drop 1 nx1) = Some j" "0 < j" "j < length nx" "mn + j < 256"
      "table_ok (mn + j) (lv - 1) (drop j nx1)" "slot (mn + j) (drop j nx1) = slot mn nx1"
      using table_del_left[OF assms(1) assms(2)[unfolded left(2)] False] unfolding n0 by blast
    then show ?thesis using left ne[OF left(1)] d(2) False l unfolding prune_slot_def nx1_def[symmetric] by (simp add: add.commute)
  next
    case right
    obtain j where "first_live 1 (drop 1 (rev nx1)) = Some j"
      "table_ok mn (lv - 1) (take (length nx - j) nx1)" "slot mn (take (length nx - j) nx1) = slot mn nx1"
      using table_del_right[OF assms False right(2)] unfolding nx1_def by blast
    then show ?thesis using right ne[OF right(1)] d(2) False l unfolding prune_slot_def nx1_def[symmetric] by simp
  next
    case mid
    then show ?thesis using table_del_mid[OF assms False mid(2,3)] ne[OF mid(1)] d(2) False l
      unfolding prune_slot_def nx1_def[symmetric] by auto
  qed
  then show ?thesis using d(1) by metis
qed

text \<open>\<open>rm\<close>: the count of the key goes down by one if it was positive, redundant nodes are pruned.\<close>

lemma redundant_lookup: "trie_wf t \<Longrightarrow> is_redundant t \<Longrightarrow> trie_lookup t k = 0"
proof (cases t; cases k)
  fix rc mn lv nx c cs
  assume a: "trie_wf t" "is_redundant t" "t = Trie rc mn lv nx" "k = c # cs"
  then have "card {c. slot mn nx c \<noteq> None} = 0" by (simp add: trie_wf_Trie table_ok_def is_redundant_def)
  then have "slot mn nx (unat c) = None" using live_card_pos by (metis less_irrefl)
  then show "trie_lookup t k = 0" using a by simp
qed (auto simp: is_redundant_def)

lemma trie_rm_law:
  "trie_wf t \<Longrightarrow> \<exists>t'. trie_rm k t = Some (trie_lookup t k = 1, t') \<and> trie_wf t' \<and>
     trie_lookup t' = (trie_lookup t)(k := trie_lookup t k - 1)"
proof (induction k arbitrary: t)
  case Nil
  obtain rc mn lv nx where t: "t = Trie rc mn lv nx" by (cases t)
  show ?case
  proof (cases "rc = 0")
    case False
    then have u: "unat (rc - 1) = unat rc - 1" by (simp add: unat_minus_one)
    have "rc - 1 = 0 \<longleftrightarrow> unat rc = 1" using unat_eq_0 u False
      by (metis diff_is_0_eq le_Suc_eq One_nat_def le_zero_eq order_refl)
    moreover have "trie_lookup (Trie (rc - 1) mn lv nx) = (trie_lookup t)([] := trie_lookup t [] - 1)"
    proof
      fix k show "trie_lookup (Trie (rc - 1) mn lv nx) k = ((trie_lookup t)([] := trie_lookup t [] - 1)) k"
        using u t by (cases k) auto
    qed
    ultimately show ?thesis using Nil t False by (auto simp: trie_wf_Trie)
  qed (use Nil t in auto)
next
  case (Cons c cs)
  obtain rc mn lv nx where t: "t = Trie rc mn lv nx" by (cases t)
  have ok: "table_ok mn lv nx" using Cons(2) t by (simp add: trie_wf_Trie)
  show ?case
  proof (cases "slot mn nx (unat c)")
    case None
    then have "trie_rm (c # cs) t = Some (False, t)"
      using t by (auto simp: slot_def split: option.splits if_splits)
    then show ?thesis using Cons(2) None t by auto
  next
    case (Some u)
    then have u: "trie_wf u" using Cons(2) t by (auto simp: trie_wf_Trie)
    from Cons(1)[OF this] obtain u' where u': "trie_rm cs u = Some (trie_lookup u cs = 1, u')" "trie_wf u'"
      "trie_lookup u' = (trie_lookup u)(cs := trie_lookup u cs - 1)" by blast
    have range: "mn \<le> unat c" "unat c < mn + length nx" and nth: "nx ! (unat c - mn) = Some u"
      using slot_Some_range[of mn nx "unat c"] Some by (auto simp: slot_def split: if_splits)
    define v where "v = (if is_redundant u' then None else Some u')"
    have "\<exists>mn' lv' nx'. trie_rm (c # cs) t = Some (trie_lookup u cs = 1, Trie rc mn' lv' nx') \<and>
        table_ok mn' lv' nx' \<and> slot mn' nx' = (slot mn nx)(unat c := v)"
    proof (cases "is_redundant u'")
      case True
      obtain mn' lv' nx' where p: "prune_slot (unat c) mn lv nx = Some (mn', lv', nx')" "table_ok mn' lv' nx'"
        "slot mn' nx' = (slot mn nx)(unat c := None)" using prune_slot_law[OF ok, of "unat c"] Some by auto
      have "trie_rm (c # cs) t = Some (trie_lookup u cs = 1, Trie rc mn' lv' nx')"
        using t range nth u' True p(1) by auto
      then show ?thesis using p True by (auto simp: v_def)
    next
      case False
      have "trie_rm (c # cs) t = Some (trie_lookup u cs = 1, Trie rc mn lv (nx[unat c - mn := Some u']))"
        using t range nth u' False by auto
      moreover have "slot mn (nx[unat c - mn := Some u']) = (slot mn nx)(unat c := Some u')"
        by (rule slot_update[OF range])
      moreover have "table_ok mn lv (nx[unat c - mn := Some u'])"
        using ok range live_card_same[of mn nx "unat c" "Some u'"] Some
        unfolding table_ok_def calculation(2) by auto
      ultimately show ?thesis using False by (auto simp: v_def)
    qed
    then obtain mn' lv' nx' where r: "trie_rm (c # cs) t = Some (trie_lookup u cs = 1, Trie rc mn' lv' nx')"
      "table_ok mn' lv' nx'" "slot mn' nx' = (slot mn nx)(unat c := v)" by blast
    have "trie_wf (Trie rc mn' lv' nx')"
      by (rule trie_wf_replace[OF Cons(2)[unfolded t] r(2,3)]) (use u' in \<open>auto simp: v_def split: if_splits\<close>)
    moreover have lu: "(case v of None \<Rightarrow> 0 | Some w \<Rightarrow> trie_lookup w k) = trie_lookup u' k" for k
      using redundant_lookup[OF u'(2)] by (auto simp: v_def)
    have "trie_lookup (Trie rc mn' lv' nx') = (trie_lookup t)(c # cs := trie_lookup t (c # cs) - 1)"
    proof
      fix k
      show "trie_lookup (Trie rc mn' lv' nx') k = ((trie_lookup t)(c # cs := trie_lookup t (c # cs) - 1)) k"
        using r(3) lu u'(3) Some t by (cases k) (auto simp: word_unat_eq_iff)
    qed
    ultimately show ?thesis using r(1) Some t by auto
  qed
qed

text \<open>\<open>check\<close>: some prefix of the message is a subscription; no null node is followed.\<close>

lemma trie_check_law: "trie_wf t \<Longrightarrow> trie_check t d = Some (\<exists>p. prefix p d \<and> 0 < trie_lookup t p)"
proof (induction d arbitrary: t)
  case Nil
  obtain rc mn lv nx where t: "t = Trie rc mn lv nx" by (cases t)
  then show ?case by (auto simp: unat_gt_0)
next
  case (Cons c cs)
  obtain rc mn lv nx where t: "t = Trie rc mn lv nx" by (cases t)
  show ?case
  proof (cases "rc = 0")
    case False
    then have "0 < trie_lookup t []" using t by (simp add: unat_gt_0)
    then have "\<exists>p. prefix p (c # cs) \<and> 0 < trie_lookup t p" by (metis Nil_prefix)
    then show ?thesis using t False by simp
  next
    case True
    have pre: "(\<exists>p. prefix p (c # cs) \<and> 0 < trie_lookup t p) \<longleftrightarrow> (\<exists>p. prefix p cs \<and> 0 < trie_lookup t (c # p))"
      using t True by (auto simp: prefix_Cons)
    show ?thesis
    proof (cases "slot mn nx (unat c)")
      case (Some u)
      then have "trie_wf u" using Cons(2) t by (auto simp: trie_wf_Trie)
      moreover have "trie_check t (c # cs) = trie_check u cs"
        using t True Some by (auto simp: slot_def split: if_splits)
      ultimately show ?thesis unfolding pre using Cons(1)[of u] Some t by auto
    next
      case None
      have "trie_check t (c # cs) = Some False"
      proof (cases "length nx = 1")
        case one: True
        have "slot mn nx mn \<noteq> None" using Cons(2) t one by (auto simp: trie_wf_Trie table_ok_def)
        then have "unat c \<noteq> mn" using None by auto
        then show ?thesis using t True one by auto
      qed (use t True None in \<open>auto simp: slot_def split: if_splits\<close>)
      then show ?thesis unfolding pre using t None by simp
    qed
  qed
qed


text \<open>\<open>apply\<close>: every subscription is passed exactly once.\<close>

lemma those_map: "\<forall>x \<in> set xs. f x = Some (g x) \<Longrightarrow> those (map f xs) = Some (map g xs)"
  by (induction xs) auto

definition trie_keys :: "trie \<Rightarrow> bytes set" where
  "trie_keys t = {k. 0 < trie_lookup t k}"

lemma trie_keys_Trie:
  "trie_keys (Trie rc mn lv nx) = (if rc \<noteq> 0 then {[]} else {}) \<union>
     {c # k | c k u. slot mn nx (unat c) = Some u \<and> k \<in> trie_keys u}"
proof -
  have "k \<in> trie_keys (Trie rc mn lv nx) \<longleftrightarrow> k \<in> (if rc \<noteq> 0 then {[]} else {}) \<union>
     {c # k | c k u. slot mn nx (unat c) = Some u \<and> k \<in> trie_keys u}" for k
    by (cases k) (auto simp: trie_keys_def unat_gt_0 split: option.splits)
  then show ?thesis by blast
qed

lemma trie_apply_law:
  "trie_wf t \<Longrightarrow> \<exists>ks. trie_apply buff t = Some ks \<and> distinct ks \<and> set ks = (@) buff ` trie_keys t"
proof (induction buff t rule: trie_apply.induct)
  case (1 buff rc mn lv nx)
  have ok: "mn + length nx \<le> 256" using 1(3) by (simp add: trie_wf_Trie table_ok_def)
  define f where "f = (\<lambda>(i, x). case x of None \<Rightarrow> Some [] | Some t \<Rightarrow> trie_apply (buff @ [of_nat (mn + i)]) t)"
  define sub where "sub = concat (map (the \<circ> f) (enumerate 0 nx))"
  have u: "unat (of_nat (mn + i) :: byte) = mn + i" if "i < length nx" for i
    using that ok by (simp add: unat_of_nat del: of_nat_add)
  have each: "\<exists>ks. f (i, nx ! i) = Some ks \<and> distinct ks \<and>
      set ks = {buff @ of_nat (mn + i) # k | k u. nx ! i = Some u \<and> k \<in> trie_keys u}" if i: "i < length nx" for i
  proof (cases "nx ! i")
    case (Some u)
    have "trie_wf u" using 1(3) Some i slot_nth[of i nx mn] by (auto simp: trie_wf_Trie)
    then have "\<exists>ks. trie_apply (buff @ [of_nat (mn + i)]) u = Some ks \<and> distinct ks \<and>
      set ks = (@) (buff @ [of_nat (mn + i)]) ` trie_keys u"
      using 1(1)[of u] 1(2)[of "(i, Some u)" i "Some u" u] Some i
      by (cases "length nx = 1") (auto simp: in_set_enumerate_eq)
    then show ?thesis using Some by (auto simp: f_def)
  qed (simp add: f_def)
  have en: "z \<in> set (enumerate 0 nx) \<longleftrightarrow> (\<exists>i < length nx. z = (i, nx ! i))" for z
    by (cases z) (auto simp: in_set_enumerate_eq)
  have some: "\<forall>z \<in> set (enumerate 0 nx). f z = Some ((the \<circ> f) z)" using each en by fastforce
  have set_f: "set ((the \<circ> f) (i, nx ! i)) = {buff @ of_nat (mn + i) # k | k u. nx ! i = Some u \<and> k \<in> trie_keys u}"
    "distinct ((the \<circ> f) (i, nx ! i))" if "i < length nx" for i using each[OF that] by auto
  have "distinct sub"
    unfolding sub_def
  proof (rule distinct_concat_map)
    show "\<forall>x\<in>set (enumerate 0 nx). \<forall>y\<in>set (enumerate 0 nx). x \<noteq> y \<longrightarrow> set ((the \<circ> f) x) \<inter> set ((the \<circ> f) y) = {}"
    proof (intro ballI impI)
      fix x y assume xy: "x \<in> set (enumerate 0 nx)" "y \<in> set (enumerate 0 nx)" "x \<noteq> y"
      then obtain i j where i: "x = (i, nx ! i)" "i < length nx" and j: "y = (j, nx ! j)" "j < length nx"
        using en by blast
      then have "i \<noteq> j" using xy by auto
      then have "of_nat (mn + i) \<noteq> (of_nat (mn + j) :: byte)" using u[OF i(2)] u[OF j(2)] by (metis add_left_cancel)
      then show "set ((the \<circ> f) x) \<inter> set ((the \<circ> f) y) = {}"
        unfolding i(1) j(1) set_f(1)[OF i(2)] set_f(1)[OF j(2)] by (auto simp del: of_nat_add)
    qed
  qed (use en set_f in auto)
  moreover have "set sub = {buff @ c # k | c k u. slot mn nx (unat c) = Some u \<and> k \<in> trie_keys u}" (is "_ = ?R")
  proof -
    have "x \<in> set sub \<longleftrightarrow> (\<exists>i < length nx. \<exists>k u. x = buff @ of_nat (mn + i) # k \<and> nx ! i = Some u \<and> k \<in> trie_keys u)" for x
    proof -
      have "x \<in> set sub \<longleftrightarrow> (\<exists>i < length nx. x \<in> set ((the \<circ> f) (i, nx ! i)))"
        unfolding sub_def set_concat set_map by (auto simp: en simp del: o_apply)
      then show ?thesis by (simp add: set_f(1) del: o_apply of_nat_add cong: conj_cong)
    qed
    moreover have "x \<in> ?R \<longleftrightarrow> (\<exists>i < length nx. \<exists>k u. x = buff @ of_nat (mn + i) # k \<and> nx ! i = Some u \<and> k \<in> trie_keys u)" for x
    proof
      assume "x \<in> ?R"
      then obtain c k v where x: "x = buff @ c # k" "slot mn nx (unat c) = Some v" "k \<in> trie_keys v" by blast
      then have r: "mn \<le> unat c" "unat c < mn + length nx" "nx ! (unat c - mn) = Some v"
        using slot_Some_range[of mn nx "unat c"] by (auto simp: slot_def split: if_splits)
      then show "\<exists>i < length nx. \<exists>k u. x = buff @ of_nat (mn + i) # k \<and> nx ! i = Some u \<and> k \<in> trie_keys u"
        using x by (intro exI[of _ "unat c - mn"]) auto
    next
      assume "\<exists>i < length nx. \<exists>k u. x = buff @ of_nat (mn + i) # k \<and> nx ! i = Some u \<and> k \<in> trie_keys u"
      then obtain i k v where i: "i < length nx" "x = buff @ of_nat (mn + i) # k" "nx ! i = Some v" "k \<in> trie_keys v" by blast
      then have "slot mn nx (unat (of_nat (mn + i) :: byte)) = Some v" using u[OF i(1)] slot_nth[OF i(1), of mn] by simp
      then show "x \<in> ?R" using i by blast
    qed
    ultimately show ?thesis by blast
  qed
  moreover have "trie_apply buff (Trie rc mn lv nx) = Some ((if rc \<noteq> 0 then [buff] else []) @ sub)"
  proof (cases "length nx = 1")
    case True
    then obtain x where x: "nx = [x]" by (cases nx) auto
    have "x \<noteq> None" using 1(3) x by (auto simp: trie_wf_Trie table_ok_def slot_def)
    then show ?thesis using x some by (auto simp: sub_def f_def enumerate_eq_zip)
  next
    case False
    then show ?thesis unfolding trie_apply.simps f_def[symmetric] sub_def using those_map[OF some] by (simp add: comp_def)
  qed
  ultimately show ?case unfolding trie_keys_Trie by (auto simp: image_Un)
qed


subsection \<open>The interface of a subscription store\<close>

text \<open>What a socket that filters by prefix needs of its subscription store: the two updates, the
  matching test and the enumeration, in terms of a reference count for each key.\<close>

locale subscription_store =
  fixes empty :: 't
    and inv :: "'t \<Rightarrow> bool"
    and refs :: "'t \<Rightarrow> bytes \<Rightarrow> nat"
    and add :: "bytes \<Rightarrow> 't \<Rightarrow> (bool \<times> 't) option"
    and rm :: "bytes \<Rightarrow> 't \<Rightarrow> (bool \<times> 't) option"
    and check :: "'t \<Rightarrow> bytes \<Rightarrow> bool option"
    and subs :: "'t \<Rightarrow> bytes list option"
  assumes empty: "inv empty" "refs empty k = 0"
    and add: "inv t \<Longrightarrow> refs t k + 1 < 2 ^ 32 \<Longrightarrow>
      \<exists>t'. add k t = Some (refs t k = 0, t') \<and> inv t' \<and> refs t' = (refs t)(k := refs t k + 1)"
    and rm: "inv t \<Longrightarrow>
      \<exists>t'. rm k t = Some (refs t k = 1, t') \<and> inv t' \<and> refs t' = (refs t)(k := refs t k - 1)"
    and check: "inv t \<Longrightarrow> check t d = Some (\<exists>p. prefix p d \<and> 0 < refs t p)"
    and subs: "inv t \<Longrightarrow> \<exists>ks. subs t = Some ks \<and> distinct ks \<and> set ks = {k. 0 < refs t k}"
begin

fun update :: "bool \<times> bytes \<Rightarrow> 't \<Rightarrow> (bool \<times> 't) option" where
  "update (True, k) t = add k t"
| "update (False, k) t = rm k t"

fun run :: "(bool \<times> bytes) list \<Rightarrow> 't \<Rightarrow> (bool list \<times> 't) option" where
  "run [] t = Some ([], t)"
| "run (u # us) t = do { (r, t) \<leftarrow> update u t; (rs, t) \<leftarrow> run us t; Some (r # rs, t) }"

end

text \<open>The reference: the number of subscriptions of each key after a sequence of subscriptions
  (\<open>True\<close>) and cancellations, where a cancellation without a subscription has no effect, and the
  answers, whether the set of subscribed keys changed.\<close>

fun net_refs :: "(bool \<times> bytes) list \<Rightarrow> (bytes \<Rightarrow> nat) \<Rightarrow> bytes \<Rightarrow> nat" where
  "net_refs [] m = m"
| "net_refs ((b, k) # us) m = net_refs us (m(k := if b then m k + 1 else m k - 1))"

fun net_answers :: "(bool \<times> bytes) list \<Rightarrow> (bytes \<Rightarrow> nat) \<Rightarrow> bool list" where
  "net_answers [] m = []"
| "net_answers ((b, k) # us) m =
     (m k = (if b then 0 else 1)) # net_answers us (m(k := if b then m k + 1 else m k - 1))"

context subscription_store
begin

lemma run_refs:
  "inv t \<Longrightarrow> (\<And>k. refs t k + length us < 2 ^ 32) \<Longrightarrow>
   \<exists>t'. run us t = Some (net_answers us (refs t), t') \<and> inv t' \<and> refs t' = net_refs us (refs t)"
proof (induction us arbitrary: t)
  case (Cons u us)
  obtain b k where u: "u = (b, k)" by (cases u)
  have b: "refs t k + 1 < 2 ^ 32" using Cons.prems(2)[of k] by simp
  obtain t' where t': "update u t = Some (refs t k = (if b then 0 else 1), t')" "inv t'"
    "refs t' = (refs t)(k := if b then refs t k + 1 else refs t k - 1)"
  proof (cases b)
    case True
    obtain t' where "add k t = Some (refs t k = 0, t') \<and> inv t' \<and> refs t' = (refs t)(k := refs t k + 1)"
      using add[OF Cons.prems(1) b] by (rule exE)
    then show ?thesis using that u True by simp
  next
    case False
    obtain t' where "rm k t = Some (refs t k = 1, t') \<and> inv t' \<and> refs t' = (refs t)(k := refs t k - 1)"
      using rm[OF Cons.prems(1), of k] by (rule exE)
    then show ?thesis using that u False by simp
  qed
  have "refs t' e + length us < 2 ^ 32" for e
    using Cons.prems(2)[of e] unfolding t'(3) by auto
  from Cons.IH[OF t'(2) this] obtain t'' where
    "run us t' = Some (net_answers us (refs t'), t'')" "inv t''" "refs t'' = net_refs us (refs t')" by blast
  then show ?case using t' u by simp
qed (simp add: empty)

lemma run_correct:
  assumes "length us < 2 ^ 32"
  shows "\<exists>t. run us empty = Some (net_answers us (\<lambda>_. 0), t) \<and>
    (\<forall>d. check t d = Some (\<exists>p. prefix p d \<and> 0 < net_refs us (\<lambda>_. 0) p)) \<and>
    (\<exists>ks. subs t = Some ks \<and> distinct ks \<and> set ks = {k. 0 < net_refs us (\<lambda>_. 0) k})"
proof -
  have e: "refs empty = (\<lambda>_. 0)" using empty(2) by blast
  then obtain t where t: "run us empty = Some (net_answers us (\<lambda>_. 0), t)" "inv t" "refs t = net_refs us (\<lambda>_. 0)"
    using run_refs[OF empty(1), of us] assms by auto
  then show ?thesis using check[OF t(2)] subs[OF t(2)] by auto
qed

end

interpretation ts: subscription_store trie_new trie_wf trie_lookup trie_add trie_rm trie_check "trie_apply []"
proof
  fix t k d
  show "trie_wf t \<Longrightarrow> trie_lookup t k + 1 < 2 ^ 32 \<Longrightarrow>
      \<exists>t'. trie_add k t = Some (trie_lookup t k = 0, t') \<and> trie_wf t' \<and>
        trie_lookup t' = (trie_lookup t)(k := trie_lookup t k + 1)"
    using trie_add_law by blast
  show "trie_wf t \<Longrightarrow> \<exists>ks. trie_apply [] t = Some ks \<and> distinct ks \<and> set ks = {k. 0 < trie_lookup t k}"
    using trie_apply_law[of t "[]"] by (simp add: trie_keys_def)
qed (use trie_rm_law trie_check_law in auto)

text \<open>The sequence of updates on the model's own operations.\<close>

fun trie_run :: "(bool \<times> bytes) list \<Rightarrow> trie \<Rightarrow> (bool list \<times> trie) option" where
  "trie_run [] t = Some ([], t)"
| "trie_run ((b, k) # us) t =
     do { (r, t) \<leftarrow> if b then trie_add k t else trie_rm k t; (rs, t) \<leftarrow> trie_run us t; Some (r # rs, t) }"

lemma trie_run_eq: "trie_run us t = ts.run us t"
proof (induction us arbitrary: t)
  case (Cons u us)
  show ?case by (cases u; cases "fst u") (simp_all add: Cons)
qed simp

text \<open>C13. After any sequence of fewer than \<open>2 ^ 32\<close> subscriptions and cancellations the subscription
  trie has met no failed assertion and no null node; every \<open>add\<close> and \<open>rm\<close> answered whether the set
  of subscribed prefixes changed; \<open>check\<close> accepts exactly the messages with a subscribed prefix
  (one with more subscriptions than cancellations, cancellations of nothing not counted); and
  \<open>apply\<close> visits every subscribed prefix exactly once.\<close>

theorem trie_implements_prefix_multiset:
  assumes "length us < 2 ^ 32"
  shows "\<exists>t. trie_run us trie_new = Some (net_answers us (\<lambda>_. 0), t) \<and>
    (\<forall>d. trie_check t d = Some (\<exists>p. prefix p d \<and> 0 < net_refs us (\<lambda>_. 0) p)) \<and>
    (\<exists>ks. trie_apply [] t = Some ks \<and> distinct ks \<and> set ks = {k. 0 < net_refs us (\<lambda>_. 0) k})"
  unfolding trie_run_eq by (rule ts.run_correct[OF assms])

definition sample_updates :: "(bool \<times> bytes) list" where
  "sample_updates = [(True, [10, 20]), (True, [10, 200]), (True, [10, 20]), (False, [10, 20]), (True, [3]), (False, [3])]"

theorem trie_implements_prefix_multiset_witness:
  "\<exists>t. trie_run sample_updates trie_new = Some ([True, True, False, False, True, True], t) \<and>
     trie_check t [10, 200, 7] = Some True"
proof -
  have len: "length sample_updates < 2 ^ 32" by (simp add: sample_updates_def)
  have ans: "net_answers sample_updates (\<lambda>_. 0) = [True, True, False, False, True, True]"
    by (simp add: sample_updates_def)
  have "0 < net_refs sample_updates (\<lambda>_. 0) [10, 200]" by (simp add: sample_updates_def)
  then have "\<exists>p. prefix p [10, 200, 7] \<and> 0 < net_refs sample_updates (\<lambda>_. 0) p"
    by (intro exI[of _ "[10, 200]"]) simp
  then show ?thesis using trie_implements_prefix_multiset[OF len] unfolding ans by auto
qed

end
