(* ===== verification/Zmq_Xsub.thy ===== *)
theory Zmq_Xsub
  imports Zmq_Dist Zmq_Whole Zmq_Trie
begin

text \<open>
  The subscriber sockets \<open>xsub_t\<close> and \<open>sub_t\<close> of \<open>src/libzmq/src/xsub.cpp\<close> and \<open>sub.cpp\<close>: inbound
  messages are taken in turn from the pipes (\<open>fq_t\<close>) and, for a \<open>SUB\<close> socket, filtered by the trie of
  subscriptions; subscriptions and cancellations are sent upstream to every pipe (\<open>dist_t\<close>).  Of the
  socket base only the two options that these files read are kept.  The theorems: a subscription
  changes the trie by exactly that key and reaches the pipes without failing, a new pipe is told every
  subscription, and receiving returns the messages that match and never stops inside a message.
\<close>

record xsub_t =
  xsub_fq :: fq_t
  xsub_dist :: dist_t
  subscriptions :: trie
  has_message :: bool
  message :: msg_t
  xsub_more :: bool
  xsub_filter :: bool
  invert_matching :: bool

definition xsub_new :: xsub_t where
  "xsub_new = \<lparr>xsub_fq = fq_new, xsub_dist = dist_new, subscriptions = trie_new, has_message = False,
     message = msg_init msg_raw, xsub_more = False, xsub_filter = False, invert_matching = False\<rparr>"

definition xsub_destroy :: "xsub_t \<Rightarrow> 'z world_scheme \<Rightarrow> 'z world_scheme option" where
  "xsub_destroy s w =
     do {
       (rc, _, w) \<leftarrow> msg_close (message s) w;
       zmq_assert (rc = Rc_ok);
       dist_destroy (xsub_dist s);
       fq_destroy (xsub_fq s);
       Some w
     }"

text \<open>A full pipe drops the subscription.\<close>

definition send_subscription :: "nat \<Rightarrow> bytes \<Rightarrow> 'z world_scheme \<Rightarrow> 'z world_scheme option" where
  "send_subscription p k w =
     do {
       (m, w) \<leftarrow> msg_of (1 # k) msg_raw w;
       (sent, m, w) \<leftarrow> pipe_write p m w;
       (if \<not> sent then do { (_, _, w) \<leftarrow> msg_close m w; Some w } else Some w)
     }"

fun send_subscriptions :: "nat \<Rightarrow> bytes list \<Rightarrow> 'z world_scheme \<Rightarrow> 'z world_scheme option" where
  "send_subscriptions p [] w = Some w"
| "send_subscriptions p (k # ks) w = do { w \<leftarrow> send_subscription p k w; send_subscriptions p ks w }"

text \<open>\<open>apply\<close> of the trie calls \<open>send_subscription\<close> with every key in turn.\<close>

definition xsub_hiccuped :: "nat \<Rightarrow> xsub_t \<Rightarrow> 'z world_scheme \<Rightarrow> 'z world_scheme option" where
  "xsub_hiccuped p s w =
     do {
       ks \<leftarrow> trie_apply [] (subscriptions s);
       w \<leftarrow> send_subscriptions p ks w;
       pipe_flush p w
     }"

definition xsub_attach_pipe :: "nat \<Rightarrow> xsub_t \<Rightarrow> 'z world_scheme \<Rightarrow> (xsub_t \<times> 'z world_scheme) option" where
  "xsub_attach_pipe p s w =
     do {
       q \<leftarrow> fq_attach p (xsub_fq s);
       d \<leftarrow> dist_attach p (xsub_dist s);
       ks \<leftarrow> trie_apply [] (subscriptions s);
       w \<leftarrow> send_subscriptions p ks w;
       w \<leftarrow> pipe_flush p w;
       Some (s\<lparr>xsub_fq := q, xsub_dist := d\<rparr>, w)
     }"

definition xsub_read_activated :: "nat \<Rightarrow> xsub_t \<Rightarrow> xsub_t option" where
  "xsub_read_activated p s = do { q \<leftarrow> fq_activated p (xsub_fq s); Some (s\<lparr>xsub_fq := q\<rparr>) }"

definition xsub_write_activated :: "nat \<Rightarrow> xsub_t \<Rightarrow> xsub_t option" where
  "xsub_write_activated p s = do { d \<leftarrow> dist_activated p (xsub_dist s); Some (s\<lparr>xsub_dist := d\<rparr>) }"

definition xsub_pipe_terminated :: "nat \<Rightarrow> xsub_t \<Rightarrow> 'z world_scheme \<Rightarrow> xsub_t option" where
  "xsub_pipe_terminated p s w =
     do {
       q \<leftarrow> fq_pipe_terminated p (xsub_fq s) w;
       d \<leftarrow> dist_pipe_terminated p (xsub_dist s);
       Some (s\<lparr>xsub_fq := q, xsub_dist := d\<rparr>)
     }"

definition send_upstream :: "msg_t \<Rightarrow> xsub_t \<Rightarrow> 'z world_scheme \<Rightarrow> (rc \<times> msg_t \<times> xsub_t \<times> 'z world_scheme) option" where
  "send_upstream m s w =
     do { (m, d, w) \<leftarrow> send_to_all m (xsub_dist s) w; Some (Rc_ok, m, s\<lparr>xsub_dist := d\<rparr>, w) }"

definition xsub_send :: "msg_t \<Rightarrow> xsub_t \<Rightarrow> 'z world_scheme \<Rightarrow> (rc \<times> msg_t \<times> xsub_t \<times> 'z world_scheme) option" where
  "xsub_send m s w =
     do {
       d \<leftarrow> msg_body m w;
       (if length d > 0 \<and> hd d = 1
        then do {
          (_, t) \<leftarrow> trie_add (tl d) (subscriptions s);
          send_upstream m (s\<lparr>subscriptions := t\<rparr>) w
        }
        else if length d > 0 \<and> hd d = 0
        then do {
          (last, t) \<leftarrow> trie_rm (tl d) (subscriptions s);
          s \<leftarrow> Some (s\<lparr>subscriptions := t\<rparr>);
          (if last then send_upstream m s w
           else do {
             (rc, m, w) \<leftarrow> msg_close m w;
             zmq_assert (rc = Rc_ok);
             Some (Rc_ok, msg_init m, s, w)
           })
        }
        else send_upstream m s w)
     }"

definition xsub_has_out :: bool where
  "xsub_has_out = True"

definition xsub_match :: "msg_t \<Rightarrow> xsub_t \<Rightarrow> 'z msg_store_scheme \<Rightarrow> bool option" where
  "xsub_match m s w =
     do { d \<leftarrow> msg_body m w; matching \<leftarrow> trie_check (subscriptions s) d; Some (matching \<noteq> invert_matching s) }"

text \<open>The remaining parts of a message that does not match are read and dropped.\<close>

partial_function (option) pop_rest ::
  "msg_t \<Rightarrow> fq_t \<Rightarrow> 'z world_scheme \<Rightarrow> (msg_t \<times> fq_t \<times> 'z world_scheme) option" where
  "pop_rest m q w =
     (if has_flag m flag_more
      then do {
        (rc, m, q, w) \<leftarrow> fq_recv m q w;
        zmq_assert (rc = Rc_ok);
        pop_rest m q w
      }
      else Some (m, q, w))"

partial_function (option) xsub_recv_loop ::
  "msg_t \<Rightarrow> xsub_t \<Rightarrow> 'z world_scheme \<Rightarrow> (rc \<times> msg_t \<times> xsub_t \<times> 'z world_scheme) option" where
  "xsub_recv_loop m s w =
     do {
       (rc, m, q, w) \<leftarrow> fq_recv m (xsub_fq s) w;
       s \<leftarrow> Some (s\<lparr>xsub_fq := q\<rparr>);
       (if rc \<noteq> Rc_ok then Some (rc, m, s, w)
        else do {
          pass \<leftarrow> (if xsub_more s \<or> \<not> xsub_filter s then Some True else xsub_match m s w);
          (if pass then Some (Rc_ok, m, s\<lparr>xsub_more := has_flag m flag_more\<rparr>, w)
           else do {
             (m, q, w) \<leftarrow> pop_rest m q w;
             xsub_recv_loop m (s\<lparr>xsub_fq := q\<rparr>) w
           })
        })
     }"

declare pop_rest.simps [code] xsub_recv_loop.simps [code]

definition xsub_recv :: "msg_t \<Rightarrow> xsub_t \<Rightarrow> 'z world_scheme \<Rightarrow> (rc \<times> msg_t \<times> xsub_t \<times> 'z world_scheme) option" where
  "xsub_recv m s w =
     (if has_message s
      then do {
        (rc, m, src, w) \<leftarrow> msg_move m (message s) w;
        zmq_assert (rc = Rc_ok);
        Some (Rc_ok, m, s\<lparr>message := src, has_message := False, xsub_more := has_flag m flag_more\<rparr>, w)
      }
      else xsub_recv_loop m s w)"

text \<open>\<open>xhas_in\<close> receives into the member \<open>message\<close>, which a later receive returns.\<close>

partial_function (option) xsub_has_in_loop :: "xsub_t \<Rightarrow> 'z world_scheme \<Rightarrow> (bool \<times> xsub_t \<times> 'z world_scheme) option" where
  "xsub_has_in_loop s w =
     do {
       (rc, m, q, w) \<leftarrow> fq_recv (message s) (xsub_fq s) w;
       s \<leftarrow> Some (s\<lparr>message := m, xsub_fq := q\<rparr>);
       (if rc \<noteq> Rc_ok then do { zmq_assert (rc = Rc_err EAGAIN); Some (False, s, w) }
        else do {
          pass \<leftarrow> (if \<not> xsub_filter s then Some True else xsub_match m s w);
          (if pass then Some (True, s\<lparr>has_message := True\<rparr>, w)
           else do {
             (m, q, w) \<leftarrow> pop_rest m q w;
             xsub_has_in_loop (s\<lparr>message := m, xsub_fq := q\<rparr>) w
           })
        })
     }"

declare xsub_has_in_loop.simps [code]

definition xsub_has_in :: "xsub_t \<Rightarrow> 'z world_scheme \<Rightarrow> (bool \<times> xsub_t \<times> 'z world_scheme) option" where
  "xsub_has_in s w =
     (if xsub_more s then Some (True, s, w)
      else if has_message s then Some (True, s, w)
      else xsub_has_in_loop s w)"

definition xsub_get_credential :: "xsub_t \<Rightarrow> 'z world_scheme \<Rightarrow> bytes option" where
  "xsub_get_credential s w = fq_get_credential (xsub_fq s) w"

subsection \<open>The \<open>SUB\<close> socket\<close>

definition sub_new :: xsub_t where
  "sub_new = xsub_new\<lparr>xsub_filter := True\<rparr>"

definition opt_subscribe :: int where "opt_subscribe = 6"
definition opt_unsubscribe :: int where "opt_unsubscribe = 7"

definition sub_setsockopt :: "int \<Rightarrow> bytes \<Rightarrow> xsub_t \<Rightarrow> 'z world_scheme \<Rightarrow> (rc \<times> xsub_t \<times> 'z world_scheme) option" where
  "sub_setsockopt opt k s w =
     (if opt \<noteq> opt_subscribe \<and> opt \<noteq> opt_unsubscribe then Some (Rc_err EINVAL, s, w)
      else do {
        (m, w) \<leftarrow> msg_of ((if opt = opt_subscribe then 1 else 0) # k) msg_raw w;
        (rc, m, s, w) \<leftarrow> xsub_send m s w;
        (rc, w) \<leftarrow> close_and_return m rc w;
        Some (rc, s, w)
      })"

definition sub_send :: "msg_t \<Rightarrow> xsub_t \<Rightarrow> 'z world_scheme \<Rightarrow> (rc \<times> msg_t \<times> xsub_t \<times> 'z world_scheme) option" where
  "sub_send m s w = Some (Rc_err ENOTSUP, m, s, w)"

definition sub_has_out :: bool where
  "sub_has_out = False"

subsection \<open>Subscribing\<close>

definition fits :: "bytes \<Rightarrow> bool" where
  "fits d \<longleftrightarrow> sizeof_content + length d < 2 ^ 64"

definition xsub_inv :: "xsub_t \<Rightarrow> bool" where
  "xsub_inv s \<longleftrightarrow> fq_inv (xsub_fq s) \<and> dist_inv (xsub_dist s) \<and> fq_all (xsub_fq s) = all_set (xsub_dist s) \<and>
     trie_wf (subscriptions s) \<and> (\<forall>k. 0 < trie_lookup (subscriptions s) k \<longrightarrow> fits (1 # k)) \<and>
     sendable (message s)"

text \<open>\<open>one_more A w w'\<close>: the pipes of \<open>A\<close>, and only they, have one more message written.\<close>

definition one_more :: "nat set \<Rightarrow> 'z world_scheme \<Rightarrow> 'z world_scheme \<Rightarrow> bool" where
  "one_more A w w' \<longleftrightarrow> (\<forall>p x. pipes w p = Some x \<longrightarrow>
     (\<exists>x'. pipes w' p = Some x' \<and> msgs_written x' = msgs_written x + (if p \<in> A then 1 else 0)))"

lemma one_more_written:
  "written_to A m w1 w2 \<Longrightarrow> counted m \<Longrightarrow> pipes w1 = pipes w \<Longrightarrow> pipes w' = pipes w2 \<Longrightarrow> one_more A w w'"
  by (simp add: one_more_def written_to_def)

lemma one_more_empty: "pipes w' = pipes w \<Longrightarrow> one_more {} w w'"
  by (simp add: one_more_def)

lemma no_flags: "msg_flags m = 0 \<Longrightarrow> \<not> has_flag m flag_more \<and> \<not> has_flag m flag_shared \<and> counted m"
  by (simp add: has_flag_def counted_def is_routing_id_def flag_routing_id_def)

lemma unshared_room: "\<not> has_flag m flag_shared \<Longrightarrow> n < 2 ^ 31 \<Longrightarrow> refs_room (n - 1) m st"
  by (simp add: refs_room_def)

text \<open>What an update of the subscriptions does: to the count of each key, and which changes go upstream.\<close>

definition new_refs :: "bool \<Rightarrow> bytes \<Rightarrow> (bytes \<Rightarrow> nat) \<Rightarrow> bytes \<Rightarrow> nat" where
  "new_refs b k f = f(k := if b then f k + 1 else f k - 1)"

definition goes_upstream :: "bool \<Rightarrow> bytes \<Rightarrow> (bytes \<Rightarrow> nat) \<Rightarrow> bool" where
  "goes_upstream b k f \<longleftrightarrow> b \<or> f k = 1"

context linked_pipes
begin

lemma send_subscription_ok:
  assumes "inv w E" "p \<in> P" "fits (1 # k)"
  shows "\<exists>w'. send_subscription p k w = Some w' \<and> inv w' E \<and> (\<forall>c. c \<noteq> p \<longrightarrow> pipes w' c = pipes w c)"
proof -
  obtain m w1 where m: "msg_of (1 # k) msg_raw w = Some (m, w1)" "inv w1 (add_mset m E)" "sendable m" "pipes w1 = pipes w"
    using inv_make[OF assms(1), of "1 # k" msg_raw] assms(3) unfolding fits_def by blast
  obtain r w2 where r: "pipe_write p m w1 = Some (r, m, w2)" "inv w2 (if r then E else add_mset m E)"
    "\<forall>c. c \<noteq> p \<longrightarrow> pipes w2 c = pipes w1 c"
    using inv_write[OF m(2) assms(2) m(3)] by blast
  show ?thesis
  proof (cases r)
    case True
    then show ?thesis using m r by (auto simp: send_subscription_def)
  next
    case False
    then have i2: "inv w2 (add_mset m E)" using r(2) by simp
    obtain m' w' where "msg_close m w2 = Some (Rc_ok, m', w')" "inv w' E" "pipes w' = pipes w2"
      using inv_close[OF i2 m(3)] by blast
    then show ?thesis using m r False by (auto simp: send_subscription_def)
  qed
qed

lemma send_subscriptions_ok:
  "inv w E \<Longrightarrow> p \<in> P \<Longrightarrow> \<forall>k \<in> set ks. fits (1 # k) \<Longrightarrow>
   \<exists>w'. send_subscriptions p ks w = Some w' \<and> inv w' E \<and> (\<forall>c. c \<noteq> p \<longrightarrow> pipes w' c = pipes w c)"
proof (induction ks arbitrary: w)
  case (Cons k ks)
  then obtain w1 where w1: "send_subscription p k w = Some w1" "inv w1 E" "\<forall>c. c \<noteq> p \<longrightarrow> pipes w1 c = pipes w c"
    using send_subscription_ok[of w E p k] by auto
  then show ?case using Cons.IH[OF w1(2) Cons.prems(2)] Cons.prems(3) by fastforce
qed simp

lemma xsub_hiccuped_ok:
  assumes "xsub_inv s" "inv w E" "p \<in> P"
  shows "\<exists>ks w1 w'. trie_apply [] (subscriptions s) = Some ks \<and> distinct ks \<and>
    set ks = {k. 0 < trie_lookup (subscriptions s) k} \<and> send_subscriptions p ks w = Some w1 \<and>
    pipe_flush p w1 = Some w' \<and> xsub_hiccuped p s w = Some w' \<and> inv w' E \<and> (\<forall>c. c \<noteq> p \<longrightarrow> pipes w' c = pipes w c)"
proof -
  obtain ks where ks: "trie_apply [] (subscriptions s) = Some ks" "distinct ks" "set ks = {k. 0 < trie_lookup (subscriptions s) k}"
    using ts.subs[of "subscriptions s"] assms(1) by (auto simp: xsub_inv_def)
  then have "\<forall>k \<in> set ks. fits (1 # k)" using assms(1) by (simp add: xsub_inv_def)
  then obtain w1 where w1: "send_subscriptions p ks w = Some w1" "inv w1 E" "\<forall>c. c \<noteq> p \<longrightarrow> pipes w1 c = pipes w c"
    using send_subscriptions_ok[OF assms(2,3)] by blast
  obtain w' where "pipe_flush p w1 = Some w'" "inv w' E" "pipes w' = pipes w1" using inv_flush[OF w1(2) assms(3)] by blast
  then show ?thesis using ks w1 by (auto simp: xsub_hiccuped_def)
qed

lemma send_upstream_ok:
  assumes "xsub_inv s" "all_set (xsub_dist s) \<subseteq> P" "sendable m" "\<not> has_flag m flag_shared" "active (xsub_dist s) < 2 ^ 31"
    "inv w (add_mset m E)"
  shows "\<exists>m' d' w'. send_upstream m s w = Some (Rc_ok, msg_init m', s\<lparr>xsub_dist := d'\<rparr>, w') \<and> inv w' E \<and>
    xsub_inv (s\<lparr>xsub_dist := d'\<rparr>) \<and> all_set d' = all_set (xsub_dist s) \<and> matching_set d' \<subseteq> active_set (xsub_dist s) \<and>
    written_to (matching_set d') m w w'"
proof -
  have d: "dist_inv (xsub_dist s)" using assms(1) by (simp add: xsub_inv_def)
  have r: "refs_room (active (xsub_dist s) - 1) m w" by (rule unshared_room[OF assms(4,5)])
  obtain m' d' w' where "send_to_all m (xsub_dist s) w = Some (msg_init m', d', w')" "inv w' E" "dist_inv d'"
    "matching_set d' \<subseteq> active_set (xsub_dist s)" "written_to (matching_set d') m w w'" "all_set d' = all_set (xsub_dist s)"
    using send_to_all_ok[OF d assms(2,3,6) r] by blast
  then show ?thesis using assms(1) by (auto simp: send_upstream_def xsub_inv_def)
qed

lemma sub_setsockopt_ok:
  fixes k :: bytes and b :: bool
  defines "opt \<equiv> if b then opt_subscribe else opt_unsubscribe"
  assumes s: "xsub_inv s" "all_set (xsub_dist s) \<subseteq> P" "active (xsub_dist s) < 2 ^ 31"
    and w: "inv w (add_mset (message s) E)" and k: "fits (1 # k)" "b \<Longrightarrow> trie_lookup (subscriptions s) k + 1 < 2 ^ 32"
  shows "\<exists>s' w' A. sub_setsockopt opt k s w = Some (Rc_ok, s', w') \<and> xsub_inv s' \<and>
    inv w' (add_mset (message s') E) \<and> all_set (xsub_dist s') = all_set (xsub_dist s) \<and>
    trie_lookup (subscriptions s') = new_refs b k (trie_lookup (subscriptions s)) \<and>
    A \<subseteq> (if goes_upstream b k (trie_lookup (subscriptions s)) then active_set (xsub_dist s) else {}) \<and> one_more A w w'"
proof -
  let ?f = "trie_lookup (subscriptions s)" and ?E = "add_mset (message s) E"
  define d where "d = (if b then 1 else 0 :: byte) # k"
  have "sizeof_content + length d < 2 ^ 64" using k(1) by (simp add: fits_def d_def)
  then obtain m w1 where m: "msg_of d msg_raw w = Some (m, w1)" "inv w1 (add_mset m ?E)" "sendable m"
    "msg_body m w1 = Some d" "msg_flags m = 0" "pipes w1 = pipes w" using inv_make[OF w] by blast
  note fl = no_flags[OF m(5)]
  have wf: "trie_wf (subscriptions s)" using s(1) by (simp add: xsub_inv_def)
  obtain r t where t: "(if b then trie_add k (subscriptions s) else trie_rm k (subscriptions s)) = Some (r, t)"
    "trie_wf t" "trie_lookup t = new_refs b k ?f" "goes_upstream b k ?f = (b \<or> r)"
    using trie_add_law[OF wf k(2)] trie_rm_law[OF wf, of k] by (cases b) (auto simp: new_refs_def goes_upstream_def)
  let ?s = "s\<lparr>subscriptions := t\<rparr>"
  have s1: "xsub_inv ?s" "all_set (xsub_dist ?s) \<subseteq> P" "active (xsub_dist ?s) < 2 ^ 31"
    using s t(2,3) k(1) by (auto simp: xsub_inv_def new_refs_def)
  have "\<exists>m' s' w2 A. xsub_send m s w1 = Some (Rc_ok, msg_init m', s', w2) \<and> xsub_inv s' \<and> inv w2 ?E \<and>
    message s' = message s \<and> subscriptions s' = t \<and> all_set (xsub_dist s') = all_set (xsub_dist s) \<and>
    A \<subseteq> (if goes_upstream b k ?f then active_set (xsub_dist s) else {}) \<and> one_more A w w2"
  proof (cases "b \<or> r")
    case True
    then have e: "xsub_send m s w1 = send_upstream m ?s w1" using m(4) t(1) by (auto simp: xsub_send_def d_def)
    obtain m' d' w2 where u: "send_upstream m ?s w1 = Some (Rc_ok, msg_init m', ?s\<lparr>xsub_dist := d'\<rparr>, w2)" "inv w2 ?E"
      "xsub_inv (?s\<lparr>xsub_dist := d'\<rparr>)" "all_set d' = all_set (xsub_dist s)" "matching_set d' \<subseteq> active_set (xsub_dist s)"
      "written_to (matching_set d') m w1 w2"
      using send_upstream_ok[OF s1(1,2) m(3) _ s1(3) m(2)] fl by auto
    have "one_more (matching_set d') w w2" by (rule one_more_written[OF u(6)]) (use fl m(6) in simp_all)
    then show ?thesis using e u True t(4)
      by (intro exI[of _ m'] exI[of _ "?s\<lparr>xsub_dist := d'\<rparr>"] exI[of _ w2] exI[of _ "matching_set d'"]) simp
  next
    case False
    obtain m' w2 where c: "msg_close m w1 = Some (Rc_ok, m', w2)" "inv w2 ?E" "pipes w2 = pipes w1"
      using inv_close[OF m(2,3)] by blast
    then have "xsub_send m s w1 = Some (Rc_ok, msg_init m', ?s, w2)"
      using m(4) t(1) False by (simp add: xsub_send_def d_def)
    moreover have "one_more {} w w2" using c(3) m(6) by (simp add: one_more_empty)
    ultimately show ?thesis using c(2) s1(1) by fastforce
  qed
  then obtain m' s' w2 A where x: "xsub_send m s w1 = Some (Rc_ok, msg_init m', s', w2)" "xsub_inv s'" "inv w2 ?E"
    "message s' = message s" "subscriptions s' = t" "all_set (xsub_dist s') = all_set (xsub_dist s)"
    "A \<subseteq> (if goes_upstream b k ?f then active_set (xsub_dist s) else {})" "one_more A w w2" by blast
  have "inv w2 (add_mset (msg_init m') ?E)" using inv_plain[of "{#msg_init m'#}" w2 ?E] x(3) by simp
  then obtain m3 w3 where c: "msg_close (msg_init m') w2 = Some (Rc_ok, m3, w3)" "inv w3 ?E" "pipes w3 = pipes w2"
    using inv_close[of w2 "msg_init m'" ?E] by auto
  have d: "(if opt = opt_subscribe then 1 else 0) # k = d" "opt = opt_subscribe \<or> opt = opt_unsubscribe"
    by (simp_all add: opt_def d_def opt_subscribe_def opt_unsubscribe_def)
  have "sub_setsockopt opt k s w = Some (Rc_ok, s', w3)"
    using d(2) m(1) x(1) c(1) unfolding sub_setsockopt_def d(1) by (auto simp: close_and_return_def)
  moreover have "one_more A w w3" using x(8) c(3) by (simp add: one_more_def)
  ultimately show ?thesis using x t(3) c(2) by metis
qed

lemma xsub_attach_ok:
  assumes "xsub_inv s" "inv w E" "p \<in> P" "p \<notin> all_set (xsub_dist s)"
  shows "\<exists>s' w'. xsub_attach_pipe p s w = Some (s', w') \<and> xsub_inv s' \<and> inv w' E \<and>
    all_set (xsub_dist s') = insert p (all_set (xsub_dist s)) \<and> subscriptions s' = subscriptions s \<and> message s' = message s \<and>
    has_message s' = has_message s \<and> fq_more (xsub_fq s') = fq_more (xsub_fq s)"
proof -
  have v: "fq_inv (xsub_fq s)" "p \<notin> fq_all (xsub_fq s)" "dist_inv (xsub_dist s)" using assms(1,4) by (auto simp: xsub_inv_def)
  obtain q where q: "fq_attach p (xsub_fq s) = Some q" "fq_inv q" "fq_all q = insert p (fq_all (xsub_fq s))"
    "fq_more q = fq_more (xsub_fq s)" using fq_attach_ok[OF v(1,2)] by blast
  obtain d where d: "dist_attach p (xsub_dist s) = Some d" "dist_inv d" "all_set d = insert p (all_set (xsub_dist s))"
    using attach_refines[OF v(3) assms(4)] by blast
  obtain ks w1 w' where k: "trie_apply [] (subscriptions s) = Some ks" "send_subscriptions p ks w = Some w1"
    "pipe_flush p w1 = Some w'" "inv w' E" using xsub_hiccuped_ok[OF assms(1-3)] by blast
  have "xsub_inv (s\<lparr>xsub_fq := q, xsub_dist := d\<rparr>)" using assms(1) q d by (simp add: xsub_inv_def)
  then show ?thesis using q d k by (simp add: xsub_attach_pipe_def)
qed

end

lemma xsub_new_inv: "xsub_inv xsub_new" "xsub_inv sub_new"
  by (simp_all add: xsub_inv_def xsub_new_def sub_new_def fq_new_inv dist_new_inv)
    (simp_all add: fq_new_def dist_new_def array_new_def)


text \<open>A \<open>SUB\<close> socket attached to the pipe 0 of \<open>pair_0\<close>.\<close>

definition sub_one :: "xsub_t \<times> world" where
  "sub_one = the (xsub_attach_pipe 0 sub_new pair_0)"

lemma sub_one_ok: "xsub_inv (fst sub_one)" "all_set (xsub_dist (fst sub_one)) = {0}"
  "links_inv {(0, 1)} (snd sub_one) (add_mset (message (fst sub_one)) {#})" "subscriptions (fst sub_one) = trie_new"
  "card (all_set (xsub_dist (fst sub_one))) = 1" "active (xsub_dist (fst sub_one)) \<le> 1"
proof -
  have n: "all_set (xsub_dist sub_new) = {}" "message sub_new = msg_init msg_raw" "subscriptions sub_new = trie_new"
    by (simp_all add: sub_new_def xsub_new_def dist_new_def)
  have l: "links_inv {(0, 1)} pair_0 (add_mset (message sub_new) {#})"
    using lk.inv_plain[of "{#msg_init msg_raw#}" "{(0, 1)}" pair_0 "{#}"] pair_0_links n(2) by simp
  have at: "0 \<in> fst ` {(0 :: nat, 1 :: nat)}" "0 \<notin> all_set (xsub_dist sub_new)" unfolding n(1) by simp_all
  obtain s w where s: "xsub_attach_pipe 0 sub_new pair_0 = Some (s, w)" "xsub_inv s"
    "links_inv {(0, 1)} w (add_mset (message sub_new) {#})" "all_set (xsub_dist s) = insert 0 (all_set (xsub_dist sub_new))"
    "subscriptions s = subscriptions sub_new" "message s = message sub_new"
    using lk.xsub_attach_ok[OF xsub_new_inv(2) l at] by blast
  have o: "sub_one = (s, w)" using s(1) by (simp add: sub_one_def)
  show "xsub_inv (fst sub_one)" and all: "all_set (xsub_dist (fst sub_one)) = {0}" and
    "links_inv {(0, 1)} (snd sub_one) (add_mset (message (fst sub_one)) {#})" and "subscriptions (fst sub_one) = trie_new"
    using s(2-6) n unfolding o by simp_all
  show c: "card (all_set (xsub_dist (fst sub_one))) = 1" unfolding all by simp
  have "active (xsub_dist s) \<le> length (items (dist_pipes (xsub_dist s)))" "distinct (items (dist_pipes (xsub_dist s)))"
    using s(2) by (auto simp: xsub_inv_def dist_inv_def array_wf_distinct)
  then show "active (xsub_dist (fst sub_one)) \<le> 1" using c unfolding o by (simp add: distinct_card)
qed


subsection \<open>Receiving\<close>

text \<open>The socket over whole messages: \<open>N\<close> parts wait, and the queue is inside a message exactly when the
  message handed out last, or the one kept for the next receive, has more parts.\<close>

definition xsub_whole :: "xsub_t \<Rightarrow> nat \<Rightarrow> 'z world_scheme \<Rightarrow> bool" where
  "xsub_whole s N w \<longleftrightarrow> xsub_inv s \<and> fq_whole (xsub_fq s) N w \<and>
     fq_more (xsub_fq s) = (if has_message s then has_flag (message s) flag_more else xsub_more s) \<and>
     (has_message s \<longrightarrow> \<not> xsub_more s \<and> has_body (message s))"

definition passes :: "xsub_t \<Rightarrow> bytes \<Rightarrow> bool" where
  "passes s d \<longleftrightarrow> ((\<exists>p. prefix p d \<and> 0 < trie_lookup (subscriptions s) p) \<noteq> invert_matching s)"

lemma xsub_match_passes:
  "trie_wf (subscriptions s) \<Longrightarrow> msg_body m w = Some d \<Longrightarrow> xsub_match m s w = Some (passes s d)"
  by (simp add: xsub_match_def trie_check_law passes_def)

context linked_pipes
begin

lemma pop_rest_ok:
  "fq_whole q N w \<Longrightarrow> fq_all q \<subseteq> P \<Longrightarrow> sendable m \<Longrightarrow> inv w (add_mset m E) \<Longrightarrow> fq_more q = has_flag m flag_more \<Longrightarrow>
    \<exists>m' q' w' N'. pop_rest m q w = Some (m', q', w') \<and> fq_whole q' N' w' \<and> N' \<le> N \<and> fq_all q' = fq_all q \<and>
      sendable m' \<and> inv w' (add_mset m' E) \<and> \<not> fq_more q'"
proof (induction N arbitrary: m q w rule: less_induct)
  case (less N)
  show ?case
  proof (cases "has_flag m flag_more")
    case False
    then show ?thesis using less.prems by (subst pop_rest.simps) auto
  next
    case True
    obtain rc m1 q1 w1 N1 where r: "fq_recv m q w = Some (rc, m1, q1, w1)" "fq_whole q1 N1 w1" "fq_all q1 = fq_all q"
      "sendable m1" "inv w1 (add_mset m1 E)"
      "if rc = Rc_ok then fq_more q1 = has_flag m1 flag_more \<and> N1 < N \<and> has_body m1
       else rc = Rc_err EAGAIN \<and> plain {#m1#} \<and> \<not> has_flag m1 flag_more \<and> \<not> fq_more q \<and> \<not> fq_more q1"
      using fq_recv_whole[OF less.prems(1-4)] by blast
    have ok: "rc = Rc_ok" "N1 < N" "fq_more q1 = has_flag m1 flag_more" using r(6) less.prems(5) True by (auto split: if_splits)
    have P1: "fq_all q1 \<subseteq> P" using r(3) less.prems(2) by simp
    obtain m' q' w' N' where "pop_rest m1 q1 w1 = Some (m', q', w')" "fq_whole q' N' w'" "N' \<le> N1" "fq_all q' = fq_all q1"
      "sendable m'" "inv w' (add_mset m' E)" "\<not> fq_more q'"
      using less.IH[OF ok(2) r(2) P1 r(4,5) ok(3)] by blast
    then show ?thesis using True r(1,3) ok by (subst pop_rest.simps) auto
  qed
qed

lemma xsub_recv_loop_ok:
  "xsub_whole s N w \<Longrightarrow> \<not> has_message s \<Longrightarrow> fq_all (xsub_fq s) \<subseteq> P \<Longrightarrow> sendable m \<Longrightarrow> inv w (add_mset m E) \<Longrightarrow>
    \<exists>rc m' s' w' N'. xsub_recv_loop m s w = Some (rc, m', s', w') \<and>
      s' = s\<lparr>xsub_fq := xsub_fq s', xsub_more := xsub_more s'\<rparr> \<and>
      xsub_whole s' N' w' \<and> fq_all (xsub_fq s') = fq_all (xsub_fq s) \<and> N' \<le> N \<and>
      sendable m' \<and> inv w' (add_mset m' E) \<and>
      (if rc = Rc_ok then N' < N \<and> xsub_more s' = has_flag m' flag_more \<and>
         (\<exists>d. msg_body m' w' = Some d \<and> (xsub_more s \<or> \<not> xsub_filter s \<or> passes s d))
       else rc = Rc_err EAGAIN \<and> plain {#m'#} \<and> \<not> xsub_more s \<and> \<not> xsub_more s')"
proof (induction N arbitrary: m s w rule: less_induct)
  case (less N)
  have s: "xsub_inv s" "fq_whole (xsub_fq s) N w" "fq_more (xsub_fq s) = xsub_more s"
    using less.prems(1,2) by (auto simp: xsub_whole_def)
  have wf: "trie_wf (subscriptions s)" using s(1) by (simp add: xsub_inv_def)
  obtain rc m1 q1 w1 N1 where r: "fq_recv m (xsub_fq s) w = Some (rc, m1, q1, w1)" "fq_whole q1 N1 w1"
    "fq_all q1 = fq_all (xsub_fq s)" "N1 \<le> N" "sendable m1" "inv w1 (add_mset m1 E)"
    "if rc = Rc_ok then fq_more q1 = has_flag m1 flag_more \<and> N1 < N \<and> has_body m1
     else rc = Rc_err EAGAIN \<and> plain {#m1#} \<and> \<not> has_flag m1 flag_more \<and> \<not> fq_more (xsub_fq s) \<and> \<not> fq_more q1"
    using fq_recv_whole[OF s(2) less.prems(3-5)] by blast
  have kept: "xsub_whole (s\<lparr>xsub_fq := q, xsub_more := mo\<rparr>) n v"
    if "fq_whole q n v" "fq_all q = fq_all (xsub_fq s)" "fq_more q = mo" for q n mo and v :: "'z world_scheme"
    using that s(1) less.prems(2) by (simp add: xsub_whole_def xsub_inv_def fq_whole_def)
  show ?case
  proof (cases "rc = Rc_ok")
    case False
    then have f: "\<not> xsub_more s" "\<not> fq_more q1" "rc = Rc_err EAGAIN" "plain {#m1#}" using r(7) s(3) by auto
    have "xsub_recv_loop m s w = Some (rc, m1, s\<lparr>xsub_fq := q1, xsub_more := False\<rparr>, w1)"
      using r(1) False f(1) by (subst xsub_recv_loop.simps) simp
    then show ?thesis using f r(3-6) kept[OF r(2,3), of False] False by auto
  next
    case ok: True
    then have o: "fq_more q1 = has_flag m1 flag_more" "N1 < N" "has_body m1" using r(7) by auto
    obtain d where d: "msg_body m1 w1 = Some d" using inv_body[OF r(6) o(3)] by blast
    note match = xsub_match_passes[OF wf d]
    show ?thesis
    proof (cases "xsub_more s \<or> \<not> xsub_filter s \<or> passes s d")
      case True
      have m: "xsub_match m1 (s\<lparr>xsub_fq := q1\<rparr>) w1 = Some (passes s d)" using match by (simp add: xsub_match_def)
      have "xsub_recv_loop m s w = Some (Rc_ok, m1, s\<lparr>xsub_fq := q1, xsub_more := has_flag m1 flag_more\<rparr>, w1)"
        using r(1) ok True m by (subst xsub_recv_loop.simps) auto
      then show ?thesis using True d o r(3-6) kept[OF r(2,3) o(1)] by auto
    next
      case False
      have m: "xsub_match m1 (s\<lparr>xsub_fq := q1\<rparr>) w1 = Some (passes s d)" using match by (simp add: xsub_match_def)
      have P1: "fq_all q1 \<subseteq> P" using r(3) less.prems(3) by simp
      obtain m2 q2 w2 N2 where p: "pop_rest m1 q1 w1 = Some (m2, q2, w2)" "fq_whole q2 N2 w2" "N2 \<le> N1" "fq_all q2 = fq_all q1"
        "sendable m2" "inv w2 (add_mset m2 E)" "\<not> fq_more q2"
        using pop_rest_ok[OF r(2) P1 r(5,6) o(1)] by blast
      let ?s = "s\<lparr>xsub_fq := q2\<rparr>"
      have l: "xsub_recv_loop m s w = xsub_recv_loop m2 ?s w2"
        using r(1) ok False m p(1) by (subst xsub_recv_loop.simps) auto
      have "xsub_whole (s\<lparr>xsub_fq := q2, xsub_more := False\<rparr>) N2 w2" using kept[OF p(2)] p(4,7) r(3) by simp
      moreover have "s\<lparr>xsub_fq := q2, xsub_more := False\<rparr> = ?s" using False by (cases s) simp
      ultimately have sw: "xsub_whole ?s N2 w2" by simp
      have less: "N2 < N" "\<not> has_message ?s" "fq_all (xsub_fq ?s) \<subseteq> P" using p(3,4) o(2) less.prems(2) P1 by auto
      have same: "passes ?s = passes s" "fq_all (xsub_fq ?s) = fq_all (xsub_fq s)" using p(4) r(3) by (auto simp: passes_def)
      obtain rc' m' s' w' N' where x: "xsub_recv_loop m2 ?s w2 = Some (rc', m', s', w')"
        "s' = ?s\<lparr>xsub_fq := xsub_fq s', xsub_more := xsub_more s'\<rparr>" "xsub_whole s' N' w'"
        "fq_all (xsub_fq s') = fq_all (xsub_fq ?s)" "N' \<le> N2" "sendable m'" "inv w' (add_mset m' E)"
        "if rc' = Rc_ok then N' < N2 \<and> xsub_more s' = has_flag m' flag_more \<and>
           (\<exists>d. msg_body m' w' = Some d \<and> (xsub_more ?s \<or> \<not> xsub_filter ?s \<or> passes ?s d))
         else rc' = Rc_err EAGAIN \<and> plain {#m'#} \<and> \<not> xsub_more ?s \<and> \<not> xsub_more s'"
        using less.IH[OF less(1) sw less(2,3) p(5,6)] by blast
      show ?thesis unfolding l using x less(1) unfolding same
        by (intro exI[of _ rc'] exI[of _ m'] exI[of _ s'] exI[of _ w'] exI[of _ N']) (auto split: if_splits)
    qed
  qed
qed

text \<open>The whole receive, with or without a message kept by \<open>xhas_in\<close>.\<close>

lemma xsub_recv_ok:
  assumes "xsub_whole s N w" "fq_all (xsub_fq s) \<subseteq> P" "sendable m" "inv w (add_mset m (add_mset (message s) E))"
  shows "\<exists>rc m' s' w' N'. xsub_recv m s w = Some (rc, m', s', w') \<and> xsub_whole s' N' w' \<and>
    fq_all (xsub_fq s') = fq_all (xsub_fq s) \<and> N' \<le> N \<and> \<not> has_message s' \<and> sendable m' \<and>
    inv w' (add_mset m' (add_mset (message s') E)) \<and> subscriptions s' = subscriptions s \<and>
    (if rc = Rc_ok then xsub_more s' = has_flag m' flag_more \<and>
       (\<exists>d. msg_body m' w' = Some d \<and> (xsub_more s \<or> has_message s \<or> \<not> xsub_filter s \<or> passes s d))
     else rc = Rc_err EAGAIN \<and> plain {#m'#} \<and> \<not> xsub_more s \<and> \<not> has_message s)"
proof (cases "has_message s")
  case False
  obtain rc m' s' w' N' where x: "xsub_recv_loop m s w = Some (rc, m', s', w')"
    "s' = s\<lparr>xsub_fq := xsub_fq s', xsub_more := xsub_more s'\<rparr>" "xsub_whole s' N' w'"
    "fq_all (xsub_fq s') = fq_all (xsub_fq s)" "N' \<le> N" "sendable m'" "inv w' (add_mset m' (add_mset (message s) E))"
    "if rc = Rc_ok then N' < N \<and> xsub_more s' = has_flag m' flag_more \<and>
       (\<exists>d. msg_body m' w' = Some d \<and> (xsub_more s \<or> \<not> xsub_filter s \<or> passes s d))
     else rc = Rc_err EAGAIN \<and> plain {#m'#} \<and> \<not> xsub_more s \<and> \<not> xsub_more s'"
    using xsub_recv_loop_ok[OF assms(1) False assms(2-4)] by blast
  have same: "has_message s' = has_message s" "message s' = message s" "subscriptions s' = subscriptions s"
    using arg_cong[OF x(2), of has_message] arg_cong[OF x(2), of message] arg_cong[OF x(2), of subscriptions] by simp_all
  show ?thesis using x(1,3-8) same False
    by (intro exI[of _ rc] exI[of _ m'] exI[of _ s'] exI[of _ w'] exI[of _ N']) (auto simp: xsub_recv_def split: if_splits)
next
  case True
  have s: "xsub_inv s" "fq_whole (xsub_fq s) N w" "fq_more (xsub_fq s) = has_flag (message s) flag_more" "has_body (message s)"
    using assms(1) True by (auto simp: xsub_whole_def)
  have sm: "sendable (message s)" using s(1) by (simp add: xsub_inv_def)
  obtain m1 w1 where c: "msg_close m w = Some (Rc_ok, m1, w1)" "inv w1 (add_mset (message s) E)" "pipes w1 = pipes w"
    using inv_close[OF assms(4,3)] by blast
  have up: "upipes w1 = upipes w" using world_more[OF msg_close_more[OF c(1)]] by simp
  have mv: "msg_move m (message s) w = Some (Rc_ok, message s, msg_init (message s), w1)"
    using c(1) sm by (simp add: msg_move_def sendable_def)
  let ?s = "s\<lparr>message := msg_init (message s), has_message := False, xsub_more := has_flag (message s) flag_more\<rparr>"
  have r: "xsub_recv m s w = Some (Rc_ok, message s, ?s, w1)" using True mv by (simp add: xsub_recv_def)
  have "fq_whole (xsub_fq s) N w1" using s(2) whole_frame[OF _ c(3) up] by (simp add: fq_whole_def)
  then have w1: "xsub_whole ?s N w1" using s(1,3) by (simp add: xsub_whole_def xsub_inv_def)
  obtain d where "msg_body (message s) w1 = Some d" using inv_body[OF c(2) s(4)] by blast
  moreover have "inv w1 (add_mset (message s) (add_mset (msg_init (message s)) E))"
    using inv_plain[of "{#msg_init (message s)#}" w1 "add_mset (message s) E"] c(2) by (simp add: add_mset_commute)
  ultimately show ?thesis using r w1 sm True by auto
qed

lemma xsub_has_in_loop_ok:
  "xsub_whole s N w \<Longrightarrow> \<not> has_message s \<Longrightarrow> \<not> xsub_more s \<Longrightarrow> fq_all (xsub_fq s) \<subseteq> P \<Longrightarrow> inv w (add_mset (message s) E) \<Longrightarrow>
    \<exists>b s' w' N'. xsub_has_in_loop s w = Some (b, s', w') \<and> xsub_whole s' N' w' \<and> fq_all (xsub_fq s') = fq_all (xsub_fq s) \<and>
      N' \<le> N \<and> inv w' (add_mset (message s') E) \<and> has_message s' = b \<and> xsub_more s' = xsub_more s \<and>
      (b \<longrightarrow> N' < N \<and> (\<exists>d. msg_body (message s') w' = Some d \<and> (\<not> xsub_filter s \<or> passes s d)))"
proof (induction N arbitrary: s w rule: less_induct)
  case (less N)
  have s: "xsub_inv s" "fq_whole (xsub_fq s) N w" "\<not> fq_more (xsub_fq s)" "sendable (message s)"
    using less.prems(1-3) by (auto simp: xsub_whole_def xsub_inv_def)
  have wf: "trie_wf (subscriptions s)" using s(1) by (simp add: xsub_inv_def)
  obtain rc m1 q1 w1 N1 where r: "fq_recv (message s) (xsub_fq s) w = Some (rc, m1, q1, w1)" "fq_whole q1 N1 w1"
    "fq_all q1 = fq_all (xsub_fq s)" "N1 \<le> N" "sendable m1" "inv w1 (add_mset m1 E)"
    "if rc = Rc_ok then fq_more q1 = has_flag m1 flag_more \<and> N1 < N \<and> has_body m1
     else rc = Rc_err EAGAIN \<and> plain {#m1#} \<and> \<not> has_flag m1 flag_more \<and> \<not> fq_more (xsub_fq s) \<and> \<not> fq_more q1"
    using fq_recv_whole[OF s(2) less.prems(4) s(4) less.prems(5)] by blast
  let ?s1 = "s\<lparr>message := m1, xsub_fq := q1\<rparr>"
  show ?case
  proof (cases "rc = Rc_ok")
    case False
    then have "rc = Rc_err EAGAIN" "plain {#m1#}" "\<not> fq_more q1" using r(7) by auto
    moreover from this have "xsub_has_in_loop s w = Some (False, ?s1, w1)"
      using r(1) by (subst xsub_has_in_loop.simps) simp
    moreover have "xsub_whole ?s1 N1 w1" using s(1) r(2,3,5) less.prems(2,3) calculation(2,3)
      by (simp add: xsub_whole_def xsub_inv_def fq_whole_def)
    ultimately show ?thesis using r(3,4,6) less.prems(2)
      by (intro exI[of _ False] exI[of _ ?s1] exI[of _ w1] exI[of _ N1]) simp
  next
    case ok: True
    then have o: "fq_more q1 = has_flag m1 flag_more" "N1 < N" "has_body m1" using r(7) by auto
    obtain d where d: "msg_body m1 w1 = Some d" using inv_body[OF r(6) o(3)] by blast
    have m: "xsub_match m1 ?s1 w1 = Some (passes s d)" using xsub_match_passes[OF wf d] by (simp add: xsub_match_def)
    show ?thesis
    proof (cases "\<not> xsub_filter s \<or> passes s d")
      case True
      let ?s2 = "?s1\<lparr>has_message := True\<rparr>"
      have "xsub_has_in_loop s w = Some (True, ?s2, w1)" using r(1) ok True m by (subst xsub_has_in_loop.simps) auto
      moreover have "xsub_whole ?s2 N1 w1" using s(1) r(2,3,5) o less.prems(3)
        by (simp add: xsub_whole_def xsub_inv_def fq_whole_def)
      ultimately show ?thesis using True d o(2) r(3,4,6)
        by (intro exI[of _ True] exI[of _ ?s2] exI[of _ w1] exI[of _ N1]) simp
    next
      case False
      have P1: "fq_all q1 \<subseteq> P" using r(3) less.prems(4) by simp
      obtain m2 q2 w2 N2 where p: "pop_rest m1 q1 w1 = Some (m2, q2, w2)" "fq_whole q2 N2 w2" "N2 \<le> N1" "fq_all q2 = fq_all q1"
        "sendable m2" "inv w2 (add_mset m2 E)" "\<not> fq_more q2"
        using pop_rest_ok[OF r(2) P1 r(5,6) o(1)] by blast
      let ?s = "s\<lparr>message := m2, xsub_fq := q2\<rparr>"
      have "?s1\<lparr>message := m2, xsub_fq := q2\<rparr> = ?s" by (cases s) simp
      then have l: "xsub_has_in_loop s w = xsub_has_in_loop ?s w2"
        using r(1) ok False m p(1) by (subst xsub_has_in_loop.simps) auto
      have "xsub_whole ?s N2 w2" using s(1) p(2,4,5,7) r(3) less.prems(2,3)
        by (simp add: xsub_whole_def xsub_inv_def fq_whole_def)
      moreover have lt: "N2 < N" using p(3) o(2) by simp
      moreover have same: "fq_all (xsub_fq ?s) = fq_all (xsub_fq s)" "passes ?s = passes s" using p(4) r(3) by (auto simp: passes_def)
      ultimately obtain b s' w' N' where x: "xsub_has_in_loop ?s w2 = Some (b, s', w')" "xsub_whole s' N' w'"
        "fq_all (xsub_fq s') = fq_all (xsub_fq s)" "N' \<le> N2" "inv w' (add_mset (message s') E)" "has_message s' = b"
        "xsub_more s' = xsub_more s"
        "b \<longrightarrow> N' < N2 \<and> (\<exists>d. msg_body (message s') w' = Some d \<and> (\<not> xsub_filter s \<or> passes s d))"
        using less.IH[of N2 ?s w2] less.prems(2-4) p(6) unfolding same by auto
      show ?thesis unfolding l using x lt by (intro exI[of _ b] exI[of _ s'] exI[of _ w'] exI[of _ N']) simp
    qed
  qed
qed

lemma xsub_has_in_ok:
  assumes "xsub_whole s N w" "fq_all (xsub_fq s) \<subseteq> P" "inv w (add_mset (message s) E)"
  shows "\<exists>b s' w' N'. xsub_has_in s w = Some (b, s', w') \<and> xsub_whole s' N' w' \<and> fq_all (xsub_fq s') = fq_all (xsub_fq s) \<and>
    inv w' (add_mset (message s') E) \<and> b = (has_message s' \<or> xsub_more s')"
proof (cases "xsub_more s \<or> has_message s")
  case False
  then obtain b s' w' N' where "xsub_has_in_loop s w = Some (b, s', w')" "xsub_whole s' N' w'"
    "fq_all (xsub_fq s') = fq_all (xsub_fq s)" "inv w' (add_mset (message s') E)" "has_message s' = b" "xsub_more s' = xsub_more s"
    using xsub_has_in_loop_ok[OF assms(1) _ _ assms(2,3)] by blast
  then show ?thesis using False by (auto simp: xsub_has_in_def)
qed (use assms in \<open>auto simp: xsub_has_in_def\<close>)

end


text \<open>C30. Polling keeps its promise: \<open>xhas_in\<close> returns, and when it reports a message the receive that follows
  returns one.\<close>

theorem poll_then_receive:
  fixes w :: "'z world_scheme"
  assumes "xsub_whole s N w" "fq_all (xsub_fq s) \<subseteq> fst ` L" "sendable m" "links_inv L w (add_mset m (add_mset (message s) E))"
  shows "\<exists>b s1 w1 rc m' s2 w2. xsub_has_in s w = Some (b, s1, w1) \<and> xsub_recv m s1 w1 = Some (rc, m', s2, w2) \<and>
    (b \<longrightarrow> rc = Rc_ok)"
proof -
  have i: "links_inv L w (add_mset (message s) (add_mset m E))" using assms(4) by (simp add: add_mset_commute)
  obtain b s1 w1 N1 where h: "xsub_has_in s w = Some (b, s1, w1)" "xsub_whole s1 N1 w1" "fq_all (xsub_fq s1) = fq_all (xsub_fq s)"
    "links_inv L w1 (add_mset (message s1) (add_mset m E))" "b = (has_message s1 \<or> xsub_more s1)"
    using lk.xsub_has_in_ok[OF assms(1,2) i] by blast
  have i1: "fq_all (xsub_fq s1) \<subseteq> fst ` L" "links_inv L w1 (add_mset m (add_mset (message s1) E))"
    using h(3,4) assms(2) by (simp_all add: add_mset_commute)
  obtain rc m' s2 w2 where "xsub_recv m s1 w1 = Some (rc, m', s2, w2)"
    "if rc = Rc_ok then True else \<not> xsub_more s1 \<and> \<not> has_message s1"
    using lk.xsub_recv_ok[OF h(2) i1(1) assms(3) i1(2)] by (auto split: if_splits)
  then show ?thesis using h(1,5) by (auto split: if_splits)
qed

text \<open>A \<open>SUB\<close> socket with the pipe 0 of \<open>pair_two\<close>, subscribed to the messages that start with the byte 104.\<close>

definition sub_two :: xsub_t where
  "sub_two = sub_new\<lparr>xsub_fq := fq_one, xsub_dist := the (dist_attach 0 dist_new),
     subscriptions := snd (the (trie_add [104] trie_new))\<rparr>"

lemma sub_two_ok:
  obtains n where "xsub_whole sub_two n pair_two" "fq_all (xsub_fq sub_two) = {0}"
    "links_inv {(0, 1)} pair_two (add_mset (message sub_two) {#})"
proof -
  have dn: "all_set dist_new = {}" by (simp add: dist_new_def)
  obtain d where d: "dist_attach 0 dist_new = Some d" "dist_inv d" "all_set d = {0}"
    using attach_refines[OF dist_new_inv, of 0] unfolding dn by auto
  obtain t where t: "trie_add [104] trie_new = Some (True, t)" "trie_wf t" "trie_lookup t = (trie_lookup trie_new)([104] := 1)"
    using trie_add_law[of trie_new "[104]"] by auto
  have s: "sub_two = sub_new\<lparr>xsub_fq := fq_one, xsub_dist := d, subscriptions := t\<rparr>" using d(1) t(1) by (simp add: sub_two_def)
  have i: "xsub_inv sub_two" unfolding s using fq_one_ok d(2,3) t(2,3)
    by (simp add: xsub_inv_def sub_new_def xsub_new_def fits_def sizeof_content_def)
  obtain n where n: "links_inv {(0, 1)} pair_two {#}" "waits False 0 n pair_two" by (rule pair_two_ok)
  have "fq_whole fq_one n pair_two"
    using fq_one_ok n(2) by (auto simp: fq_whole_def whole_def fq_reading_def intro!: exI[of _ "\<lambda>_. n"])
  then have "xsub_whole sub_two n pair_two" using i fq_one_ok unfolding s by (simp add: xsub_whole_def sub_new_def xsub_new_def)
  moreover have "links_inv {(0, 1)} pair_two (add_mset (message sub_two) {#})"
    using lk.inv_plain[of "{#msg_init msg_raw#}" "{(0, 1)}" pair_two "{#}"] n(1) unfolding s by (simp add: sub_new_def xsub_new_def)
  moreover have "fq_all (xsub_fq sub_two) = {0}" using fq_one_ok(2) unfolding s by simp
  ultimately show thesis using that by blast
qed


theorem poll_then_receive_witness:
  "\<exists>b s1 w1 rc m' s2 w2. xsub_has_in sub_two pair_two = Some (b, s1, w1) \<and> xsub_recv hello s1 w1 = Some (rc, m', s2, w2) \<and>
     (b \<longrightarrow> rc = Rc_ok)"
proof -
  obtain n where n: "xsub_whole sub_two n pair_two" "fq_all (xsub_fq sub_two) = {0}"
    "links_inv {(0, 1)} pair_two (add_mset (message sub_two) {#})" by (rule sub_two_ok)
  have i: "fq_all (xsub_fq sub_two) \<subseteq> fst ` {(0, 1)}" "sendable hello"
    "links_inv {(0, 1)} pair_two (add_mset hello (add_mset (message sub_two) {#}))"
    using n(2,3) hello_parts lk.inv_plain[OF hello_parts(6), of "{(0, 1)}" pair_two "add_mset (message sub_two) {#}"] by simp_all
  show ?thesis by (rule poll_then_receive[OF n(1) i])
qed

end
