(* ===== verification/Zmq_Mtrie.thy ===== *)
theory Zmq_Mtrie
  imports Zmq_Table "HOL-Library.Sublist"
begin

text \<open>
  The trie of subscribers \<open>generic_mtrie_t\<close> of \<open>src/libzmq/src/generic_mtrie_impl.hpp\<close>, in which a
  publishing socket keeps, for each topic prefix, the set of pipes that subscribed it.  A pipe is its
  number and a set of pipes is iterated in the order of the numbers.  \<open>None\<close> is a failed assertion or
  a null pointer.  Both removals, the one of a single subscription and the one of all subscriptions
  of a pipe, prune redundant nodes and compact the tables, each in its own way; the laws say that the
  trie implements a relation between prefixes and pipes.
\<close>

datatype mtrie =
  Mtrie (mt_pipes: "nat set option") (mt_min: nat) (mt_live_nodes: nat) (mt_next: "mtrie option list")

datatype rm_result = Not_found | Last_value_removed | Values_remain

definition mtrie_new :: mtrie where
  "mtrie_new = Mtrie None 0 0 []"

definition mtrie_is_redundant :: "mtrie \<Rightarrow> bool" where
  "mtrie_is_redundant t = (mt_pipes t = None \<and> mt_live_nodes t = 0)"

text \<open>Extending the table so that it has a slot for character \<open>c\<close>.\<close>

definition mtrie_extend :: "nat \<Rightarrow> nat \<Rightarrow> mtrie option list \<Rightarrow> nat \<times> mtrie option list" where
  "mtrie_extend c mn nx =
     (if c < mn \<or> c \<ge> mn + length nx
      then
        if length nx = 0 then (c, [None])
        else if length nx = 1
        then let cnt = (if mn < c then c - mn else mn - c) + 1;
                 mn' = min mn c
             in (mn', (replicate cnt None)[mn - mn' := nx ! 0])
        else if mn < c
        then let cnt = c - mn + 1 in (mn, nx @ replicate (cnt - length nx) None)
        else (c, replicate (mn - c) None @ nx)
      else (mn, nx))"

fun mtrie_add :: "bytes \<Rightarrow> nat \<Rightarrow> mtrie \<Rightarrow> bool \<times> mtrie" where
  "mtrie_add [] p (Mtrie ps mn lv nx) =
     (ps = None, Mtrie (Some (insert p (case ps of None \<Rightarrow> {} | Some A \<Rightarrow> A))) mn lv nx)"
| "mtrie_add (c # cs) p (Mtrie ps mn lv nx) =
     (let (mn, nx) = mtrie_extend (unat c) mn nx;
          i = unat c - mn
      in case nx ! i of
           Some child \<Rightarrow> (case mtrie_add cs p child of (r, child) \<Rightarrow> (r, Mtrie ps mn lv (nx[i := Some child])))
         | None \<Rightarrow> (case mtrie_add cs p mtrie_new of (r, child) \<Rightarrow> (r, Mtrie ps mn (lv + 1) (nx[i := Some child]))))"

text \<open>Removing a pruned node from the table of its parent.\<close>

definition mtrie_prune :: "nat \<Rightarrow> nat \<Rightarrow> nat \<Rightarrow> mtrie option list \<Rightarrow> (nat \<times> nat \<times> mtrie option list) option" where
  "mtrie_prune c mn lv nx =
     do {
       zmq_assert (length nx > 0);
       (if length nx = 1 then do { zmq_assert (lv = 1); Some (mn, lv - 1, []) }
        else do {
          nx \<leftarrow> Some (nx[c - mn := None]);
          zmq_assert (lv > 1);
          lv \<leftarrow> Some (lv - 1);
          (if lv = 1
           then do {
             i \<leftarrow> first_live 0 nx;
             Some ((mn + i) mod 256, lv, [nx ! i])
           }
           else if c = mn
           then do {
             i \<leftarrow> first_live 1 (drop 1 nx);
             Some ((mn + i) mod 256, lv, drop i nx)
           }
           else if c = mn + length nx - 1
           then do {
             i \<leftarrow> first_live 1 (drop 1 (rev nx));
             Some (mn, lv, take (length nx - i) nx)
           }
           else Some (mn, lv, nx))
        })
     }"

fun mtrie_rm :: "bytes \<Rightarrow> nat \<Rightarrow> mtrie \<Rightarrow> (rm_result \<times> mtrie) option" where
  "mtrie_rm [] p (Mtrie ps mn lv nx) =
     (case ps of
        None \<Rightarrow> Some (Not_found, Mtrie ps mn lv nx)
      | Some A \<Rightarrow>
          if A - {p} = {}
          then do { zmq_assert (p \<in> A); Some (Last_value_removed, Mtrie None mn lv nx) }
          else Some (if p \<in> A then Values_remain else Not_found, Mtrie (Some (A - {p})) mn lv nx))"
| "mtrie_rm (c # cs) p (Mtrie ps mn lv nx) =
     (if nx = [] \<or> unat c < mn \<or> unat c \<ge> mn + length nx then Some (Not_found, Mtrie ps mn lv nx)
      else case nx ! (unat c - mn) of
        None \<Rightarrow> Some (Not_found, Mtrie ps mn lv nx)
      | Some child \<Rightarrow>
          do {
            (r, child) \<leftarrow> mtrie_rm cs p child;
            (if mtrie_is_redundant child
             then do {
               (mn, lv, nx) \<leftarrow> mtrie_prune (unat c) mn lv nx;
               Some (r, Mtrie ps mn lv nx)
             }
             else Some (r, Mtrie ps mn lv (nx[unat c - mn := Some child])))
          })"

text \<open>The removal of a pipe from every node calls a function on the topics; the model returns them in
  the order of the calls.  \<open>uniq\<close> restricts the calls to topics without another subscriber.\<close>

fun erase_pipe :: "nat \<Rightarrow> bool \<Rightarrow> bytes \<Rightarrow> nat set option \<Rightarrow> bytes list \<times> nat set option" where
  "erase_pipe p uniq buff None = ([], None)"
| "erase_pipe p uniq buff (Some A) =
     (if p \<in> A
      then (if \<not> uniq \<or> A - {p} = {} then [buff] else [], if A - {p} = {} then None else Some (A - {p}))
      else ([], Some A))"

text \<open>Freeing or compacting the table after the removal; \<open>lo\<close> and \<open>hi\<close> are the least and the greatest
  character with a remaining node.\<close>

definition mtrie_compact :: "nat \<Rightarrow> nat \<Rightarrow> nat \<Rightarrow> nat \<Rightarrow> mtrie option list \<Rightarrow> (nat \<times> mtrie option list) option" where
  "mtrie_compact lo hi mn lv nx =
     (if lv = 0 then Some (mn, [])
      else if lv = 1
      then do {
        zmq_assert (lo = hi);
        zmq_assert (lo \<ge> mn \<and> lo < mn + length nx);
        zmq_assert (nx ! (lo - mn) \<noteq> None);
        Some (lo, [nx ! (lo - mn)])
      }
      else if lo > mn \<or> hi < mn + length nx - 1
      then do {
        zmq_assert (int hi - int lo + 1 > 1);
        zmq_assert (lo > mn \<or> hi < mn + length nx - 1);
        zmq_assert (lo \<ge> mn);
        zmq_assert (hi \<le> mn + length nx - 1);
        zmq_assert (int hi - int lo + 1 < int (length nx));
        Some (lo, take (hi - lo + 1) (drop (lo - mn) nx))
      }
      else Some (mn, nx))"

lemma mtrie_size_nth: "nx ! 0 = Some t \<Longrightarrow> length nx = Suc 0 \<Longrightarrow> size t < Suc (size_list (size_option size) nx)"
proof -
  assume "nx ! 0 = Some t" "length nx = Suc 0"
  then have "Some t \<in> set nx" by (cases nx) auto
  then have "size_option size (Some t) \<le> size_list (size_option size) nx" by (rule size_list_estimation') simp
  then show ?thesis by simp
qed

function mtrie_rm_pipe :: "nat \<Rightarrow> bool \<Rightarrow> bytes \<Rightarrow> mtrie \<Rightarrow> (bytes list \<times> mtrie) option"
  and mtrie_rm_table :: "nat \<Rightarrow> bool \<Rightarrow> bytes \<Rightarrow> nat \<Rightarrow> nat \<Rightarrow> nat \<Rightarrow> nat \<Rightarrow> nat \<Rightarrow> mtrie option list \<Rightarrow>
    (bytes list \<times> nat \<times> nat \<times> nat \<times> mtrie option list) option" where
  "mtrie_rm_pipe p uniq buff (Mtrie ps mn lv nx) =
     (case erase_pipe p uniq buff ps of (ks, ps) \<Rightarrow>
        if length nx = 0 then Some (ks, Mtrie ps mn lv nx)
        else if length nx = 1
        then (case nx ! 0 of
                None \<Rightarrow> None
              | Some t \<Rightarrow> (case mtrie_rm_pipe p uniq (buff @ [of_nat mn]) t of
                  None \<Rightarrow> None
                | Some (ks', t) \<Rightarrow>
                    if mtrie_is_redundant t
                    then (if lv = 1 then Some (ks @ ks', Mtrie ps mn 0 []) else None)
                    else Some (ks @ ks', Mtrie ps mn lv [Some t])))
        else (case mtrie_rm_table p uniq buff mn 0 lv (mn + length nx - 1) mn nx of
                None \<Rightarrow> None
              | Some (ks', lv, lo, hi, nx) \<Rightarrow>
                  map_option (\<lambda>(mn, nx). (ks @ ks', Mtrie ps mn lv nx)) (mtrie_compact lo hi mn lv nx)))"
| "mtrie_rm_table p uniq buff mn c lv lo hi [] = Some ([], lv, lo, hi, [])"
| "mtrie_rm_table p uniq buff mn c lv lo hi (None # xs) =
     map_option (\<lambda>(ks, lv, lo, hi, ys). (ks, lv, lo, hi, None # ys)) (mtrie_rm_table p uniq buff mn (c + 1) lv lo hi xs)"
| "mtrie_rm_table p uniq buff mn c lv lo hi (Some t # xs) =
     (case mtrie_rm_pipe p uniq (buff @ [of_nat (mn + c)]) t of
        None \<Rightarrow> None
      | Some (ks, t) \<Rightarrow>
          if mtrie_is_redundant t
          then if lv > 0
            then map_option (\<lambda>(ks', lv, lo, hi, ys). (ks @ ks', lv, lo, hi, None # ys))
                   (mtrie_rm_table p uniq buff mn (c + 1) (lv - 1) lo hi xs)
            else None
          else map_option (\<lambda>(ks', lv, lo, hi, ys). (ks @ ks', lv, lo, hi, Some t # ys))
                 (mtrie_rm_table p uniq buff mn (c + 1) lv (if c + mn < lo then c + mn else lo)
                    (if c + mn > hi then c + mn else hi) xs))"
  by pat_completeness auto
termination
  by (relation "measure (\<lambda>x. case x of Inl (p, uniq, buff, t) \<Rightarrow> size t
        | Inr (p, uniq, buff, mn, c, lv, lo, hi, xs) \<Rightarrow> size_list (size_option size) xs)")
     (auto simp: mtrie_size_nth)

fun mtrie_match :: "bytes \<Rightarrow> mtrie \<Rightarrow> nat list option" where
  "mtrie_match [] (Mtrie ps mn lv nx) = Some (case ps of None \<Rightarrow> [] | Some A \<Rightarrow> sorted_list_of_set A)"
| "mtrie_match (c # cs) (Mtrie ps mn lv nx) =
     map_option ((@) (case ps of None \<Rightarrow> [] | Some A \<Rightarrow> sorted_list_of_set A))
       (if length nx = 0 then Some []
        else if length nx = 1
        then if unat c \<noteq> mn then Some [] else (case nx ! 0 of None \<Rightarrow> None | Some t \<Rightarrow> mtrie_match cs t)
        else if unat c < mn \<or> unat c \<ge> mn + length nx then Some []
        else case nx ! (unat c - mn) of None \<Rightarrow> Some [] | Some t \<Rightarrow> mtrie_match cs t)"

subsection \<open>The trie as a relation between prefixes and pipes\<close>

fun mtrie_lookup :: "mtrie \<Rightarrow> bytes \<Rightarrow> nat set" where
  "mtrie_lookup (Mtrie ps mn lv nx) [] = (case ps of None \<Rightarrow> {} | Some A \<Rightarrow> A)"
| "mtrie_lookup (Mtrie ps mn lv nx) (c # cs) =
     (case slot mn nx (unat c) of None \<Rightarrow> {} | Some t \<Rightarrow> mtrie_lookup t cs)"

inductive mtrie_wf :: "mtrie \<Rightarrow> bool" where
  mtrie_wf_node: "table_ok mn lv nx \<Longrightarrow> (\<And>A. ps = Some A \<Longrightarrow> A \<noteq> {} \<and> finite A) \<Longrightarrow>
    (\<And>c t. slot mn nx c = Some t \<Longrightarrow> mtrie_wf t \<and> \<not> mtrie_is_redundant t) \<Longrightarrow> mtrie_wf (Mtrie ps mn lv nx)"

inductive_simps mtrie_wf_Mtrie: "mtrie_wf (Mtrie ps mn lv nx)"

lemma mtrie_wf_new [simp]: "mtrie_wf mtrie_new"
  by (simp add: mtrie_new_def mtrie_wf_Mtrie table_ok_def)

lemma mtrie_lookup_new [simp]: "mtrie_lookup mtrie_new k = {}"
  by (cases k) (simp_all add: mtrie_new_def)

text \<open>The table is extended in the same way as that of the trie of subscriptions.\<close>

lemma mtrie_extend_eq: "mtrie_extend c mn nx = trie_extend c mn nx"
  by (simp add: mtrie_extend_def trie_extend_def Let_def)

lemma mtrie_wf_replace:
  assumes "mtrie_wf (Mtrie ps mn lv nx)" "table_ok mn' lv' nx'" "slot mn' nx' = (slot mn nx)(c := v)"
    "\<And>t. v = Some t \<Longrightarrow> mtrie_wf t \<and> \<not> mtrie_is_redundant t"
  shows "mtrie_wf (Mtrie ps mn' lv' nx')"
  using assms by (auto simp: mtrie_wf_Mtrie split: if_splits)


text \<open>\<open>add\<close>: the pipe joins the subscribers of the prefix; the result says whether it is the first.\<close>

lemma mtrie_add_law:
  "mtrie_wf t \<Longrightarrow> \<exists>t'. mtrie_add k p t = (mtrie_lookup t k = {}, t') \<and> mtrie_wf t' \<and> \<not> mtrie_is_redundant t' \<and>
     mtrie_lookup t' = (mtrie_lookup t)(k := insert p (mtrie_lookup t k))"
proof (induction k arbitrary: t)
  case Nil
  obtain ps mn lv nx where t: "t = Mtrie ps mn lv nx" by (cases t)
  let ?t = "Mtrie (Some (insert p (case ps of None \<Rightarrow> {} | Some A \<Rightarrow> A))) mn lv nx"
  have "mtrie_lookup ?t = (mtrie_lookup t)([] := insert p (mtrie_lookup t []))"
  proof
    fix k show "mtrie_lookup ?t k = ((mtrie_lookup t)([] := insert p (mtrie_lookup t []))) k"
      using t by (cases k) auto
  qed
  moreover have "mtrie_wf ?t" "ps = None \<longleftrightarrow> mtrie_lookup t [] = {}"
    using Nil t by (auto simp: mtrie_wf_Mtrie split: option.splits)
  moreover have "mtrie_add [] p t = (mtrie_lookup t [] = {}, ?t)" "\<not> mtrie_is_redundant ?t"
    using t calculation(3) by (simp_all add: mtrie_is_redundant_def)
  ultimately show ?case by blast
next
  case (Cons c cs)
  obtain ps mn lv nx where t: "t = Mtrie ps mn lv nx" by (cases t)
  obtain mn' nx' where e: "trie_extend (unat c) mn nx = (mn', nx')" by fastforce
  have ok: "table_ok mn lv nx" and sub: "\<And>c t. slot mn nx c = Some t \<Longrightarrow> mtrie_wf t \<and> \<not> mtrie_is_redundant t"
    using Cons(2) t by (auto simp: mtrie_wf_Mtrie)
  note ta = table_add[OF ok e unat_byte]
  define u where "u = (case slot mn nx (unat c) of None \<Rightarrow> mtrie_new | Some u \<Rightarrow> u)"
  have u: "mtrie_wf u" "mtrie_lookup u cs = mtrie_lookup t (c # cs)"
    using sub by (auto simp: u_def t split: option.splits)
  with Cons(1)[of u] obtain u' where u': "mtrie_add cs p u = (mtrie_lookup u cs = {}, u')" "mtrie_wf u'"
    "\<not> mtrie_is_redundant u'" "mtrie_lookup u' = (mtrie_lookup u)(cs := insert p (mtrie_lookup u cs))" by metis
  define lv' where "lv' = (if slot mn nx (unat c) = None then lv + 1 else lv)"
  define t' where "t' = Mtrie ps mn' lv' (nx'[unat c - mn' := Some u'])"
  have "mtrie_add (c # cs) p t = (mtrie_lookup t (c # cs) = {}, t')"
    using ta(1) u' u(2) by (cases "slot mn nx (unat c)") (auto simp: t mtrie_extend_eq e t'_def lv'_def u_def)
  moreover have "mtrie_wf t'"
    unfolding t'_def lv'_def by (rule mtrie_wf_replace[OF Cons(2)[unfolded t] ta(3,2)]) (use u' in auto)
  moreover have "\<not> mtrie_is_redundant t'"
  proof -
    have "slot mn' (nx'[unat c - mn' := Some u']) (unat c) \<noteq> None" using ta(2)[of u'] by simp
    then have "0 < card {e. slot mn' (nx'[unat c - mn' := Some u']) e \<noteq> None}" by (rule live_card_pos)
    then have "0 < lv'" using ta(3)[of u'] unfolding table_ok_def lv'_def by simp
    then show ?thesis by (simp add: mtrie_is_redundant_def t'_def)
  qed
  moreover have "mtrie_lookup t' = (mtrie_lookup t)(c # cs := insert p (mtrie_lookup t (c # cs)))"
  proof
    fix k
    show "mtrie_lookup t' k = ((mtrie_lookup t)(c # cs := insert p (mtrie_lookup t (c # cs)))) k"
      using ta(2)[of u'] u' u(2)
      by (cases k) (auto simp: t'_def t u_def word_unat_eq_iff split: option.splits)
  qed
  ultimately show ?case by blast
qed

text \<open>The table without the pruned node.\<close>

lemma mtrie_prune_law:
  assumes "table_ok mn lv nx" "slot mn nx c \<noteq> None"
  shows "\<exists>mn' lv' nx'. mtrie_prune c mn lv nx = Some (mn', lv', nx') \<and> table_ok mn' lv' nx' \<and>
           slot mn' nx' = (slot mn nx)(c := None)"
proof (cases "length nx = 1")
  case True
  then obtain x where x: "nx = [x]" by (cases nx) auto
  note s = table_single[OF assms(1)[unfolded x]]
  have "slot mn ([] :: mtrie option list) = (slot mn nx)(c := None)" using s assms(2) x by (auto split: if_splits)
  then show ?thesis using x s(1) assms(1) by (simp add: mtrie_prune_def table_ok_def)
next
  case False
  define nx1 where "nx1 = nx[c - mn := None]"
  note d = table_del[OF assms False, folded nx1_def]
  have l: "length nx1 = length nx" "nx \<noteq> []" using d(7) by (auto simp: nx1_def)
  have ne: "lv - 1 \<noteq> 1" if "lv \<noteq> 2" using that d(2) by arith
  consider (one) "lv = 2" | (left) "lv \<noteq> 2" "c = mn" | (right) "lv \<noteq> 2" "c = mn + length nx - 1" "c \<noteq> mn"
    | (mid) "lv \<noteq> 2" "c \<noteq> mn" "c \<noteq> mn + length nx - 1" by blast
  then have "\<exists>mn' nx'. mtrie_prune c mn lv nx = Some (mn', lv - 1, nx') \<and> table_ok mn' (lv - 1) nx' \<and> slot mn' nx' = slot mn nx1"
  proof cases
    case one
    have c1: "card {e. slot mn nx1 e \<noteq> None} = 1" using d(3) one by simp
    have "\<exists>k < length nx1. nx1 ! k \<noteq> None" using d(4,5,7) l
      by (cases "c = mn") (auto intro: exI[of _ 0] exI[of _ "length nx - 1"])
    then obtain j where j: "first_live 0 nx1 = Some j" using first_live_ex by blast
    then have "j < length nx1" "nx1 ! j \<noteq> None" using first_live_Some[OF j] by auto
    then show ?thesis using one j d(8) False l table_one[OF c1, of j]
      unfolding mtrie_prune_def nx1_def[symmetric] by simp
  next
    case left
    have n0: "nx1 = nx[0 := None]" using left(2) by (simp add: nx1_def)
    obtain j where "first_live 1 (drop 1 nx1) = Some j" "0 < j" "j < length nx" "mn + j < 256"
      "table_ok (mn + j) (lv - 1) (drop j nx1)" "slot (mn + j) (drop j nx1) = slot mn nx1"
      using table_del_left[OF assms(1) assms(2)[unfolded left(2)] False] unfolding n0 by blast
    then show ?thesis using left ne[OF left(1)] d(2) False l unfolding mtrie_prune_def nx1_def[symmetric] by simp
  next
    case right
    obtain j where "first_live 1 (drop 1 (rev nx1)) = Some j"
      "table_ok mn (lv - 1) (take (length nx - j) nx1)" "slot mn (take (length nx - j) nx1) = slot mn nx1"
      using table_del_right[OF assms False right(2)] unfolding nx1_def by blast
    then show ?thesis using right ne[OF right(1)] d(2) False l unfolding mtrie_prune_def nx1_def[symmetric] by simp
  next
    case mid
    then show ?thesis using table_del_mid[OF assms False mid(2,3)] ne[OF mid(1)] d(2) False l
      unfolding mtrie_prune_def nx1_def[symmetric] by auto
  qed
  then show ?thesis using d(1) by metis
qed

text \<open>\<open>rm\<close>: the pipe leaves the subscribers of the prefix; the result says whether it was there and
  whether it was the last.\<close>

lemma mtrie_redundant_lookup: "mtrie_wf t \<Longrightarrow> mtrie_is_redundant t \<Longrightarrow> mtrie_lookup t k = {}"
proof (cases t; cases k)
  fix ps mn lv nx c cs
  assume a: "mtrie_wf t" "mtrie_is_redundant t" "t = Mtrie ps mn lv nx" "k = c # cs"
  then have "card {c. slot mn nx c \<noteq> None} = 0" by (simp add: mtrie_wf_Mtrie table_ok_def mtrie_is_redundant_def)
  then have "slot mn nx (unat c) = None" using live_card_pos[of mn nx "unat c"] by (metis less_irrefl)
  then show "mtrie_lookup t k = {}" using a by simp
qed (auto simp: mtrie_is_redundant_def)

lemma mtrie_rm_law:
  "mtrie_wf t \<Longrightarrow> \<exists>t'. mtrie_rm k p t =
       Some (if p \<notin> mtrie_lookup t k then Not_found else if mtrie_lookup t k = {p} then Last_value_removed else Values_remain, t') \<and>
     mtrie_wf t' \<and> mtrie_lookup t' = (mtrie_lookup t)(k := mtrie_lookup t k - {p})"
proof (induction k arbitrary: t)
  case Nil
  obtain ps mn lv nx where t: "t = Mtrie ps mn lv nx" by (cases t)
  have upd: "mtrie_lookup (Mtrie ps' mn lv nx) = (mtrie_lookup t)([] := mtrie_lookup t [] - {p})"
    if "(case ps' of None \<Rightarrow> {} | Some A \<Rightarrow> A) = mtrie_lookup t [] - {p}" for ps'
  proof
    fix k show "mtrie_lookup (Mtrie ps' mn lv nx) k = ((mtrie_lookup t)([] := mtrie_lookup t [] - {p})) k"
      using t that by (cases k) auto
  qed
  show ?case
  proof (cases ps)
    case None
    then show ?thesis using t Nil upd[of None] by simp
  next
    case (Some A)
    then have A: "A \<noteq> {}" "finite A" using Nil t by (auto simp: mtrie_wf_Mtrie)
    have lk: "mtrie_lookup t [] = A" using t Some by simp
    show ?thesis
    proof (cases "A - {p} = {}")
      case True
      then have Ap: "A = {p}" using A(1) by auto
      have "mtrie_rm [] p t = Some (Last_value_removed, Mtrie None mn lv nx)" using t Some Ap by simp
      moreover have "mtrie_wf (Mtrie None mn lv nx)" using Nil t by (simp add: mtrie_wf_Mtrie)
      moreover have "mtrie_lookup (Mtrie None mn lv nx) = (mtrie_lookup t)([] := mtrie_lookup t [] - {p})"
        by (rule upd) (use lk Ap in simp)
      ultimately show ?thesis using lk Ap by auto
    next
      case False
      then have Ap: "A \<noteq> {p}" by auto
      have "mtrie_rm [] p t = Some (if p \<in> A then Values_remain else Not_found, Mtrie (Some (A - {p})) mn lv nx)"
        unfolding t Some using False by simp
      moreover have "mtrie_wf (Mtrie (Some (A - {p})) mn lv nx)" using Nil t A(2) False by (simp add: mtrie_wf_Mtrie)
      moreover have "mtrie_lookup (Mtrie (Some (A - {p})) mn lv nx) = (mtrie_lookup t)([] := mtrie_lookup t [] - {p})"
        by (rule upd) (use lk in simp)
      ultimately show ?thesis unfolding lk using Ap by (cases "p \<in> A") (simp_all add: fun_upd_def)
    qed
  qed
next
  case (Cons c cs)
  obtain ps mn lv nx where t: "t = Mtrie ps mn lv nx" by (cases t)
  have ok: "table_ok mn lv nx" and sub: "\<And>c t. slot mn nx c = Some t \<Longrightarrow> mtrie_wf t \<and> \<not> mtrie_is_redundant t"
    using Cons(2) t by (auto simp: mtrie_wf_Mtrie)
  show ?case
  proof (cases "slot mn nx (unat c)")
    case None
    then have rm: "mtrie_rm (c # cs) p t = Some (Not_found, t)" using t by (auto simp: slot_def split: if_splits)
    have e: "mtrie_lookup t (c # cs) = {}" using None t by simp
    have "(mtrie_lookup t)(c # cs := mtrie_lookup t (c # cs) - {p}) = mtrie_lookup t" using e by (simp add: fun_upd_idem)
    then show ?thesis using rm e Cons(2) by (metis empty_iff)
  next
    case (Some u)
    have r: "mn \<le> unat c" "unat c < mn + length nx" "nx ! (unat c - mn) = Some u"
      using slot_Some_range[of mn nx "unat c"] Some by (auto simp: slot_def split: if_splits)
    let ?r = "\<lambda>A. if p \<notin> A then Not_found else if A = {p} then Last_value_removed else Values_remain"
    obtain u' where u': "mtrie_rm cs p u = Some (?r (mtrie_lookup u cs), u')" "mtrie_wf u'"
      "mtrie_lookup u' = (mtrie_lookup u)(cs := mtrie_lookup u cs - {p})"
      using Cons(1)[of u] sub Some by blast
    have lk: "mtrie_lookup t (c # cs) = mtrie_lookup u cs" using t Some by simp
    define v where "v = (if mtrie_is_redundant u' then None else Some u')"
    have upd: "mtrie_lookup (Mtrie ps mn' lv' nx') = (mtrie_lookup t)(c # cs := mtrie_lookup t (c # cs) - {p})"
      if s: "slot mn' nx' = (slot mn nx)(unat c := v)" for mn' lv' nx'
    proof
      fix k
      have sub: "(case v of None \<Rightarrow> {} | Some t \<Rightarrow> mtrie_lookup t ds) = ((mtrie_lookup u)(cs := mtrie_lookup u cs - {p})) ds" for ds
        using mtrie_redundant_lookup[OF u'(2), of ds] u'(3) by (auto simp: v_def simp del: fun_upd_apply)
      show "mtrie_lookup (Mtrie ps mn' lv' nx') k = ((mtrie_lookup t)(c # cs := mtrie_lookup t (c # cs) - {p})) k"
      proof (cases k)
        case (Cons d ds)
        then show ?thesis using s t Some sub[of ds] lk by (cases "d = c") (auto simp: word_unat_eq_iff)
      qed (use t in simp)
    qed
    have "\<exists>mn' lv' nx'. mtrie_rm (c # cs) p t = Some (?r (mtrie_lookup u cs), Mtrie ps mn' lv' nx') \<and> table_ok mn' lv' nx' \<and>
        slot mn' nx' = (slot mn nx)(unat c := v)"
    proof (cases "mtrie_is_redundant u'")
      case True
      obtain mn' lv' nx' where "mtrie_prune (unat c) mn lv nx = Some (mn', lv', nx')" "table_ok mn' lv' nx'"
        "slot mn' nx' = (slot mn nx)(unat c := None)" using mtrie_prune_law[OF ok, of "unat c"] Some by auto
      then show ?thesis using True t r u'(1) by (auto simp: v_def)
    next
      case False
      have s: "slot mn (nx[unat c - mn := Some u']) = (slot mn nx)(unat c \<mapsto> u')" by (rule slot_update[OF r(1,2)])
      have "table_ok mn lv (nx[unat c - mn := Some u'])"
        using ok Some live_card_same[of mn nx "unat c" "Some u'"] unfolding table_ok_def s by auto
      moreover have "mtrie_rm (c # cs) p t = Some (?r (mtrie_lookup u cs), Mtrie ps mn lv (nx[unat c - mn := Some u']))"
        using False t r u'(1) by auto
      ultimately show ?thesis using s False unfolding v_def by auto
    qed
    then obtain mn' lv' nx' where f: "mtrie_rm (c # cs) p t = Some (?r (mtrie_lookup u cs), Mtrie ps mn' lv' nx')"
      "table_ok mn' lv' nx'" "slot mn' nx' = (slot mn nx)(unat c := v)" by blast
    have "mtrie_wf (Mtrie ps mn' lv' nx')"
      by (rule mtrie_wf_replace[OF Cons(2)[unfolded t] f(2,3)]) (use u' in \<open>auto simp: v_def split: if_splits\<close>)
    then show ?thesis using f(1) upd[OF f(3), of lv'] unfolding lk by blast
  qed
qed

text \<open>\<open>match\<close> signals the pipes of every subscribed prefix.\<close>

lemma mtrie_match_law:
  "mtrie_wf t \<Longrightarrow> \<exists>ps. mtrie_match d t = Some ps \<and> set ps = (\<Union>k \<in> {k. prefix k d}. mtrie_lookup t k)"
proof (induction d arbitrary: t)
  case Nil
  obtain ps mn lv nx where t: "t = Mtrie ps mn lv nx" by (cases t)
  then show ?case using Nil by (auto simp: mtrie_wf_Mtrie split: option.splits)
next
  case (Cons c cs)
  obtain ps mn lv nx where t: "t = Mtrie ps mn lv nx" by (cases t)
  have here: "set (case ps of None \<Rightarrow> [] | Some A \<Rightarrow> sorted_list_of_set A) = mtrie_lookup t []"
    using Cons(2) t by (auto simp: mtrie_wf_Mtrie split: option.splits)
  have pre: "(\<Union>k \<in> {k. prefix k (c # cs)}. mtrie_lookup t k) = mtrie_lookup t [] \<union> (\<Union>k \<in> {k. prefix k cs}. mtrie_lookup t (c # k))"
    by (auto simp: prefix_Cons)
  have below: "mtrie_match (c # cs) t = map_option ((@) (case ps of None \<Rightarrow> [] | Some A \<Rightarrow> sorted_list_of_set A))
      (case slot mn nx (unat c) of None \<Rightarrow> Some [] | Some u \<Rightarrow> mtrie_match cs u)"
  proof (cases "length nx = 1")
    case True
    then obtain x where x: "nx = [x]" by (cases nx) auto
    have "table_ok mn lv [x]" using Cons(2) t x by (simp add: mtrie_wf_Mtrie)
    note s = table_single[OF this]
    show ?thesis using s x t by auto
  qed (use t in \<open>auto simp: slot_def split: option.splits\<close>)
  show ?case
  proof (cases "slot mn nx (unat c)")
    case None
    then show ?thesis using below here pre t by simp
  next
    case (Some u)
    then have "mtrie_wf u" using Cons(2) t by (auto simp: mtrie_wf_Mtrie)
    then obtain qs where "mtrie_match cs u = Some qs" "set qs = (\<Union>k \<in> {k. prefix k cs}. mtrie_lookup u k)"
      using Cons(1) by blast
    then show ?thesis using below here pre t Some by simp
  qed
qed


lemma unat_of_nat_inverse: "of_nat (unat c) = (c :: byte)"
  by simp

text \<open>The removal of a pipe: the loop over a table.  Each subnode loses the pipe; the live ones give the
  new bounds.\<close>

definition mtrie_gone :: "nat \<Rightarrow> bool \<Rightarrow> mtrie \<Rightarrow> bytes set" where
  "mtrie_gone p uniq t = {k. p \<in> mtrie_lookup t k \<and> (uniq \<longrightarrow> mtrie_lookup t k = {p})}"

definition pipe_removed :: "nat \<Rightarrow> bool \<Rightarrow> bytes \<Rightarrow> mtrie \<Rightarrow> bytes list \<Rightarrow> mtrie \<Rightarrow> bool" where
  "pipe_removed p uniq buff t ks t' \<longleftrightarrow> mtrie_wf t' \<and> (\<forall>k. mtrie_lookup t' k = mtrie_lookup t k - {p}) \<and>
     distinct ks \<and> set ks = (@) buff ` mtrie_gone p uniq t"

definition slot_removed :: "nat \<Rightarrow> bool \<Rightarrow> bytes \<Rightarrow> mtrie option \<Rightarrow> bytes list \<Rightarrow> mtrie option \<Rightarrow> bool" where
  "slot_removed p uniq buff x ks y \<longleftrightarrow>
     (case x of None \<Rightarrow> ks = [] \<and> y = None
      | Some t \<Rightarrow> (\<exists>t'. pipe_removed p uniq buff t ks t' \<and> y = (if mtrie_is_redundant t' then None else Some t')))"

lemma Min_insert_min: "finite S \<Longrightarrow> Min (insert (min a b) S) = Min (insert a (insert b S))" for a :: nat
  by (cases "S = {}") (simp_all add: min.assoc)

lemma Max_insert_max: "finite S \<Longrightarrow> Max (insert (max a b) S) = Max (insert a (insert b S))" for a :: nat
  by (cases "S = {}") (simp_all add: max.assoc)

lemma rm_table_law:
  assumes "\<forall>i < length xs. \<forall>t. xs ! i = Some t \<longrightarrow>
      (\<exists>ks t'. mtrie_rm_pipe p uniq (buff @ [of_nat (mn + (c + i))]) t = Some (ks, t') \<and>
        pipe_removed p uniq (buff @ [of_nat (mn + (c + i))]) t ks t')"
    and "length (filter (\<lambda>x. x \<noteq> None) xs) \<le> lv"
  shows "\<exists>kss ys lv' lo' hi'. mtrie_rm_table p uniq buff mn c lv lo hi xs = Some (concat kss, lv', lo', hi', ys) \<and>
    length ys = length xs \<and> length kss = length xs \<and>
    (\<forall>i < length xs. slot_removed p uniq (buff @ [of_nat (mn + (c + i))]) (xs ! i) (kss ! i) (ys ! i)) \<and>
    lv' + length (filter (\<lambda>x. x \<noteq> None) xs) = lv + length (filter (\<lambda>x. x \<noteq> None) ys) \<and>
    lo' = Min (insert lo {mn + (c + i) | i. i < length xs \<and> ys ! i \<noteq> None}) \<and>
    hi' = Max (insert hi {mn + (c + i) | i. i < length xs \<and> ys ! i \<noteq> None})"
  using assms
proof (induction xs arbitrary: c lv lo hi)
  case Nil
  then show ?case by (intro exI[of _ "[]"]) simp
next
  case (Cons x xs)
  have IHa: "\<forall>i < length xs. \<forall>t. xs ! i = Some t \<longrightarrow>
      (\<exists>ks t'. mtrie_rm_pipe p uniq (buff @ [of_nat (mn + (c + 1 + i))]) t = Some (ks, t') \<and>
        pipe_removed p uniq (buff @ [of_nat (mn + (c + 1 + i))]) t ks t')"
  proof (intro allI impI)
    fix i t assume "i < length xs" "xs ! i = Some t"
    then show "\<exists>ks t'. mtrie_rm_pipe p uniq (buff @ [of_nat (mn + (c + 1 + i))]) t = Some (ks, t') \<and>
        pipe_removed p uniq (buff @ [of_nat (mn + (c + 1 + i))]) t ks t'"
      using Cons.prems(1)[rule_format, of "Suc i" t] by simp
  qed
  have bounds: "{mn + (c + i) | i. i < length (x # xs) \<and> (y # ys) ! i \<noteq> None} =
      (if y = None then {} else {mn + c}) \<union> {mn + (c + 1 + i) | i. i < length xs \<and> ys ! i \<noteq> None}" for y ys
    by (auto simp: less_Suc_eq_0_disj)
  have fin: "finite {mn + (c + 1 + i) | i. i < length xs \<and> ys ! i \<noteq> None}" for ys by simp
  obtain ks y lv1 lo1 hi1 where
    step: "mtrie_rm_table p uniq buff mn c lv lo hi (x # xs) = map_option (\<lambda>(ks', lv, lo, hi, ys). (ks @ ks', lv, lo, hi, y # ys))
      (mtrie_rm_table p uniq buff mn (c + 1) lv1 lo1 hi1 xs)" and
    y: "slot_removed p uniq (buff @ [of_nat (mn + c)]) x ks y" and
    lv1: "length (filter (\<lambda>x. x \<noteq> None) xs) \<le> lv1" "lv1 + (if x = None then 0 else 1) = lv + (if y = None then 0 else 1)" and
    lo1: "lo1 = (if y = None then lo else min lo (mn + c))" "hi1 = (if y = None then hi else max hi (mn + c))"
  proof (cases x)
    case None
    show ?thesis by (rule that[of "[]" None lv lo hi]) (use None Cons.prems(2) in \<open>auto simp: slot_removed_def\<close>)
  next
    case (Some t)
    obtain ks t' where t': "mtrie_rm_pipe p uniq (buff @ [of_nat (mn + c)]) t = Some (ks, t')"
      "pipe_removed p uniq (buff @ [of_nat (mn + c)]) t ks t'" using Cons.prems(1)[rule_format, of 0 t] Some by auto
    show ?thesis
    proof (cases "mtrie_is_redundant t'")
      case True
      show ?thesis by (rule that[of ks None "lv - 1" lo hi])
        (use Some t' True Cons.prems(2) in \<open>auto simp: slot_removed_def\<close>)
    next
      case False
      show ?thesis by (rule that[of ks "Some t'" lv "min lo (mn + c)" "max hi (mn + c)"])
        (use Some t' False Cons.prems(2) in \<open>auto simp: slot_removed_def min_def max_def add.commute not_less\<close>)
    qed
  qed
  obtain kss ys lv' lo' hi' where IH: "mtrie_rm_table p uniq buff mn (c + 1) lv1 lo1 hi1 xs = Some (concat kss, lv', lo', hi', ys)"
    "length ys = length xs" "length kss = length xs"
    "\<forall>i < length xs. slot_removed p uniq (buff @ [of_nat (mn + (c + 1 + i))]) (xs ! i) (kss ! i) (ys ! i)"
    "lv' + length (filter (\<lambda>x. x \<noteq> None) xs) = lv1 + length (filter (\<lambda>x. x \<noteq> None) ys)"
    "lo' = Min (insert lo1 {mn + (c + 1 + i) | i. i < length xs \<and> ys ! i \<noteq> None})"
    "hi' = Max (insert hi1 {mn + (c + 1 + i) | i. i < length xs \<and> ys ! i \<noteq> None})"
    using Cons.IH[OF IHa lv1(1), of lo1 hi1] by (elim exE conjE) (rule that)
  have "mtrie_rm_table p uniq buff mn c lv lo hi (x # xs) = Some (concat (ks # kss), lv', lo', hi', y # ys)"
    unfolding step IH(1) by simp
  moreover have "\<forall>i < length (x # xs). slot_removed p uniq (buff @ [of_nat (mn + (c + i))]) ((x # xs) ! i) ((ks # kss) ! i) ((y # ys) ! i)"
    using y IH(4) by (auto simp: less_Suc_eq_0_disj simp del: of_nat_add of_nat_Suc)
  moreover have "lv' + length (filter (\<lambda>x. x \<noteq> None) (x # xs)) = lv + length (filter (\<lambda>x. x \<noteq> None) (y # ys))"
    using IH(5) lv1(2) by auto
  moreover have "lo' = Min (insert lo {mn + (c + i) | i. i < length (x # xs) \<and> (y # ys) ! i \<noteq> None})"
    unfolding bounds IH(6) lo1 using Min_insert_min[OF fin[of ys], of lo "mn + c"] by (cases "y = None") auto
  moreover have "hi' = Max (insert hi {mn + (c + i) | i. i < length (x # xs) \<and> (y # ys) ! i \<noteq> None})"
    unfolding bounds IH(7) lo1 using Max_insert_max[OF fin[of ys], of hi "mn + c"] by (cases "y = None") auto
  ultimately show ?case using IH(2,3)
    by (intro exI[of _ "ks # kss"] exI[of _ "y # ys"] exI[of _ lv'] exI[of _ lo'] exI[of _ hi']) (simp del: mtrie_rm_table.simps)
qed


text \<open>The new bounds are those of the live subnodes, and the table is cut down to them.\<close>

lemma live_count: "length (filter (\<lambda>x. x \<noteq> None) xs) = card {e. slot mn xs e \<noteq> None}"
proof -
  have "{e. slot mn xs e \<noteq> None} = (+) mn ` {i. i < length xs \<and> xs ! i \<noteq> None}"
  proof -
    have "e \<in> (+) mn ` {i. i < length xs \<and> xs ! i \<noteq> None}" if "slot mn xs e \<noteq> None" for e
      using slot_Some_range[OF that] that by (intro image_eqI[of _ _ "e - mn"]) (auto simp: slot_def split: if_splits)
    then show ?thesis using slot_nth[of _ xs mn] by auto
  qed
  then show ?thesis by (simp add: length_filter_conv_card card_image)
qed

lemma live_bounds: "{mn + i | i. i < length ys \<and> ys ! i \<noteq> None} = {e. slot mn ys e \<noteq> None}"
proof -
  have "\<exists>i. e = mn + i \<and> i < length ys \<and> ys ! i \<noteq> None" if "slot mn ys e \<noteq> None" for e
    using slot_Some_range[OF that] that by (intro exI[of _ "e - mn"]) (auto simp: slot_def split: if_splits)
  then show ?thesis using slot_nth[of _ ys mn] by auto
qed

lemma mtrie_compact_law:
  assumes "1 < length ys" "mn + length ys \<le> 256" "lv = card {e. slot mn ys e \<noteq> None}"
    "lo = Min (insert (mn + length ys - 1) {e. slot mn ys e \<noteq> None})" "hi = Max (insert mn {e. slot mn ys e \<noteq> None})"
  shows "\<exists>mn' nx'. mtrie_compact lo hi mn lv ys = Some (mn', nx') \<and> table_ok mn' lv nx' \<and> slot mn' nx' = slot mn ys"
proof -
  define L where "L = {e. slot mn ys e \<noteq> None}"
  have L: "finite L" "\<And>e. e \<in> L \<Longrightarrow> mn \<le> e \<and> e \<le> mn + length ys - 1 \<and> ys ! (e - mn) \<noteq> None"
    using slot_finite[of mn ys] slot_Some_range[of mn ys] by (fastforce simp: L_def slot_def split: if_splits)+
  have lv: "lv = card L" using assms(3) by (simp add: L_def)
  show ?thesis
  proof (cases "L = {}")
    case True
    then have "slot mn ys = slot mn []" by (auto simp: L_def)
    then show ?thesis using True lv assms(1,2) by (auto simp: mtrie_compact_def table_ok_def)
  next
    case False
    have lo: "lo = Min L" unfolding assms(4) L_def[symmetric]
      using L False by (simp add: min_absorb2)
    have hi: "hi = Max L" unfolding assms(5) L_def[symmetric]
      using L False by (simp add: max_absorb2)
    have in_L: "lo \<in> L" "hi \<in> L" using lo hi L(1) False by auto
    have le: "lo \<le> e \<and> e \<le> hi" if "e \<in> L" for e using that lo hi L(1) by simp
    note r = L(2)[OF in_L(1)] L(2)[OF in_L(2)]
    show ?thesis
    proof (cases "lv = 1")
      case True
      then have "lo = hi" using in_L lv by (metis card_1_singletonE singletonD)
      moreover have "mn + (lo - mn) = lo" "lo - mn < length ys" "lo < mn + length ys" using r assms(1) by linarith+
      ultimately show ?thesis using True r assms(1-3) table_one[of mn ys "lo - mn"]
        by (simp add: mtrie_compact_def)
    next
      case ne: False
      have "lv \<noteq> 0" using lv L(1) False by simp
      have lt: "lo < hi"
      proof (rule ccontr)
        assume "\<not> lo < hi"
        then have "L \<subseteq> {lo}" using le by fastforce
        then have "card L \<le> 1" using card_mono[of "{lo}" L] by simp
        then show False using ne \<open>lv \<noteq> 0\<close> lv by simp
      qed
      let ?d = "drop (lo - mn) ys" and ?n = "hi - lo + 1"
      have dead: "ys ! j = None" if "j < length ys" "mn + j < lo \<or> hi < mn + j" for j
        using le[of "mn + j"] that slot_nth[OF that(1), of mn] by (force simp: L_def)
      have "lo - mn \<le> length ys" "mn + (lo - mn) = lo" using r assms(1) by linarith+
      then have s1: "slot lo ?d = slot mn ys"
        using slot_drop[of "lo - mn" ys mn] dead by auto
      have s2: "slot lo (take ?n ?d) = slot mn ys"
        unfolding s1[symmetric] by (rule slot_take) (use r lt in \<open>auto intro!: dead\<close>)
      have "table_ok lo lv (take ?n ?d)"
        by (rule table_ok_cut[OF s2 assms(3)]) (use r lt assms(2) in auto)
      moreover have "lo = mn \<Longrightarrow> hi = mn + length ys - 1 \<Longrightarrow> take ?n ?d = ys" using assms(1) by simp
      moreover have "int hi - int lo + 1 < int (length ys)" if "lo > mn \<or> hi < mn + length ys - 1" using that r by linarith
      ultimately show ?thesis using ne \<open>lv \<noteq> 0\<close> lt r s2 by (auto simp: mtrie_compact_def)
    qed
  qed
qed


lemma erase_pipe_law:
  assumes "erase_pipe p uniq buff ps = (ks, ps')" "\<And>A. ps = Some A \<Longrightarrow> A \<noteq> {} \<and> finite A"
  shows "(case ps' of None \<Rightarrow> {} | Some A \<Rightarrow> A) = (case ps of None \<Rightarrow> {} | Some A \<Rightarrow> A) - {p}"
    "\<And>A. ps' = Some A \<Longrightarrow> A \<noteq> {} \<and> finite A" "distinct ks"
    "set ks = (if p \<in> (case ps of None \<Rightarrow> {} | Some A \<Rightarrow> A) \<and> (uniq \<longrightarrow> ps = Some {p}) then {buff} else {})"
proof -
  have "A - {p} = {} \<longleftrightarrow> A = {p}" if "ps = Some A" for A using assms(2)[OF that] by auto
  then show "(case ps' of None \<Rightarrow> {} | Some A \<Rightarrow> A) = (case ps of None \<Rightarrow> {} | Some A \<Rightarrow> A) - {p}"
    "\<And>A. ps' = Some A \<Longrightarrow> A \<noteq> {} \<and> finite A" "distinct ks"
    "set ks = (if p \<in> (case ps of None \<Rightarrow> {} | Some A \<Rightarrow> A) \<and> (uniq \<longrightarrow> ps = Some {p}) then {buff} else {})"
    using assms by (cases ps; auto split: if_splits)+
qed

text \<open>All slots of a node: what happened to each subnode, and the node's table afterwards.\<close>

lemma rm_pipe_slots:
  assumes "mtrie_wf (Mtrie ps mn lv nx)" "erase_pipe p uniq buff ps = (ks0, ps')"
    and IH: "\<forall>i < length nx. \<forall>t. nx ! i = Some t \<longrightarrow>
      (\<forall>buff. \<exists>ks t'. mtrie_rm_pipe p uniq buff t = Some (ks, t') \<and> pipe_removed p uniq buff t ks t')"
  shows "\<exists>kss ys mn' lv' nx'. mtrie_rm_pipe p uniq buff (Mtrie ps mn lv nx) = Some (ks0 @ concat kss, Mtrie ps' mn' lv' nx') \<and>
    table_ok mn' lv' nx' \<and> slot mn' nx' = slot mn ys \<and> length ys = length nx \<and> length kss = length nx \<and>
    (\<forall>i < length nx. slot_removed p uniq (buff @ [of_nat (mn + i)]) (nx ! i) (kss ! i) (ys ! i))"
proof -
  have ok: "table_ok mn lv nx" using assms(1) by (simp add: mtrie_wf_Mtrie)
  consider (nil) "nx = []" | (one) "length nx = 1" | (table) "1 < length nx" by (cases nx; cases "tl nx") auto
  then show ?thesis
  proof cases
    case nil
    then show ?thesis using assms(2) ok by (intro exI[of _ "[]"]) auto
  next
    case one
    then obtain x where x: "nx = [x]" by (cases nx) auto
    note s = table_single[OF ok[unfolded x]]
    obtain t where t: "x = Some t" using s(3) by auto
    obtain ks t' where t': "mtrie_rm_pipe p uniq (buff @ [of_nat mn]) t = Some (ks, t')"
      "pipe_removed p uniq (buff @ [of_nat mn]) t ks t'" using IH[rule_format, of 0 t "buff @ [of_nat mn]"] x t by auto
    define y where "y = (if mtrie_is_redundant t' then None else Some t')"
    have y: "slot_removed p uniq (buff @ [of_nat mn]) x ks y" using t t' by (auto simp: slot_removed_def y_def)
    have sl: "slot mn [None] = slot mn ([] :: mtrie option list)" by (rule ext) (auto simp: slot_def)
    have "mn < 256" using ok by (simp add: table_ok_def)
    then have ok1: "table_ok mn 0 ([] :: mtrie option list)" "table_ok mn 1 [Some t']"
      using slot_single[of 0 1 mn "Some t'"] by (simp_all add: table_ok_def)
    show ?thesis
    proof (cases "mtrie_is_redundant t'")
      case True
      have "mtrie_rm_pipe p uniq buff (Mtrie ps mn lv nx) = Some (ks0 @ concat [ks], Mtrie ps' mn 0 [])"
        using assms(2) x t t' True s(1) by simp
      then show ?thesis using y True ok1(1) sl x unfolding y_def
        by (intro exI[of _ "[ks]"] exI[of _ "[None]"] exI[of _ mn] exI[of _ 0] exI[of _ "[]"]) simp
    next
      case False
      have "mtrie_rm_pipe p uniq buff (Mtrie ps mn lv nx) = Some (ks0 @ concat [ks], Mtrie ps' mn 1 [Some t'])"
        using assms(2) x t t' False s(1) by simp
      then show ?thesis using y False ok1(2) x unfolding y_def
        by (intro exI[of _ "[ks]"] exI[of _ "[Some t']"] exI[of _ mn] exI[of _ 1] exI[of _ "[Some t']"]) simp
    qed
  next
    case table
    have lv: "length (filter (\<lambda>x. x \<noteq> None) nx) = lv" "mn + length nx \<le> 256"
      using ok live_count[of nx mn] by (auto simp: table_ok_def)
    have pre: "\<forall>i < length nx. \<forall>t. nx ! i = Some t \<longrightarrow>
      (\<exists>ks t'. mtrie_rm_pipe p uniq (buff @ [of_nat (mn + (0 + i))]) t = Some (ks, t') \<and>
        pipe_removed p uniq (buff @ [of_nat (mn + (0 + i))]) t ks t')" using IH by blast
    obtain kss ys lv' lo' hi' where r: "mtrie_rm_table p uniq buff mn 0 lv (mn + length nx - 1) mn nx = Some (concat kss, lv', lo', hi', ys)"
      "length ys = length nx" "length kss = length nx"
      "\<forall>i < length nx. slot_removed p uniq (buff @ [of_nat (mn + (0 + i))]) (nx ! i) (kss ! i) (ys ! i)"
      "lv' + length (filter (\<lambda>x. x \<noteq> None) nx) = lv + length (filter (\<lambda>x. x \<noteq> None) ys)"
      "lo' = Min (insert (mn + length nx - 1) {mn + (0 + i) | i. i < length nx \<and> ys ! i \<noteq> None})"
      "hi' = Max (insert mn {mn + (0 + i) | i. i < length nx \<and> ys ! i \<noteq> None})"
      using rm_table_law[OF pre eq_refl[OF lv(1)], of "mn + length nx - 1" mn] by (elim exE conjE) (rule that)
    have b: "{mn + (0 + i) | i. i < length nx \<and> ys ! i \<noteq> None} = {e. slot mn ys e \<noteq> None}"
      using live_bounds[of mn ys] r(2) by simp
    have lv': "lv' = card {e. slot mn ys e \<noteq> None}" using r(5) lv(1) live_count[of ys mn] by simp
    obtain mn' nx' where c: "mtrie_compact lo' hi' mn lv' ys = Some (mn', nx')" "table_ok mn' lv' nx'" "slot mn' nx' = slot mn ys"
      using mtrie_compact_law[of ys mn lv' lo' hi'] table lv(2) lv' r(2,6,7) unfolding b by auto
    have "mtrie_rm_pipe p uniq buff (Mtrie ps mn lv nx) = Some (ks0 @ concat kss, Mtrie ps' mn' lv' nx')"
      using assms(2) table r(1) c(1) by (cases "nx = []") simp_all
    then show ?thesis using c r(2-4) by auto
  qed
qed

definition slot_lookup :: "mtrie option \<Rightarrow> bytes \<Rightarrow> nat set" where
  "slot_lookup x k = (case x of None \<Rightarrow> {} | Some t \<Rightarrow> mtrie_lookup t k)"

definition slot_gone :: "nat \<Rightarrow> bool \<Rightarrow> mtrie option \<Rightarrow> bytes set" where
  "slot_gone p uniq x = (case x of None \<Rightarrow> {} | Some t \<Rightarrow> mtrie_gone p uniq t)"

lemma slot_removedD:
  assumes "slot_removed p uniq b x ks y"
  shows "\<And>t. y = Some t \<Longrightarrow> mtrie_wf t \<and> \<not> mtrie_is_redundant t" "slot_lookup y k = slot_lookup x k - {p}"
    "distinct ks" "set ks = (@) b ` slot_gone p uniq x"
proof -
  consider "x = None" "ks = []" "y = None"
    | t t' where "x = Some t" "pipe_removed p uniq b t ks t'" "y = (if mtrie_is_redundant t' then None else Some t')"
    using assms by (auto simp: slot_removed_def split: option.splits)
  then show "\<And>t. y = Some t \<Longrightarrow> mtrie_wf t \<and> \<not> mtrie_is_redundant t" "slot_lookup y k = slot_lookup x k - {p}"
    "distinct ks" "set ks = (@) b ` slot_gone p uniq x"
    by (cases; use mtrie_redundant_lookup[of _ k] in \<open>fastforce simp: slot_lookup_def slot_gone_def pipe_removed_def split: if_splits\<close>)+
qed

lemma mtrie_lookup_slot: "mtrie_lookup (Mtrie ps mn lv nx) (c # cs) = slot_lookup (slot mn nx (unat c)) cs"
  by (simp add: slot_lookup_def)

lemma slot_as_nth: "slot mn xs c = (if mn \<le> c \<and> c < mn + length xs then xs ! (c - mn) else None)"
  by (auto simp: slot_def)

lemma mtrie_gone_Mtrie:
  "mtrie_gone p uniq (Mtrie ps mn lv nx) =
     (if p \<in> (case ps of None \<Rightarrow> {} | Some A \<Rightarrow> A) \<and> (uniq \<longrightarrow> ps = Some {p}) then {[]} else {}) \<union>
     {c # k | c k. k \<in> slot_gone p uniq (slot mn nx (unat c))}"
proof -
  have "k \<in> mtrie_gone p uniq (Mtrie ps mn lv nx) \<longleftrightarrow> k \<in> (if p \<in> (case ps of None \<Rightarrow> {} | Some A \<Rightarrow> A) \<and>
      (uniq \<longrightarrow> ps = Some {p}) then {[]} else {}) \<union> {c # k | c k. k \<in> slot_gone p uniq (slot mn nx (unat c))}" for k
    by (cases k) (auto simp: mtrie_gone_def slot_gone_def split: option.splits)
  then show ?thesis by blast
qed

lemma mtrie_rm_pipe_law:
  "mtrie_wf t \<Longrightarrow> \<exists>ks t'. mtrie_rm_pipe p uniq buff t = Some (ks, t') \<and> pipe_removed p uniq buff t ks t'"
proof (induction t arbitrary: buff)
  case (Mtrie ps mn lv nx)
  have ok: "mn + length nx \<le> 256" using Mtrie.prems by (simp add: mtrie_wf_Mtrie table_ok_def)
  have sub: "mtrie_wf t" if "i < length nx" "nx ! i = Some t" for i t
  proof -
    have "slot mn nx (mn + i) = Some t" using slot_nth[OF that(1), of mn] that(2) by simp
    then show ?thesis using Mtrie.prems by (simp add: mtrie_wf_Mtrie)
  qed
  obtain ks0 ps' where e: "erase_pipe p uniq buff ps = (ks0, ps')" by fastforce
  have wfps: "\<And>A. ps = Some A \<Longrightarrow> A \<noteq> {} \<and> finite A" using Mtrie.prems by (auto simp: mtrie_wf_Mtrie)
  note ep = erase_pipe_law[OF e wfps]
  have IH: "\<forall>i < length nx. \<forall>t. nx ! i = Some t \<longrightarrow>
      (\<forall>buff. \<exists>ks t'. mtrie_rm_pipe p uniq buff t = Some (ks, t') \<and> pipe_removed p uniq buff t ks t')"
    using Mtrie.IH sub by (metis nth_mem option.set_intros)
  obtain kss ys mn' lv' nx' where s: "mtrie_rm_pipe p uniq buff (Mtrie ps mn lv nx) = Some (ks0 @ concat kss, Mtrie ps' mn' lv' nx')"
    "table_ok mn' lv' nx'" "slot mn' nx' = slot mn ys" "length ys = length nx" "length kss = length nx"
    "\<forall>i < length nx. slot_removed p uniq (buff @ [of_nat (mn + i)]) (nx ! i) (kss ! i) (ys ! i)"
    using rm_pipe_slots[OF Mtrie.prems e IH] by blast
  let ?t = "Mtrie ps mn lv nx" and ?t' = "Mtrie ps' mn' lv' nx'"
  have sr: "slot_removed p uniq (buff @ [of_nat (mn + i)]) (nx ! i) (kss ! i) (ys ! i)" if "i < length nx" for i
    using s(6) that by blast
  have sl: "\<exists>i < length nx. slot mn' nx' c = ys ! i \<and> slot mn nx c = nx ! i \<and> c = mn + i"
    if "mn \<le> c" "c < mn + length nx" for c
    using that s(3,4) by (intro exI[of _ "c - mn"]) (auto simp: slot_as_nth)
  have out: "slot mn' nx' c = None" "slot mn nx c = None" if "\<not> (mn \<le> c \<and> c < mn + length nx)" for c
    using that s(3,4) by (auto simp: slot_as_nth)
  have sub': "mtrie_wf u \<and> \<not> mtrie_is_redundant u" if "slot mn' nx' c = Some u" for c u
  proof -
    have "mn \<le> c \<and> c < mn + length nx" using out(1)[of c] that by auto
    then obtain i where "i < length nx" "slot mn' nx' c = ys ! i" using sl by blast
    then show ?thesis using slot_removedD(1)[OF sr] that by metis
  qed
  have wf: "mtrie_wf ?t'" by (rule mtrie_wf_node[OF s(2) ep(2) sub'])
  have lk: "slot_lookup (slot mn' nx' c) k = slot_lookup (slot mn nx c) k - {p}" for c k
  proof (cases "mn \<le> c \<and> c < mn + length nx")
    case True
    then obtain i where i: "i < length nx" "slot mn' nx' c = ys ! i" "slot mn nx c = nx ! i" using sl by blast
    then show ?thesis using slot_removedD(2)[OF sr[OF i(1)]] by simp
  qed (use out[of c] in \<open>auto simp: slot_lookup_def\<close>)
  have "mtrie_lookup ?t' k = mtrie_lookup ?t k - {p}" for k
    using lk ep(1) by (cases k) (simp_all add: mtrie_lookup_slot del: mtrie_lookup.simps(2))
  moreover have "distinct (ks0 @ concat kss) \<and> set (ks0 @ concat kss) = (@) buff ` mtrie_gone p uniq ?t"
  proof -
    have u: "unat (of_nat (mn + i) :: byte) = mn + i" if "i < length nx" for i
      using that ok by (simp add: unat_of_nat del: of_nat_add)
    have ks: "concat kss = concat (map ((!) kss) [0..<length nx])" using s(5) by (metis map_nth)
    have set_ks: "set (kss ! i) = {buff @ of_nat (mn + i) # k | k. k \<in> slot_gone p uniq (nx ! i)}" if "i < length nx" for i
      using slot_removedD(4)[OF sr[OF that]] by (auto simp del: of_nat_add)
    have "distinct (concat (map ((!) kss) [0..<length nx]))"
    proof (rule distinct_concat_map)
      show "\<forall>i \<in> set [0..<length nx]. \<forall>j \<in> set [0..<length nx]. i \<noteq> j \<longrightarrow> set (kss ! i) \<inter> set (kss ! j) = {}"
      proof (intro ballI impI)
        fix i j assume ij: "i \<in> set [0..<length nx]" "j \<in> set [0..<length nx]" "i \<noteq> j"
        then have "of_nat (mn + i) \<noteq> (of_nat (mn + j) :: byte)" using u[of i] u[of j] by (metis add_left_cancel atLeastLessThan_iff set_upt)
        then show "set (kss ! i) \<inter> set (kss ! j) = {}" using set_ks[of i] set_ks[of j] ij by (auto simp del: of_nat_add)
      qed
    qed (use slot_removedD(3)[OF sr] in auto)
    moreover have "set (concat kss) = {buff @ c # k | c k. k \<in> slot_gone p uniq (slot mn nx (unat c))}" (is "_ = ?R")
    proof -
      have "x \<in> set (concat kss) \<longleftrightarrow> (\<exists>i < length nx. \<exists>k. x = buff @ of_nat (mn + i) # k \<and> k \<in> slot_gone p uniq (nx ! i))" for x
      proof -
        have "x \<in> set (concat kss) \<longleftrightarrow> (\<exists>i < length nx. x \<in> set (kss ! i))" unfolding ks by auto
        then show ?thesis by (simp add: set_ks del: of_nat_add cong: conj_cong)
      qed
      moreover have "x \<in> ?R \<longleftrightarrow> (\<exists>i < length nx. \<exists>k. x = buff @ of_nat (mn + i) # k \<and> k \<in> slot_gone p uniq (nx ! i))" for x
      proof
        assume "x \<in> ?R"
        then obtain c k where x: "x = buff @ c # k" "k \<in> slot_gone p uniq (slot mn nx (unat c))" by blast
        then have "slot mn nx (unat c) \<noteq> None" by (auto simp: slot_gone_def split: option.splits)
        then obtain i where "i < length nx" "slot mn nx (unat c) = nx ! i" "unat c = mn + i" using sl[of "unat c"] out(2)[of "unat c"] by meson
        then show "\<exists>i < length nx. \<exists>k. x = buff @ of_nat (mn + i) # k \<and> k \<in> slot_gone p uniq (nx ! i)"
          using x unat_of_nat_inverse by metis
      next
        assume "\<exists>i < length nx. \<exists>k. x = buff @ of_nat (mn + i) # k \<and> k \<in> slot_gone p uniq (nx ! i)"
        then obtain i k where i: "i < length nx" "x = buff @ of_nat (mn + i) # k" "k \<in> slot_gone p uniq (nx ! i)" by blast
        then have "k \<in> slot_gone p uniq (slot mn nx (unat (of_nat (mn + i) :: byte)))"
          unfolding u[OF i(1)] slot_nth[OF i(1)] by blast
        then show "x \<in> ?R" using i(2) by blast
      qed
      ultimately show ?thesis by blast
    qed
    ultimately show ?thesis using ep(3,4) unfolding ks[symmetric] mtrie_gone_Mtrie by (auto simp: image_Un)
  qed
  ultimately show ?case using s(1) wf unfolding pipe_removed_def by blast
qed


subsection \<open>The interface of a store of subscribers\<close>

text \<open>What a publishing socket needs: a relation between topic prefixes and pipes, its two updates for
  one subscription, the removal of a pipe with the topics it leaves, and the pipes that match a
  message.\<close>

datatype sub_op = Subscribe bytes nat | Unsubscribe bytes nat | Drop_pipe nat bool

datatype sub_answer = First bool | Result rm_result | Topics "bytes list"

fun rel_step :: "sub_op \<Rightarrow> (bytes \<Rightarrow> nat set) \<Rightarrow> bytes \<Rightarrow> nat set" where
  "rel_step (Subscribe k p) R = R(k := insert p (R k))"
| "rel_step (Unsubscribe k p) R = R(k := R k - {p})"
| "rel_step (Drop_pipe p uniq) R = (\<lambda>k. R k - {p})"

definition rel_rm_result :: "nat set \<Rightarrow> nat \<Rightarrow> rm_result" where
  "rel_rm_result A p = (if p \<notin> A then Not_found else if A = {p} then Last_value_removed else Values_remain)"

fun answer_ok :: "sub_op \<Rightarrow> (bytes \<Rightarrow> nat set) \<Rightarrow> sub_answer \<Rightarrow> bool" where
  "answer_ok (Subscribe k p) R (First b) = (b = (R k = {}))"
| "answer_ok (Unsubscribe k p) R (Result r) = (r = rel_rm_result (R k) p)"
| "answer_ok (Drop_pipe p uniq) R (Topics ks) = (distinct ks \<and> set ks = {k. p \<in> R k \<and> (uniq \<longrightarrow> R k = {p})})"
| "answer_ok _ R _ = False"

fun answers_ok :: "sub_op list \<Rightarrow> (bytes \<Rightarrow> nat set) \<Rightarrow> sub_answer list \<Rightarrow> bool" where
  "answers_ok [] R [] = True"
| "answers_ok (x # xs) R (a # as) = (answer_ok x R a \<and> answers_ok xs (rel_step x R) as)"
| "answers_ok _ R _ = False"

locale subscriber_store =
  fixes empty :: 't
    and inv :: "'t \<Rightarrow> bool"
    and rel :: "'t \<Rightarrow> bytes \<Rightarrow> nat set"
    and step :: "sub_op \<Rightarrow> 't \<Rightarrow> (sub_answer \<times> 't) option"
    and matching_pipes :: "bytes \<Rightarrow> 't \<Rightarrow> nat list option"
  assumes empty: "inv empty" "rel empty = (\<lambda>_. {})"
    and step: "inv t \<Longrightarrow> \<exists>a t'. step x t = Some (a, t') \<and> inv t' \<and> rel t' = rel_step x (rel t) \<and> answer_ok x (rel t) a"
    and matching_pipes: "inv t \<Longrightarrow> \<exists>ps. matching_pipes d t = Some ps \<and> set ps = (\<Union>k \<in> {k. prefix k d}. rel t k)"
begin

fun run :: "sub_op list \<Rightarrow> 't \<Rightarrow> (sub_answer list \<times> 't) option" where
  "run [] t = Some ([], t)"
| "run (x # xs) t = do { (a, t) \<leftarrow> step x t; (as, t) \<leftarrow> run xs t; Some (a # as, t) }"

lemma run_rel:
  "inv t \<Longrightarrow> \<exists>as t'. run xs t = Some (as, t') \<and> inv t' \<and> rel t' = fold rel_step xs (rel t) \<and> answers_ok xs (rel t) as"
proof (induction xs arbitrary: t)
  case (Cons x xs)
  obtain a t' where t': "step x t = Some (a, t')" "inv t'" "rel t' = rel_step x (rel t)" "answer_ok x (rel t) a"
    using step[OF Cons.prems, of x] by (elim exE conjE) (rule that)
  obtain as t'' where "run xs t' = Some (as, t'')" "inv t''" "rel t'' = fold rel_step xs (rel t')" "answers_ok xs (rel t') as"
    using Cons.IH[OF t'(2)] by (elim exE conjE) (rule that)
  then show ?case using t' by simp
qed simp

lemma run_correct:
  "\<exists>as t. run xs empty = Some (as, t) \<and> answers_ok xs (\<lambda>_. {}) as \<and>
     (\<forall>d. \<exists>ps. matching_pipes d t = Some ps \<and> set ps = (\<Union>k \<in> {k. prefix k d}. fold rel_step xs (\<lambda>_. {}) k))"
proof -
  obtain as t where t: "run xs empty = Some (as, t)" "inv t" "rel t = fold rel_step xs (\<lambda>_. {})" "answers_ok xs (\<lambda>_. {}) as"
    using run_rel[OF empty(1), of xs] unfolding empty(2) by (elim exE conjE) (rule that)
  then show ?thesis using matching_pipes[OF t(2)] by auto
qed

end

fun mtrie_step :: "sub_op \<Rightarrow> mtrie \<Rightarrow> (sub_answer \<times> mtrie) option" where
  "mtrie_step (Subscribe k p) t = (case mtrie_add k p t of (b, t) \<Rightarrow> Some (First b, t))"
| "mtrie_step (Unsubscribe k p) t = map_option (\<lambda>(r, t). (Result r, t)) (mtrie_rm k p t)"
| "mtrie_step (Drop_pipe p uniq) t = map_option (\<lambda>(ks, t). (Topics ks, t)) (mtrie_rm_pipe p uniq [] t)"

fun mtrie_run :: "sub_op list \<Rightarrow> mtrie \<Rightarrow> (sub_answer list \<times> mtrie) option" where
  "mtrie_run [] t = Some ([], t)"
| "mtrie_run (x # xs) t = do { (a, t) \<leftarrow> mtrie_step x t; (as, t) \<leftarrow> mtrie_run xs t; Some (a # as, t) }"

lemma mtrie_step_law:
  assumes "mtrie_wf t"
  shows "\<exists>a t'. mtrie_step x t = Some (a, t') \<and> mtrie_wf t' \<and> mtrie_lookup t' = rel_step x (mtrie_lookup t) \<and>
    answer_ok x (mtrie_lookup t) a"
proof (cases x)
  case (Subscribe k p)
  obtain t' where "mtrie_add k p t = (mtrie_lookup t k = {}, t')" "mtrie_wf t'"
    "mtrie_lookup t' = (mtrie_lookup t)(k := insert p (mtrie_lookup t k))" using mtrie_add_law[OF assms] by blast
  then show ?thesis using Subscribe by (intro exI[of _ "First (mtrie_lookup t k = {})"] exI[of _ t']) simp
next
  case (Unsubscribe k p)
  obtain t' where "mtrie_rm k p t = Some (rel_rm_result (mtrie_lookup t k) p, t')" "mtrie_wf t'"
    "mtrie_lookup t' = (mtrie_lookup t)(k := mtrie_lookup t k - {p})"
    using mtrie_rm_law[OF assms, of k p] unfolding rel_rm_result_def by blast
  then show ?thesis using Unsubscribe by (intro exI[of _ "Result (rel_rm_result (mtrie_lookup t k) p)"] exI[of _ t']) simp
next
  case (Drop_pipe p uniq)
  obtain ks t' where t': "mtrie_rm_pipe p uniq [] t = Some (ks, t')" "pipe_removed p uniq [] t ks t'"
    using mtrie_rm_pipe_law[OF assms] by blast
  have "mtrie_lookup t' = (\<lambda>k. mtrie_lookup t k - {p})" using t'(2) by (auto simp: pipe_removed_def)
  then show ?thesis using Drop_pipe t' by (intro exI[of _ "Topics ks"] exI[of _ t']) (simp add: pipe_removed_def mtrie_gone_def)
qed

interpretation ms: subscriber_store mtrie_new mtrie_wf mtrie_lookup mtrie_step mtrie_match
proof
  show "mtrie_lookup mtrie_new = (\<lambda>_. {})" by (rule ext) simp
qed (use mtrie_step_law mtrie_match_law mtrie_wf_new in \<open>simp_all add: mtrie_step_law mtrie_match_law\<close>)

lemma mtrie_run_eq: "mtrie_run xs t = ms.run xs t"
  by (induction xs arbitrary: t) simp_all

text \<open>C16. After any sequence of subscriptions, cancellations and removals of pipes the trie of subscribers
  has met no failed assertion and no null node and answers as the relation between prefixes and
  pipes does: \<open>add\<close> says whether the prefix is new, \<open>rm\<close> whether the subscription existed and was
  the last one, the removal of a pipe calls its function exactly once for each topic of the pipe (for
  each topic that nobody else subscribes, when restricted to these), and \<open>match\<close> signals exactly the
  pipes that subscribed a prefix of the message.\<close>

theorem mtrie_implements_subscriptions:
  "\<exists>as t. mtrie_run xs mtrie_new = Some (as, t) \<and> answers_ok xs (\<lambda>_. {}) as \<and>
     (\<forall>d. \<exists>ps. mtrie_match d t = Some ps \<and> set ps = (\<Union>k \<in> {k. prefix k d}. fold rel_step xs (\<lambda>_. {}) k))"
  unfolding mtrie_run_eq by (rule ms.run_correct)

end
