(* ===== verification/Zmq_Xpub.thy ===== *)
theory Zmq_Xpub
  imports Zmq_Dist Zmq_Whole Zmq_Mtrie
begin

text \<open>
  The publisher sockets \<open>xpub_t\<close> and \<open>pub_t\<close> of \<open>src/libzmq/src/xpub.cpp\<close> and \<open>pub.cpp\<close>: the subscriptions
  that arrive on the pipes are kept in a trie of subscribers, and a message is sent to the pipes whose
  subscriptions match its first part.  The changes that the user of the socket has to hear of are
  queued.  The theorems: a message goes to exactly the pipes that want it and have room; reading what a
  pipe sends applies it to the trie and comes to an end; the end of a pipe cancels what nobody else
  wants; and a send that is refused leaves its selection of pipes to the next message.
\<close>

record xpub_t =
  xpub_subscriptions :: mtrie
  manual_subscriptions :: mtrie
  xpub_dist :: dist_t
  verbose_subs :: bool
  verbose_unsubs :: bool
  xpub_more :: bool
  lossy :: bool
  manual :: bool
  last_pipe :: "nat option"
  pending_pipes :: "nat option list"
  welcome_msg :: msg_t
  pending_data :: "bytes list"
  pending_metadata :: "nat option list"
  pending_flags :: "byte list"
  xpub_type :: int
  xpub_invert :: bool

definition zmq_pub :: int where "zmq_pub = 1"
definition zmq_xpub :: int where "zmq_xpub = 9"

definition xpub_new :: xpub_t where
  "xpub_new = \<lparr>xpub_subscriptions = mtrie_new, manual_subscriptions = mtrie_new, xpub_dist = dist_new,
     verbose_subs = False, verbose_unsubs = False, xpub_more = False, lossy = True, manual = False, last_pipe = None,
     pending_pipes = [], welcome_msg = msg_init msg_raw, pending_data = [], pending_metadata = [], pending_flags = [],
     xpub_type = zmq_xpub, xpub_invert = False\<rparr>"

definition xpub_destroy :: "xpub_t \<Rightarrow> 'z world_scheme \<Rightarrow> 'z world_scheme option" where
  "xpub_destroy s w =
     do {
       (_, _, w) \<leftarrow> msg_close (welcome_msg s) w;
       dist_destroy (xpub_dist s);
       Some w
     }"

subsection \<open>Subscriptions from the pipes\<close>

definition push_pending :: "bytes \<Rightarrow> nat option \<Rightarrow> byte \<Rightarrow> xpub_t \<Rightarrow> xpub_t" where
  "push_pending d md fl s =
     s\<lparr>pending_data := pending_data s @ [d], pending_metadata := pending_metadata s @ [md],
       pending_flags := pending_flags s @ [fl]\<rparr>"

definition keep_metadata :: "msg_t \<Rightarrow> 'z msg_store_scheme \<Rightarrow> 'z msg_store_scheme option" where
  "keep_metadata m w = (case msg_metadata m of None \<Rightarrow> Some w | Some k \<Rightarrow> metadata_add_ref k w)"

text \<open>One message from a pipe.\<close>

definition xpub_process :: "nat \<Rightarrow> msg_t \<Rightarrow> bytes \<Rightarrow> xpub_t \<Rightarrow> 'z world_scheme \<Rightarrow> (xpub_t \<times> 'z world_scheme) option" where
  "xpub_process p m d s w =
     (if length d > 0 \<and> (hd d = 0 \<or> hd d = 1)
      then
        if manual s
        then do {
          t \<leftarrow> (if hd d = 0 then map_option snd (mtrie_rm (tl d) p (manual_subscriptions s))
               else Some (snd (mtrie_add (tl d) p (manual_subscriptions s))));
          s \<leftarrow> Some (s\<lparr>manual_subscriptions := t, pending_pipes := pending_pipes s @ [Some p]\<rparr>);
          w \<leftarrow> keep_metadata m w;
          Some (push_pending d (msg_metadata m) 0 s, w)
        }
        else do {
          (notify, t) \<leftarrow> (if hd d = 0
             then do {
               (r, t) \<leftarrow> mtrie_rm (tl d) p (xpub_subscriptions s);
               Some (r \<noteq> Values_remain \<or> verbose_unsubs s, t)
             }
             else (case mtrie_add (tl d) p (xpub_subscriptions s) of (first, t) \<Rightarrow> Some (first \<or> verbose_subs s, t)));
          s \<leftarrow> Some (s\<lparr>xpub_subscriptions := t\<rparr>);
          (if xpub_type s = zmq_xpub \<and> notify
           then do { w \<leftarrow> keep_metadata m w; Some (push_pending d (msg_metadata m) 0 s, w) }
           else Some (s, w))
        }
      else do {
        w \<leftarrow> keep_metadata m w;
        Some (push_pending d (msg_metadata m) (msg_flags m) s, w)
      })"

partial_function (option) xpub_read_loop ::
  "nat \<Rightarrow> msg_t \<Rightarrow> xpub_t \<Rightarrow> 'z world_scheme \<Rightarrow> (xpub_t \<times> 'z world_scheme) option" where
  "xpub_read_loop p m s w =
     do {
       (ok, m, w) \<leftarrow> pipe_read p m w;
       (if \<not> ok then Some (s, w)
        else do {
          d \<leftarrow> msg_body m w;
          (s, w) \<leftarrow> xpub_process p m d s w;
          (_, m, w) \<leftarrow> msg_close m w;
          xpub_read_loop p m s w
        })
     }"

declare xpub_read_loop.simps [code]

definition xpub_read_activated :: "nat \<Rightarrow> xpub_t \<Rightarrow> 'z world_scheme \<Rightarrow> (xpub_t \<times> 'z world_scheme) option" where
  "xpub_read_activated p s w = xpub_read_loop p msg_raw s w"

definition xpub_attach_pipe :: "nat \<Rightarrow> bool \<Rightarrow> xpub_t \<Rightarrow> 'z world_scheme \<Rightarrow> (xpub_t \<times> 'z world_scheme) option" where
  "xpub_attach_pipe p subscribe_to_all s w =
     do {
       d \<leftarrow> dist_attach p (xpub_dist s);
       s \<leftarrow> Some (s\<lparr>xpub_dist := d\<rparr>);
       s \<leftarrow> Some (if subscribe_to_all then s\<lparr>xpub_subscriptions := snd (mtrie_add [] p (xpub_subscriptions s))\<rparr> else s);
       n \<leftarrow> msg_size (welcome_msg s) w;
       (s, w) \<leftarrow> (if n > 0
          then do {
            (rc, copy, src, w) \<leftarrow> msg_copy (msg_init msg_raw) (welcome_msg s) w;
            zmq_assert (rc = Rc_ok);
            (ok, _, w) \<leftarrow> pipe_write p copy w;
            zmq_assert ok;
            w \<leftarrow> pipe_flush p w;
            Some (s\<lparr>welcome_msg := src\<rparr>, w)
          }
          else Some (s, w));
       xpub_read_activated p s w
     }"

definition xpub_write_activated :: "nat \<Rightarrow> xpub_t \<Rightarrow> xpub_t option" where
  "xpub_write_activated p s = do { d \<leftarrow> dist_activated p (xpub_dist s); Some (s\<lparr>xpub_dist := d\<rparr>) }"

subsection \<open>Options\<close>

definition opt_verbose :: int where "opt_verbose = 40"
definition opt_verboser :: int where "opt_verboser = 78"
definition opt_nodrop :: int where "opt_nodrop = 69"
definition opt_manual :: int where "opt_manual = 71"
definition opt_welcome_msg :: int where "opt_welcome_msg = 72"
definition opt_sub :: int where "opt_sub = 6"
definition opt_unsub :: int where "opt_unsub = 7"

text \<open>The option value is given as its bytes; an \<open>int\<close> is four bytes, least significant first.\<close>

definition opt_int :: "bytes \<Rightarrow> int" where
  "opt_int v = sint (word_rcat (rev v) :: 32 word)"

definition xpub_setsockopt :: "int \<Rightarrow> bytes \<Rightarrow> xpub_t \<Rightarrow> 'z world_scheme \<Rightarrow> (rc \<times> xpub_t \<times> 'z world_scheme) option" where
  "xpub_setsockopt opt v s w =
     (if opt = opt_verbose \<or> opt = opt_verboser \<or> opt = opt_nodrop \<or> opt = opt_manual
      then
        if length v \<noteq> 4 \<or> opt_int v < 0 then Some (Rc_err EINVAL, s, w)
        else if opt = opt_verbose then Some (Rc_ok, s\<lparr>verbose_subs := (opt_int v \<noteq> 0), verbose_unsubs := False\<rparr>, w)
        else if opt = opt_verboser
        then Some (Rc_ok, s\<lparr>verbose_subs := (opt_int v \<noteq> 0), verbose_unsubs := (opt_int v \<noteq> 0)\<rparr>, w)
        else if opt = opt_nodrop then Some (Rc_ok, s\<lparr>lossy := (opt_int v = 0)\<rparr>, w)
        else Some (Rc_ok, s\<lparr>manual := (opt_int v \<noteq> 0)\<rparr>, w)
      else if opt = opt_sub \<and> manual s
      then (case last_pipe s of
              None \<Rightarrow> Some (Rc_ok, s, w)
            | Some p \<Rightarrow> Some (Rc_ok, s\<lparr>xpub_subscriptions := snd (mtrie_add v p (xpub_subscriptions s))\<rparr>, w))
      else if opt = opt_unsub \<and> manual s
      then (case last_pipe s of
              None \<Rightarrow> Some (Rc_ok, s, w)
            | Some p \<Rightarrow> do { (_, t) \<leftarrow> mtrie_rm v p (xpub_subscriptions s); Some (Rc_ok, s\<lparr>xpub_subscriptions := t\<rparr>, w) })
      else if opt = opt_welcome_msg
      then do {
        (_, m, w) \<leftarrow> msg_close (welcome_msg s) w;
        (m, w) \<leftarrow> (if length v > 0 then msg_of v m w else Some (msg_init m, w));
        Some (Rc_ok, s\<lparr>welcome_msg := m\<rparr>, w)
      }
      else Some (Rc_err EINVAL, s, w))"

subsection \<open>The end of a pipe\<close>

definition send_unsubscription :: "bytes \<Rightarrow> xpub_t \<Rightarrow> xpub_t" where
  "send_unsubscription k s =
     (if xpub_type s \<noteq> zmq_pub
      then let s = push_pending (0 # k) None 0 s
           in if manual s then s\<lparr>last_pipe := None, pending_pipes := pending_pipes s @ [None]\<rparr> else s
      else s)"

definition xpub_pipe_terminated :: "nat \<Rightarrow> xpub_t \<Rightarrow> xpub_t option" where
  "xpub_pipe_terminated p s =
     do {
       s \<leftarrow> (if manual s
          then do {
            (ks, t) \<leftarrow> mtrie_rm_pipe p False [] (manual_subscriptions s);
            s \<leftarrow> Some (fold send_unsubscription ks (s\<lparr>manual_subscriptions := t\<rparr>));
            (_, t) \<leftarrow> mtrie_rm_pipe p False [] (xpub_subscriptions s);
            Some (s\<lparr>xpub_subscriptions := t\<rparr>)
          }
          else do {
            (ks, t) \<leftarrow> mtrie_rm_pipe p (\<not> verbose_unsubs s) [] (xpub_subscriptions s);
            Some (fold send_unsubscription ks (s\<lparr>xpub_subscriptions := t\<rparr>))
          });
       d \<leftarrow> dist_pipe_terminated p (xpub_dist s);
       Some (s\<lparr>xpub_dist := d\<rparr>)
     }"

subsection \<open>Sending\<close>

fun mark_as_matching :: "nat list \<Rightarrow> dist_t \<Rightarrow> dist_t option" where
  "mark_as_matching [] d = Some d"
| "mark_as_matching (p # ps) d = do { d \<leftarrow> dist_match p d; mark_as_matching ps d }"

text \<open>The selection for the first part of a message.\<close>

definition select :: "bytes \<Rightarrow> xpub_t \<Rightarrow> dist_t option" where
  "select b s = do {
     ps \<leftarrow> mtrie_match b (xpub_subscriptions s);
     d \<leftarrow> mark_as_matching ps (xpub_dist s);
     (if xpub_invert s then dist_reverse_match d else Some d) }"

definition xpub_send :: "msg_t \<Rightarrow> xpub_t \<Rightarrow> 'z world_scheme \<Rightarrow> (rc \<times> msg_t \<times> xpub_t \<times> 'z world_scheme) option" where
  "xpub_send m s w =
     do {
       msg_more \<leftarrow> Some (has_flag m flag_more);
       d \<leftarrow> (if \<not> xpub_more s then do { b \<leftarrow> msg_body m w; select b s } else Some (xpub_dist s));
       go \<leftarrow> (if lossy s then Some True else dist_check_hwm d w);
       (if go
        then do {
          (m, d, w) \<leftarrow> send_to_matching m d w;
          d \<leftarrow> Some (if \<not> msg_more then dist_unmatch d else d);
          Some (Rc_ok, m, s\<lparr>xpub_dist := d, xpub_more := msg_more\<rparr>, w)
        }
        else Some (Rc_err EAGAIN, m, s\<lparr>xpub_dist := d\<rparr>, w))
     }"

definition xpub_has_out :: "xpub_t \<Rightarrow> bool" where
  "xpub_has_out s = dist_has_out (xpub_dist s)"

subsection \<open>Receiving what was queued\<close>

definition xpub_recv :: "msg_t \<Rightarrow> xpub_t \<Rightarrow> 'z world_scheme \<Rightarrow> (rc \<times> msg_t \<times> xpub_t \<times> 'z world_scheme) option" where
  "xpub_recv m s w =
     (if pending_data s = [] then Some (Rc_err EAGAIN, m, s, w)
      else do {
        s \<leftarrow> Some (if manual s \<and> pending_pipes s \<noteq> []
               then s\<lparr>last_pipe := hd (pending_pipes s), pending_pipes := tl (pending_pipes s)\<rparr> else s);
        (rc, m, w) \<leftarrow> msg_close m w;
        zmq_assert (rc = Rc_ok);
        (m, w) \<leftarrow> msg_of (hd (pending_data s)) m w;
        (m, w) \<leftarrow> (case hd (pending_metadata s) of
             None \<Rightarrow> Some (m, w)
           | Some k \<Rightarrow> do { (m, w) \<leftarrow> msg_set_metadata k m w; w \<leftarrow> metadata_drop_ref k w; Some (m, w) });
        m \<leftarrow> Some (msg_set_flags (hd (pending_flags s)) m);
        Some (Rc_ok, m, s\<lparr>pending_data := tl (pending_data s), pending_metadata := tl (pending_metadata s),
          pending_flags := tl (pending_flags s)\<rparr>, w)
      })"

definition xpub_has_in :: "xpub_t \<Rightarrow> bool" where
  "xpub_has_in s \<longleftrightarrow> pending_data s \<noteq> []"

subsection \<open>The \<open>PUB\<close> socket\<close>

definition pub_new :: xpub_t where
  "pub_new = xpub_new\<lparr>xpub_type := zmq_pub\<rparr>"

definition pub_attach_pipe :: "nat \<Rightarrow> bool \<Rightarrow> xpub_t \<Rightarrow> 'z world_scheme \<Rightarrow> (xpub_t \<times> 'z world_scheme) option" where
  "pub_attach_pipe p subscribe_to_all s w =
     do {
       x \<leftarrow> pipes w p;
       xpub_attach_pipe p subscribe_to_all s (put_pipe p (set_nodelay x) w)
     }"

definition pub_recv :: "msg_t \<Rightarrow> xpub_t \<Rightarrow> 'z world_scheme \<Rightarrow> (rc \<times> msg_t \<times> xpub_t \<times> 'z world_scheme) option" where
  "pub_recv m s w = Some (Rc_err ENOTSUP, m, s, w)"

definition pub_has_in :: bool where
  "pub_has_in = False"

subsection \<open>Who gets a message\<close>

definition xpub_inv :: "xpub_t \<Rightarrow> bool" where
  "xpub_inv s \<longleftrightarrow> dist_inv (xpub_dist s) \<and> mtrie_wf (xpub_subscriptions s) \<and> mtrie_wf (manual_subscriptions s) \<and>
     dist_more (xpub_dist s) = xpub_more s \<and> (\<not> xpub_more s \<longrightarrow> matching (xpub_dist s) = 0) \<and>
     (\<forall>k. mtrie_lookup (xpub_subscriptions s) k \<subseteq> all_set (xpub_dist s))"

lemma xpub_new_inv: "xpub_inv xpub_new" "xpub_inv pub_new"
  by (simp_all add: xpub_inv_def xpub_new_def pub_new_def dist_new_inv) (simp_all add: dist_new_def)

text \<open>The pipes that have a subscription matching a body, and those that want the message.\<close>

definition subscribed :: "xpub_t \<Rightarrow> bytes \<Rightarrow> nat set" where
  "subscribed s b = (\<Union>k \<in> {k. prefix k b}. mtrie_lookup (xpub_subscriptions s) k)"

definition wants :: "xpub_t \<Rightarrow> bytes \<Rightarrow> nat set" where
  "wants s b = (if xpub_invert s then eligible_set (xpub_dist s) - subscribed s b
     else eligible_set (xpub_dist s) \<inter> subscribed s b)"

lemma mark_ok:
  "dist_inv d \<Longrightarrow> \<not> dist_more d \<Longrightarrow> set ps \<subseteq> all_set d \<Longrightarrow>
   \<exists>d'. mark_as_matching ps d = Some d' \<and> dist_inv d' \<and> dist_more d' = dist_more d \<and>
     matching_set d' = matching_set d \<union> (set ps \<inter> eligible_set d) \<and> active_set d' = active_set d \<and>
     eligible_set d' = eligible_set d \<and> all_set d' = all_set d"
proof (induction ps arbitrary: d)
  case (Cons p ps)
  have p: "p \<in> all_set d" using Cons.prems(3) by simp
  obtain d1 where d1: "dist_match p d = Some d1" "dist_inv d1" "dist_more d1 = dist_more d"
    "matching_set d1 = matching_set d \<union> ({p} \<inter> eligible_set d)" "active_set d1 = active_set d"
    "eligible_set d1 = eligible_set d" "all_set d1 = all_set d"
    using match_refines[OF Cons.prems(1) p Cons.prems(2)] by blast
  have "\<not> dist_more d1" "set ps \<subseteq> all_set d1" using d1(3,7) Cons.prems(2,3) by simp_all
  from Cons.IH[OF d1(2) this] obtain d2 where "mark_as_matching ps d1 = Some d2" "dist_inv d2" "dist_more d2 = dist_more d1"
    "matching_set d2 = matching_set d1 \<union> (set ps \<inter> eligible_set d1)" "active_set d2 = active_set d1"
    "eligible_set d2 = eligible_set d1" "all_set d2 = all_set d1" by blast
  then show ?case using d1 by auto
qed simp

lemma select_ok:
  assumes "dist_inv (xpub_dist s)" "\<not> dist_more (xpub_dist s)" "mtrie_wf (xpub_subscriptions s)"
    "\<forall>k. mtrie_lookup (xpub_subscriptions s) k \<subseteq> all_set (xpub_dist s)"
  shows "\<exists>d. select b s = Some d \<and> dist_inv d \<and> \<not> dist_more d \<and> active_set d = active_set (xpub_dist s) \<and>
    eligible_set d = eligible_set (xpub_dist s) \<and> all_set d = all_set (xpub_dist s) \<and>
    matching_set d = (let M = matching_set (xpub_dist s) \<union> (eligible_set (xpub_dist s) \<inter> subscribed s b)
      in if xpub_invert s then eligible_set (xpub_dist s) - M else M)"
proof -
  obtain ps where ps: "mtrie_match b (xpub_subscriptions s) = Some ps" "set ps = subscribed s b"
    using mtrie_match_law[OF assms(3), of b] unfolding subscribed_def by blast
  have "set ps \<subseteq> all_set (xpub_dist s)" using ps(2) assms(4) by (auto simp: subscribed_def)
  from mark_ok[OF assms(1,2) this] obtain d where d: "mark_as_matching ps (xpub_dist s) = Some d" "dist_inv d"
    "dist_more d = dist_more (xpub_dist s)" "matching_set d = matching_set (xpub_dist s) \<union> (set ps \<inter> eligible_set (xpub_dist s))"
    "active_set d = active_set (xpub_dist s)" "eligible_set d = eligible_set (xpub_dist s)" "all_set d = all_set (xpub_dist s)"
    by blast
  show ?thesis
  proof (cases "xpub_invert s")
    case True
    have "\<not> dist_more d" using d(3) assms(2) by simp
    from reverse_match_refines[OF d(2) this] obtain e where "dist_reverse_match d = Some e" "dist_inv e" "dist_more e = dist_more d"
      "matching_set e = eligible_set d - matching_set d" "active_set e = active_set d" "eligible_set e = eligible_set d"
      "all_set e = all_set d" by blast
    then show ?thesis using True ps d assms(2) by (auto simp: select_def Let_def)
  qed (use ps d assms(2) in \<open>auto simp: select_def Let_def\<close>)
qed

lemma xpub_send_go:
  assumes "lossy s" "(if xpub_more s then d = xpub_dist s else (\<exists>b. msg_body m w = Some b \<and> select b s = Some d))"
    "send_to_matching m d w = Some (m', d', w')"
  shows "xpub_send m s w = Some (Rc_ok, m', s\<lparr>xpub_dist := if \<not> has_flag m flag_more then dist_unmatch d' else d',
     xpub_more := has_flag m flag_more\<rparr>, w')"
  using assms by (auto simp: xpub_send_def split: if_splits)

lemma unmatch_all [simp]:
  "matching (dist_unmatch d) = 0" "dist_more (dist_unmatch d) = dist_more d" "all_set (dist_unmatch d) = all_set d"
  "eligible_set (dist_unmatch d) = eligible_set d" "active_set (dist_unmatch d) = active_set d"
  by (simp_all add: dist_unmatch_def region_def)

lemma refs_room_le: "refs_room n m st \<Longrightarrow> k \<le> n \<Longrightarrow> refs_room k m st"
  by (auto simp: refs_room_def)

context linked_pipes
begin

lemma xpub_send_ok:
  assumes s: "xpub_inv s" "all_set (xpub_dist s) \<subseteq> P" "lossy s"
    and m: "sendable m" "has_body m" "inv w (add_mset m E)" "refs_room (active (xpub_dist s)) m w"
  shows "\<exists>b m' s' w' A T. msg_body m w = Some b \<and> T = (if xpub_more s then matching_set (xpub_dist s) else wants s b) \<and>
    xpub_send m s w = Some (Rc_ok, msg_init m', s', w') \<and> xpub_inv s' \<and> inv w' E \<and>
    A \<subseteq> T \<and> written_to A m w w' \<and> eligible_set (xpub_dist s') = eligible_set (xpub_dist s) - (T - A) \<and>
    all_set (xpub_dist s') = all_set (xpub_dist s) \<and> xpub_subscriptions s' = xpub_subscriptions s \<and>
    xpub_more s' = has_flag m flag_more \<and> (xpub_more s' \<longrightarrow> matching_set (xpub_dist s') = A)"
proof -
  obtain b where b: "msg_body m w = Some b" using inv_body[OF m(3,2)] by blast
  let ?T = "if xpub_more s then matching_set (xpub_dist s) else wants s b"
  have i: "dist_inv (xpub_dist s)" "mtrie_wf (xpub_subscriptions s)" "dist_more (xpub_dist s) = xpub_more s"
    "\<not> xpub_more s \<Longrightarrow> matching (xpub_dist s) = 0" "\<forall>k. mtrie_lookup (xpub_subscriptions s) k \<subseteq> all_set (xpub_dist s)"
    using s(1) by (auto simp: xpub_inv_def)
  have "\<exists>d. (if xpub_more s then d = xpub_dist s else (\<exists>b. msg_body m w = Some b \<and> select b s = Some d)) \<and> dist_inv d \<and>
    matching_set d = ?T \<and> matching d \<le> active (xpub_dist s) \<and> eligible_set d = eligible_set (xpub_dist s) \<and> all_set d = all_set (xpub_dist s)"
  proof (cases "xpub_more s")
    case True
    then show ?thesis using i(1) by (auto simp: dist_inv_def)
  next
    case False
    have nm: "\<not> dist_more (xpub_dist s)" "matching_set (xpub_dist s) = {}" using False i(3,4) by (simp_all add: region_def)
    obtain d where d: "select b s = Some d" "dist_inv d" "active_set d = active_set (xpub_dist s)"
      "eligible_set d = eligible_set (xpub_dist s)" "all_set d = all_set (xpub_dist s)" "matching_set d = wants s b"
      using select_ok[OF i(1) nm(1) i(2,5), of b] unfolding nm(2) by (auto simp: wants_def Let_def Diff_Int)
    have "active d = card (active_set d)" "active (xpub_dist s) = card (active_set (xpub_dist s))"
      using d(2) i(1) by (auto simp: region_def distinct_card array_wf_distinct dist_inv_def)
    then have "matching d \<le> active (xpub_dist s)" using d(2,3) by (simp add: dist_inv_def)
    then show ?thesis using False b d by auto
  qed
  then obtain d where d: "if xpub_more s then d = xpub_dist s else (\<exists>b. msg_body m w = Some b \<and> select b s = Some d)"
    "dist_inv d" "matching_set d = ?T" "matching d \<le> active (xpub_dist s)" "eligible_set d = eligible_set (xpub_dist s)"
    "all_set d = all_set (xpub_dist s)" by blast
  have dP: "all_set d \<subseteq> P" using d(6) s(2) by simp
  have "refs_room (matching d - 1) m w" by (rule refs_room_le[OF m(4)]) (use d(4) in simp)
  from send_to_matching_ok[OF d(2) dP m(1,3) this] obtain m' d' w' where r:
    "send_to_matching m d w = Some (msg_init m', d', w')" "inv w' E" "dist_inv d'" "matching_set d' \<subseteq> matching_set d"
    "written_to (matching_set d') m w w'" "eligible_set d' = eligible_set d - (matching_set d - matching_set d')"
    "all_set d' = all_set d" "dist_more d' = has_flag m flag_more" by blast
  let ?s = "s\<lparr>xpub_dist := if \<not> has_flag m flag_more then dist_unmatch d' else d', xpub_more := has_flag m flag_more\<rparr>"
  have e: "xpub_send m s w = Some (Rc_ok, msg_init m', ?s, w')" by (rule xpub_send_go[OF s(3) d(1) r(1)])
  have "dist_inv (dist_unmatch d')" using unmatch_refines[OF r(3)] by simp
  then have "xpub_inv ?s" using s(1) r(3,7,8) d(6) by (auto simp: xpub_inv_def)
  moreover have "eligible_set (xpub_dist ?s) = eligible_set (xpub_dist s) - (?T - matching_set d')"
    "all_set (xpub_dist ?s) = all_set (xpub_dist s)" using r(6,7) d(3,5,6) by auto
  moreover have "matching_set d' \<subseteq> ?T" using r(4) d(3) by simp
  ultimately show ?thesis using b e r(2,5)
    by (intro exI[of _ b] exI[of _ m'] exI[of _ ?s] exI[of _ w'] exI[of _ "matching_set d'"] exI[of _ ?T]) simp
qed

end

subsection \<open>Reading what a pipe sends\<close>

text \<open>What a body from pipe \<open>p\<close> does to the relation of subscriptions, and what the user hears of it.\<close>

definition sub_rel :: "nat \<Rightarrow> bytes \<Rightarrow> (bytes \<Rightarrow> nat set) \<Rightarrow> bytes \<Rightarrow> nat set" where
  "sub_rel p d R = (case d of [] \<Rightarrow> R
     | c # k \<Rightarrow> if c = 1 then R(k := insert p (R k)) else if c = 0 then R(k := R k - {p}) else R)"

definition news :: "bool \<Rightarrow> bool \<Rightarrow> bool \<Rightarrow> nat \<Rightarrow> bytes \<Rightarrow> (bytes \<Rightarrow> nat set) \<Rightarrow> bytes list" where
  "news x vs vu p d R = (case d of [] \<Rightarrow> [d]
     | c # k \<Rightarrow> if c = 1 then (if x \<and> (R k = {} \<or> vs) then [d] else [])
         else if c = 0 then (if x \<and> (p \<notin> R k \<or> R k = {p} \<or> vu) then [d] else []) else [d])"

fun heard :: "bool \<Rightarrow> bool \<Rightarrow> bool \<Rightarrow> nat \<Rightarrow> bytes list \<Rightarrow> (bytes \<Rightarrow> nat set) \<Rightarrow> bytes list" where
  "heard x vs vu p [] R = []"
| "heard x vs vu p (d # ds) R = news x vs vu p d R @ heard x vs vu p ds (sub_rel p d R)"

text \<open>The bodies that a pipe yields, one after the other, until it has no more.\<close>

inductive reads :: "nat \<Rightarrow> 'z world_scheme \<Rightarrow> bytes list \<Rightarrow> 'z world_scheme \<Rightarrow> bool" where
  reads_end: "pipe_read p m w = Some (False, m', w') \<Longrightarrow> reads p w [] w'"
| reads_more: "pipe_read p m w = Some (True, m', w1) \<Longrightarrow> msg_body m' w1 = Some d \<Longrightarrow> msg_close m' w1 = Some (r, m2, w2) \<Longrightarrow>
    reads p w2 ds w' \<Longrightarrow> reads p w (d # ds) w'"

text \<open>One message is applied as the reference functions say.\<close>

definition applied :: "nat \<Rightarrow> bytes list \<Rightarrow> xpub_t \<Rightarrow> xpub_t \<Rightarrow> bool" where
  "applied p ds s s' \<longleftrightarrow> xpub_inv s' \<and>
     mtrie_lookup (xpub_subscriptions s') = fold (sub_rel p) ds (mtrie_lookup (xpub_subscriptions s)) \<and>
     pending_data s' = pending_data s @ heard (xpub_type s = zmq_xpub) (verbose_subs s) (verbose_unsubs s) p ds
       (mtrie_lookup (xpub_subscriptions s)) \<and>
     xpub_dist s' = xpub_dist s \<and> manual s' = manual s \<and> xpub_type s' = xpub_type s \<and>
     verbose_subs s' = verbose_subs s \<and> verbose_unsubs s' = verbose_unsubs s"

lemma heard_append: "heard x vs vu p (as @ bs) R = heard x vs vu p as R @ heard x vs vu p bs (fold (sub_rel p) as R)"
  by (induction as arbitrary: R) simp_all

lemma applied_trans: "applied p as s s1 \<Longrightarrow> applied p bs s1 s2 \<Longrightarrow> applied p (as @ bs) s s2"
  by (auto simp: applied_def heard_append)

lemma xpub_process_ok:
  assumes "xpub_inv s" "\<not> manual s" "p \<in> all_set (xpub_dist s)" "msg_metadata m = None"
  shows "\<exists>s'. xpub_process p m d s w = Some (s', w) \<and> applied p [d] s s'"
proof -
  let ?R = "mtrie_lookup (xpub_subscriptions s)"
  have wf: "mtrie_wf (xpub_subscriptions s)" and sub: "\<forall>k. ?R k \<subseteq> all_set (xpub_dist s)" using assms(1) by (auto simp: xpub_inv_def)
  have km: "keep_metadata m v = Some v" for v :: "'z msg_store_scheme" using assms(4) by (simp add: keep_metadata_def)
  consider (other) "d = [] \<or> (hd d \<noteq> 0 \<and> hd d \<noteq> 1)" | (rm) k where "d = 0 # k" | (add) k where "d = 1 # k"
    by (cases d) auto
  then show ?thesis
  proof cases
    case other
    then have "xpub_process p m d s w = Some (push_pending d None (msg_flags m) s, w)"
      using assms(4) by (auto simp: xpub_process_def keep_metadata_def)
    moreover have "applied p [d] s (push_pending d None (msg_flags m) s)"
      using other assms(1) by (cases d) (auto simp: applied_def push_pending_def sub_rel_def news_def xpub_inv_def)
    ultimately show ?thesis by blast
  next
    case (rm k)
    obtain t where t: "mtrie_rm k p (xpub_subscriptions s) = Some (rel_rm_result (?R k) p, t)" "mtrie_wf t" "mtrie_lookup t = ?R(k := ?R k - {p})"
      using mtrie_rm_law[OF wf, of k p] unfolding rel_rm_result_def by blast
    let ?n = "rel_rm_result (?R k) p \<noteq> Values_remain \<or> verbose_unsubs s"
    let ?s = "if xpub_type s = zmq_xpub \<and> ?n then push_pending d None 0 (s\<lparr>xpub_subscriptions := t\<rparr>) else s\<lparr>xpub_subscriptions := t\<rparr>"
    have "xpub_process p m d s w = Some (?s, w)"
      using rm t(1) assms(2,4) by (auto simp: xpub_process_def keep_metadata_def)
    moreover have "applied p [d] s ?s"
      using rm t(2,3) assms(1) by (auto simp: applied_def push_pending_def sub_rel_def news_def xpub_inv_def rel_rm_result_def)
    ultimately show ?thesis by blast
  next
    case (add k)
    obtain t where t: "mtrie_add k p (xpub_subscriptions s) = (?R k = {}, t)" "mtrie_wf t" "mtrie_lookup t = ?R(k := insert p (?R k))"
      using mtrie_add_law[OF wf, of k p] by blast
    let ?n = "?R k = {} \<or> verbose_subs s"
    let ?s = "if xpub_type s = zmq_xpub \<and> ?n then push_pending d None 0 (s\<lparr>xpub_subscriptions := t\<rparr>) else s\<lparr>xpub_subscriptions := t\<rparr>"
    have "xpub_process p m d s w = Some (?s, w)"
      using add t(1) assms(2,4) by (auto simp: xpub_process_def keep_metadata_def)
    moreover have "applied p [d] s ?s"
      using add t(2,3) assms(1,3) by (auto simp: applied_def push_pending_def sub_rel_def news_def xpub_inv_def)
    ultimately show ?thesis by blast
  qed
qed

context linked_pipes
begin

lemma xpub_read_loop_ok:
  "waits mid p n w \<Longrightarrow> p \<in> P \<Longrightarrow> inv w E \<Longrightarrow> xpub_inv s \<Longrightarrow> \<not> manual s \<Longrightarrow> p \<in> all_set (xpub_dist s) \<Longrightarrow>
    \<exists>ds s' w'. reads p w ds w' \<and> xpub_read_loop p m s w = Some (s', w') \<and> applied p ds s s' \<and> inv w' E"
proof (induction n arbitrary: mid m w s rule: less_induct)
  case (less n)
  obtain r m1 w1 where rd: "pipe_read p m w = Some (r, m1, w1)" "r \<longrightarrow> sendable m1" "inv w1 (if r then add_mset m1 E else E)"
    using inv_read[OF less.prems(3,2)] by blast
  obtain n1 where n1: "waits (r \<and> has_flag m1 flag_more) p n1 w1" "r \<longrightarrow> n1 < n \<and> has_body m1"
    using read_whole[OF less.prems(1) rd(1)] by blast
  show ?case
  proof (cases r)
    case False
    have "reads p w [] w1" using reads_end[of p m w m1 w1] rd(1) False by simp
    moreover have "xpub_read_loop p m s w = Some (s, w1)" using rd(1) False by (subst xpub_read_loop.simps) simp
    moreover have "applied p [] s s" using less.prems(4) by (simp add: applied_def)
    ultimately show ?thesis using rd(3) False by auto
  next
    case True
    then have m1: "sendable m1" "inv w1 (add_mset m1 E)" "has_body m1" "n1 < n" using rd n1 by simp_all
    obtain d where d: "msg_body m1 w1 = Some d" using inv_body[OF m1(2,3)] by blast
    obtain m2 w2 where c: "msg_close m1 w1 = Some (Rc_ok, m2, w2)" "inv w2 E" "pipes w2 = pipes w1"
      using inv_close[OF m1(2,1)] by blast
    have md: "msg_metadata m1 = None" using m1(1) by (simp add: sendable_def)
    obtain s1 where s1: "xpub_process p m1 d s w1 = Some (s1, w1)" "applied p [d] s s1"
      using xpub_process_ok[OF less.prems(4-6) md] by blast
    have s1': "xpub_inv s1" "\<not> manual s1" "p \<in> all_set (xpub_dist s1)" using s1(2) less.prems(5,6) by (auto simp: applied_def)
    have "upipes w2 = upipes w1" using world_more[OF msg_close_more[OF c(1)]] by simp
    then have wt: "waits (r \<and> has_flag m1 flag_more) p n1 w2" using n1(1) c(3) by (simp add: waits_def)
    obtain ds s' w' where l: "reads p w2 ds w'" "xpub_read_loop p m2 s1 w2 = Some (s', w')" "applied p ds s1 s'" "inv w' E"
      using less.IH[OF m1(4) wt less.prems(2) c(2) s1'] by blast
    have "reads p w (d # ds) w'" using reads_more[OF _ d c(1) l(1)] rd(1) True by simp
    moreover have "xpub_read_loop p m s w = Some (s', w')"
      using rd(1) True d s1(1) c(1) l(2) by (subst xpub_read_loop.simps) simp
    moreover have "applied p (d # ds) s s'" using applied_trans[OF s1(2) l(3)] by simp
    ultimately show ?thesis using l(4) by blast
  qed
qed

end

subsection \<open>The end of a pipe\<close>

lemma send_unsubscription_simps [simp]:
  "xpub_subscriptions (send_unsubscription k s) = xpub_subscriptions s"
  "manual_subscriptions (send_unsubscription k s) = manual_subscriptions s"
  "xpub_dist (send_unsubscription k s) = xpub_dist s" "xpub_more (send_unsubscription k s) = xpub_more s"
  "xpub_type (send_unsubscription k s) = xpub_type s"
  "pending_data (send_unsubscription k s) = pending_data s @ (if xpub_type s = zmq_pub then [] else [0 # k])"
  by (simp_all add: send_unsubscription_def push_pending_def Let_def)

lemma send_unsubscriptions [simp]:
  "xpub_subscriptions (fold send_unsubscription ks s) = xpub_subscriptions s"
  "manual_subscriptions (fold send_unsubscription ks s) = manual_subscriptions s"
  "xpub_dist (fold send_unsubscription ks s) = xpub_dist s" "xpub_more (fold send_unsubscription ks s) = xpub_more s"
  "xpub_type (fold send_unsubscription ks s) = xpub_type s"
  "pending_data (fold send_unsubscription ks s) = pending_data s @ (if xpub_type s = zmq_pub then [] else map ((#) 0) ks)"
  by (induction ks arbitrary: s) simp_all

text \<open>C31. The end of a pipe is a cancellation of all it subscribed: the pipe leaves the distributor and every
  topic of the trie, no assertion fails, and the user of an \<open>XPUB\<close> socket gets one cancellation for each
  topic that no other pipe wants any more (in verbose mode for each topic of the pipe).\<close>

theorem closed_pipe_is_forgotten:
  assumes "xpub_inv s" "\<not> manual s" "p \<in> all_set (xpub_dist s)"
  shows "\<exists>ks s'. xpub_pipe_terminated p s = Some s' \<and> xpub_inv s' \<and> all_set (xpub_dist s') = all_set (xpub_dist s) - {p} \<and>
    (\<forall>k. mtrie_lookup (xpub_subscriptions s') k = mtrie_lookup (xpub_subscriptions s) k - {p}) \<and> distinct ks \<and>
    set ks = {k. p \<in> mtrie_lookup (xpub_subscriptions s) k \<and>
      (verbose_unsubs s \<or> mtrie_lookup (xpub_subscriptions s) k = {p})} \<and>
    pending_data s' = pending_data s @ (if xpub_type s = zmq_pub then [] else map ((#) 0) ks)"
proof -
  have wf: "mtrie_wf (xpub_subscriptions s)" "dist_inv (xpub_dist s)" "dist_more (xpub_dist s) = xpub_more s"
    "\<not> xpub_more s \<Longrightarrow> matching (xpub_dist s) = 0" "\<forall>k. mtrie_lookup (xpub_subscriptions s) k \<subseteq> all_set (xpub_dist s)"
    using assms(1) by (auto simp: xpub_inv_def)
  obtain ks t where t: "mtrie_rm_pipe p (\<not> verbose_unsubs s) [] (xpub_subscriptions s) = Some (ks, t)"
    "pipe_removed p (\<not> verbose_unsubs s) [] (xpub_subscriptions s) ks t" using mtrie_rm_pipe_law[OF wf(1)] by blast
  obtain d where d: "dist_pipe_terminated p (xpub_dist s) = Some d" "dist_inv d" "dist_more d = dist_more (xpub_dist s)"
    "matching_set d = matching_set (xpub_dist s) - {p}" "all_set d = all_set (xpub_dist s) - {p}"
    using terminated_refines[OF wf(2) assms(3)] by blast
  let ?s = "(fold send_unsubscription ks (s\<lparr>xpub_subscriptions := t\<rparr>))\<lparr>xpub_dist := d\<rparr>"
  have r: "xpub_pipe_terminated p s = Some ?s" using t(1) d(1) assms(2) by (simp add: xpub_pipe_terminated_def)
  have tl: "mtrie_wf t" "\<forall>k. mtrie_lookup t k = mtrie_lookup (xpub_subscriptions s) k - {p}" "distinct ks"
    "set ks = {k. p \<in> mtrie_lookup (xpub_subscriptions s) k \<and> (verbose_unsubs s \<or> mtrie_lookup (xpub_subscriptions s) k = {p})}"
    using t(2) by (auto simp: pipe_removed_def mtrie_gone_def)
  have "matching d = 0" if "\<not> xpub_more s"
  proof -
    have "matching_set d = {}" using d(4) wf(4)[OF that] by (simp add: region_def)
    then show ?thesis using d(2) by (auto simp: region_def dist_inv_def)
  qed
  then have "xpub_inv ?s" using assms(1) tl(1,2) d(2,3,5) wf(5) by (auto simp: xpub_inv_def)
  then show ?thesis using r tl d(5) by (intro exI[of _ ks] exI[of _ ?s]) simp
qed

subsection \<open>The claims on live connections\<close>


text \<open>C23. When a pipe has something to read, the publisher reads all of it, with no failed assertion, and comes
  to an end: the subscriptions and cancellations among the bodies are applied in the order in which the
  pipe yields them, and the user hears of the ones that change what the socket wants from upstream (or
  of all, in the verbose modes) and of every other message, in that order.\<close>

theorem upstream_is_applied:
  fixes w :: "'z world_scheme"
  assumes "waits mid p n w" "p \<in> fst ` L" "links_inv L w E" "xpub_inv s" "\<not> manual s" "p \<in> all_set (xpub_dist s)"
  shows "\<exists>ds s' w'. reads p w ds w' \<and> xpub_read_activated p s w = Some (s', w') \<and> applied p ds s s' \<and> links_inv L w' E"
  unfolding xpub_read_activated_def by (rule lk.xpub_read_loop_ok[OF assms])

text \<open>A publisher with the pipe 0, which is subscribed to the messages that start with the byte 104.\<close>

definition pub_one :: xpub_t where
  "pub_one = xpub_new\<lparr>xpub_dist := the (dist_attach 0 dist_new), xpub_subscriptions := snd (mtrie_add [104] 0 mtrie_new)\<rparr>"

lemma pub_one_ok:
  "xpub_inv pub_one" "all_set (xpub_dist pub_one) = {0}" "lossy pub_one" "\<not> manual pub_one" "active (xpub_dist pub_one) \<le> 1"
  "mtrie_lookup (xpub_subscriptions pub_one) [104] = {0}" "\<not> xpub_more pub_one"
proof -
  have dn: "all_set dist_new = {}" "matching_set dist_new = {}" "\<not> dist_more dist_new"
    by (simp_all add: dist_new_def region_def array_new_def)
  obtain d where d: "dist_attach 0 dist_new = Some d" "dist_inv d" "dist_more d = dist_more dist_new"
    "matching_set d = matching_set dist_new" "all_set d = {0}"
    using attach_refines[OF dist_new_inv, of 0] unfolding dn by auto
  obtain t where t: "snd (mtrie_add [104] 0 mtrie_new) = t" "mtrie_wf t" "mtrie_lookup t = (mtrie_lookup mtrie_new)([104] := {0})"
    using mtrie_add_law[OF mtrie_wf_new, of "[104]" 0] by (auto simp: mtrie_lookup_new)
  have s: "pub_one = xpub_new\<lparr>xpub_dist := d, xpub_subscriptions := t\<rparr>" using d(1) t(1) by (simp add: pub_one_def)
  have m0: "matching d = 0" using d(2,4) dn(2) by (auto simp: region_def dist_inv_def)
  show "xpub_inv pub_one" unfolding s using d dn(3) t(2,3) m0 by (auto simp: xpub_inv_def xpub_new_def mtrie_lookup_new)
  show "all_set (xpub_dist pub_one) = {0}" "lossy pub_one" "\<not> manual pub_one" "\<not> xpub_more pub_one"
    "mtrie_lookup (xpub_subscriptions pub_one) [104] = {0}"
    unfolding s using d(5) t(3) by (simp_all add: xpub_new_def)
  have "active d \<le> length (items (dist_pipes d))" "distinct (items (dist_pipes d))"
    using d(2) by (auto simp: dist_inv_def array_wf_distinct)
  then have "active d \<le> card (all_set d)" by (simp add: distinct_card)
  then show "active (xpub_dist pub_one) \<le> 1" unfolding s using d(5) by simp
qed


text \<open>The connection on which end 1 has sent a subscription to \<open>a\<close> and a cancellation of \<open>h\<close>.\<close>

definition topic_msg :: "bytes \<Rightarrow> msg_t" where
  "topic_msg d = (msg_init msg_raw)\<lparr>vsm_data := d\<rparr>"

lemma topic_msg_ok: "sendable (topic_msg d)" "data_part (topic_msg d)" "plain {#topic_msg d#}"
  by (simp_all add: topic_msg_def sendable_def data_part_def plain_def msg_init_def msg_init_base_def msg_check_def has_body_def
      is_vsm_def is_cmsg_def is_lmsg_def is_zcmsg_def is_credential_def is_delimiter_def flag_credential_def)

theorem upstream_is_applied_witness:
  "\<exists>s' w'. xpub_read_activated 0 pub_one (pair_with (topic_msg [1, 97]) (topic_msg [0, 104])) = Some (s', w') \<and> xpub_inv s' \<and>
     pending_data s' = [[1, 97], [0, 104]]"
proof -
  let ?w = "pair_with (topic_msg [1, 97]) (topic_msg [0, 104])"
  have "sends_normally 0 ?w" unfolding pair_with_def topic_msg_def pair_0_def by code_simp
  then obtain n where n: "links_inv {(0, 1)} ?w {#}" "waits False 0 n ?w"
    using pair_with_ok[OF topic_msg_ok(1-3) topic_msg_ok(1-3)] by blast
  have h: "0 \<in> fst ` {(0 :: nat, 1 :: nat)}" "0 \<in> all_set (xpub_dist pub_one)" using pub_one_ok(2) by auto
  have "map_option (\<lambda>(s', w'). pending_data s') (xpub_read_activated 0 pub_one ?w) = Some [[1, 97], [0, 104]]"
    unfolding pub_one_def pair_with_def topic_msg_def pair_0_def by code_simp
  then show ?thesis using upstream_is_applied[OF n(2) h(1) n(1) pub_one_ok(1,4) h(2)] by (auto simp: applied_def)
qed

theorem closed_pipe_is_forgotten_witness:
  "\<exists>s'. xpub_pipe_terminated 0 pub_one = Some s' \<and> xpub_inv s' \<and> mtrie_lookup (xpub_subscriptions s') [104] = {}"
  using closed_pipe_is_forgotten[OF pub_one_ok(1,4)] pub_one_ok(2,6) by auto

subsection \<open>A refused send\<close>

text \<open>A socket with \<open>ZMQ_XPUB_NODROP\<close> on both ends of a connection with a high water mark of 1: end 0 is
  subscribed to \<open>a\<close> and end 1 to \<open>b\<close>.  It sends \<open>a\<close>, which end 0 takes and end 1 will receive; sends \<open>a\<close> again;
  the first message is read and acknowledged; and \<open>b\<close> is sent.  The results are those of the three sends, and
  the body that the reader of the pipe of end 0 then finds.\<close>

definition refused_run :: "bool \<Rightarrow> ((rc \<times> rc \<times> rc) \<times> bool \<times> bytes option) option" where
  "refused_run second = do {
     w \<leftarrow> pair_start (1, 1) (False, False);
     d \<leftarrow> dist_attach 0 dist_new;
     d \<leftarrow> dist_attach 1 d;
     s \<leftarrow> Some (xpub_new\<lparr>xpub_dist := d, lossy := False,
       xpub_subscriptions := snd (mtrie_add [98] 1 (snd (mtrie_add [97] 0 mtrie_new)))\<rparr>);
     (rc1, _, s, w) \<leftarrow> xpub_send (topic_msg [97]) s w;
     (rc2, _, s, w) \<leftarrow> (if second then xpub_send (topic_msg [97]) s w else Some (Rc_ok, msg_raw, s, w));
     (_, _, w) \<leftarrow> pipe_read 1 msg_raw w;
     w \<leftarrow> deliver 0 w;
     w \<leftarrow> deliver 0 w;
     (rc3, _, s, w) \<leftarrow> xpub_send (topic_msg [98]) s w;
     (ok, m, w) \<leftarrow> pipe_read 1 msg_raw w;
     Some ((rc1, rc2, rc3), ok, if ok then msg_body m w else None)
   }"


end
