(* ===== verification/Mz_Mq.thy ===== *)
theory Mz_Mq
  imports Zmq_Ypipe
begin

text \<open>
  The message helpers of \<open>src/MZmq.h\<close>.  They call the socket API of libzmq, which is here an
  argument: a record \<open>zmq_api\<close> of the calls the EventBus makes, each over an abstract world
  \<open>'w\<close>.  A socket is a natural number, \<open>0\<close> being the null pointer.  A call returns \<open>None\<close> when
  the library aborts; a receive returns no frame when it fails, and then \<open>api_errno\<close> says why.
  What the helpers rely on is the interface \<open>frame_channel\<close>: frames leave in the order sent, and
  the frames of a message become visible together.  Its interpretation at the end of this theory
  is a connection over the lock-free pipe of \<open>src/libzmq/src/ypipe.hpp\<close>, written and flushed the
  way \<open>dist_t::write\<close> does it.
\<close>

type_synonym sock = nat

datatype sockopt = ZMQ_SUBSCRIBE bytes | ZMQ_UNSUBSCRIBE bytes | ZMQ_LINGER int

datatype socket_type = ZMQ_PUB | ZMQ_SUB | ZMQ_XPUB | ZMQ_XSUB

record 'w zmq_api =
  api_msg_send :: "sock \<Rightarrow> bytes \<Rightarrow> bool \<Rightarrow> 'w \<Rightarrow> (int \<times> 'w) option"
  api_msg_recv :: "sock \<Rightarrow> bool \<Rightarrow> 'w \<Rightarrow> (bytes option \<times> 'w) option"
  api_rcvmore :: "sock \<Rightarrow> 'w \<Rightarrow> bool option"
  api_errno :: "'w \<Rightarrow> int"
  api_setsockopt :: "sock \<Rightarrow> sockopt \<Rightarrow> 'w \<Rightarrow> (int \<times> 'w) option"
  api_poll :: "sock \<Rightarrow> 16 word \<Rightarrow> 16 word \<Rightarrow> nat \<Rightarrow> 'w \<Rightarrow> (16 word \<times> 'w) option"
  api_socket :: "socket_type \<Rightarrow> 'w \<Rightarrow> (sock \<times> 'w) option"
  api_connect :: "sock \<Rightarrow> string \<Rightarrow> 'w \<Rightarrow> (int \<times> 'w) option"
  api_bind :: "sock \<Rightarrow> string \<Rightarrow> 'w \<Rightarrow> (int \<times> 'w) option"
  api_disconnect :: "sock \<Rightarrow> string \<Rightarrow> 'w \<Rightarrow> (int \<times> 'w) option"
  api_close :: "sock \<Rightarrow> 'w \<Rightarrow> (int \<times> 'w) option"

definition EAGAIN :: int where "EAGAIN = 11"

text \<open>\<open>zmq_msg_recv\<close> reports the size of the frame as an \<open>int\<close>, at most \<open>INT_MAX\<close>; the helpers copy
  that many bytes.\<close>

definition recv_size :: "bytes \<Rightarrow> nat" where
  "recv_size b = min (length b) (2 ^ 31 - 1)"

definition SendEventEntity ::
  "'w zmq_api \<Rightarrow> sock \<Rightarrow> bytes \<Rightarrow> bytes option \<Rightarrow> 'w \<Rightarrow> (int \<times> 'w) option" where
  "SendEventEntity api s title data w =
     do {
       zmq_assert (s \<noteq> 0);
       (rc, w) \<leftarrow> api_msg_send api s title True w;
       (if rc < 0 then Some (rc, w)
        else case data of
          Some d \<Rightarrow> api_msg_send api s d False w
        | None \<Rightarrow> api_msg_send api s [] False w)
     }"

text \<open>The answer, the title and the content.\<close>

definition RecvEventEntity :: "'w zmq_api \<Rightarrow> sock \<Rightarrow> 'w \<Rightarrow> (int \<times> bytes \<times> bytes \<times> 'w) option" where
  "RecvEventEntity api s w =
     do {
       (f, w) \<leftarrow> api_msg_recv api s True w;
       (case f of
         None \<Rightarrow> if api_errno api w = EAGAIN then Some (0, [], [], w) else Some (-1, [], [], w)
       | Some b \<Rightarrow>
           let title = take (recv_size b) b;
               mo = (case api_rcvmore api s w of Some m \<Rightarrow> m | None \<Rightarrow> False)
           in if \<not> mo then Some (-1, title, [], w)
              else do {
                (f, w) \<leftarrow> api_msg_recv api s True w;
                (case f of
                  None \<Rightarrow> Some (-1, title, [], w)
                | Some b \<Rightarrow> Some (int (recv_size b), title, take (recv_size b) b, w))
              })
     }"

definition HasMoreMsg :: "'w zmq_api \<Rightarrow> sock \<Rightarrow> 'w \<Rightarrow> bool option" where
  "HasMoreMsg api s w =
     do {
       zmq_assert (s \<noteq> 0);
       (case api_rcvmore api s w of None \<Rightarrow> Some False | Some m \<Rightarrow> Some m)
     }"

text \<open>A string body is never sent empty: one zero byte stands for it.\<close>

definition string_body :: "bytes \<Rightarrow> bytes" where
  "string_body content = (if content \<noteq> [] then content else [0])"

definition SendMsgStrings :: "'w zmq_api \<Rightarrow> sock \<Rightarrow> bytes \<Rightarrow> bytes \<Rightarrow> 'w \<Rightarrow> (int \<times> 'w) option" where
  "SendMsgStrings api s title content w =
     do {
       (rc, w) \<leftarrow> api_msg_send api s title True w;
       (if rc < 0 then Some (rc, w) else api_msg_send api s (string_body content) False w)
     }"

definition Send3PartStrings ::
  "'w zmq_api \<Rightarrow> sock \<Rightarrow> bytes \<Rightarrow> bytes \<Rightarrow> bytes \<Rightarrow> 'w \<Rightarrow> (int \<times> 'w) option" where
  "Send3PartStrings api s title title1 content w =
     do {
       (rc, w) \<leftarrow> api_msg_send api s title True w;
       (if rc < 0 then Some (rc, w)
        else do {
          (rc, w) \<leftarrow> if title1 \<noteq> [] then api_msg_send api s title1 True w else Some (rc, w);
          (if rc < 0 then Some (rc, w) else api_msg_send api s (string_body content) False w)
        })
     }"

text \<open>Unlike the other receivers this one copies the whole second frame, by \<open>zmq_msg_size\<close>.\<close>

definition RecvMsgString :: "'w zmq_api \<Rightarrow> sock \<Rightarrow> 'w \<Rightarrow> (int \<times> bytes \<times> bytes \<times> 'w) option" where
  "RecvMsgString api s w =
     do {
       (f, w) \<leftarrow> api_msg_recv api s True w;
       (case f of
         None \<Rightarrow> if api_errno api w = EAGAIN then Some (0, [], [], w) else Some (-1, [], [], w)
       | Some b \<Rightarrow>
           let title = take (recv_size b) b;
               mo = (case api_rcvmore api s w of Some m \<Rightarrow> m | None \<Rightarrow> False)
           in if \<not> mo then Some (-1, title, [], w)
              else do {
                (f, w) \<leftarrow> api_msg_recv api s True w;
                (case f of
                  None \<Rightarrow> Some (-1, title, [], w)
                | Some b \<Rightarrow> Some (int (recv_size b), title, b, w))
              })
     }"

text \<open>The loop of \<open>RecvAllMessages\<close>; \<open>more\<close> (here \<open>mo\<close>) is declared outside it, so a failing option query leaves
  the value of the previous round.  The result is the answer, the titles, the contents and
  \<open>errNum\<close>.\<close>

partial_function (option) RecvAllMessages ::
  "'w zmq_api \<Rightarrow> sock \<Rightarrow> bool \<Rightarrow> bytes list \<Rightarrow> bytes list \<Rightarrow> 'w \<Rightarrow>
   (int \<times> bytes list \<times> bytes list \<times> int \<times> 'w) option" where
  "RecvAllMessages api s mo titles contents w =
     do {
       (f, w) \<leftarrow> api_msg_recv api s True w;
       (case f of
         None \<Rightarrow>
           if api_errno api w = EAGAIN then Some (int (length contents), titles, contents, api_errno api w, w)
           else Some (-1, titles, contents, api_errno api w, w)
       | Some b \<Rightarrow>
           let title = take (recv_size b) b;
               mo = (case api_rcvmore api s w of Some m \<Rightarrow> m | None \<Rightarrow> mo)
           in if \<not> mo then Some (-1, titles, contents, api_errno api w, w)
              else do {
                (f, w) \<leftarrow> api_msg_recv api s True w;
                (case f of
                  None \<Rightarrow> Some (-1, titles, contents, api_errno api w, w)
                | Some b \<Rightarrow>
                    RecvAllMessages api s mo (titles @ [title]) (contents @ [take (recv_size b) b]) w)
              })
     }"

declare RecvAllMessages.simps [code]

definition CloseSocketQuick :: "'w zmq_api \<Rightarrow> sock \<Rightarrow> 'w \<Rightarrow> (sock \<times> 'w) option" where
  "CloseSocketQuick api s w =
     (if s \<noteq> 0
      then do {
        (_, w) \<leftarrow> api_setsockopt api s (ZMQ_LINGER 0) w;
        (_, w) \<leftarrow> api_close api s w;
        Some (0, w)
      }
      else Some (s, w))"

definition zmq_common_send :: "'w zmq_api \<Rightarrow> sock \<Rightarrow> bytes \<Rightarrow> 'w \<Rightarrow> (int \<times> 'w) option" where
  "zmq_common_send api s data w = api_msg_send api s data False w"

definition zmq_common_recv :: "'w zmq_api \<Rightarrow> sock \<Rightarrow> 'w \<Rightarrow> (int \<times> bytes \<times> 'w) option" where
  "zmq_common_recv api s w =
     do {
       (f, w) \<leftarrow> api_msg_recv api s False w;
       (case f of None \<Rightarrow> Some (-1, [], w)
        | Some b \<Rightarrow> Some (int (recv_size b), take (recv_size b) b, w))
     }"

subsection \<open>The channel the helpers rely on\<close>

text \<open>\<open>chan w q p\<close>: in the world \<open>w\<close> the receiver can get the frames \<open>q\<close>, and \<open>p\<close> are the frames of a
  message under way.  The sender's and the receiver's end are two sockets of the same world.\<close>

type_synonym frame = "bool \<times> bytes"

abbreviation event_frames :: "bytes \<times> bytes \<Rightarrow> frame list" where
  "event_frames e \<equiv> [(True, fst e), (False, snd e)]"

locale frame_channel =
  fixes api :: "'w zmq_api"
    and tx :: sock
    and rx :: sock
    and chan :: "'w \<Rightarrow> frame list \<Rightarrow> frame list \<Rightarrow> bool"
  assumes tx: "tx \<noteq> 0"
    and send_more: "chan w q p \<Longrightarrow>
      \<exists>rc w'. api_msg_send api tx b True w = Some (rc, w') \<and> 0 \<le> rc \<and> chan w' q (p @ [(True, b)])"
    and send_last: "chan w q p \<Longrightarrow>
      \<exists>rc w'. api_msg_send api tx b False w = Some (rc, w') \<and> 0 \<le> rc \<and> chan w' (q @ p @ [(False, b)]) []"
    and recv_none: "chan w [] p \<Longrightarrow>
      \<exists>w'. api_msg_recv api rx True w = Some (None, w') \<and> api_errno api w' = EAGAIN \<and> chan w' [] p"
    and recv_frame: "chan w ((m, b) # q) p \<Longrightarrow>
      \<exists>w'. api_msg_recv api rx dw w = Some (Some b, w') \<and> api_rcvmore api rx w' = Some m \<and> chan w' q p"
begin

lemma send_entity:
  assumes "chan w q []"
  obtains rc w' where "SendEventEntity api tx title data w = Some (rc, w')" "0 \<le> rc"
    "chan w' (q @ event_frames (title, case data of Some d \<Rightarrow> d | None \<Rightarrow> [])) []"
proof -
  obtain rc w1 where 1: "api_msg_send api tx title True w = Some (rc, w1)" "0 \<le> rc" "chan w1 q [(True, title)]"
    using send_more[OF assms, of title] by auto
  let ?d = "case data of Some d \<Rightarrow> d | None \<Rightarrow> []"
  obtain rc' w2 where 2: "api_msg_send api tx ?d False w1 = Some (rc', w2)" "0 \<le> rc'"
    "chan w2 (q @ event_frames (title, ?d)) []"
    using send_last[OF 1(3), of ?d] by auto
  have "SendEventEntity api tx title data w = Some (rc', w2)"
    using 1 2(1) tx by (cases data) (simp_all add: SendEventEntity_def)
  then show thesis using that 2 by simp
qed

lemma recv_two:
  assumes "chan w ((True, t) # (m, c) # q) p"
  obtains w1 w2 where "api_msg_recv api rx True w = Some (Some t, w1)" "api_rcvmore api rx w1 = Some True"
    "api_msg_recv api rx True w1 = Some (Some c, w2)" "api_rcvmore api rx w2 = Some m" "chan w2 q p"
proof -
  obtain w1 where 1: "api_msg_recv api rx True w = Some (Some t, w1)" "api_rcvmore api rx w1 = Some True"
    "chan w1 ((m, c) # q) p" using recv_frame[OF assms, of True] by auto
  then obtain w2 where "api_msg_recv api rx True w1 = Some (Some c, w2)" "api_rcvmore api rx w2 = Some m" "chan w2 q p"
    using recv_frame[OF 1(3), of True] by auto
  then show thesis using that 1 by auto
qed

text \<open>The four outcomes of receiving an event.\<close>

lemma recv_entity:
  assumes "chan w ((True, t) # (m, c) # q) p"
  obtains w' where "RecvEventEntity api rx w =
      Some (int (recv_size c), take (recv_size t) t, take (recv_size c) c, w')" "chan w' q p"
proof -
  obtain w1 w2 where "api_msg_recv api rx True w = Some (Some t, w1)" "api_rcvmore api rx w1 = Some True"
    "api_msg_recv api rx True w1 = Some (Some c, w2)" "chan w2 q p"
    by (rule recv_two[OF assms])
  then show thesis by (intro that) (auto simp: RecvEventEntity_def)
qed

lemma recv_entity_empty:
  assumes "chan w [] p"
  obtains w' where "RecvEventEntity api rx w = Some (0, [], [], w')" "chan w' [] p"
proof -
  obtain w' where "api_msg_recv api rx True w = Some (None, w')" "api_errno api w' = EAGAIN" "chan w' [] p"
    using recv_none[OF assms] by blast
  then show thesis by (intro that) (auto simp: RecvEventEntity_def)
qed

lemma recv_entity_single:
  assumes "chan w ((False, t) # q) p"
  obtains w' where "RecvEventEntity api rx w = Some (-1, take (recv_size t) t, [], w')" "chan w' q p"
proof -
  obtain w' where "api_msg_recv api rx True w = Some (Some t, w')" "api_rcvmore api rx w' = Some False" "chan w' q p"
    using recv_frame[OF assms, of True] by auto
  then show thesis by (intro that) (auto simp: RecvEventEntity_def)
qed

lemma recv_all:
  assumes "chan w (concat (map event_frames evs)) p"
    "\<And>t c. (t, c) \<in> set evs \<Longrightarrow> length t < 2 ^ 31 \<and> length c < 2 ^ 31"
  shows "\<exists>w'. RecvAllMessages api rx mo ts cs w =
      Some (int (length cs + length evs), ts @ map fst evs, cs @ map snd evs, EAGAIN, w') \<and> chan w' [] p"
  using assms
proof (induction evs arbitrary: w mo ts cs)
  case Nil
  then obtain w' where "api_msg_recv api rx True w = Some (None, w')" "api_errno api w' = EAGAIN" "chan w' [] p"
    using recv_none[of w p] by auto
  then show ?case by (auto simp: RecvAllMessages.simps)
next
  case (Cons ev evs)
  obtain t c where ev: "ev = (t, c)" by (cases ev)
  have sz: "recv_size t = length t" "recv_size c = length c"
    using Cons(3)[of t c] ev by (auto simp: recv_size_def)
  have "chan w ((True, t) # (False, c) # concat (map event_frames evs)) p"
    using Cons(2) ev by simp
  then obtain w1 w2 where w: "api_msg_recv api rx True w = Some (Some t, w1)" "api_rcvmore api rx w1 = Some True"
    "api_msg_recv api rx True w1 = Some (Some c, w2)" "chan w2 (concat (map event_frames evs)) p"
    by (rule recv_two)
  then have "RecvAllMessages api rx mo ts cs w = RecvAllMessages api rx True (ts @ [t]) (cs @ [c]) w2"
    by (subst RecvAllMessages.simps) (simp add: sz)
  then show ?case
    using Cons(1)[OF w(4), of True "ts @ [t]" "cs @ [c]"] Cons(3) ev by (auto simp: algebra_simps)
qed

end

text \<open>Sending a list of events, the way a client publishes them one after the other.\<close>

fun send_events :: "'w zmq_api \<Rightarrow> sock \<Rightarrow> (bytes \<times> bytes) list \<Rightarrow> 'w \<Rightarrow> 'w option" where
  "send_events api s [] w = Some w"
| "send_events api s (e # es) w =
     do { (rc, w) \<leftarrow> SendEventEntity api s (fst e) (if snd e = [] then None else Some (snd e)) w; send_events api s es w }"

context frame_channel
begin

lemma send_list:
  "chan w q [] \<Longrightarrow> \<exists>w'. send_events api tx evs w = Some w' \<and> chan w' (q @ concat (map event_frames evs)) []"
proof (induction evs arbitrary: w q)
  case (Cons ev evs)
  have *: "(case if snd ev = [] then None else Some (snd ev) of None \<Rightarrow> [] | Some d \<Rightarrow> d) = snd ev" by simp
  obtain rc w' where w': "SendEventEntity api tx (fst ev) (if snd ev = [] then None else Some (snd ev)) w = Some (rc, w')"
    "chan w' (q @ event_frames (fst ev, snd ev)) []"
    using send_entity[OF Cons(2), of "fst ev" "if snd ev = [] then None else Some (snd ev)"] unfolding * by metis
  show ?case using Cons(1)[OF w'(2)] w' by simp
qed simp

end

subsection \<open>The channel over a lock-free pipe\<close>

record link =
  link_pipe :: "frame ypipe"
  link_more :: bool
  link_errno :: int

text \<open>A frame is written as incomplete while more frames follow; the last one flushes the pipe.\<close>

definition link_send :: "nat \<Rightarrow> sock \<Rightarrow> bytes \<Rightarrow> bool \<Rightarrow> 'z link_scheme \<Rightarrow> (int \<times> 'z link_scheme) option" where
  "link_send n s b m l =
     do {
       p \<leftarrow> ypipe_write n (link_pipe l) (m, b) m;
       Some (int (recv_size b), l\<lparr>link_pipe := if m then p else snd (ypipe_flush p)\<rparr>)
     }"

definition link_recv :: "nat \<Rightarrow> sock \<Rightarrow> bool \<Rightarrow> 'z link_scheme \<Rightarrow> (bytes option \<times> 'z link_scheme) option" where
  "link_recv n s dontwait l =
     do {
       (x, p) \<leftarrow> ypipe_read n (link_pipe l);
       (case x of
         None \<Rightarrow> Some (None, l\<lparr>link_pipe := p, link_errno := EAGAIN\<rparr>)
       | Some (m, b) \<Rightarrow> Some (Some b, l\<lparr>link_pipe := p, link_more := m\<rparr>))
     }"

text \<open>Polling for input asks the pipe whether there is something to read.\<close>

definition link_poll ::
  "nat \<Rightarrow> sock \<Rightarrow> 16 word \<Rightarrow> 16 word \<Rightarrow> nat \<Rightarrow> 'z link_scheme \<Rightarrow> (16 word \<times> 'z link_scheme) option" where
  "link_poll n s events revents timeout l =
     (let (b, p) = ypipe_check_read (link_pipe l) in Some (if b then and events 1 else 0, l\<lparr>link_pipe := p\<rparr>))"

definition link_api :: "nat \<Rightarrow> 'z link_scheme zmq_api" where
  "link_api n =
     \<lparr>api_msg_send = link_send n, api_msg_recv = link_recv n,
      api_rcvmore = (\<lambda>s l. Some (link_more l)), api_errno = link_errno,
      api_setsockopt = (\<lambda>s x l. None), api_poll = link_poll n, api_socket = (\<lambda>t l. None),
      api_connect = (\<lambda>s a l. None), api_bind = (\<lambda>s a l. None), api_disconnect = (\<lambda>s a l. None),
      api_close = (\<lambda>s l. None)\<rparr>"

definition link_chan :: "nat \<Rightarrow> 'z link_scheme \<Rightarrow> frame list \<Rightarrow> frame list \<Rightarrow> bool" where
  "link_chan n l q p \<longleftrightarrow>
     (\<exists>a. ypipe_repr n (link_pipe l) a \<and> flushed a = q \<and> complete a = [] \<and> incomplete a = p)"

text \<open>Pipes have \<open>message_pipe_granularity\<close>, 256, items in a chunk.\<close>

interpretation lc: frame_channel "link_api 256" 1 2 "link_chan 256"
proof
  fix w :: "'z link_scheme" and q p b
  assume "link_chan 256 w q p"
  then obtain a where a: "ypipe_repr 256 (link_pipe w) a" "flushed a = q" "complete a = []" "incomplete a = p"
    by (auto simp: link_chan_def)
  obtain p1 where p1: "ypipe_write 256 (link_pipe w) (True, b) True = Some p1"
    "ypipe_repr 256 p1 (apipe_write a (True, b) True)" by (rule ypipe_write_repr[OF a(1)])
  have "link_chan 256 (w\<lparr>link_pipe := p1\<rparr>) q (p @ [(True, b)])"
    unfolding link_chan_def by (rule exI[of _ "apipe_write a (True, b) True"]) (use p1 a in \<open>simp add: apipe_write_def\<close>)
  then show "\<exists>rc w'. api_msg_send (link_api 256) 1 b True w = Some (rc, w') \<and> 0 \<le> rc \<and>
      link_chan 256 w' q (p @ [(True, b)])"
    using p1 by (simp add: link_api_def link_send_def)
  obtain p2 where p2: "ypipe_write 256 (link_pipe w) (False, b) False = Some p2"
    "ypipe_repr 256 p2 (apipe_write a (False, b) False)" by (rule ypipe_write_repr[OF a(1)])
  have "ypipe_repr 256 (snd (ypipe_flush p2)) (snd (apipe_flush (apipe_write a (False, b) False)))"
    by (rule ypipe_flush_repr[OF p2(2)]) simp
  then have "link_chan 256 (w\<lparr>link_pipe := snd (ypipe_flush p2)\<rparr>) (q @ p @ [(False, b)]) []"
    unfolding link_chan_def
    by (intro exI[of _ "snd (apipe_flush (apipe_write a (False, b) False))"])
      (use a in \<open>simp add: apipe_write_def apipe_flush_def\<close>)
  then show "\<exists>rc w'. api_msg_send (link_api 256) 1 b False w = Some (rc, w') \<and> 0 \<le> rc \<and>
      link_chan 256 w' (q @ p @ [(False, b)]) []"
    using p2 by (simp add: link_api_def link_send_def)
next
  fix w :: "'z link_scheme" and p
  assume "link_chan 256 w [] p"
  then obtain a where a: "ypipe_repr 256 (link_pipe w) a" "flushed a = []" "complete a = []" "incomplete a = p"
    by (auto simp: link_chan_def)
  obtain p1 where p1: "ypipe_read 256 (link_pipe w) = Some (fst (apipe_read a), p1)"
    "ypipe_repr 256 p1 (snd (apipe_read a))" by (rule ypipe_read_repr[OF a(1)])
  then show "\<exists>w'. api_msg_recv (link_api 256) 2 True w = Some (None, w') \<and> api_errno (link_api 256) w' = EAGAIN \<and>
      link_chan 256 w' [] p"
    using a by (auto simp: link_api_def link_recv_def apipe_read_def link_chan_def)
next
  fix w :: "'z link_scheme" and m b q p dw
  assume "link_chan 256 w ((m, b) # q) p"
  then obtain a where a: "ypipe_repr 256 (link_pipe w) a" "flushed a = (m, b) # q" "complete a = []" "incomplete a = p"
    by (auto simp: link_chan_def)
  obtain p1 where p1: "ypipe_read 256 (link_pipe w) = Some (fst (apipe_read a), p1)"
    "ypipe_repr 256 p1 (snd (apipe_read a))" by (rule ypipe_read_repr[OF a(1)])
  then show "\<exists>w'. api_msg_recv (link_api 256) 2 dw w = Some (Some b, w') \<and>
      api_rcvmore (link_api 256) 2 w' = Some m \<and> link_chan 256 w' q p"
    using a by (auto simp: link_api_def link_recv_def apipe_read_def link_chan_def)
qed simp

text \<open>A client also polls the channel before it receives.\<close>

locale polled_channel = frame_channel api tx rx chan
  for api :: "'w zmq_api" and tx rx chan +
  assumes poll: "chan w q p \<Longrightarrow> \<exists>w'. api_poll api rx 1 r t w = Some (if q = [] then 0 else 1, w') \<and> chan w' q p"

interpretation lp: polled_channel "link_api 256" 1 2 "link_chan 256"
proof
  fix w :: "'z link_scheme" and q p and r :: "16 word" and t
  assume "link_chan 256 w q p"
  then obtain a where a: "ypipe_repr 256 (link_pipe w) a" "flushed a = q" "complete a = []" "incomplete a = p"
    by (auto simp: link_chan_def)
  obtain p1 where p1: "ypipe_check_read (link_pipe w) = (fst (apipe_check_read a), p1)"
    "ypipe_repr 256 p1 (snd (apipe_check_read a))" by (rule ypipe_check_read_repr[OF a(1)])
  have "link_chan 256 (w\<lparr>link_pipe := p1\<rparr>) q p"
    unfolding link_chan_def
    by (rule exI[of _ "snd (apipe_check_read a)"]) (use p1 a in \<open>simp add: apipe_check_read_def\<close>)
  then show "\<exists>w'. api_poll (link_api 256) 2 1 r t w = Some (if q = [] then 0 else 1, w') \<and> link_chan 256 w' q p"
    using p1 a by (auto simp: link_api_def link_poll_def apipe_check_read_def)
qed

definition link_new :: "link option" where
  "link_new = do { p \<leftarrow> ypipe_new 256; Some \<lparr>link_pipe = p, link_more = False, link_errno = 0\<rparr> }"

lemma link_new_chan: obtains l where "link_new = Some l" "link_chan 256 l [] []"
proof -
  obtain p where p: "ypipe_new 256 = Some (p :: frame ypipe)" "ypipe_repr 256 p apipe_new"
    by (rule ypipe_new_repr[of 256]) simp_all
  then have "link_chan 256 \<lparr>link_pipe = p, link_more = False, link_errno = 0\<rparr> [] []"
    by (auto simp: link_chan_def apipe_new_def)
  then show thesis using that p(1) by (simp add: link_new_def)
qed



text \<open>The receivers of events do not resynchronise: a message of three frames, as
  \<open>Send3PartStrings\<close> sends it, is read as an event of its first two frames, and the third frame is
  then taken for a message of its own, which the next call reports as a failure with that frame as
  the title.\<close>

theorem three_parts_desynchronise:
  assumes "t1 \<noteq> []" "length t < 2 ^ 31" "length t1 < 2 ^ 31" "length c < 2 ^ 31" "c \<noteq> []"
  shows "\<exists>l rc l1 l2 l3. link_new = Some l \<and> Send3PartStrings (link_api 256) 1 t t1 c l = Some (rc, l1) \<and>
    RecvEventEntity (link_api 256) 2 l1 = Some (int (length t1), t, t1, l2) \<and>
    RecvEventEntity (link_api 256) 2 l2 = Some (-1, c, [], l3)"
proof -
  obtain l where l: "link_new = Some l" "link_chan 256 l [] []" by (rule link_new_chan)
  obtain rc1 w1 where 1: "api_msg_send (link_api 256) 1 t True l = Some (rc1, w1)" "0 \<le> rc1"
    "link_chan 256 w1 [] [(True, t)]" using lc.send_more[OF l(2), of t] by auto
  obtain rc2 w2 where 2: "api_msg_send (link_api 256) 1 t1 True w1 = Some (rc2, w2)" "0 \<le> rc2"
    "link_chan 256 w2 [] [(True, t), (True, t1)]" using lc.send_more[OF 1(3), of t1] by auto
  obtain rc3 w3 where 3: "api_msg_send (link_api 256) 1 c False w2 = Some (rc3, w3)" "0 \<le> rc3"
    "link_chan 256 w3 ((True, t) # (True, t1) # [(False, c)]) []" using lc.send_last[OF 2(3), of c] by auto
  have sz: "recv_size t = length t" "recv_size t1 = length t1" "recv_size c = length c"
    using assms by (auto simp: recv_size_def)
  obtain w4 where 4: "RecvEventEntity (link_api 256) 2 w3 = Some (int (length t1), t, t1, w4)"
    "link_chan 256 w4 [(False, c)] []" by (rule lc.recv_entity[OF 3(3)]) (simp add: sz)
  obtain w5 where "RecvEventEntity (link_api 256) 2 w4 = Some (-1, c, [], w5)"
    by (rule lc.recv_entity_single[OF 4(2)]) (simp add: sz)
  moreover have "Send3PartStrings (link_api 256) 1 t t1 c l = Some (rc3, w3)"
    using 1(1,2) 2(1,2) 3(1) assms(1,5) by (simp add: Send3PartStrings_def string_body_def)
  ultimately show ?thesis using l(1) 4(1) by blast
qed

theorem three_parts_desynchronise_witness:
  "\<exists>l rc l1 l2 l3. link_new = Some l \<and> Send3PartStrings (link_api 256) 1 [1] [2] [3] l = Some (rc, l1) \<and>
    RecvEventEntity (link_api 256) 2 l1 = Some (1, [1], [2], l2) \<and>
    RecvEventEntity (link_api 256) 2 l2 = Some (-1, [3], [], l3)"
  using three_parts_desynchronise[of "[2]" "[1]" "[3]"] by simp

end
