(* ===== verification/Event_Client.thy ===== *)
theory Event_Client
  imports Mz_Mq "HOL-Library.List_Lexorder"
begin

text \<open>
  The event client of \<open>src/EventClient.h\<close> and \<open>src/EventClient.cpp\<close>: the multimap from event types to
  observers, registration and cancellation with the subscription of the client's SUB socket,
  publication, and the dispatch of a received event.

  The \<open>std::multimap\<close> is the list of its elements in iteration order, and an iterator is the rest
  of that list.  \<open>find\<close> returns the first element of its key, as libstdc++ does.  Event types are
  compared as \<open>std::string\<close> compares them, byte by byte as unsigned characters; this is the
  lexicographic order on byte lists.  Observers are object addresses, and their virtual method
  \<open>event_handle\<close> is an argument \<open>h\<close> acting on the world; it does not change the client it is called
  from.
\<close>

type_synonym multimap = "(bytes \<times> nat) list"

definition mm_find :: "bytes \<Rightarrow> multimap \<Rightarrow> multimap" where
  "mm_find k m =
     (case dropWhile (\<lambda>e. fst e < k) m of [] \<Rightarrow> []
      | e # es \<Rightarrow> if fst e = k then e # es else [])"

definition mm_insert :: "bytes \<Rightarrow> nat \<Rightarrow> multimap \<Rightarrow> multimap" where
  "mm_insert k v m = takeWhile (\<lambda>e. fst e \<le> k) m @ (k, v) # dropWhile (\<lambda>e. fst e \<le> k) m"

definition mm_equal_range :: "bytes \<Rightarrow> multimap \<Rightarrow> multimap" where
  "mm_equal_range k m = takeWhile (\<lambda>e. \<not> k < fst e) (dropWhile (\<lambda>e. fst e < k) m)"

record event_client =
  event_object_map :: multimap
  sub_socket :: sock
  pub_socket :: sock
  sub_items_events :: "16 word"
  sub_items_revents :: "16 word"

definition ZMQ_POLLIN :: "16 word" where "ZMQ_POLLIN = 1"

text \<open>The loop that looks for an existing registration, from the iterator \<open>it\<close> to the end.\<close>

fun already_registered :: "bytes \<Rightarrow> nat \<Rightarrow> multimap \<Rightarrow> bool" where
  "already_registered type obj [] = False"
| "already_registered type obj (e # it) =
     (if fst e = type \<and> snd e = obj then True else already_registered type obj it)"

definition register_observer ::
  "'w zmq_api \<Rightarrow> bytes \<Rightarrow> nat \<Rightarrow> event_client \<Rightarrow> 'w \<Rightarrow> (bool \<times> event_client \<times> 'w) option" where
  "register_observer api type obj c w =
     (let it = mm_find type (event_object_map c);
          c' = c\<lparr>event_object_map := mm_insert type obj (event_object_map c)\<rparr>
      in if it \<noteq> []
         then if already_registered type obj it then Some (True, c, w) else Some (True, c', w)
         else do {
           (rc, w) \<leftarrow> api_setsockopt api (sub_socket c) (ZMQ_SUBSCRIBE type) w;
           Some (rc = 0, c', w)
         })"

text \<open>The loop of \<open>unregister_observer\<close>: \<open>pre\<close> are the elements already passed.  It stops at the first
  match, whose removal may end the subscription.\<close>

fun unregister_loop ::
  "'w zmq_api \<Rightarrow> bytes \<Rightarrow> nat \<Rightarrow> multimap \<Rightarrow> multimap \<Rightarrow> event_client \<Rightarrow> 'w \<Rightarrow> (bool \<times> event_client \<times> 'w) option" where
  "unregister_loop api type obj pre [] c w = Some (True, c, w)"
| "unregister_loop api type obj pre (e # it) c w =
     (if fst e = type \<and> snd e = obj
      then let m = pre @ it; c = c\<lparr>event_object_map := m\<rparr>
           in if mm_find type m = []
              then do {
                (rc, w) \<leftarrow> api_setsockopt api (sub_socket c) (ZMQ_UNSUBSCRIBE type) w;
                Some (rc = 0, c, w)
              }
              else Some (True, c, w)
      else unregister_loop api type obj (pre @ [e]) it c w)"

definition unregister_observer ::
  "'w zmq_api \<Rightarrow> bytes \<Rightarrow> nat \<Rightarrow> event_client \<Rightarrow> 'w \<Rightarrow> (bool \<times> event_client \<times> 'w) option" where
  "unregister_observer api type obj c w = unregister_loop api type obj [] (event_object_map c) c w"

definition publish_event ::
  "'w zmq_api \<Rightarrow> bytes \<Rightarrow> bytes \<Rightarrow> event_client \<Rightarrow> 'w \<Rightarrow> 'w option" where
  "publish_event api type content c w =
     do {
       (rc, w) \<leftarrow> SendEventEntity api (pub_socket c) type (if content \<noteq> [] then Some content else None) w;
       Some w
     }"

text \<open>Calls of \<open>event_handle\<close> on the observers of a list of elements, in order.\<close>

type_synonym 'w handler = "nat \<Rightarrow> bytes \<Rightarrow> bytes \<Rightarrow> 'w \<Rightarrow> 'w"

fun call_handlers :: "'w handler \<Rightarrow> bytes \<Rightarrow> bytes \<Rightarrow> multimap \<Rightarrow> 'w \<Rightarrow> 'w" where
  "call_handlers h type content [] w = w"
| "call_handlers h type content (e # es) w = call_handlers h type content es (h (snd e) type content w)"

definition publish_loc_event :: "'w handler \<Rightarrow> bytes \<Rightarrow> bytes \<Rightarrow> event_client \<Rightarrow> 'w \<Rightarrow> 'w" where
  "publish_loc_event h type content c w =
     call_handlers h type content (mm_find type (event_object_map c)) w"

definition handle_event ::
  "'w zmq_api \<Rightarrow> 'w handler \<Rightarrow> event_client \<Rightarrow> 'w \<Rightarrow> (event_client \<times> 'w) option" where
  "handle_event api h c w =
     do {
       (revents, w) \<leftarrow> api_poll api (sub_socket c) (sub_items_events c) (sub_items_revents c) 20 w;
       c \<leftarrow> Some (c\<lparr>sub_items_revents := revents\<rparr>);
       (if and revents ZMQ_POLLIN \<noteq> 0
        then do {
          (rc, title, content, w) \<leftarrow> RecvEventEntity api (sub_socket c) w;
          Some (c, call_handlers h title content (mm_equal_range title (event_object_map c)) w)
        }
        else Some (c, w))
     }"

definition XSUB_ADDR_PORT :: string where "XSUB_ADDR_PORT = ''inproc://XsubEndpoint''"
definition XPUB_ADDR_PORT :: string where "XPUB_ADDR_PORT = ''inproc://XpubEndpoint''"

text \<open>The sockets of the constructor; the registration with the client center follows in
  \<open>Event_Target\<close>.\<close>

definition event_client_open :: "'w zmq_api \<Rightarrow> 'w \<Rightarrow> (event_client \<times> 'w) option" where
  "event_client_open api w =
     do {
       (sub, w) \<leftarrow> api_socket api ZMQ_SUB w;
       zmq_assert (sub \<noteq> 0);
       (rc, w) \<leftarrow> api_connect api sub XPUB_ADDR_PORT w;
       zmq_assert (rc = 0);
       (pub, w) \<leftarrow> api_socket api ZMQ_PUB w;
       zmq_assert (pub \<noteq> 0);
       (rc, w) \<leftarrow> api_connect api pub XSUB_ADDR_PORT w;
       zmq_assert (rc = 0);
       Some (\<lparr>event_object_map = [], sub_socket = sub, pub_socket = pub,
              sub_items_events = ZMQ_POLLIN, sub_items_revents = 0\<rparr>, w)
     }"

definition event_client_destroy :: "'w zmq_api \<Rightarrow> event_client \<Rightarrow> 'w \<Rightarrow> 'w option" where
  "event_client_destroy api c w =
     do {
       (_, w) \<leftarrow> api_disconnect api (pub_socket c) XPUB_ADDR_PORT w;
       (_, w) \<leftarrow> api_close api (pub_socket c) w;
       (_, w) \<leftarrow> api_disconnect api (sub_socket c) XPUB_ADDR_PORT w;
       (_, w) \<leftarrow> api_close api (sub_socket c) w;
       Some w
     }"

subsection \<open>The multimap\<close>

text \<open>The observers of a type, in iteration order, and the invariant of the map: sorted by type, and
  no observer twice under one type.\<close>

definition observers :: "multimap \<Rightarrow> bytes \<Rightarrow> nat list" where
  "observers m k = map snd (filter (\<lambda>e. fst e = k) m)"

definition map_inv :: "multimap \<Rightarrow> bool" where
  "map_inv m \<longleftrightarrow> sorted (map fst m) \<and> distinct m"

lemma sorted_fst_le:
  "sorted (map fst (e # m)) \<Longrightarrow> x \<in> set m \<Longrightarrow> fst e \<le> fst x"
  by simp

lemma equal_range_filter:
  "sorted (map fst m) \<Longrightarrow> mm_equal_range k m = filter (\<lambda>e. fst e = k) m"
proof (induction m)
  case (Cons e m)
  have ge: "\<forall>x \<in> set m. fst e \<le> fst x" using Cons(2) by simp
  consider "fst e < k" | "fst e = k" | "k < fst e" by fastforce
  then show ?case
  proof cases
    case 1
    then show ?thesis using Cons by (simp add: mm_equal_range_def)
  next
    case 2
    have dw: "dropWhile (\<lambda>e. fst e < k) m = m" using ge 2 by (cases m) auto
    have "mm_equal_range k m = takeWhile (\<lambda>e. \<not> k < fst e) m" by (simp add: mm_equal_range_def dw)
    then show ?thesis using Cons 2 by (simp add: mm_equal_range_def)
  next
    case 3
    then have "filter (\<lambda>e. fst e = k) m = []" using ge by (fastforce simp: filter_empty_conv)
    then show ?thesis using less_asym[OF 3] less_imp_neq[OF 3] 3 by (auto simp: mm_equal_range_def)
  qed
qed (simp add: mm_equal_range_def)

lemma find_suffix:
  "sorted (map fst m) \<Longrightarrow> mm_find k m = (if observers m k = [] then [] else filter (\<lambda>e. k \<le> fst e) m)"
proof (induction m)
  case (Cons e m)
  have ge: "\<forall>x \<in> set m. fst e \<le> fst x" using Cons(2) by simp
  consider "fst e < k" | "fst e = k" | "k < fst e" by fastforce
  then show ?case
  proof cases
    case 1
    then show ?thesis using Cons by (auto simp: mm_find_def observers_def)
  next
    case 2
    then have "filter (\<lambda>e. k \<le> fst e) m = m" using ge by (simp add: filter_id_conv)
    then show ?thesis using 2 by (simp add: mm_find_def observers_def)
  next
    case 3
    then have "filter (\<lambda>e. fst e = k) m = []" using ge by (fastforce simp: filter_empty_conv)
    then show ?thesis using less_asym[OF 3] less_imp_neq[OF 3] by (auto simp: mm_find_def observers_def)
  qed
qed (simp add: mm_find_def observers_def)

lemma find_Nil_iff: "sorted (map fst m) \<Longrightarrow> mm_find k m = [] \<longleftrightarrow> observers m k = []"
  by (auto simp: find_suffix observers_def filter_empty_conv)

lemma already_registered_iff: "already_registered k v m \<longleftrightarrow> (k, v) \<in> set m"
  by (induction m) auto

lemma registered_found:
  "sorted (map fst m) \<Longrightarrow> already_registered k v (mm_find k m) \<longleftrightarrow> (k, v) \<in> set m"
  by (auto simp: already_registered_iff find_suffix observers_def filter_empty_conv)

lemma insert_takeWhile:
  "sorted (map fst m) \<Longrightarrow> takeWhile (\<lambda>e. fst e \<le> k) m = filter (\<lambda>e. fst e \<le> k) m \<and>
     dropWhile (\<lambda>e. fst e \<le> k) m = filter (\<lambda>e. \<not> fst e \<le> k) m"
proof (induction m)
  case (Cons e m)
  show ?case
  proof (cases "fst e \<le> k")
    case False
    then have "\<forall>x \<in> set m. \<not> fst x \<le> k" using Cons(2) by fastforce
    then show ?thesis using False by (simp add: filter_empty_conv filter_id_conv)
  qed (use Cons in simp)
qed simp

lemma insert_observers:
  assumes "sorted (map fst m)"
  shows "observers (mm_insert k v m) = (observers m)(k := observers m k @ [v])"
    "sorted (map fst (mm_insert k v m))" "set (mm_insert k v m) = insert (k, v) (set m)"
    "distinct m \<Longrightarrow> (k, v) \<notin> set m \<Longrightarrow> distinct (mm_insert k v m)"
proof -
  note i = insert_takeWhile[OF assms, of k]
  have le: "filter (\<lambda>e. fst e = k) (filter (\<lambda>e. fst e \<le> k) m) = filter (\<lambda>e. fst e = k) m"
    "filter (\<lambda>e. fst e = k) (filter (\<lambda>e. \<not> fst e \<le> k) m) = []"
    by (auto simp: filter_filter filter_empty_conv intro!: filter_cong)
  show "observers (mm_insert k v m) = (observers m)(k := observers m k @ [v])"
  proof
    fix x
    show "observers (mm_insert k v m) x = ((observers m)(k := observers m k @ [v])) x"
    proof (cases "x = k")
      case True
      then show ?thesis using le by (simp add: observers_def mm_insert_def i)
    next
      case False
      have "takeWhile (\<lambda>e. fst e \<le> k) m @ dropWhile (\<lambda>e. fst e \<le> k) m = m" by (rule takeWhile_dropWhile_id)
      then have "filter (\<lambda>e. fst e = x) (takeWhile (\<lambda>e. fst e \<le> k) m) @ filter (\<lambda>e. fst e = x) (dropWhile (\<lambda>e. fst e \<le> k) m)
        = filter (\<lambda>e. fst e = x) m" by (metis filter_append)
      then show ?thesis using False by (simp add: observers_def mm_insert_def flip: map_append)
    qed
  qed
  have "sorted (map fst (filter (\<lambda>e. fst e \<le> k) m))" "sorted (map fst (filter (\<lambda>e. \<not> fst e \<le> k) m))"
    using assms by (simp_all add: sorted_filter)
  then show "sorted (map fst (mm_insert k v m))"
    unfolding mm_insert_def i[THEN conjunct1] i[THEN conjunct2] by (auto simp: sorted_append)
  show s: "set (mm_insert k v m) = insert (k, v) (set m)"
    unfolding mm_insert_def i[THEN conjunct1] i[THEN conjunct2] by auto
  show "distinct (mm_insert k v m)" if "distinct m" "(k, v) \<notin> set m"
    unfolding mm_insert_def i[THEN conjunct1] i[THEN conjunct2] using that by auto
qed

text \<open>Removal of the element a loop stands at.\<close>

lemma observers_append: "observers (xs @ ys) k = observers xs k @ observers ys k"
  by (simp add: observers_def)

lemma observers_set: "v \<in> set (observers m k) \<longleftrightarrow> (k, v) \<in> set m"
  by (force simp: observers_def)

lemma observers_distinct: "distinct m \<Longrightarrow> distinct (observers m k)"
  by (auto simp: observers_def distinct_map inj_on_def)

lemma unregister_loop_absent:
  "(k, v) \<notin> set it \<Longrightarrow> unregister_loop api k v pre it c w = Some (True, c, w)"
  by (induction it arbitrary: pre) auto

lemma unregister_loop_present:
  assumes "(k, v) \<in> set it"
  shows "\<exists>xs ys. it = xs @ (k, v) # ys \<and> (k, v) \<notin> set xs \<and>
    unregister_loop api k v pre it c w = unregister_loop api k v (pre @ xs) ((k, v) # ys) c w"
  using assms
proof (induction it arbitrary: pre)
  case (Cons e it)
  show ?case
  proof (cases "e = (k, v)")
    case True
    then show ?thesis by (intro exI[of _ "[]"] exI[of _ it]) simp
  next
    case False
    then obtain xs ys where xs: "it = xs @ (k, v) # ys" "(k, v) \<notin> set xs"
      "unregister_loop api k v (pre @ [e]) it c w = unregister_loop api k v ((pre @ [e]) @ xs) ((k, v) # ys) c w"
      using Cons(1)[of "pre @ [e]"] Cons(2) by auto
    have "\<not> (fst e = k \<and> snd e = v)" using False by (cases e) auto
    then have "unregister_loop api k v pre (e # it) c w = unregister_loop api k v (pre @ [e]) it c w"
      by (auto simp: Let_def)
    then have "unregister_loop api k v pre (e # it) c w = unregister_loop api k v (pre @ e # xs) ((k, v) # ys) c w"
      unfolding xs(3) by simp
    then show ?thesis using xs False by (intro exI[of _ "e # xs"] exI[of _ ys]) auto
  qed
qed simp

lemma remove_element:
  assumes "map_inv (xs @ (k, v) # ys)"
  shows "map_inv (xs @ ys)"
    "observers (xs @ ys) = (observers (xs @ (k, v) # ys))(k := remove1 v (observers (xs @ (k, v) # ys) k))"
proof -
  show "map_inv (xs @ ys)" using assms by (auto simp: map_inv_def sorted_append)
  have "(k, v) \<notin> set xs" using assms by (simp add: map_inv_def)
  then have "v \<notin> set (observers xs k)" by (simp add: observers_set)
  then show "observers (xs @ ys) = (observers (xs @ (k, v) # ys))(k := remove1 v (observers (xs @ (k, v) # ys) k))"
    by (auto simp: fun_eq_iff observers_def remove1_append)
qed

subsection \<open>Registration and the subscriptions of the socket\<close>

text \<open>A sequence of registrations (\<open>True\<close>) and cancellations, and what it does to the observers of each
  event type.\<close>

fun registrations ::
  "'w zmq_api \<Rightarrow> (bool \<times> bytes \<times> nat) list \<Rightarrow> event_client \<Rightarrow> 'w \<Rightarrow> (bool list \<times> event_client \<times> 'w) option" where
  "registrations api [] c w = Some ([], c, w)"
| "registrations api ((b, k, v) # us) c w =
     do {
       (r, c, w) \<leftarrow> (if b then register_observer api k v c w else unregister_observer api k v c w);
       (rs, c, w) \<leftarrow> registrations api us c w;
       Some (r # rs, c, w)
     }"

fun net_observers :: "(bool \<times> bytes \<times> nat) list \<Rightarrow> (bytes \<Rightarrow> nat list) \<Rightarrow> bytes \<Rightarrow> nat list" where
  "net_observers [] f = f"
| "net_observers ((b, k, v) # us) f =
     net_observers us (f(k := if b then (if v \<in> set (f k) then f k else f k @ [v]) else remove1 v (f k)))"

text \<open>What registration relies on: setting the two options succeeds, for a type that is not too long, and
  changes the reference count of the prefix.\<close>

locale subscribing_socket =
  fixes api :: "'w zmq_api"
    and s :: sock
    and ok :: "'w \<Rightarrow> bool"
    and subs :: "'w \<Rightarrow> bytes \<Rightarrow> nat"
    and fit :: "bytes \<Rightarrow> bool"
  assumes subscribe: "ok w \<Longrightarrow> fit k \<Longrightarrow> subs w k + 1 < 2 ^ 32 \<Longrightarrow>
      \<exists>w'. api_setsockopt api s (ZMQ_SUBSCRIBE k) w = Some (0, w') \<and> ok w' \<and> subs w' = (subs w)(k := subs w k + 1)"
    and unsubscribe: "ok w \<Longrightarrow> fit k \<Longrightarrow>
      \<exists>w'. api_setsockopt api s (ZMQ_UNSUBSCRIBE k) w = Some (0, w') \<and> ok w' \<and> subs w' = (subs w)(k := subs w k - 1)"
begin

text \<open>The client and its socket agree: a type is subscribed, once, exactly while it has observers.\<close>

definition agree :: "event_client \<Rightarrow> 'w \<Rightarrow> bool" where
  "agree c w \<longleftrightarrow> map_inv (event_object_map c) \<and> sub_socket c = s \<and> ok w \<and>
     (\<forall>k. subs w k = (if observers (event_object_map c) k = [] then 0 else 1))"

lemma register_agree:
  assumes "agree c w" "fit k"
  shows "\<exists>c' w'. register_observer api k v c w = Some (True, c', w') \<and> agree c' w' \<and>
    observers (event_object_map c') = (observers (event_object_map c))
      (k := if v \<in> set (observers (event_object_map c) k) then observers (event_object_map c) k
            else observers (event_object_map c) k @ [v])"
proof -
  let ?m = "event_object_map c"
  have inv: "sorted (map fst ?m)" "distinct ?m" and s: "sub_socket c = s" and ok: "ok w"
    and sub: "\<And>k. subs w k = (if observers ?m k = [] then 0 else 1)"
    using assms by (auto simp: agree_def map_inv_def)
  define c' where "c' = c\<lparr>event_object_map := mm_insert k v ?m\<rparr>"
  show ?thesis
  proof (cases "observers ?m k = []")
    case True
    obtain w' where w': "api_setsockopt api s (ZMQ_SUBSCRIBE k) w = Some (0, w')" "ok w'" "subs w' = (subs w)(k := 1)"
      using subscribe[OF ok assms(2)] sub True by auto
    have new: "(k, v) \<notin> set ?m" using True observers_set[of v ?m k] by simp
    have "register_observer api k v c w = Some (True, c', w')"
      using True find_Nil_iff[OF inv(1)] w' s by (simp add: register_observer_def c'_def)
    moreover have "agree c' w'"
      using insert_observers[OF inv(1), of k v] inv new w' s sub by (simp add: agree_def map_inv_def c'_def)
    ultimately show ?thesis using insert_observers(1)[OF inv(1)] True by (simp add: c'_def)
  next
    case False
    note reg = registered_found[OF inv(1), of k v]
    show ?thesis
    proof (cases "(k, v) \<in> set ?m")
      case True
      then show ?thesis using False find_Nil_iff[OF inv(1)] reg assms observers_set[of v ?m k]
        by (auto simp: register_observer_def Let_def fun_eq_iff)
    next
      case new: False
      have "register_observer api k v c w = Some (True, c', w)"
        using False new find_Nil_iff[OF inv(1)] reg by (simp add: register_observer_def c'_def)
      moreover have "agree c' w"
        using insert_observers[OF inv(1), of k v] inv new ok s sub False by (simp add: agree_def map_inv_def c'_def)
      ultimately show ?thesis using insert_observers(1)[OF inv(1)] new observers_set[of v ?m k] by (simp add: c'_def)
    qed
  qed
qed

lemma unregister_agree:
  assumes "agree c w" "fit k"
  shows "\<exists>c' w'. unregister_observer api k v c w = Some (True, c', w') \<and> agree c' w' \<and>
    observers (event_object_map c') = (observers (event_object_map c))
      (k := remove1 v (observers (event_object_map c) k))"
proof -
  let ?m = "event_object_map c"
  have inv: "map_inv ?m" and s: "sub_socket c = s" and ok: "ok w"
    and sub: "\<And>k. subs w k = (if observers ?m k = [] then 0 else 1)"
    using assms by (auto simp: agree_def)
  show ?thesis
  proof (cases "(k, v) \<in> set ?m")
    case False
    then have "remove1 v (observers ?m k) = observers ?m k" by (simp add: remove1_idem observers_set)
    then show ?thesis
      using False assms by (simp add: unregister_observer_def unregister_loop_absent)
  next
    case True
    obtain xs ys where m: "?m = xs @ (k, v) # ys" and loop:
      "unregister_loop api k v [] ?m c w = unregister_loop api k v xs ((k, v) # ys) c w"
      using unregister_loop_present[OF True, of api "[]" c w] by auto
    have rem: "map_inv (xs @ ys)" "observers (xs @ ys) = (observers ?m)(k := remove1 v (observers ?m k))"
      using remove_element[of xs k v ys] inv m by simp_all
    have had: "observers ?m k \<noteq> []" using True observers_set by (metis empty_iff list.set(1))
    define c' where "c' = c\<lparr>event_object_map := xs @ ys\<rparr>"
    have srt: "sorted (map fst (xs @ ys))" using rem by (simp add: map_inv_def)
    show ?thesis
    proof (cases "observers (xs @ ys) k = []")
      case last: True
      obtain w' where w': "api_setsockopt api s (ZMQ_UNSUBSCRIBE k) w = Some (0, w')" "ok w'" "subs w' = (subs w)(k := 0)"
        using unsubscribe[OF ok assms(2)] sub[of k] had by auto
      have "unregister_observer api k v c w = Some (True, c', w')"
        using loop last find_Nil_iff[OF srt] w' s by (simp add: unregister_observer_def c'_def)
      moreover have "agree c' w'"
        using rem w' s sub last by (auto simp: agree_def c'_def)
      ultimately show ?thesis using rem by (simp add: c'_def)
    next
      case more: False
      have "unregister_observer api k v c w = Some (True, c', w)"
        using loop more find_Nil_iff[OF srt] by (simp add: unregister_observer_def c'_def)
      moreover have "agree c' w"
        using rem ok s sub more had by (auto simp: agree_def c'_def)
      ultimately show ?thesis using rem by (simp add: c'_def)
    qed
  qed
qed

lemma registrations_agree:
  "agree c w \<Longrightarrow> \<forall>(b, k, v) \<in> set us. fit k \<Longrightarrow>
   \<exists>c' w'. registrations api us c w = Some (replicate (length us) True, c', w') \<and> agree c' w' \<and>
     observers (event_object_map c') = net_observers us (observers (event_object_map c))"
proof (induction us arbitrary: c w)
  case (Cons u us)
  obtain b k v where u: "u = (b, k, v)" by (cases u)
  have k: "fit k" using Cons.prems(2) u by simp
  obtain c1 w1 where 1: "(if b then register_observer api k v c w else unregister_observer api k v c w) = Some (True, c1, w1)"
    "agree c1 w1" "net_observers (u # us) (observers (event_object_map c)) = net_observers us (observers (event_object_map c1))"
    using register_agree[OF Cons.prems(1) k, of v] unregister_agree[OF Cons.prems(1) k, of v] unfolding u by (cases b) auto
  obtain c2 w2 where "registrations api us c1 w1 = Some (replicate (length us) True, c2, w2)" "agree c2 w2"
    "observers (event_object_map c2) = net_observers us (observers (event_object_map c1))"
    using Cons.IH[OF 1(2)] Cons.prems(2) by auto
  then show ?case using 1(1) unfolding 1(3) by (simp add: u)
qed simp

end

subsection \<open>Dispatch\<close>

text \<open>A thread calls \<open>handle_event\<close> again and again.\<close>

fun handle_events :: "nat \<Rightarrow> 'w zmq_api \<Rightarrow> 'w handler \<Rightarrow> event_client \<Rightarrow> 'w \<Rightarrow> (event_client \<times> 'w) option" where
  "handle_events 0 api h c w = Some (c, w)"
| "handle_events (Suc n) api h c w = do { (c, w) \<leftarrow> handle_event api h c w; handle_events n api h c w }"

lemma call_handlers_fold:
  "call_handlers h type content es w = fold (\<lambda>v. h v type content) (map snd es) w"
  by (induction es arbitrary: w) auto

context polled_channel
begin

text \<open>One call with an event waiting, and one with nothing to receive.  The client may only differ in
  the result of the last poll.\<close>

definition ready :: "multimap \<Rightarrow> event_client \<Rightarrow> bool" where
  "ready m c \<longleftrightarrow> event_object_map c = m \<and> sub_socket c = rx \<and> sub_items_events c = ZMQ_POLLIN"

lemma handle_one:
  assumes "ready m c" "map_inv m" "chan w (event_frames (t, d) @ q) p" "length t < 2 ^ 31" "length d < 2 ^ 31"
  shows "\<exists>c' w'. handle_event api h c w = Some (c', fold (\<lambda>v. h v t d) (observers m t) w') \<and>
    ready m c' \<and> chan w' q p"
proof -
  obtain w1 where w1: "api_poll api rx 1 (sub_items_revents c) 20 w = Some (1, w1)"
    "chan w1 ((True, t) # (False, d) # q) p"
    using poll[OF assms(3), of "sub_items_revents c" 20] by auto
  have sz: "recv_size t = length t" "recv_size d = length d" using assms by (auto simp: recv_size_def)
  obtain w2 where w2: "RecvEventEntity api rx w1 = Some (int (length d), t, d, w2)" "chan w2 q p"
    by (rule recv_entity[OF w1(2)]) (simp add: sz)
  have er: "mm_equal_range t m = filter (\<lambda>e. fst e = t) m"
    using assms(2) by (simp add: equal_range_filter map_inv_def)
  show ?thesis
    using w1(1) w2 assms(1) er
    by (auto simp: handle_event_def ready_def ZMQ_POLLIN_def call_handlers_fold observers_def)
qed

lemma handle_none:
  assumes "ready m c" "chan w [] p"
  shows "\<exists>c' w'. handle_event api h c w = Some (c', w') \<and> ready m c' \<and> chan w' [] p"
proof -
  obtain w1 where "api_poll api rx 1 (sub_items_revents c) 20 w = Some (0, w1)" "chan w1 [] p"
    using poll[OF assms(2), of "sub_items_revents c" 20] by auto
  then show ?thesis using assms(1) by (auto simp: handle_event_def ready_def ZMQ_POLLIN_def)
qed

end

subsection \<open>Delivery over a connection\<close>

text \<open>The world of a connection, with a record of the calls of \<open>event_handle\<close>: observer, type and
  content.\<close>

record logged_link = link +
  link_calls :: "(nat \<times> bytes \<times> bytes) list"

definition log_call :: "logged_link handler" where
  "log_call v t d w = w\<lparr>link_calls := link_calls w @ [(v, t, d)]\<rparr>"

definition logged_new :: "logged_link option" where
  "logged_new =
     do { p \<leftarrow> ypipe_new 256; Some \<lparr>link_pipe = p, link_more = False, link_errno = 0, link_calls = []\<rparr> }"

lemma fold_log_call:
  "fold (\<lambda>v. log_call v t d) vs w = w\<lparr>link_calls := link_calls w @ map (\<lambda>v. (v, t, d)) vs\<rparr>"
  by (induction vs arbitrary: w) (auto simp: log_call_def)

lemma logged_new_chan: obtains l where "logged_new = Some l" "link_chan 256 l [] []" "link_calls l = []"
proof -
  obtain p where p: "ypipe_new 256 = Some (p :: frame ypipe)" "ypipe_repr 256 p apipe_new"
    by (rule ypipe_new_repr[of 256]) simp_all
  then have "link_chan 256 \<lparr>link_pipe = p, link_more = False, link_errno = 0, link_calls = []\<rparr> [] []"
    by (auto simp: link_chan_def apipe_new_def)
  then show thesis using that p(1) by (simp add: logged_new_def)
qed

text \<open>Sending, polling and receiving do not touch the record of calls.\<close>

lemma link_calls_send: "link_send n s b m w = Some (rc, w') \<Longrightarrow> link_calls w' = link_calls w"
  by (auto simp: link_send_def opt_simps)

lemma link_calls_recv: "link_recv n s dw w = Some (f, w') \<Longrightarrow> link_calls w' = link_calls w"
  by (auto simp: link_recv_def opt_simps split: option.splits)

lemma link_calls_poll: "link_poll n s e r tm w = Some (f, w') \<Longrightarrow> link_calls w' = link_calls w"
  by (auto simp: link_poll_def split: prod.splits)

definition logged_chan ::
  "(nat \<times> bytes \<times> bytes) list \<Rightarrow> logged_link \<Rightarrow> frame list \<Rightarrow> frame list \<Rightarrow> bool" where
  "logged_chan calls w q p \<longleftrightarrow> link_chan 256 w q p \<and> link_calls w = calls"

interpretation ll: polled_channel "link_api 256" 1 2 "logged_chan calls" for calls
proof
  fix w :: logged_link and q p b
  assume a: "logged_chan calls w q p"
  show "\<exists>rc w'. api_msg_send (link_api 256) 1 b True w = Some (rc, w') \<and> 0 \<le> rc \<and>
      logged_chan calls w' q (p @ [(True, b)])"
    using lc.send_more[of w q p b] a link_calls_send[of 256 1 b True w]
    by (fastforce simp: logged_chan_def link_api_def)
  show "\<exists>rc w'. api_msg_send (link_api 256) 1 b False w = Some (rc, w') \<and> 0 \<le> rc \<and>
      logged_chan calls w' (q @ p @ [(False, b)]) []"
    using lc.send_last[of w q p b] a link_calls_send[of 256 1 b False w]
    by (fastforce simp: logged_chan_def link_api_def)
next
  fix w :: logged_link and p
  assume a: "logged_chan calls w [] p"
  show "\<exists>w'. api_msg_recv (link_api 256) 2 True w = Some (None, w') \<and> api_errno (link_api 256) w' = EAGAIN \<and>
      logged_chan calls w' [] p"
    using lc.recv_none[of w p] a link_calls_recv[of 256 2 True w]
    by (fastforce simp: logged_chan_def link_api_def)
next
  fix w :: logged_link and m b q p dw
  assume a: "logged_chan calls w ((m, b) # q) p"
  show "\<exists>w'. api_msg_recv (link_api 256) 2 dw w = Some (Some b, w') \<and>
      api_rcvmore (link_api 256) 2 w' = Some m \<and> logged_chan calls w' q p"
    using lc.recv_frame[of w m b q p dw] a link_calls_recv[of 256 2 dw w]
    by (fastforce simp: logged_chan_def link_api_def)
next
  fix w :: logged_link and q p and r :: "16 word" and t
  assume a: "logged_chan calls w q p"
  show "\<exists>w'. api_poll (link_api 256) 2 1 r t w = Some (if q = [] then 0 else 1, w') \<and> logged_chan calls w' q p"
    using lp.poll[of w q p r t] a link_calls_poll[of 256 2 1 r t w]
    by (fastforce simp: logged_chan_def link_api_def)
qed simp

text \<open>The calls the events of a list should cause.\<close>

definition calls_for :: "multimap \<Rightarrow> (bytes \<times> bytes) list \<Rightarrow> (nat \<times> bytes \<times> bytes) list" where
  "calls_for m evs = concat (map (\<lambda>(t, d). map (\<lambda>v. (v, t, d)) (observers m t)) evs)"

lemma ready_all [simp]: "ll.ready m c \<longleftrightarrow> event_object_map c = m \<and> sub_socket c = 2 \<and> sub_items_events c = ZMQ_POLLIN"
  by (rule ll.ready_def)

lemma logged_chan_log:
  "logged_chan calls w q p \<Longrightarrow> logged_chan (calls @ cs) (w\<lparr>link_calls := link_calls w @ cs\<rparr>) q p"
  by (auto simp: logged_chan_def link_chan_def)

lemma handle_events_list:
  assumes "map_inv m" "\<And>t d. (t, d) \<in> set evs \<Longrightarrow> length t < 2 ^ 31 \<and> length d < 2 ^ 31"
    "event_object_map c = m" "sub_socket c = 2" "sub_items_events c = ZMQ_POLLIN"
    "logged_chan calls w (concat (map event_frames evs)) []"
  shows "\<exists>c' w'. handle_events (length evs + n) (link_api 256) log_call c w = Some (c', w') \<and>
    event_object_map c' = m \<and> link_calls w' = calls @ calls_for m evs"
  using assms(2-)
proof (induction evs arbitrary: c w calls)
  case Nil
  then show ?case
  proof (induction n arbitrary: c w)
    case 0
    then show ?case by (simp add: calls_for_def logged_chan_def)
  next
    case (Suc n)
    obtain c' w' where 1: "handle_event (link_api 256) log_call c w = Some (c', w')" "event_object_map c' = m"
      "sub_socket c' = 2" "sub_items_events c' = ZMQ_POLLIN" "logged_chan calls w' [] []"
      using ll.handle_none[of m c calls w "[]" log_call] Suc.prems by auto
    then show ?case using Suc.IH[of c' w'] by simp
  qed
next
  case (Cons ev evs)
  obtain t d where ev: "ev = (t, d)" by (cases ev)
  obtain c' w' where 1: "handle_event (link_api 256) log_call c w = Some (c', fold (\<lambda>v. log_call v t d) (observers m t) w')"
    "event_object_map c' = m" "sub_socket c' = 2" "sub_items_events c' = ZMQ_POLLIN"
    "logged_chan calls w' (concat (map event_frames evs)) []"
    using ll.handle_one[of m c calls w t d "concat (map event_frames evs)" "[]" log_call] Cons.prems assms(1) ev by auto
  let ?cs = "map (\<lambda>v. (v, t, d)) (observers m t)"
  obtain c'' w'' where "handle_events (length evs + n) (link_api 256) log_call c' (w'\<lparr>link_calls := link_calls w' @ ?cs\<rparr>) = Some (c'', w'')"
    "event_object_map c'' = m" "link_calls w'' = (calls @ ?cs) @ calls_for m evs"
    using Cons.IH[OF _ 1(2-4) logged_chan_log[OF 1(5), of ?cs]] Cons.prems(1) by (meson list.set_intros(2))
  then show ?case using 1(1) ev by (simp add: fold_log_call calls_for_def)
qed


definition sample_client :: event_client where
  "sample_client = \<lparr>event_object_map = [([97], 5), ([97], 4), ([97, 98], 6)], sub_socket = 2, pub_socket = 3,
     sub_items_events = ZMQ_POLLIN, sub_items_revents = 0\<rparr>"


subsection \<open>Local publication and failed subscriptions\<close>

text \<open>C40. \<open>publish_loc_event\<close> iterates from the first observer of the type to the end of the map: when
  the type has an observer, it also calls every observer of every greater type, with an event type
  they did not register for; when it has none it calls nobody.\<close>

theorem publish_loc_calls_greater_types:
  assumes "map_inv (event_object_map c)"
  shows "link_calls (publish_loc_event log_call t d c w) = link_calls w @
    (if observers (event_object_map c) t = [] then []
     else map (\<lambda>(t', v). (v, t, d)) (filter (\<lambda>(t', v). t \<le> t') (event_object_map c)))"
proof -
  have f: "mm_find t (event_object_map c) = (if observers (event_object_map c) t = [] then []
      else filter (\<lambda>e. t \<le> fst e) (event_object_map c))"
    using assms by (simp add: find_suffix map_inv_def)
  show ?thesis
    by (simp add: publish_loc_event_def f call_handlers_fold fold_log_call case_prod_unfold comp_def)
qed

theorem publish_loc_calls_greater_types_witness:
  "\<exists>l. logged_new = Some l \<and> link_calls (publish_loc_event log_call [97] [1] sample_client l) =
     [(5, [97], [1]), (4, [97], [1]), (6, [97], [1])]"
proof -
  have inv: "map_inv (event_object_map sample_client)" by (simp add: sample_client_def map_inv_def)
  obtain l where l: "logged_new = Some l" "link_calls l = []" by (rule logged_new_chan)
  show ?thesis
    using publish_loc_calls_greater_types[OF inv, of "[97]" "[1]" l] l
    by (intro exI[of _ l]) (simp add: sample_client_def observers_def)
qed

text \<open>A failed subscription is not undone: \<open>register_observer\<close> answers false when the socket refuses
  the subscription, but keeps the observer in the map, so a later registration under the same type
  answers true without asking the socket again.\<close>

theorem failed_registration_is_masked:
  assumes "map_inv (event_object_map c)" "observers (event_object_map c) t = []"
    "api_setsockopt api (sub_socket c) (ZMQ_SUBSCRIBE t) w = Some (rc, w')" "rc \<noteq> 0"
  shows "\<exists>c'. register_observer api t v c w = Some (False, c', w') \<and> observers (event_object_map c') t = [v] \<and>
    (\<forall>u. \<exists>c''. register_observer api t u c' w' = Some (True, c'', w'))"
proof -
  have inv: "sorted (map fst (event_object_map c))" using assms(1) by (simp add: map_inv_def)
  define c' where "c' = c\<lparr>event_object_map := mm_insert t v (event_object_map c)\<rparr>"
  have reg: "register_observer api t v c w = Some (False, c', w')"
    using assms find_Nil_iff[OF inv] by (simp add: register_observer_def c'_def)
  have obs: "observers (event_object_map c') t = [v]" and inv': "sorted (map fst (event_object_map c'))"
    using insert_observers(1,2)[OF inv, of t v] assms(2) by (simp_all add: c'_def)
  have "mm_find t (event_object_map c') \<noteq> []" using find_Nil_iff[OF inv'] obs by simp
  then have "\<exists>c''. register_observer api t u c' w' = Some (True, c'', w')" for u
    by (simp add: register_observer_def Let_def)
  then show ?thesis using reg obs by blast
qed

definition refusing_api :: "unit zmq_api" where
  "refusing_api = \<lparr>api_msg_send = (\<lambda>s b m w. None), api_msg_recv = (\<lambda>s d w. None), api_rcvmore = (\<lambda>s w. None),
     api_errno = (\<lambda>w. 22), api_setsockopt = (\<lambda>s x w. Some (-1, w)), api_poll = (\<lambda>s e r t w. None),
     api_socket = (\<lambda>t w. None), api_connect = (\<lambda>s a w. None), api_bind = (\<lambda>s a w. None),
     api_disconnect = (\<lambda>s a w. None), api_close = (\<lambda>s w. None)\<rparr>"

theorem failed_registration_is_masked_witness:
  "\<exists>c'. register_observer refusing_api [98] 8 sample_client () = Some (False, c', ()) \<and>
    observers (event_object_map c') [98] = [8] \<and>
    (\<forall>u. \<exists>c''. register_observer refusing_api [98] u c' () = Some (True, c'', ()))"
proof (rule failed_registration_is_masked)
  show "map_inv (event_object_map sample_client)" by (simp add: sample_client_def map_inv_def)
  show "observers (event_object_map sample_client) [98] = []" by (simp add: sample_client_def observers_def)
  show "api_setsockopt refusing_api (sub_socket sample_client) (ZMQ_SUBSCRIBE [98]) () = Some (-1, ())"
    by (simp add: refusing_api_def)
qed simp

end
