(* ===== verification/Event_Socket.thy ===== *)
theory Event_Socket
  imports Event_Client Zmq_Xsub
begin

text \<open>
  The SUB socket behind an event client.  The client calls \<open>zmq_setsockopt\<close>, which hands the two
  subscription options to \<open>sub_t::xsetsockopt\<close> and every other option to the generic parser; that
  parser and the other calls of the library stay parameters.  The model's socket provides the
  interface \<open>subscribing_socket\<close> of the client, so that the registrations of the client and the
  subscription trie of its socket agree.
\<close>

definition zmq_rc :: "(rc \<times> xsub_t \<times> 'z world_scheme) option \<Rightarrow> (int \<times> xsub_t \<times> 'z world_scheme) option" where
  "zmq_rc = map_option (\<lambda>(rc, s, w). (if rc = Rc_ok then 0 else -1, s, w))"

definition sub_calls ::
  "sock \<Rightarrow> (xsub_t \<times> 'z world_scheme) zmq_api \<Rightarrow> (xsub_t \<times> 'z world_scheme) zmq_api" where
  "sub_calls n api = api\<lparr>api_setsockopt := (\<lambda>n' opt (s, w).
     if n' = n
     then (case opt of
         ZMQ_SUBSCRIBE k \<Rightarrow> zmq_rc (sub_setsockopt opt_subscribe k s w)
       | ZMQ_UNSUBSCRIBE k \<Rightarrow> zmq_rc (sub_setsockopt opt_unsubscribe k s w)
       | ZMQ_LINGER _ \<Rightarrow> api_setsockopt api n opt (s, w))
     else api_setsockopt api n' opt (s, w))\<rparr>"

text \<open>The socket is in order: its pipes are live connections and fewer than \<open>2 ^ 31\<close>.\<close>

definition socket_ok :: "(nat \<times> nat) set \<Rightarrow> msg_t multiset \<Rightarrow> xsub_t \<times> 'z world_scheme \<Rightarrow> bool" where
  "socket_ok L E sw \<longleftrightarrow> (case sw of (s, w) \<Rightarrow> xsub_inv s \<and> all_set (xsub_dist s) \<subseteq> fst ` L \<and>
     card (all_set (xsub_dist s)) < 2 ^ 31 \<and> links_inv L w (add_mset (message s) E))"

definition topic_fits :: "bytes \<Rightarrow> bool" where
  "topic_fits k \<longleftrightarrow> fits (1 # k)"

lemma socket_update:
  assumes "socket_ok L E (s, w)" "topic_fits k" "b \<Longrightarrow> trie_lookup (subscriptions s) k + 1 < 2 ^ 32"
  shows "\<exists>s' w'. sub_setsockopt (if b then opt_subscribe else opt_unsubscribe) k s w = Some (Rc_ok, s', w') \<and>
    socket_ok L E (s', w') \<and> trie_lookup (subscriptions s') = new_refs b k (trie_lookup (subscriptions s))"
proof -
  have s: "xsub_inv s" "all_set (xsub_dist s) \<subseteq> fst ` L" "card (all_set (xsub_dist s)) < 2 ^ 31"
    "links_inv L w (add_mset (message s) E)" using assms(1) by (auto simp: socket_ok_def)
  have "active (xsub_dist s) \<le> card (all_set (xsub_dist s))"
    using s(1) by (auto simp: xsub_inv_def dist_inv_def distinct_card array_wf_distinct)
  then have "active (xsub_dist s) < 2 ^ 31" using s(3) by linarith
  from lk.sub_setsockopt_ok[OF s(1,2) this s(4) assms(2)[unfolded topic_fits_def] assms(3)]
  obtain s' w' where "sub_setsockopt (if b then opt_subscribe else opt_unsubscribe) k s w = Some (Rc_ok, s', w')"
    "xsub_inv s'" "links_inv L w' (add_mset (message s') E)" "all_set (xsub_dist s') = all_set (xsub_dist s)"
    "trie_lookup (subscriptions s') = new_refs b k (trie_lookup (subscriptions s))" by blast
  then show ?thesis using s(2,3) by (simp add: socket_ok_def)
qed

interpretation sb: subscribing_socket "sub_calls n api" n "socket_ok L E" "\<lambda>(s, w). trie_lookup (subscriptions s)" topic_fits
  for n :: sock and api :: "(xsub_t \<times> 'z world_scheme) zmq_api" and L E
proof
  fix sw :: "xsub_t \<times> 'z world_scheme" and k
  obtain s w where sw: "sw = (s, w)" by (cases sw)
  assume ok: "socket_ok L E sw" "topic_fits k"
  {
    assume r: "(case sw of (s, w) \<Rightarrow> trie_lookup (subscriptions s)) k + 1 < 2 ^ 32"
    then obtain s' w' where "sub_setsockopt opt_subscribe k s w = Some (Rc_ok, s', w')" "socket_ok L E (s', w')"
      "trie_lookup (subscriptions s') = new_refs True k (trie_lookup (subscriptions s))"
      using socket_update[of L E s w k True] ok sw by auto
    then show "\<exists>sw'. api_setsockopt (sub_calls n api) n (ZMQ_SUBSCRIBE k) sw = Some (0, sw') \<and> socket_ok L E sw' \<and>
        (case sw' of (s, w) \<Rightarrow> trie_lookup (subscriptions s)) =
        (case sw of (s, w) \<Rightarrow> trie_lookup (subscriptions s))(k := (case sw of (s, w) \<Rightarrow> trie_lookup (subscriptions s)) k + 1)"
      by (intro exI[of _ "(s', w')"]) (simp add: sw sub_calls_def zmq_rc_def new_refs_def)
  }
  {
    obtain s' w' where "sub_setsockopt opt_unsubscribe k s w = Some (Rc_ok, s', w')" "socket_ok L E (s', w')"
      "trie_lookup (subscriptions s') = new_refs False k (trie_lookup (subscriptions s))"
      using socket_update[of L E s w k False] ok sw by auto
    then show "\<exists>sw'. api_setsockopt (sub_calls n api) n (ZMQ_UNSUBSCRIBE k) sw = Some (0, sw') \<and> socket_ok L E sw' \<and>
        (case sw' of (s, w) \<Rightarrow> trie_lookup (subscriptions s)) =
        (case sw of (s, w) \<Rightarrow> trie_lookup (subscriptions s))(k := (case sw of (s, w) \<Rightarrow> trie_lookup (subscriptions s)) k - 1)"
      by (intro exI[of _ "(s', w')"]) (simp add: sw sub_calls_def zmq_rc_def new_refs_def)
  }
qed

text \<open>C22. Registration and filtering agree.  A client and a socket that start in agreement stay so under
  any sequence of registrations and cancellations, none of which fails: afterwards the trie of the
  socket passes a message exactly when its body starts with an event type that still has an observer
  in the client, and the observers of each type are those of the reference function.\<close>

theorem registrations_reach_filter:
  fixes w :: "'z world_scheme"
  assumes "map_inv (event_object_map c)" "sub_socket c = n" "socket_ok L E (s, w)"
    and "\<forall>k. trie_lookup (subscriptions s) k = (if observers (event_object_map c) k = [] then 0 else 1)"
    and "\<forall>(b, k, v) \<in> set us. topic_fits k"
  shows "\<exists>c' s' w'. registrations (sub_calls n api) us c (s, w) = Some (replicate (length us) True, c', s', w') \<and>
    socket_ok L E (s', w') \<and> observers (event_object_map c') = net_observers us (observers (event_object_map c)) \<and>
    (\<forall>d. trie_check (subscriptions s') d = Some (\<exists>k. prefix k d \<and> observers (event_object_map c') k \<noteq> []))"
proof -
  have "sb.agree n L E c (s, w)" using assms(1-4) by (simp add: sb.agree_def)
  then obtain c' s' w' where r: "registrations (sub_calls n api) us c (s, w) = Some (replicate (length us) True, c', s', w')"
    "sb.agree n L E c' (s', w')" "observers (event_object_map c') = net_observers us (observers (event_object_map c))"
    using sb.registrations_agree[OF _ assms(5), of n L E c "(s, w)" api] by auto
  have ok: "socket_ok L E (s', w')" using r(2) by (simp add: sb.agree_def)
  have "trie_wf (subscriptions s')" "\<forall>k. trie_lookup (subscriptions s') k = (if observers (event_object_map c') k = [] then 0 else 1)"
    using r(2) by (auto simp: sb.agree_def socket_ok_def xsub_inv_def)
  then have "trie_check (subscriptions s') d = Some (\<exists>k. prefix k d \<and> observers (event_object_map c') k \<noteq> [])" for d
    using trie_check_law[of "subscriptions s'" d] by auto
  then show ?thesis using r(1,3) ok by blast
qed

definition fresh_client :: event_client where
  "fresh_client = \<lparr>event_object_map = [], sub_socket = 1, pub_socket = 2, sub_items_events = ZMQ_POLLIN, sub_items_revents = 0\<rparr>"

theorem registrations_reach_filter_witness:
  "\<forall>api. \<exists>c' s' w'. registrations (sub_calls 1 api) [(True, [97], 5), (True, [98], 6), (True, [97], 7), (False, [98], 6)]
       fresh_client (fst sub_one, snd sub_one) = Some ([True, True, True, True], c', s', w') \<and>
     trie_check (subscriptions s') [97, 120] = Some True"
proof
  fix api :: "(xsub_t \<times> world) zmq_api"
  let ?us = "[(True, [97], 5), (True, [98], 6), (True, [97], 7), (False, [98 :: byte], 6 :: nat)]"
  have h: "map_inv (event_object_map fresh_client)" "sub_socket fresh_client = 1"
    "\<forall>k. trie_lookup (subscriptions (fst sub_one)) k = (if observers (event_object_map fresh_client) k = [] then 0 else 1)"
    "\<forall>(b, k, v) \<in> set ?us. topic_fits k"
    using sub_one_ok(4) by (simp_all add: fresh_client_def map_inv_def observers_def topic_fits_def fits_def sizeof_content_def)
  have ok: "socket_ok {(0, 1)} {#} (fst sub_one, snd sub_one)"
    unfolding socket_ok_def prod.case sub_one_ok(2) using sub_one_ok by simp
  obtain c' s' w' where r: "registrations (sub_calls 1 api) ?us fresh_client (fst sub_one, snd sub_one) =
      Some (replicate (length ?us) True, c', s', w')"
    "observers (event_object_map c') = net_observers ?us (observers (event_object_map fresh_client))"
    "\<forall>d. trie_check (subscriptions s') d = Some (\<exists>k. prefix k d \<and> observers (event_object_map c') k \<noteq> [])"
    using registrations_reach_filter[OF h(1,2) ok h(3,4), of api] by blast
  have "observers (event_object_map c') [97] = [5, 7]" unfolding r(2) by (simp add: fresh_client_def observers_def)
  then have "\<exists>k. prefix k [97, 120] \<and> observers (event_object_map c') k \<noteq> []" by (intro exI[of _ "[97]"]) simp
  then show "\<exists>c' s' w'. registrations (sub_calls 1 api) ?us fresh_client (fst sub_one, snd sub_one) =
      Some ([True, True, True, True], c', s', w') \<and> trie_check (subscriptions s') [97, 120] = Some True"
    using r(1,3) by auto
qed

end
