(* ===== verification/Event_Target.thy ===== *)
theory Event_Target
  imports Event_Client
begin

text \<open>
  The objects around the event client: the client center of \<open>src/ClientCenter.cpp\<close>, the event target
  of \<open>src/EventTarget.cpp\<close>, the bus of \<open>src/EventBus.cpp\<close> and the objects' creation and destruction.
  \<open>bus_state\<close> holds the map of the client center, the client objects that are alive, by address, and
  the world of the socket API.  Using or deleting an object that is not alive gives \<open>None\<close>, as does
  a call through a null pointer.  The lock of the client center makes its two operations atomic, so
  each is one step on the state.
\<close>

type_synonym thread_id = nat

record 'w bus_state =
  client_pool :: "(thread_id \<times> nat) list"
  client_objs :: "nat \<Rightarrow> event_client option"
  next_client :: nat
  bus_world :: 'w

text \<open>The initial state of a process: the pool is empty and addresses start at one.\<close>

definition bus_initial :: "'w \<Rightarrow> 'w bus_state" where
  "bus_initial w = \<lparr>client_pool = [], client_objs = Map.empty, next_client = 1, bus_world = w\<rparr>"

definition register_client :: "thread_id \<Rightarrow> nat \<Rightarrow> 'w bus_state \<Rightarrow> bool \<times> 'w bus_state" where
  "register_client t a st =
     (if map_of (client_pool st) t = None
      then (True, st\<lparr>client_pool := insort_key fst (t, a) (client_pool st)\<rparr>)
      else (False, st))"

definition find_client :: "thread_id \<Rightarrow> 'w bus_state \<Rightarrow> nat" where
  "find_client t st = (case map_of (client_pool st) t of None \<Rightarrow> 0 | Some a \<Rightarrow> a)"

text \<open>\<open>new EventClient\<close> on the thread \<open>t\<close>: the constructor opens the sockets and registers.\<close>

definition new_client :: "'w zmq_api \<Rightarrow> thread_id \<Rightarrow> 'w bus_state \<Rightarrow> (nat \<times> 'w bus_state) option" where
  "new_client api t st =
     do {
       (c, w) \<leftarrow> event_client_open api (bus_world st);
       a \<leftarrow> Some (next_client st);
       st \<leftarrow> Some (st\<lparr>client_objs := (client_objs st)(a \<mapsto> c), next_client := a + 1, bus_world := w\<rparr>);
       (_, st) \<leftarrow> Some (register_client t a st);
       Some (a, st)
     }"

text \<open>\<open>delete\<close> of a client; of a null pointer it does nothing.\<close>

definition delete_client :: "'w zmq_api \<Rightarrow> nat \<Rightarrow> 'w bus_state \<Rightarrow> 'w bus_state option" where
  "delete_client api a st =
     (if a = 0 then Some st
      else do {
        c \<leftarrow> client_objs st a;
        w \<leftarrow> event_client_destroy api c (bus_world st);
        Some (st\<lparr>client_objs := (client_objs st)(a := None), bus_world := w\<rparr>)
      })"

fun delete_clients :: "'w zmq_api \<Rightarrow> (thread_id \<times> nat) list \<Rightarrow> 'w bus_state \<Rightarrow> 'w bus_state option" where
  "delete_clients api [] st = Some st"
| "delete_clients api (e # es) st = do { st \<leftarrow> delete_client api (snd e) st; delete_clients api es st }"

definition center_destroy :: "'w zmq_api \<Rightarrow> 'w bus_state \<Rightarrow> 'w bus_state option" where
  "center_destroy api st = delete_clients api (client_pool st) st"

subsection \<open>Event targets\<close>

record event_target =
  target_client :: nat

definition target_new :: "thread_id \<Rightarrow> 'w bus_state \<Rightarrow> event_target" where
  "target_new t st = \<lparr>target_client = find_client t st\<rparr>"

definition set_client :: "nat \<Rightarrow> 'z event_target_scheme \<Rightarrow> 'z event_target_scheme" where
  "set_client a tg = tg\<lparr>target_client := a\<rparr>"

definition with_client ::
  "nat \<Rightarrow> 'w bus_state \<Rightarrow> (event_client \<Rightarrow> 'w \<Rightarrow> ('a \<times> event_client \<times> 'w) option) \<Rightarrow> ('a \<times> 'w bus_state) option" where
  "with_client a st f =
     do {
       c \<leftarrow> client_objs st a;
       (r, c, w) \<leftarrow> f c (bus_world st);
       Some (r, st\<lparr>client_objs := (client_objs st)(a \<mapsto> c), bus_world := w\<rparr>)
     }"

definition subscribe ::
  "'w zmq_api \<Rightarrow> bytes \<Rightarrow> nat \<Rightarrow> 'z event_target_scheme \<Rightarrow> 'w bus_state \<Rightarrow> (bool \<times> 'w bus_state) option" where
  "subscribe api type obj tg st =
     (if target_client tg = 0 then Some (False, st)
      else with_client (target_client tg) st (register_observer api type obj))"

definition unsubscribe ::
  "'w zmq_api \<Rightarrow> bytes \<Rightarrow> nat \<Rightarrow> 'z event_target_scheme \<Rightarrow> 'w bus_state \<Rightarrow> (bool \<times> 'w bus_state) option" where
  "unsubscribe api type obj tg st =
     (if target_client tg = 0 then Some (False, st)
      else with_client (target_client tg) st (unregister_observer api type obj))"

text \<open>The two publications have no null check and no \<open>return\<close>; their value is not modelled.\<close>

definition target_publish_event ::
  "'w zmq_api \<Rightarrow> bytes \<Rightarrow> bytes \<Rightarrow> 'z event_target_scheme \<Rightarrow> 'w bus_state \<Rightarrow> 'w bus_state option" where
  "target_publish_event api type content tg st =
     do {
       zmq_assert (target_client tg \<noteq> 0);
       (_, st) \<leftarrow> with_client (target_client tg) st
         (\<lambda>c w. map_option (\<lambda>w. ((), c, w)) (publish_event api type content c w));
       Some st
     }"

definition target_publish_loc_event ::
  "'w handler \<Rightarrow> bytes \<Rightarrow> bytes \<Rightarrow> 'z event_target_scheme \<Rightarrow> 'w bus_state \<Rightarrow> 'w bus_state option" where
  "target_publish_loc_event h type content tg st =
     do {
       zmq_assert (target_client tg \<noteq> 0);
       (_, st) \<leftarrow> with_client (target_client tg) st
         (\<lambda>c w. Some ((), c, publish_loc_event h type content c w));
       Some st
     }"

subsection \<open>The bus\<close>

record event_bus =
  xpub_socket :: sock
  xsub_socket :: sock

definition event_bus_new :: "'w zmq_api \<Rightarrow> 'w \<Rightarrow> (event_bus \<times> 'w) option" where
  "event_bus_new api w =
     do {
       (xpub, w) \<leftarrow> api_socket api ZMQ_XPUB w;
       zmq_assert (xpub \<noteq> 0);
       (rc, w) \<leftarrow> api_bind api xpub XPUB_ADDR_PORT w;
       zmq_assert (rc = 0);
       (xsub, w) \<leftarrow> api_socket api ZMQ_XSUB w;
       zmq_assert (xsub \<noteq> 0);
       (rc, w) \<leftarrow> api_bind api xsub XSUB_ADDR_PORT w;
       zmq_assert (rc = 0);
       Some (\<lparr>xpub_socket = xpub, xsub_socket = xsub\<rparr>, w)
     }"

text \<open>The destructor up to \<open>zmq_ctx_destroy\<close>, which is an argument.\<close>

definition event_bus_destroy :: "'w zmq_api \<Rightarrow> ('w \<Rightarrow> 'w option) \<Rightarrow> event_bus \<Rightarrow> 'w \<Rightarrow> 'w option" where
  "event_bus_destroy api ctx_destroy b w =
     do {
       (_, w) \<leftarrow> api_disconnect api (xpub_socket b) XPUB_ADDR_PORT w;
       (_, w) \<leftarrow> api_close api (xpub_socket b) w;
       (_, w) \<leftarrow> api_disconnect api (xsub_socket b) XSUB_ADDR_PORT w;
       (_, w) \<leftarrow> api_close api (xsub_socket b) w;
       ctx_destroy w
     }"

subsection \<open>The pool\<close>

text \<open>The invariant: the pool is sorted by thread, has one entry for a thread, and every client has at
  most one entry, as long as clients are created by \<open>new_client\<close>.\<close>

definition pool_inv :: "'w bus_state \<Rightarrow> bool" where
  "pool_inv st \<longleftrightarrow> sorted (map fst (client_pool st)) \<and> distinct (map fst (client_pool st)) \<and>
     distinct (map snd (client_pool st)) \<and>
     (\<forall>a \<in> snd ` set (client_pool st). 0 < a \<and> a < next_client st) \<and>
     (\<forall>a. client_objs st a \<noteq> None \<longrightarrow> 0 < a \<and> a < next_client st) \<and> 0 < next_client st"

lemma pool_inv_initial: "pool_inv (bus_initial w)"
  by (simp add: pool_inv_def bus_initial_def)

lemma distinct_insort_fst:
  "distinct (map fst (insort_key fst x xs)) \<longleftrightarrow> fst x \<notin> fst ` set xs \<and> distinct (map fst xs)"
  by (induction xs) (auto simp: set_insort_key)

lemma distinct_insort_snd:
  "distinct (map snd (insort_key fst x xs)) \<longleftrightarrow> snd x \<notin> snd ` set xs \<and> distinct (map snd xs)"
  by (induction xs) (auto simp: set_insort_key)

lemma map_of_insort:
  "fst x \<notin> fst ` set xs \<Longrightarrow> map_of (insort_key fst x xs) = (map_of xs)(fst x \<mapsto> snd x)"
  by (induction xs) (auto simp: fun_eq_iff)

lemma new_client_inv:
  assumes "pool_inv st" "new_client api t st = Some (a, st')"
  shows "pool_inv st'" "a = next_client st" "client_objs st' a \<noteq> None"
    "map_of (client_pool st') = (if map_of (client_pool st) t = None then (map_of (client_pool st))(t \<mapsto> a)
       else map_of (client_pool st))"
proof -
  obtain c w where cw: "event_client_open api (bus_world st) = Some (c, w)"
    using assms(2) by (auto simp: new_client_def opt_simps)
  let ?s = "st\<lparr>client_objs := (client_objs st)(next_client st \<mapsto> c), next_client := next_client st + 1, bus_world := w\<rparr>"
  have st': "st' = snd (register_client t (next_client st) ?s)" and a: "a = next_client st"
    using assms(2) cw by (auto simp: new_client_def split: prod.splits)
  show "a = next_client st" by (rule a)
  show "client_objs st' a \<noteq> None" using st' a by (simp add: register_client_def)
  have p: "sorted (map fst (client_pool st))" "distinct (map fst (client_pool st))" "distinct (map snd (client_pool st))"
    "\<And>b. b \<in> snd ` set (client_pool st) \<Longrightarrow> 0 < b \<and> b < next_client st"
    "\<And>b. client_objs st b \<noteq> None \<Longrightarrow> 0 < b \<and> b < next_client st" "0 < next_client st"
    using assms(1) by (auto simp: pool_inv_def)
  have new: "next_client st \<notin> snd ` set (client_pool st)" using p(4) by blast
  show "pool_inv st'"
  proof (cases "map_of (client_pool st) t")
    case None
    then have "t \<notin> fst ` set (client_pool st)" by (simp add: map_of_eq_None_iff)
    then show ?thesis
      using None p new unfolding st'
      by (auto simp: pool_inv_def register_client_def distinct_insort_fst distinct_insort_snd sorted_insort_key
        set_insort_key less_Suc_eq)
  next
    case (Some b)
    then show ?thesis using p unfolding st' by (auto simp: pool_inv_def register_client_def less_Suc_eq)
  qed
  show "map_of (client_pool st') = (if map_of (client_pool st) t = None then (map_of (client_pool st))(t \<mapsto> a)
       else map_of (client_pool st))"
    using map_of_insort[of "(t, a)" "client_pool st"] unfolding st' a
    by (auto simp: register_client_def map_of_eq_None_iff)
qed

lemma find_client_new:
  assumes "pool_inv st" "map_of (client_pool st) t = None" "new_client api t st = Some (a, st')"
  shows "find_client t st' = a" "a \<noteq> 0"
  using new_client_inv[OF assms(1,3)] assms(1,2) by (auto simp: find_client_def pool_inv_def)

lemma with_client_alive:
  "with_client a st f = Some (r, st') \<Longrightarrow> client_pool st' = client_pool st \<and> next_client st' = next_client st \<and>
     (\<forall>b. client_objs st' b = None \<longleftrightarrow> client_objs st b = None)"
  by (auto simp: with_client_def opt_simps split: if_splits)

lemma delete_client_objs:
  "delete_client api a st = Some st' \<Longrightarrow> client_pool st' = client_pool st \<and>
     client_objs st' = (if a = 0 then client_objs st else (client_objs st)(a := None))"
  by (auto simp: delete_client_def opt_simps split: if_splits)

lemma delete_clients_dead:
  "client_objs st a = None \<Longrightarrow> a \<noteq> 0 \<Longrightarrow> a \<in> snd ` set es \<Longrightarrow> delete_clients api es st = None"
proof (induction es arbitrary: st)
  case (Cons e es)
  show ?case
  proof (cases "delete_client api (snd e) st")
    case (Some st')
    then have dead: "client_objs st' a = None" using delete_client_objs[OF Some] Cons(2) by (auto split: if_splits)
    have "snd e \<noteq> a" using Some Cons(2,3) by (auto simp: delete_client_def)
    then have "a \<in> snd ` set es" using Cons(4) by auto
    from Cons(1)[OF dead Cons(3) this] show ?thesis using Some by simp
  qed simp
qed simp

lemma delete_clients_ok:
  assumes "\<And>c w. event_client_destroy api c w \<noteq> None"
  shows "distinct (map snd es) \<Longrightarrow> (\<And>a. a \<in> snd ` set es \<Longrightarrow> a \<noteq> 0 \<and> client_objs st a \<noteq> None) \<Longrightarrow>
    \<exists>st'. delete_clients api es st = Some st' \<and>
      client_objs st' = (\<lambda>a. if a \<in> snd ` set es then None else client_objs st a)"
proof (induction es arbitrary: st)
  case (Cons e es)
  obtain c where c: "client_objs st (snd e) = Some c" "snd e \<noteq> 0" using Cons(3)[of "snd e"] by auto
  obtain w where w: "event_client_destroy api c (bus_world st) = Some w" using assms by fastforce
  let ?s = "st\<lparr>client_objs := (client_objs st)(snd e := None), bus_world := w\<rparr>"
  have d: "delete_client api (snd e) st = Some ?s" using c w by (simp add: delete_client_def)
  have "\<And>a. a \<in> snd ` set es \<Longrightarrow> a \<noteq> 0 \<and> client_objs ?s a \<noteq> None" using Cons(2,3) by (auto simp: image_iff)
  then obtain st' where "delete_clients api es ?s = Some st'"
    "client_objs st' = (\<lambda>a. if a \<in> snd ` set es then None else client_objs ?s a)"
    using Cons(1)[of ?s] Cons(2) by auto
  then show ?case using d by (auto simp: fun_eq_iff)
qed simp

text \<open>The client center deletes each registered client exactly once: starting from clients made by
  \<open>new_client\<close> that are all alive, its destructor ends without a double deletion and leaves none of
  them.\<close>

theorem center_destroy_deletes_each_once:
  assumes "pool_inv st" "\<And>a. a \<in> snd ` set (client_pool st) \<Longrightarrow> client_objs st a \<noteq> None"
    "\<And>c w. event_client_destroy api c w \<noteq> None"
  shows "\<exists>st'. center_destroy api st = Some st' \<and>
    client_objs st' = (\<lambda>a. if a \<in> snd ` set (client_pool st) then None else client_objs st a)"
  unfolding center_destroy_def
  by (rule delete_clients_ok[OF assms(3)]) (use assms in \<open>auto simp: pool_inv_def\<close>)

text \<open>An API whose calls all succeed, for concrete runs: sockets are numbered, and the world is the
  list of calls.\<close>

definition counting_api :: "nat zmq_api" where
  "counting_api = \<lparr>api_msg_send = (\<lambda>s b m w. Some (int (length b), w)), api_msg_recv = (\<lambda>s d w. Some (None, w)),
     api_rcvmore = (\<lambda>s w. Some False), api_errno = (\<lambda>w. EAGAIN), api_setsockopt = (\<lambda>s x w. Some (0, w)),
     api_poll = (\<lambda>s e r t w. Some (0, w)), api_socket = (\<lambda>t w. Some (w + 1, w + 1)),
     api_connect = (\<lambda>s a w. Some (0, w)), api_bind = (\<lambda>s a w. Some (0, w)),
     api_disconnect = (\<lambda>s a w. Some (0, w)), api_close = (\<lambda>s w. Some (0, w))\<rparr>"

definition two_clients :: "nat bus_state option" where
  "two_clients = do { (_, st) \<leftarrow> new_client counting_api 7 (bus_initial 0); (_, st) \<leftarrow> new_client counting_api 4 st; Some st }"

lemma two_clients_run:
  "\<exists>st. two_clients = Some st \<and> pool_inv st \<and> client_pool st = [(4, 2), (7, 1)] \<and>
     client_objs st 1 \<noteq> None \<and> client_objs st 2 \<noteq> None"
  by (simp add: two_clients_def new_client_def event_client_open_def counting_api_def bus_initial_def
    register_client_def pool_inv_def)

lemma counting_destroy: "event_client_destroy counting_api c w \<noteq> None"
  by (simp add: event_client_destroy_def counting_api_def)

theorem center_destroy_deletes_each_once_witness:
  "\<exists>st st'. two_clients = Some st \<and> center_destroy counting_api st = Some st' \<and> client_objs st' 1 = None"
proof -
  obtain st where st: "two_clients = Some st" "pool_inv st" "client_pool st = [(4, 2), (7, 1)]"
    "client_objs st 1 \<noteq> None" "client_objs st 2 \<noteq> None" using two_clients_run by blast
  have "\<And>a. a \<in> snd ` set (client_pool st) \<Longrightarrow> client_objs st a \<noteq> None" using st by auto
  from center_destroy_deletes_each_once[OF st(2) this counting_destroy] show ?thesis using st by auto
qed

text \<open>A client deleted elsewhere stays in the pool of the client center: after \<open>delete\<close> of a
  registered client (what the destructor of \<open>MThread\<close> does), a new target of that thread gets the
  deleted client, any subscription through it uses freed memory, and the destructor of the client
  center deletes it a second time.\<close>

theorem deleted_client_stays_registered:
  assumes "pool_inv st" "map_of (client_pool st) t = Some a" "delete_client api a st = Some st'"
  shows "target_client (target_new t st') = a \<and> client_objs st' a = None \<and>
    subscribe api' k v (target_new t st') st' = None \<and> center_destroy api' st' = None"
proof (intro conjI)
  have mem: "a \<in> snd ` set (client_pool st)" using map_of_SomeD[OF assms(2)] by force
  then have a: "a \<noteq> 0" using assms(1) by (auto simp: pool_inv_def)
  note d = delete_client_objs[OF assms(3)]
  then show f: "target_client (target_new t st') = a" using assms(2) by (simp add: target_new_def find_client_def)
  show dead: "client_objs st' a = None" using d a by simp
  show "subscribe api' k v (target_new t st') st' = None"
    using f dead a by (simp add: subscribe_def with_client_def)
  show "center_destroy api' st' = None"
    unfolding center_destroy_def by (rule delete_clients_dead[OF dead a]) (use d mem in simp)
qed

theorem deleted_client_stays_registered_witness:
  "\<exists>st st'. two_clients = Some st \<and> delete_client counting_api 1 st = Some st' \<and> center_destroy counting_api st' = None"
proof -
  obtain st where st: "two_clients = Some st" "pool_inv st" "client_pool st = [(4, 2), (7, 1)]"
    "client_objs st 1 \<noteq> None" using two_clients_run by blast
  have "delete_client counting_api 1 st \<noteq> None"
    using st(4) counting_destroy by (auto simp: delete_client_def opt_simps)
  then obtain st' where st': "delete_client counting_api 1 st = Some st'" by blast
  have "map_of (client_pool st) 7 = Some 1" using st by simp
  from deleted_client_stays_registered[OF st(2) this st'] show ?thesis using st st' by blast
qed

end
