(* ===== verification/Event_Thread.thy ===== *)
theory Event_Thread
  imports Event_Target
begin

text \<open>
  The thread wrapper of \<open>src/MThread.cpp\<close>, as a machine whose steps interleave with calls of
  \<open>task_begin\<close>, \<open>task_stop\<close> and \<open>task_exit\<close> from other threads, and the singleton of
  \<open>src/Singleton.h\<close>, as a step relation over any number of threads.  Memory is sequentially
  consistent; the unsynchronised accesses to the flags and to the instance pointer are steps of
  their own.
\<close>

subsection \<open>The thread wrapper\<close>

record mthread = event_target +
  thread_client :: nat
  is_run :: bool
  is_exit :: bool

definition mthread_new :: "thread_id \<Rightarrow> 'w bus_state \<Rightarrow> mthread" where
  "mthread_new t st =
     \<lparr>target_client = target_client (target_new t st), thread_client = 0, is_run = False, is_exit = False\<rparr>"

definition task_begin :: "mthread \<Rightarrow> mthread" where
  "task_begin m = m\<lparr>is_run := True\<rparr>"

definition task_stop :: "mthread \<Rightarrow> mthread" where
  "task_stop m = m\<lparr>is_run := False\<rparr>"

definition task_exit :: "mthread \<Rightarrow> mthread" where
  "task_exit m = m\<lparr>is_exit := True\<rparr>"

definition client_handle_event ::
  "'w zmq_api \<Rightarrow> 'w handler \<Rightarrow> nat \<Rightarrow> 'w bus_state \<Rightarrow> 'w bus_state option" where
  "client_handle_event api h a st =
     do {
       (_, st) \<leftarrow> with_client a st (\<lambda>c w. map_option (\<lambda>(c, w). ((), c, w)) (handle_event api h c w));
       Some st
     }"

definition handle_message :: "'w zmq_api \<Rightarrow> 'w handler \<Rightarrow> mthread \<Rightarrow> 'w bus_state \<Rightarrow> 'w bus_state option" where
  "handle_message api h m st =
     (if thread_client m = 0 then Some st else client_handle_event api h (thread_client m) st)"

definition mthread_destroy :: "'w zmq_api \<Rightarrow> mthread \<Rightarrow> 'w bus_state \<Rightarrow> 'w bus_state option" where
  "mthread_destroy api m st = delete_client api (thread_client m) st"

text \<open>The points of \<open>_thread_run\<close>.  The methods \<open>setup_thread\<close> and \<open>thread_run\<close> of the derived class are
  arguments.\<close>

datatype thread_pc = T_start | T_setup | T_test | T_handle | T_run_test | T_sleep | T_body | T_done

type_synonym 'w thread_method = "mthread \<Rightarrow> 'w bus_state \<Rightarrow> (mthread \<times> 'w bus_state) option"
type_synonym 'w thread_state = "thread_pc \<times> mthread \<times> 'w bus_state"

fun thread_step ::
  "'w zmq_api \<Rightarrow> 'w handler \<Rightarrow> 'w thread_method \<Rightarrow> 'w thread_method \<Rightarrow> thread_id \<Rightarrow> 'w thread_state \<Rightarrow> 'w thread_state option" where
  "thread_step api h setup_thread thread_run t (T_start, m, st) =
     do { (a, st) \<leftarrow> new_client api t st; Some (T_setup, set_client a (m\<lparr>thread_client := a\<rparr>), st) }"
| "thread_step api h setup_thread thread_run t (T_setup, m, st) =
     do { (m, st) \<leftarrow> setup_thread m st; Some (T_test, m, st) }"
| "thread_step api h setup_thread thread_run t (T_test, m, st) =
     Some (if is_exit m then T_done else T_handle, m, st)"
| "thread_step api h setup_thread thread_run t (T_handle, m, st) =
     do { st \<leftarrow> client_handle_event api h (thread_client m) st; Some (T_run_test, m, st) }"
| "thread_step api h setup_thread thread_run t (T_run_test, m, st) =
     Some (if \<not> is_run m then T_sleep else T_body, m, st)"
| "thread_step api h setup_thread thread_run t (T_sleep, m, st) = Some (T_test, m, st)"
| "thread_step api h setup_thread thread_run t (T_body, m, st) =
     do { (m, st) \<leftarrow> thread_run m st; Some (T_test, m, st) }"
| "thread_step api h setup_thread thread_run t (T_done, m, st) = Some (T_done, m, st)"

text \<open>A run: own steps interleaved with the calls of other threads.  It records the points its own
  steps started at.\<close>

datatype thread_act = Own | Begin | Stop | Exit

fun thread_acts ::
  "'w zmq_api \<Rightarrow> 'w handler \<Rightarrow> 'w thread_method \<Rightarrow> 'w thread_method \<Rightarrow> thread_id \<Rightarrow> thread_act list \<Rightarrow> 'w thread_state \<Rightarrow>
   (thread_pc list \<times> 'w thread_state) option" where
  "thread_acts api h su ru t [] s = Some ([], s)"
| "thread_acts api h su ru t (Own # as) s =
     do { s' \<leftarrow> thread_step api h su ru t s; (tr, s'') \<leftarrow> thread_acts api h su ru t as s'; Some (fst s # tr, s'') }"
| "thread_acts api h su ru t (Begin # as) (pc, m, st) = thread_acts api h su ru t as (pc, task_begin m, st)"
| "thread_acts api h su ru t (Stop # as) (pc, m, st) = thread_acts api h su ru t as (pc, task_stop m, st)"
| "thread_acts api h su ru t (Exit # as) (pc, m, st) = thread_acts api h su ru t as (pc, task_exit m, st)"

fun_cases thread_acts_Own: "thread_acts api h su ru t (Own # as) s = Some r"

text \<open>The derived class cannot clear the private flag \<open>_is_exit\<close>.\<close>

definition keeps_exit :: "'w thread_method \<Rightarrow> bool" where
  "keeps_exit f \<longleftrightarrow> (\<forall>m st m' st'. f m st = Some (m', st') \<longrightarrow> is_exit m \<longrightarrow> is_exit m')"

text \<open>The number of own steps to the end once the exit flag is set, and the calls still possible.\<close>

fun exit_rank :: "thread_pc \<Rightarrow> nat" where
  "exit_rank T_done = 0"
| "exit_rank T_test = 1"
| "exit_rank T_setup = 2"
| "exit_rank T_sleep = 2"
| "exit_rank T_body = 2"
| "exit_rank T_start = 3"
| "exit_rank T_run_test = 3"
| "exit_rank T_handle = 4"

definition handles_left :: "thread_pc \<Rightarrow> nat" where
  "handles_left pc = (if pc = T_handle then 1 else 0)"

definition bodies_left :: "thread_pc \<Rightarrow> nat" where
  "bodies_left pc = (if pc \<in> {T_handle, T_run_test, T_body} then 1 else 0)"

lemma exit_step:
  assumes "keeps_exit su" "keeps_exit ru" "thread_step api h su ru t (pc, m, st) = Some (pc', m', st')" "is_exit m"
  shows "is_exit m' \<and> exit_rank pc' = exit_rank pc - 1 \<and>
    handles_left pc' + (if pc = T_handle then 1 else 0) \<le> handles_left pc \<and>
    bodies_left pc' + (if pc = T_body then 1 else 0) \<le> bodies_left pc"
  using assms unfolding keeps_exit_def
  by (cases pc) (auto simp: opt_simps set_client_def handles_left_def bodies_left_def split: if_splits, blast+)

lemma exit_run:
  assumes "keeps_exit su" "keeps_exit ru"
  shows "thread_acts api h su ru t as (pc, m, st) = Some (tr, pc', m', st') \<Longrightarrow> is_exit m \<Longrightarrow>
    exit_rank pc' = exit_rank pc - count_list as Own \<and> count_list tr T_handle \<le> handles_left pc \<and>
    count_list tr T_body \<le> bodies_left pc"
proof (induction as arbitrary: pc m st tr)
  case (Cons a as)
  show ?case
  proof (cases a)
    case Own
    obtain pc1 m1 st1 tr1 where 1: "thread_step api h su ru t (pc, m, st) = Some (pc1, m1, st1)"
      "thread_acts api h su ru t as (pc1, m1, st1) = Some (tr1, pc', m', st')" "tr = pc # tr1"
      using Cons(2) Own by (auto simp: opt_simps)
    show ?thesis using exit_step[OF assms 1(1) Cons(3)] Cons(1)[OF 1(2)] 1(3) Own by auto
  qed (use Cons(1)[of pc _ st tr] Cons(2,3) in \<open>simp_all add: task_begin_def task_stop_def task_exit_def\<close>)
qed auto

text \<open>C12. The thread stops promptly: once \<open>task_exit\<close> was called, in every interleaving with further calls
  of \<open>task_begin\<close>, \<open>task_stop\<close> and \<open>task_exit\<close>, the thread calls \<open>handle_event\<close> at most once more and
  \<open>thread_run\<close> at most once more, and after at most four steps of its own it has left its loop.\<close>

theorem thread_exits_promptly:
  assumes "keeps_exit su" "keeps_exit ru"
    "thread_acts api h su ru t as (pc, m, st) = Some (tr, pc', m', st')" "is_exit m"
  shows "count_list tr T_handle \<le> 1 \<and> count_list tr T_body \<le> 1 \<and> (4 \<le> count_list as Own \<longrightarrow> pc' = T_done)"
proof -
  have "exit_rank pc \<le> 4" by (cases pc) auto
  moreover have "exit_rank pc' = 0 \<Longrightarrow> pc' = T_done" by (cases pc') auto
  ultimately show ?thesis
    using exit_run[OF assms] by (auto simp: handles_left_def bodies_left_def split: if_splits)
qed

definition idle_method :: "nat thread_method" where
  "idle_method m st = Some (m, st)"

definition fresh_thread :: mthread where
  "fresh_thread = mthread_new 3 (bus_initial (0::nat))"

theorem thread_exits_promptly_witness:
  "\<exists>tr m' st'. thread_acts counting_api (\<lambda>v t d w. w) idle_method idle_method 3
       [Own, Stop, Own, Own, Own] (T_test, task_exit fresh_thread, bus_initial 0) = Some (tr, T_done, m', st') \<and>
     count_list tr T_body \<le> 1"
proof -
  have k: "keeps_exit idle_method" by (simp add: keeps_exit_def idle_method_def)
  obtain tr pc' m' st' where r: "thread_acts counting_api (\<lambda>v t d w. w) idle_method idle_method 3
       [Own, Stop, Own, Own, Own] (T_test, task_exit fresh_thread, bus_initial 0) = Some (tr, pc', m', st')"
    by (simp add: task_exit_def task_stop_def)
  have "is_exit (task_exit fresh_thread)" by (simp add: task_exit_def)
  from thread_exits_promptly[OF k k r this] have "pc' = T_done" "count_list tr T_body \<le> 1" by simp_all
  then show ?thesis using r by blast
qed

text \<open>While the thread is stopped it still handles events but does not call \<open>thread_run\<close>.\<close>

definition keeps_stopped :: "'w thread_method \<Rightarrow> bool" where
  "keeps_stopped f \<longleftrightarrow> (\<forall>m st m' st'. f m st = Some (m', st') \<longrightarrow> \<not> is_run m \<longrightarrow> \<not> is_run m')"

lemma stopped_step:
  "keeps_stopped su \<Longrightarrow> thread_step api h su ru t (pc, m, st) = Some (pc', m', st') \<Longrightarrow> \<not> is_run m \<Longrightarrow> pc \<noteq> T_body \<Longrightarrow>
   \<not> is_run m' \<and> pc' \<noteq> T_body"
  unfolding keeps_stopped_def by (cases pc) (auto simp: opt_simps set_client_def split: if_splits)

text \<open>A stopped thread handles events but never calls \<open>thread_run\<close>: as long as nobody calls
  \<open>task_begin\<close>, no own step starts at the call of \<open>thread_run\<close>.\<close>

theorem stopped_thread_only_handles_events:
  assumes "keeps_stopped su"
  shows "thread_acts api h su ru t as (pc, m, st) = Some (tr, s) \<Longrightarrow> \<not> is_run m \<Longrightarrow> pc \<noteq> T_body \<Longrightarrow>
    Begin \<notin> set as \<Longrightarrow> T_body \<notin> set tr"
proof (induction as arbitrary: pc m st tr)
  case (Cons a as)
  show ?case
  proof (cases a)
    case Own
    obtain pc1 m1 st1 tr1 where 1: "thread_step api h su ru t (pc, m, st) = Some (pc1, m1, st1)"
      "thread_acts api h su ru t as (pc1, m1, st1) = Some (tr1, s)" "tr = pc # tr1"
      using Cons(2) Own by (cases s) (auto simp: opt_simps)
    have "\<not> is_run m1" "pc1 \<noteq> T_body" using stopped_step[OF assms 1(1) Cons(3,4)] by auto
    then show ?thesis using Cons(1)[OF 1(2)] 1(3) Cons(4,5) by auto
  qed (use Cons(1)[of pc _ st tr] Cons(2-) in \<open>simp_all add: task_begin_def task_stop_def task_exit_def\<close>)
qed simp

theorem stopped_thread_only_handles_events_witness:
  "\<exists>tr s. thread_acts counting_api (\<lambda>v t d w. w) idle_method idle_method 3
       [Own, Own, Own, Own, Own, Own, Exit, Own] (T_start, fresh_thread, bus_initial 0) = Some (tr, s) \<and>
     T_handle \<in> set tr \<and> T_body \<notin> set tr"
proof -
  have k: "keeps_stopped idle_method" by (simp add: keeps_stopped_def idle_method_def)
  obtain tr s where r: "thread_acts counting_api (\<lambda>v t d w. w) idle_method idle_method 3
       [Own, Own, Own, Own, Own, Own, Exit, Own] (T_start, fresh_thread, bus_initial 0) = Some (tr, s)" "T_handle \<in> set tr"
    by (simp add: fresh_thread_def mthread_new_def task_exit_def set_client_def new_client_def event_client_open_def counting_api_def bus_initial_def
      register_client_def client_handle_event_def with_client_def handle_event_def idle_method_def)
  have "T_body \<notin> set tr" by (rule stopped_thread_only_handles_events[OF k r(1)]) (simp_all add: fresh_thread_def mthread_new_def)
  then show ?thesis using r by blast
qed

subsection \<open>The singleton\<close>

text \<open>The points of \<open>Singleton<T>::instance\<close> and the shared state: the instance pointer, the mutex with its
  owner, and how many objects were constructed.  A recursive mutex is never taken twice here, since
  the constructor \<open>T\<close> does not ask for the instance.\<close>

datatype single_pc =
    S_test1 | S_lock | S_test2 | S_new | S_reset nat | S_unlock | S_get | S_return nat

record singleton =
  single_ptr :: nat
  single_owner :: "nat option"
  constructed :: nat

type_synonym single_state = "(nat \<Rightarrow> single_pc) \<times> singleton"

inductive instance_step :: "nat \<Rightarrow> single_state \<Rightarrow> single_state \<Rightarrow> bool" where
  test1_null: "pc i = S_test1 \<Longrightarrow> single_ptr g = 0 \<Longrightarrow> instance_step i (pc, g) (pc(i := S_lock), g)"
| test1_set: "pc i = S_test1 \<Longrightarrow> single_ptr g \<noteq> 0 \<Longrightarrow> instance_step i (pc, g) (pc(i := S_get), g)"
| lock: "pc i = S_lock \<Longrightarrow> single_owner g = None \<Longrightarrow>
    instance_step i (pc, g) (pc(i := S_test2), g\<lparr>single_owner := Some i\<rparr>)"
| test2_null: "pc i = S_test2 \<Longrightarrow> single_ptr g = 0 \<Longrightarrow> instance_step i (pc, g) (pc(i := S_new), g)"
| test2_set: "pc i = S_test2 \<Longrightarrow> single_ptr g \<noteq> 0 \<Longrightarrow> instance_step i (pc, g) (pc(i := S_unlock), g)"
| construct: "pc i = S_new \<Longrightarrow> p \<noteq> 0 \<Longrightarrow>
    instance_step i (pc, g) (pc(i := S_reset p), g\<lparr>constructed := constructed g + 1\<rparr>)"
| reset: "pc i = S_reset p \<Longrightarrow> instance_step i (pc, g) (pc(i := S_unlock), g\<lparr>single_ptr := p\<rparr>)"
| unlock: "pc i = S_unlock \<Longrightarrow> instance_step i (pc, g) (pc(i := S_get), g\<lparr>single_owner := None\<rparr>)"
| get: "pc i = S_get \<Longrightarrow> instance_step i (pc, g) (pc(i := S_return (single_ptr g)), g)"

inductive_cases instance_stepE: "instance_step i (pc, g) (pc', g')"

inductive single_reach :: "single_state \<Rightarrow> bool" where
  single_start: "single_reach ((\<lambda>i. S_test1), \<lparr>single_ptr = 0, single_owner = None, constructed = 0\<rparr>)"
| single_step: "single_reach s \<Longrightarrow> instance_step i s s' \<Longrightarrow> single_reach s'"

text \<open>The invariant: the owner of the mutex is the one thread inside it; an object exists exactly when the
  pointer is set or the owner is about to set it; who is past the tests sees the pointer set.\<close>

fun inside :: "single_pc \<Rightarrow> bool" where
  "inside S_test2 = True"
| "inside S_new = True"
| "inside (S_reset p) = True"
| "inside S_unlock = True"
| "inside p = False"

definition owner_inv :: "single_state \<Rightarrow> bool" where
  "owner_inv s \<longleftrightarrow> (\<forall>i. inside (fst s i) \<longleftrightarrow> single_owner (snd s) = Some i)"

definition object_inv :: "single_state \<Rightarrow> bool" where
  "object_inv s \<longleftrightarrow> (case s of (pc, g) \<Rightarrow>
     (single_ptr g \<noteq> 0 \<longrightarrow> constructed g = 1 \<and> (\<forall>i. pc i \<noteq> S_new \<and> (\<forall>p. pc i \<noteq> S_reset p))) \<and>
     (\<forall>i p. pc i = S_reset p \<longrightarrow> p \<noteq> 0 \<and> constructed g = 1) \<and>
     (single_ptr g = 0 \<and> (\<forall>i p. pc i \<noteq> S_reset p) \<longrightarrow> constructed g = 0) \<and>
     (\<forall>i. pc i = S_unlock \<or> pc i = S_get \<longrightarrow> single_ptr g \<noteq> 0) \<and>
     (\<forall>i p. pc i = S_return p \<longrightarrow> p = single_ptr g \<and> p \<noteq> 0))"

lemma owner_inv_step:
  assumes "instance_step i s s'" "owner_inv s"
  shows "owner_inv s'"
  unfolding owner_inv_def
proof
  fix j
  have "inside (fst s i) \<longleftrightarrow> single_owner (snd s) = Some i" "inside (fst s j) \<longleftrightarrow> single_owner (snd s) = Some j"
    using assms(2) by (auto simp: owner_inv_def)
  with assms(1) show "inside (fst s' j) \<longleftrightarrow> single_owner (snd s') = Some j"
    by (induction rule: instance_step.induct) auto
qed

lemma owner_unique: "owner_inv (pc, g) \<Longrightarrow> inside (pc i) \<Longrightarrow> inside (pc j) \<Longrightarrow> j = i"
  by (simp add: owner_inv_def)

lemma object_inv_step:
  assumes "instance_step i s s'" "owner_inv s" "object_inv s"
  shows "object_inv s'"
  using assms
proof (induction rule: instance_step.induct)
  case (construct pc i p g)
  have "pc j \<noteq> S_reset q" for j q
    using owner_unique[OF construct(3), of i j] construct(1) by auto
  then show ?case using construct by (auto simp: object_inv_def)
next
  case (reset pc i p g)
  have "pc j \<noteq> S_reset q \<and> pc j \<noteq> S_new" if "j \<noteq> i" for j q
    using owner_unique[OF reset(2), of i j] reset(1) that by auto
  moreover have "single_ptr g = 0" "p \<noteq> 0" "constructed g = 1" using reset(1,3) by (auto simp: object_inv_def)
  moreover have "pc j \<noteq> S_return q" for j q using reset(3) calculation(2) by (force simp: object_inv_def)
  ultimately show ?case by (simp add: object_inv_def)
qed (auto simp: object_inv_def, (metis single_pc.distinct)+)

lemma single_reach_inv: "single_reach s \<Longrightarrow> owner_inv s \<and> object_inv s"
proof (induction rule: single_reach.induct)
  case single_start
  then show ?case by (simp add: owner_inv_def object_inv_def)
qed (use owner_inv_step object_inv_step in blast)

text \<open>C11. The double-checked locking of the singleton: in every interleaving of any number of threads at
  most one object is constructed, and all calls of \<open>instance\<close> that have returned gave the same
  pointer, which is not null and is the stored one.\<close>

theorem singleton_unique:
  assumes "single_reach (pc, g)"
  shows "constructed g \<le> 1 \<and> (\<forall>i p. pc i = S_return p \<longrightarrow> p \<noteq> 0 \<and> p = single_ptr g \<and> constructed g = 1)"
  using single_reach_inv[OF assms] by (cases "single_ptr g = 0"; cases "\<exists>i p. pc i = S_reset p") (auto simp: object_inv_def)

text \<open>A concrete run: both threads pass the first test before either takes the lock.\<close>

lemma single_race:
  "\<exists>pc g. single_reach (pc, g) \<and> pc 0 = S_return 9 \<and> pc 1 = S_return 9"
proof -
  let ?i = "(\<lambda>i :: nat. S_test1)"
  let ?g = "\<lparr>single_ptr = 0, single_owner = None, constructed = 0\<rparr>"
  note step = single_step[rotated]
  have "single_reach (?i, ?g)" by (rule single_start)
  from step[OF test1_null[of _ 0] this] have "single_reach (?i(0 := S_lock), ?g)" by simp
  from step[OF test1_null[of _ 1] this] have "single_reach (?i(0 := S_lock, 1 := S_lock), ?g)" by simp
  from step[OF lock[of _ 0] this] have "single_reach (?i(1 := S_lock, 0 := S_test2), ?g\<lparr>single_owner := Some 0\<rparr>)"
    by (simp add: fun_upd_twist)
  from step[OF test2_null[of _ 0] this] have "single_reach (?i(1 := S_lock, 0 := S_new), ?g\<lparr>single_owner := Some 0\<rparr>)" by simp
  from step[OF construct[of _ 0 9] this]
  have "single_reach (?i(1 := S_lock, 0 := S_reset 9), ?g\<lparr>single_owner := Some 0, constructed := 1\<rparr>)" by simp
  from step[OF reset[of _ 0 9] this]
  have "single_reach (?i(1 := S_lock, 0 := S_unlock), \<lparr>single_ptr = 9, single_owner = Some 0, constructed = 1\<rparr>)" by simp
  from step[OF unlock[of _ 0] this]
  have "single_reach (?i(1 := S_lock, 0 := S_get), \<lparr>single_ptr = 9, single_owner = None, constructed = 1\<rparr>)" by simp
  from step[OF get[of _ 0] this]
  have "single_reach (?i(1 := S_lock, 0 := S_return 9), \<lparr>single_ptr = 9, single_owner = None, constructed = 1\<rparr>)" by simp
  from step[OF lock[of _ 1] this]
  have "single_reach (?i(0 := S_return 9, 1 := S_test2), \<lparr>single_ptr = 9, single_owner = Some 1, constructed = 1\<rparr>)"
    by (simp add: fun_upd_twist)
  from step[OF test2_set[of _ 1] this]
  have "single_reach (?i(0 := S_return 9, 1 := S_unlock), \<lparr>single_ptr = 9, single_owner = Some 1, constructed = 1\<rparr>)" by simp
  from step[OF unlock[of _ 1] this]
  have "single_reach (?i(0 := S_return 9, 1 := S_get), \<lparr>single_ptr = 9, single_owner = None, constructed = 1\<rparr>)" by simp
  from step[OF get[of _ 1] this]
  have "single_reach (?i(0 := S_return 9, 1 := S_return 9), \<lparr>single_ptr = 9, single_owner = None, constructed = 1\<rparr>)" by simp
  moreover have "(?i(0 := S_return 9, 1 := S_return 9)) 0 = S_return 9" "(?i(0 := S_return 9, 1 := S_return 9)) 1 = S_return 9"
    by simp_all
  ultimately show ?thesis by blast
qed

theorem singleton_unique_witness:
  "\<exists>pc g. single_reach (pc, g) \<and> pc 0 = S_return 9 \<and> pc 1 = S_return 9 \<and> constructed g = 1"
proof -
  obtain pc g where r: "single_reach (pc, g)" "pc 0 = S_return 9" "pc 1 = S_return 9" using single_race by blast
  from singleton_unique[OF r(1)] show ?thesis using r by auto
qed

end
