(* ===== verification/Zmq_Wire.thy ===== *)
theory Zmq_Wire
  imports Bus_Prelude
begin

unbundle bit_operations_syntax

text \<open>
  Integers in network byte order: \<open>src/libzmq/src/wire.hpp\<close>.  A \<open>put\<close> function returns the bytes
  it writes at \<open>buffer_\<close>, a \<open>get\<close> function reads the first bytes at \<open>buffer_\<close>; a reader that is
  handed fewer bytes than it dereferences reads outside its buffer, which is \<open>None\<close>.
\<close>

definition byte_at :: "nat \<Rightarrow> 'a::len word \<Rightarrow> byte" where
  "byte_at k v = ucast (drop_bit k v AND 0xff)"

definition put_uint8 :: "8 word \<Rightarrow> bytes" where
  "put_uint8 v = [v]"

definition get_uint8 :: "bytes \<Rightarrow> 8 word option" where
  "get_uint8 b = (case b of b0 # _ \<Rightarrow> Some b0 | _ \<Rightarrow> None)"

definition put_uint16 :: "16 word \<Rightarrow> bytes" where
  "put_uint16 v = [byte_at 8 v, ucast (v AND 0xff)]"

definition get_uint16 :: "bytes \<Rightarrow> 16 word option" where
  "get_uint16 b =
     (case b of b0 # b1 # _ \<Rightarrow> Some (push_bit 8 (ucast b0) OR ucast b1) | _ \<Rightarrow> None)"

definition put_uint32 :: "32 word \<Rightarrow> bytes" where
  "put_uint32 v = [byte_at 24 v, byte_at 16 v, byte_at 8 v, ucast (v AND 0xff)]"

definition get_uint32 :: "bytes \<Rightarrow> 32 word option" where
  "get_uint32 b =
     (case b of
        b0 # b1 # b2 # b3 # _ \<Rightarrow>
          Some (push_bit 24 (ucast b0) OR push_bit 16 (ucast b1) OR push_bit 8 (ucast b2) OR ucast b3)
      | _ \<Rightarrow> None)"

definition put_uint64 :: "64 word \<Rightarrow> bytes" where
  "put_uint64 v =
     [byte_at 56 v, byte_at 48 v, byte_at 40 v, byte_at 32 v,
      byte_at 24 v, byte_at 16 v, byte_at 8 v, ucast (v AND 0xff)]"

definition get_uint64 :: "bytes \<Rightarrow> 64 word option" where
  "get_uint64 b =
     (case b of
        b0 # b1 # b2 # b3 # b4 # b5 # b6 # b7 # _ \<Rightarrow>
          Some (push_bit 56 (ucast b0) OR push_bit 48 (ucast b1) OR push_bit 40 (ucast b2) OR
                push_bit 32 (ucast b3) OR push_bit 24 (ucast b4) OR push_bit 16 (ucast b5) OR
                push_bit 8 (ucast b6) OR ucast b7)
      | _ \<Rightarrow> None)"

lemma bit_byte_mask: "bit (0xff :: 'a::len word) n \<longleftrightarrow> n < LENGTH('a) \<and> n < 8"
proof -
  have "(0xff :: 'a word) = mask 8" by (simp add: mask_eq_exp_minus_1)
  then have "bit (0xff :: 'a word) n = bit (mask 8 :: 'a word) n" by simp
  then show ?thesis by (simp only: bit_mask_iff) (simp add: min_def)
qed

lemma bit_byte_at: "bit (byte_at k v) n \<longleftrightarrow> n < 8 \<and> bit (v :: 'a::len word) (k + n)"
  unfolding byte_at_def bit_ucast_iff bit_and_iff bit_drop_bit_eq bit_byte_mask
  by (auto simp: dest: bit_imp_le_length)

lemma byte_at_0: "ucast (v AND 0xff) = byte_at 0 v"
  by (simp add: byte_at_def)

text \<open>The byte put back at its place is the slice of the word.\<close>

lemma bit_byte_slice:
  "bit (push_bit k (ucast (byte_at k v)) :: 'a::len word) n \<longleftrightarrow> k \<le> n \<and> n < k + 8 \<and> bit (v :: 'a word) n"
  unfolding bit_push_bit_iff bit_ucast_iff bit_byte_at
  by (auto dest: bit_imp_le_length)

lemma bit_byte_slice_0: "bit (ucast (byte_at 0 v) :: 'a::len word) n \<longleftrightarrow> n < 8 \<and> bit (v :: 'a word) n"
  using bit_byte_slice[of 0 v n] by simp

lemmas bit_slices = bit_or_iff bit_byte_slice bit_byte_slice_0

lemma get_put_uint8 [simp]: "get_uint8 (put_uint8 v @ r) = Some v"
  by (simp add: get_uint8_def put_uint8_def)

lemma get_put_uint16 [simp]: "get_uint16 (put_uint16 v @ r) = Some v"
  unfolding get_uint16_def put_uint16_def byte_at_0
  by (simp add: bit_eq_iff bit_slices) (auto dest: bit_imp_le_length)

lemma get_put_uint32 [simp]: "get_uint32 (put_uint32 v @ r) = Some v"
  unfolding get_uint32_def put_uint32_def byte_at_0
  by (simp add: bit_eq_iff bit_slices) (auto dest: bit_imp_le_length)

lemma get_put_uint64 [simp]: "get_uint64 (put_uint64 v @ r) = Some v"
  unfolding get_uint64_def put_uint64_def byte_at_0
  by (simp add: bit_eq_iff bit_slices) (auto dest: bit_imp_le_length)

lemma length_put [simp]:
  "length (put_uint8 a) = 1" "length (put_uint16 b) = 2" "length (put_uint32 c) = 4" "length (put_uint64 d) = 8"
  by (simp_all add: put_uint8_def put_uint16_def put_uint32_def put_uint64_def)

lemma get_put_uint64' [simp]: "get_uint64 (put_uint64 v) = Some v"
  using get_put_uint64[of v "[]"] by simp

lemma get_uint64_Some: "8 \<le> length b \<Longrightarrow> \<exists>v. get_uint64 b = Some v"
  by (auto simp: get_uint64_def split: list.split)

end
