(* ===== verification/Zmq_Encoder.thy ===== *)
theory Zmq_Encoder
  imports Zmq_Msg Zmq_Wire
begin

text \<open>
  Encoders: \<open>src/libzmq/src/encoder.hpp\<close> with the state machines of \<open>v1_encoder.cpp\<close>,
  \<open>v2_encoder.cpp\<close> and \<open>raw_encoder.cpp\<close>.  \<open>encoder_base_t\<close> is a template over the class that
  derives from it and calls its actions through a pointer to member; here its operations take the
  function that runs an action.  The pointer \<open>write_pos\<close> with its length \<open>to_write\<close> is the list of
  bytes it points to (\<open>tmpbuf\<close> and message bodies do not change while they are being written out).
\<close>

record 'step encoder =
  to_write :: bytes
  enc_next :: 'step
  new_msg_flag :: bool
  enc_bufsize :: nat
  enc_msg :: "msg_t option"

type_synonym ('step, 'z) enc_actions = "'step \<Rightarrow> 'step encoder \<Rightarrow> 'z msg_store_scheme \<Rightarrow> 'step encoder option"

definition encoder_new :: "'step \<Rightarrow> nat \<Rightarrow> 'step encoder" where
  "encoder_new first n =
     \<lparr>to_write = [], enc_next = first, new_msg_flag = True, enc_bufsize = n, enc_msg = None\<rparr>"

definition enc_next_step :: "bytes \<Rightarrow> 'step \<Rightarrow> bool \<Rightarrow> 'step encoder \<Rightarrow> 'step encoder" where
  "enc_next_step bs s fl e = e\<lparr>to_write := bs, enc_next := s, new_msg_flag := fl\<rparr>"

definition load_msg :: "('step, 'z) enc_actions \<Rightarrow> msg_t \<Rightarrow> 'step encoder \<Rightarrow> 'z msg_store_scheme \<Rightarrow> 'step encoder option" where
  "load_msg act m e st = do {
     zmq_assert (enc_msg e = None);
     act (enc_next e) (e\<lparr>enc_msg := Some m\<rparr>) st
   }"

text \<open>The loop of \<open>encode\<close>: \<open>out\<close> is what the buffer of \<open>n\<close> bytes holds, \<open>own\<close> says that the caller
  supplied no buffer.  A complete message is closed and initialised again, which leaves the
  caller's message empty; it then belongs to the caller.  A loop that would not end is \<open>None\<close>.\<close>

definition finish_msg :: "'step encoder \<Rightarrow> 'z msg_store_scheme \<Rightarrow> ('step encoder \<times> 'z msg_store_scheme) option" where
  "finish_msg e st = do {
     m \<leftarrow> enc_msg e;
     (rc, m, st) \<leftarrow> msg_close m st;
     zmq_assert (rc = Rc_ok);
     Some (e\<lparr>enc_msg := None\<rparr>, st)
   }"

partial_function (option) encode_loop ::
  "('step, 'z) enc_actions \<Rightarrow> bool \<Rightarrow> nat \<Rightarrow> bytes \<Rightarrow> 'step encoder \<Rightarrow> 'z msg_store_scheme \<Rightarrow>
   (bytes \<times> 'step encoder \<times> 'z msg_store_scheme) option" where
  "encode_loop act own n out e st =
     (if \<not> length out < n then Some (out, e, st)
      else if to_write e = [] \<and> new_msg_flag e then do {
        (e, st) \<leftarrow> finish_msg e st;
        Some (out, e, st)
      } else do {
        e \<leftarrow> (if to_write e = [] then act (enc_next e) e st else Some e);
        (if out = [] \<and> own \<and> n \<le> length (to_write e)
         then Some (to_write e, e\<lparr>to_write := []\<rparr>, st)
         else encode_loop act own n (out @ take (n - length out) (to_write e))
                (e\<lparr>to_write := drop (n - length out) (to_write e)\<rparr>) st)
      })"

declare encode_loop.simps [code]

text \<open>\<open>encode (data_, size_)\<close>: \<open>None\<close> stands for a null \<open>*data_\<close>.  The bytes returned are those at
  \<open>*data_\<close>; it stays what it was when there is no message.\<close>

definition encode :: "('step, 'z) enc_actions \<Rightarrow> nat option \<Rightarrow> 'step encoder \<Rightarrow> 'z msg_store_scheme \<Rightarrow>
    (bytes \<times> 'step encoder \<times> 'z msg_store_scheme) option" where
  "encode act buf e st =
     (if enc_msg e = None then Some ([], e, st)
      else encode_loop act (buf = None) (case buf of None \<Rightarrow> enc_bufsize e | Some n \<Rightarrow> n) [] e st)"

subsection \<open>ZMTP 2.0 framing\<close>

datatype enc_step = Message_ready | Size_ready

definition more_flag :: byte where "more_flag = 1"
definition large_flag :: byte where "large_flag = 2"
definition command_flag :: byte where "command_flag = 4"

lemmas v2_flag_defs = more_flag_def large_flag_def command_flag_def

definition v2_encoder_new :: "nat \<Rightarrow> enc_step encoder" where
  "v2_encoder_new n = encoder_new Message_ready n"

definition v2_message_ready :: "enc_step encoder \<Rightarrow> 'z msg_store_scheme \<Rightarrow> enc_step encoder option" where
  "v2_message_ready e st = do {
     m \<leftarrow> enc_msg e;
     size \<leftarrow> msg_size m st;
     protocol_flags \<leftarrow> Some ((if has_flag m flag_more then more_flag else 0) OR
                          (if size > 255 then large_flag else 0) OR
                          (if has_flag m flag_command then command_flag else 0));
     Some (if size > 255
           then enc_next_step (protocol_flags # put_uint64 (of_nat size)) Size_ready False e
           else enc_next_step [protocol_flags, of_nat size] Size_ready False e)
   }"

definition v2_size_ready :: "enc_step encoder \<Rightarrow> 'z msg_store_scheme \<Rightarrow> enc_step encoder option" where
  "v2_size_ready e st = do {
     m \<leftarrow> enc_msg e;
     d \<leftarrow> msg_body m st;
     Some (enc_next_step d Message_ready True e)
   }"

fun v2_enc_act :: "(enc_step, 'z) enc_actions" where
  "v2_enc_act Message_ready e st = v2_message_ready e st"
| "v2_enc_act Size_ready e st = v2_size_ready e st"

subsection \<open>ZMTP 1.0 framing\<close>

definition v1_encoder_new :: "nat \<Rightarrow> enc_step encoder" where
  "v1_encoder_new n = encoder_new Message_ready n"

definition v1_message_ready :: "enc_step encoder \<Rightarrow> 'z msg_store_scheme \<Rightarrow> enc_step encoder option" where
  "v1_message_ready e st = do {
     m \<leftarrow> enc_msg e;
     n \<leftarrow> msg_size m st;
     size \<leftarrow> Some (of_nat n + 1 :: 64 word);
     Some (if size < 255
           then enc_next_step [ucast size, msg_flags m AND flag_more] Size_ready False e
           else enc_next_step (0xff # put_uint64 size @ [msg_flags m AND flag_more]) Size_ready False e)
   }"

definition v1_size_ready :: "enc_step encoder \<Rightarrow> 'z msg_store_scheme \<Rightarrow> enc_step encoder option" where
  "v1_size_ready e st = do {
     m \<leftarrow> enc_msg e;
     d \<leftarrow> msg_body m st;
     Some (enc_next_step d Message_ready True e)
   }"

fun v1_enc_act :: "(enc_step, 'z) enc_actions" where
  "v1_enc_act Message_ready e st = v1_message_ready e st"
| "v1_enc_act Size_ready e st = v1_size_ready e st"

subsection \<open>No framing\<close>

definition raw_encoder_new :: "nat \<Rightarrow> unit encoder" where
  "raw_encoder_new n = encoder_new () n"

definition raw_message_ready :: "unit encoder \<Rightarrow> 'z msg_store_scheme \<Rightarrow> unit encoder option" where
  "raw_message_ready e st = do {
     m \<leftarrow> enc_msg e;
     d \<leftarrow> msg_body m st;
     Some (enc_next_step d () True e)
   }"

definition raw_enc_act :: "(unit, 'z) enc_actions" where
  "raw_enc_act s e st = raw_message_ready e st"

subsection \<open>What is sent\<close>

text \<open>The frames of the protocols, as functions of the flags and the body.\<close>

definition v2_frame :: "byte \<Rightarrow> bytes \<Rightarrow> bytes" where
  "v2_frame fl d =
     (let flags = (if fl AND flag_more \<noteq> 0 then more_flag else 0) OR
                  (if length d > 255 then large_flag else 0) OR
                  (if fl AND flag_command \<noteq> 0 then command_flag else 0)
      in flags # (if length d > 255 then put_uint64 (of_nat (length d)) else [of_nat (length d)]) @ d)"

definition v1_frame :: "byte \<Rightarrow> bytes \<Rightarrow> bytes" where
  "v1_frame fl d =
     (if length d + 1 < 255 then [of_nat (length d + 1)] else 0xff # put_uint64 (of_nat (length d + 1))) @
     (fl AND flag_more) # d"

definition raw_frame :: "byte \<Rightarrow> bytes \<Rightarrow> bytes" where
  "raw_frame fl d = d"

text \<open>\<open>coming\<close>: the bytes an encoder still has to write of its message, and the actions that supply them.\<close>

inductive coming :: "('step, 'z) enc_actions \<Rightarrow> 'step \<Rightarrow> 'z msg_store_scheme \<Rightarrow> 'step encoder \<Rightarrow> bytes \<Rightarrow> bool"
  for act first st where
  last: "new_msg_flag e \<Longrightarrow> enc_next e = first \<Longrightarrow> coming act first st e (to_write e)"
| step: "\<not> new_msg_flag e \<Longrightarrow> act (enc_next e) (e\<lparr>to_write := []\<rparr>) st = Some e' \<Longrightarrow>
    enc_msg e' = enc_msg e \<Longrightarrow> enc_bufsize e' = enc_bufsize e \<Longrightarrow> coming act first st e' bs \<Longrightarrow>
    coming act first st e (to_write e @ bs)"

lemma coming_drop:
  "coming act first st e bs \<Longrightarrow> k \<le> length (to_write e) \<Longrightarrow> coming act first st (e\<lparr>to_write := drop k (to_write e)\<rparr>) (drop k bs)"
proof (induction rule: coming.induct)
  case (last e)
  then show ?case using coming.last[of "e\<lparr>to_write := drop k (to_write e)\<rparr>" first act st] by simp
next
  case (step e e' bs)
  then show ?case using coming.step[of "e\<lparr>to_write := drop k (to_write e)\<rparr>" act st e' first bs] by simp
qed

lemma coming_prefix: "coming act first st e bs \<Longrightarrow> \<exists>r. bs = to_write e @ r"
  by (induction rule: coming.induct) auto

text \<open>The unfoldings of the loop: the buffer is full, the message is complete, the next action runs, the
  caller gets a pointer to the data, the data is copied.\<close>

lemma encode_loop_full: "n \<le> length out \<Longrightarrow> encode_loop act own n out e st = Some (out, e, st)"
  by (simp add: encode_loop.simps)

lemma encode_loop_finish:
  "length out < n \<Longrightarrow> to_write e = [] \<Longrightarrow> new_msg_flag e \<Longrightarrow> finish_msg e st = Some (e', st') \<Longrightarrow>
   encode_loop act own n out e st = Some (out, e', st')"
  by (simp add: encode_loop.simps)

lemma encode_loop_copy:
  "length out < n \<Longrightarrow> to_write e \<noteq> [] \<Longrightarrow>
   encode_loop act own n out e st =
     (if out = [] \<and> own \<and> n \<le> length (to_write e) then Some (to_write e, e\<lparr>to_write := []\<rparr>, st)
      else encode_loop act own n (out @ take (n - length out) (to_write e))
             (e\<lparr>to_write := drop (n - length out) (to_write e)\<rparr>) st)"
  by (subst encode_loop.simps) simp

lemma encode_loop_act:
  assumes "length out < n" "to_write e = []" "\<not> new_msg_flag e" "act (enc_next e) e st = Some e'"
  shows "encode_loop act own n out e st = encode_loop act own n out e' st"
proof (cases "to_write e' = []")
  case True
  then have e': "e'\<lparr>to_write := []\<rparr> = e'" by (cases e') simp
  show ?thesis using assms(1,2,3) by (subst encode_loop.simps) (simp add: assms(4) True, simp only: e')
next
  case False
  then show ?thesis using assms encode_loop_copy[of out n e' act own st] by (subst encode_loop.simps) simp
qed

text \<open>One call writes a prefix of what is coming: all of it, with the message closed, or enough to fill the buffer.\<close>

definition enc_outcome ::
  "('step, 'z) enc_actions \<Rightarrow> 'step \<Rightarrow> nat \<Rightarrow> msg_t \<Rightarrow> 'z msg_store_scheme \<Rightarrow> 'z msg_store_scheme \<Rightarrow> nat \<Rightarrow> bytes \<Rightarrow>
   nat \<Rightarrow> 'step encoder \<Rightarrow> 'z msg_store_scheme \<Rightarrow> bool" where
  "enc_outcome act first bsz m st0 st1 room bs k e st \<longleftrightarrow> enc_bufsize e = bsz \<and>
     (k = length bs \<and> enc_msg e = None \<and> to_write e = [] \<and> new_msg_flag e \<and> enc_next e = first \<and> st = st1 \<or>
      room \<le> k \<and> k \<le> length bs \<and> enc_msg e = Some m \<and> coming act first st0 e (drop k bs) \<and> st = st0)"

lemma enc_outcome_append:
  assumes "enc_outcome act first bsz m st0 st1 r bs k e st" "room \<le> length w + r"
  shows "enc_outcome act first bsz m st0 st1 room (w @ bs) (length w + k) e st"
proof -
  have "drop (length w + k) (w @ bs) = drop k bs" by simp
  then show ?thesis using assms unfolding enc_outcome_def by (elim conjE disjE) (simp_all only: length_append, simp_all)
qed

lemma encode_loop_coming:
  assumes "coming act first st e bs" "enc_msg e = Some m" "msg_close m st = Some (Rc_ok, m', st')"
  shows "\<exists>k e' st2. encode_loop act own n out e st = Some (out @ take k bs, e', st2) \<and>
    enc_outcome act first (enc_bufsize e) m st st' (n - length out) bs k e' st2"
  using assms
proof (induction arbitrary: out rule: coming.induct)
  case (last e)
  have fin: "finish_msg (e\<lparr>to_write := []\<rparr>) st = Some (e\<lparr>to_write := [], enc_msg := None\<rparr>, st')"
    using last.prems by (simp add: finish_msg_def)
  have co: "coming act first st (e\<lparr>to_write := drop k (to_write e)\<rparr>) (drop k (to_write e))" if "k \<le> length (to_write e)" for k
    by (rule coming_drop[OF coming.last[OF last.hyps] that])
  consider "n \<le> length out" | "length out < n" "to_write e = []"
    | "length out < n" "to_write e \<noteq> []" "out = []" own "n \<le> length (to_write e)"
    | "length out < n" "to_write e \<noteq> []" "\<not> (out = [] \<and> own)" "n - length out \<le> length (to_write e)"
    | "length out < n" "length (to_write e) < n - length out" "to_write e \<noteq> []"
    by fastforce
  then show ?case
  proof cases
    case 1
    then show ?thesis using co[of 0] last.prems
      by (intro exI[of _ 0] exI[of _ e] exI[of _ st]) (simp add: encode_loop_full enc_outcome_def)
  next
    case 2
    have e: "e\<lparr>to_write := []\<rparr> = e" using 2 by (cases e) simp
    have "finish_msg e st = Some (e\<lparr>enc_msg := None\<rparr>, st')" using last.prems by (simp add: finish_msg_def)
    then show ?thesis using 2 last.hyps
      by (intro exI[of _ 0] exI[of _ "e\<lparr>enc_msg := None\<rparr>"] exI[of _ st'])
        (simp add: encode_loop_finish enc_outcome_def)
  next
    case 3
    then show ?thesis using co[of "length (to_write e)"] last.prems
      by (intro exI[of _ "length (to_write e)"] exI[of _ "e\<lparr>to_write := []\<rparr>"] exI[of _ st])
        (simp add: encode_loop_copy enc_outcome_def)
  next
    case 4
    then show ?thesis using co[of "n - length out"] last.prems
      by (intro exI[of _ "n - length out"] exI[of _ "e\<lparr>to_write := drop (n - length out) (to_write e)\<rparr>"] exI[of _ st])
        (auto simp: encode_loop_copy encode_loop_full enc_outcome_def)
  next
    case 5
    then show ?thesis using fin last.hyps
      by (intro exI[of _ "length (to_write e)"] exI[of _ "e\<lparr>to_write := [], enc_msg := None\<rparr>"] exI[of _ st'])
        (auto simp: encode_loop_copy encode_loop_finish enc_outcome_def)
  qed
next
  case (step e e' bs)
  have co: "coming act first st (e\<lparr>to_write := drop k (to_write e)\<rparr>) (drop k (to_write e) @ bs)" if "k \<le> length (to_write e)" for k
    using coming_drop[OF coming.step[OF step.hyps(1-5)] that] that by simp
  have run: "\<exists>k f st2. encode_loop act own n out' (e\<lparr>to_write := []\<rparr>) st = Some (out' @ take k bs, f, st2) \<and>
      enc_outcome act first (enc_bufsize e) m st st' (n - length out') bs k f st2" if "length out' < n" for out'
    using step.IH[of out'] step.prems step.hyps(3,4) encode_loop_act[of out' n "e\<lparr>to_write := []\<rparr>" act st e' own] that step.hyps(1,2)
    by simp
  consider "n \<le> length out" | "length out < n" "to_write e = []"
    | "length out < n" "to_write e \<noteq> []" "out = []" own "n \<le> length (to_write e)"
    | "length out < n" "to_write e \<noteq> []" "\<not> (out = [] \<and> own)" "n - length out \<le> length (to_write e)"
    | "length out < n" "length (to_write e) < n - length out" "to_write e \<noteq> []"
    by fastforce
  then show ?case
  proof cases
    case 1
    then show ?thesis using co[of 0] step.prems
      by (intro exI[of _ 0] exI[of _ e] exI[of _ st]) (simp add: encode_loop_full enc_outcome_def)
  next
    case 2
    have e: "e\<lparr>to_write := []\<rparr> = e" using 2 by (cases e) simp
    show ?thesis using run[OF 2(1), unfolded e] 2 by simp
  next
    case 3
    then show ?thesis using co[of "length (to_write e)"] step.prems
      by (intro exI[of _ "length (to_write e)"] exI[of _ "e\<lparr>to_write := []\<rparr>"] exI[of _ st])
        (simp add: encode_loop_copy enc_outcome_def)
  next
    case 4
    then show ?thesis using co[of "n - length out"] step.prems
      by (intro exI[of _ "n - length out"] exI[of _ "e\<lparr>to_write := drop (n - length out) (to_write e)\<rparr>"] exI[of _ st])
        (auto simp: encode_loop_copy encode_loop_full enc_outcome_def)
  next
    case 5
    have l: "length (out @ to_write e) < n" using 5 by simp
    obtain k f st2 where k: "encode_loop act own n (out @ to_write e) (e\<lparr>to_write := []\<rparr>) st = Some ((out @ to_write e) @ take k bs, f, st2)"
      "enc_outcome act first (enc_bufsize e) m st st' (n - length (out @ to_write e)) bs k f st2"
      using run[OF l] by blast
    have "encode_loop act own n out e st = Some (out @ take (length (to_write e) + k) (to_write e @ bs), f, st2)"
    proof -
      have "\<not> (out = [] \<and> own \<and> n \<le> length (to_write e))" using 5 by auto
      then have "encode_loop act own n out e st = encode_loop act own n (out @ to_write e) (e\<lparr>to_write := []\<rparr>) st"
        using 5 by (simp only: encode_loop_copy[OF 5(1,3)] if_False) simp
      then show ?thesis using k(1) by simp
    qed
    moreover have "enc_outcome act first (enc_bufsize e) m st st' (n - length out) (to_write e @ bs) (length (to_write e) + k) f st2"
      by (rule enc_outcome_append[OF k(2)]) simp
    ultimately show ?thesis by blast
  qed
qed

text \<open>The contract of an encoder class: from the first action on, its actions supply the frame of the
  message.  The engine also relies on frames that are not empty.\<close>

locale framing =
  fixes act :: "('step, 'z) enc_actions" and first :: 'step and frame :: "byte \<Rightarrow> bytes \<Rightarrow> bytes"
  assumes begin_msg: "enc_msg e = Some m \<Longrightarrow> msg_body m st = Some d \<Longrightarrow> length d + 1 < 2 ^ 64 \<Longrightarrow>
    \<exists>e'. act first e st = Some e' \<and> enc_msg e' = Some m \<and> enc_bufsize e' = enc_bufsize e \<and>
      coming act first st e' (frame (msg_flags m) d)"
begin

lemma load_coming:
  assumes "enc_msg e = None" "enc_next e = first" "msg_body m st = Some d" "length d + 1 < 2 ^ 64"
  obtains e' where "load_msg act m e st = Some e'" "enc_msg e' = Some m" "enc_bufsize e' = enc_bufsize e"
    "coming act first st e' (frame (msg_flags m) d)"
  using begin_msg[of "e\<lparr>enc_msg := Some m\<rparr>" m st d] assms by (auto simp: load_msg_def)

lemma encode_coming:
  assumes "coming act first st e bs" "enc_msg e = Some m" "msg_close m st = Some (Rc_ok, m', st')"
  obtains k e' st2 where "encode act buf e st = Some (take k bs, e', st2)"
    "enc_outcome act first (enc_bufsize e) m st st' (case buf of None \<Rightarrow> enc_bufsize e | Some n \<Rightarrow> n) bs k e' st2"
  using encode_loop_coming[OF assms, of "buf = None" "case buf of None \<Rightarrow> enc_bufsize e | Some n \<Rightarrow> n" "[]"] assms(2)
  by (auto simp: encode_def)

lemma encode_idle: "enc_msg e = None \<Longrightarrow> encode act buf e st = Some ([], e, st)"
  by (simp add: encode_def)

end

locale nonempty_framing = framing +
  assumes frame_nonempty: "frame fl d \<noteq> []"

lemma header_then_body:
  assumes "act (enc_next e) (e\<lparr>to_write := []\<rparr>) st = Some (enc_next_step d first True (e\<lparr>to_write := []\<rparr>))" "\<not> new_msg_flag e"
  shows "coming act first st e (to_write e @ d)"
proof (rule coming.step)
  show "coming act first st (enc_next_step d first True (e\<lparr>to_write := []\<rparr>)) d"
    using coming.last[of "enc_next_step d first True (e\<lparr>to_write := []\<rparr>)" first act st] by (simp add: enc_next_step_def)
qed (use assms in \<open>simp_all add: enc_next_step_def\<close>)

interpretation v2f: nonempty_framing v2_enc_act Message_ready v2_frame
proof
  fix e :: "enc_step encoder" and m d and st :: "'z msg_store_scheme"
  assume m: "enc_msg e = Some m" and d: "msg_body m st = Some d"
  define f where "f = (if has_flag m flag_more then more_flag else 0) OR (if length d > 255 then large_flag else 0) OR
    (if has_flag m flag_command then command_flag else 0)"
  define h where "h = f # (if length d > 255 then put_uint64 (of_nat (length d)) else [of_nat (length d)])"
  let ?e = "enc_next_step h Size_ready False e"
  have "v2_frame (msg_flags m) d = h @ d" by (simp add: v2_frame_def h_def f_def has_flag_def Let_def)
  moreover have "v2_enc_act Message_ready e st = Some ?e"
    using m d by (simp add: v2_message_ready_def msg_size_def h_def f_def)
  moreover have "coming v2_enc_act Message_ready st ?e (h @ d)"
    using header_then_body[of v2_enc_act ?e st d Message_ready] m d by (simp add: enc_next_step_def v2_size_ready_def)
  ultimately show "\<exists>e'. v2_enc_act Message_ready e st = Some e' \<and> enc_msg e' = Some m \<and> enc_bufsize e' = enc_bufsize e \<and>
      coming v2_enc_act Message_ready st e' (v2_frame (msg_flags m) d)"
    using m by (simp add: enc_next_step_def)
next
  show "v2_frame fl d \<noteq> []" for fl d by (simp add: v2_frame_def Let_def)
qed

lemma v1_size_byte:
  assumes "n + 1 < 2 ^ 64"
  shows "((of_nat n + 1 :: 64 word) < 255) = (n + 1 < 255)" "ucast (of_nat n + 1 :: 64 word) = (of_nat n + 1 :: byte)"
proof -
  have small: "take_bit 64 (Suc n) = Suc n" using assms by (simp add: take_bit_nat_eq_self)
  have "unat (of_nat (Suc n) :: 64 word) = Suc n" using small by (simp add: unsigned_of_nat del: of_nat_Suc)
  moreover have "unat (255 :: 64 word) = 255" by simp
  ultimately show "((of_nat n + 1 :: 64 word) < 255) = (n + 1 < 255)"
    unfolding word_less_nat_alt by (simp only: of_nat_Suc add.commute) simp
  have "ucast (of_nat (Suc n) :: 64 word) = (of_nat (Suc n) :: byte)"
    using small by (simp add: unsigned_of_nat del: of_nat_Suc)
  then show "ucast (of_nat n + 1 :: 64 word) = (of_nat n + 1 :: byte)" by (simp add: ac_simps)
qed

interpretation v1f: nonempty_framing v1_enc_act Message_ready v1_frame
proof
  fix e :: "enc_step encoder" and m d and st :: "'z msg_store_scheme"
  assume m: "enc_msg e = Some m" and d: "msg_body m st = Some d" and l: "length d + 1 < 2 ^ 64"
  define h where "h = (if length d + 1 < 255 then [of_nat (length d + 1)] else 0xff # put_uint64 (of_nat (length d + 1))) @
    [msg_flags m AND flag_more]"
  let ?e = "enc_next_step h Size_ready False e"
  have "v1_frame (msg_flags m) d = h @ d" by (simp add: v1_frame_def h_def)
  moreover have "v1_enc_act Message_ready e st = Some ?e"
    using m d v1_size_byte[OF l] by (simp add: v1_message_ready_def msg_size_def h_def ac_simps)
  moreover have "coming v1_enc_act Message_ready st ?e (h @ d)"
    using header_then_body[of v1_enc_act ?e st d Message_ready] m d by (simp add: enc_next_step_def v1_size_ready_def)
  ultimately show "\<exists>e'. v1_enc_act Message_ready e st = Some e' \<and> enc_msg e' = Some m \<and> enc_bufsize e' = enc_bufsize e \<and>
      coming v1_enc_act Message_ready st e' (v1_frame (msg_flags m) d)"
    using m by (simp add: enc_next_step_def)
next
  show "v1_frame fl d \<noteq> []" for fl d by (simp add: v1_frame_def)
qed

interpretation rawf: framing raw_enc_act "()" raw_frame
proof
  fix e :: "unit encoder" and m d and st :: "'z msg_store_scheme"
  assume m: "enc_msg e = Some m" and d: "msg_body m st = Some d"
  let ?e = "enc_next_step d () True e"
  show "\<exists>e'. raw_enc_act () e st = Some e' \<and> enc_msg e' = Some m \<and> enc_bufsize e' = enc_bufsize e \<and>
      coming raw_enc_act () st e' (raw_frame (msg_flags m) d)"
    using m d coming.last[of ?e "()" raw_enc_act st]
    by (simp add: raw_enc_act_def raw_message_ready_def enc_next_step_def raw_frame_def)
qed

end
