(* ===== verification/Zmq_Alloc.thy ===== *)
theory Zmq_Alloc
  imports Bus_Prelude
begin

text \<open>
  The receive buffers of a decoder: \<open>shared_message_memory_allocator\<close> of
  \<open>src/libzmq/src/decoder_allocators.hpp\<close> and \<open>decoder_allocators.cpp\<close>, and \<open>atomic_counter_t\<close>.
  A block holds a reference counter, the receive buffer and the control blocks (\<open>content_t\<close>) of the
  messages that use the buffer as their body.  \<open>counters\<close> are the blocks allocated and not freed, by
  address; \<open>sa_content\<close> is the index of the next free control block.  The address a successful
  \<open>malloc\<close> returns is an argument.
\<close>

record shared_alloc =
  sa_buf :: "64 word option"
  sa_bufsize :: nat
  sa_max_size :: nat
  sa_content :: nat
  sa_max_counters :: nat
  counters :: "64 word \<Rightarrow> 32 word option"

text \<open>\<open>msg_t::max_vsm_size\<close> bytes fit into a message itself; the counter is padded to a pointer.\<close>

definition smallest_shared :: nat where "smallest_shared = 33"
definition sizeof_counter :: nat where "sizeof_counter = 8"

text \<open>The constructor; \<open>ceil (max_size / max_vsm_size)\<close> control blocks.\<close>

definition sa_new :: "nat \<Rightarrow> shared_alloc" where
  "sa_new n = \<lparr>sa_buf = None, sa_bufsize = 0, sa_max_size = n, sa_content = 0,
     sa_max_counters = (n + smallest_shared - 1) div smallest_shared, counters = (\<lambda>_. None)\<rparr>"

definition counter_sub :: "64 word \<Rightarrow> shared_alloc \<Rightarrow> (bool \<times> shared_alloc) option" where
  "counter_sub b sa = do {
     c \<leftarrow> counters sa b;
     Some (c - 1 \<noteq> 0, sa\<lparr>counters := (counters sa)(b \<mapsto> c - 1)\<rparr>)
   }"

definition sa_free :: "64 word \<Rightarrow> shared_alloc \<Rightarrow> shared_alloc option" where
  "sa_free b sa = do { zmq_assert (counters sa b \<noteq> None); Some (sa\<lparr>counters := (counters sa)(b := None)\<rparr>) }"

definition sa_release :: "shared_alloc \<Rightarrow> 64 word option \<times> shared_alloc" where
  "sa_release sa = (sa_buf sa, sa\<lparr>sa_buf := None, sa_bufsize := 0, sa_content := 0\<rparr>)"

definition sa_allocate :: "64 word \<Rightarrow> shared_alloc \<Rightarrow> (64 word \<times> shared_alloc) option" where
  "sa_allocate fresh sa = do {
     sa \<leftarrow> (case sa_buf sa of
              None \<Rightarrow> Some sa
            | Some b \<Rightarrow> do {
                (used, sa) \<leftarrow> counter_sub b sa;
                Some (if used then snd (sa_release sa) else sa)
              });
     b \<leftarrow> Some (case sa_buf sa of None \<Rightarrow> fresh | Some b \<Rightarrow> b);
     Some (b + of_nat sizeof_counter,
       sa\<lparr>sa_buf := Some b, counters := (counters sa)(b \<mapsto> 1), sa_bufsize := sa_max_size sa, sa_content := 0\<rparr>)
   }"

definition sa_deallocate :: "shared_alloc \<Rightarrow> shared_alloc option" where
  "sa_deallocate sa = do {
     sa \<leftarrow> (case sa_buf sa of
              None \<Rightarrow> Some sa
            | Some b \<Rightarrow> do {
                (used, sa) \<leftarrow> counter_sub b sa;
                (if used then Some sa else sa_free b sa)
              });
     Some (snd (sa_release sa))
   }"

definition sa_inc_ref :: "shared_alloc \<Rightarrow> shared_alloc option" where
  "sa_inc_ref sa = do {
     b \<leftarrow> sa_buf sa;
     c \<leftarrow> counters sa b;
     Some (sa\<lparr>counters := (counters sa)(b \<mapsto> c + 1)\<rparr>)
   }"

text \<open>\<open>call_dec_ref\<close>, the free function of the messages, with the block as its hint.\<close>

definition call_dec_ref :: "64 word \<Rightarrow> shared_alloc \<Rightarrow> shared_alloc option" where
  "call_dec_ref b sa = do {
     (used, sa) \<leftarrow> counter_sub b sa;
     (if used then Some sa else sa_free b sa)
   }"

definition sa_size :: "shared_alloc \<Rightarrow> nat" where "sa_size sa = sa_bufsize sa"

definition sa_data :: "shared_alloc \<Rightarrow> 64 word option" where
  "sa_data sa = map_option (\<lambda>b. b + of_nat sizeof_counter) (sa_buf sa)"

definition sa_resize :: "nat \<Rightarrow> shared_alloc \<Rightarrow> shared_alloc" where
  "sa_resize n sa = sa\<lparr>sa_bufsize := n\<rparr>"

text \<open>\<open>provide_content\<close>; past the last control block lies memory of others.\<close>

definition provide_content :: "shared_alloc \<Rightarrow> nat option" where
  "provide_content sa = (if sa_buf sa \<noteq> None \<and> sa_content sa < sa_max_counters sa then Some (sa_content sa) else None)"

definition advance_content :: "shared_alloc \<Rightarrow> shared_alloc" where
  "advance_content sa = sa\<lparr>sa_content := Suc (sa_content sa)\<rparr>"

subsection \<open>References\<close>

text \<open>\<open>held b\<close> messages use block \<open>b\<close>.  The counter of a block counts them and the allocator, if it is the
  current one; a block that nobody uses is not there.\<close>

definition block_ok :: "shared_alloc \<Rightarrow> (64 word \<Rightarrow> nat) \<Rightarrow> 64 word \<Rightarrow> bool" where
  "block_ok sa held b =
     (case counters sa b of
        None \<Rightarrow> held b = 0 \<and> sa_buf sa \<noteq> Some b
      | Some c \<Rightarrow> 0 < unat c \<and> unat c = held b + (if sa_buf sa = Some b then 1 else 0))"

definition sa_inv :: "shared_alloc \<Rightarrow> (64 word \<Rightarrow> nat) \<Rightarrow> bool" where
  "sa_inv sa held \<longleftrightarrow> (\<forall>b. block_ok sa held b)"

lemma sa_invD:
  assumes "sa_inv sa held"
  shows "counters sa b = None \<Longrightarrow> held b = 0 \<and> sa_buf sa \<noteq> Some b"
    and "counters sa b = Some c \<Longrightarrow> 0 < unat c \<and> unat c = held b + (if sa_buf sa = Some b then 1 else 0)"
  using assms by (auto simp: sa_inv_def block_ok_def split: option.splits dest: spec[of _ b])

text \<open>An operation concerns few blocks.\<close>

lemma sa_inv_frame:
  assumes "sa_inv sa held" "\<And>b. b \<in> B \<Longrightarrow> block_ok sa' held' b"
    "\<And>b. b \<notin> B \<Longrightarrow> counters sa' b = counters sa b \<and> held' b = held b \<and> (sa_buf sa' = Some b) = (sa_buf sa = Some b)"
  shows "sa_inv sa' held'"
  unfolding sa_inv_def
proof
  fix b
  have "block_ok sa held b" using assms(1) by (simp add: sa_inv_def)
  then show "block_ok sa' held' b"
    using assms(2)[of b] assms(3)[of b] by (cases "b \<in> B"; cases "counters sa b") (simp_all add: block_ok_def)
qed

lemma sa_inv_new: "sa_inv (sa_new n) (\<lambda>_. 0)"
  by (simp add: sa_inv_def block_ok_def sa_new_def)

lemma unat_dec: "0 < unat (c :: 32 word) \<Longrightarrow> unat (c - 1) = unat c - 1"
  by (metis unat_gt_0 unat_minus_one)

lemma counter_sub_ok:
  assumes "counters sa b = Some c" "0 < unat c"
  shows "counter_sub b sa = Some (1 < unat c, sa\<lparr>counters := (counters sa)(b \<mapsto> c - 1)\<rparr>)"
proof -
  have "(c - 1 \<noteq> 0) = (unat (c - 1) \<noteq> 0)" by (simp add: unat_eq_0)
  then show ?thesis using assms unat_dec[of c] by (auto simp: counter_sub_def)
qed

text \<open>A new buffer is one that no message uses.\<close>

lemma allocate_ok:
  assumes inv: "sa_inv sa held" and fresh: "counters sa fresh = None"
  obtains b sa' where "sa_allocate fresh sa = Some (b + of_nat sizeof_counter, sa')" "sa_inv sa' held" "sa_buf sa' = Some b"
    "held b = 0" "sa_bufsize sa' = sa_max_size sa'" "sa_content sa' = 0" "sa_max_size sa' = sa_max_size sa"
    "sa_max_counters sa' = sa_max_counters sa" "b = fresh \<or> sa_buf sa = Some b"
proof (cases "sa_buf sa")
  case None
  let ?sa = "sa\<lparr>sa_buf := Some fresh, counters := (counters sa)(fresh \<mapsto> 1), sa_bufsize := sa_max_size sa, sa_content := 0\<rparr>"
  have "sa_inv ?sa held" 
    by (rule sa_inv_frame[OF inv, of "{fresh}"]) (use sa_invD(1)[OF inv fresh] None in \<open>simp_all add: block_ok_def\<close>)
  then show thesis using that[of fresh ?sa] sa_invD(1)[OF inv fresh] None by (simp add: sa_allocate_def)
next
  case (Some b)
  obtain c where c: "counters sa b = Some c" using sa_invD(1)[OF inv, of b] Some by (cases "counters sa b") auto
  have u: "0 < unat c" "unat c = held b + 1" using sa_invD(2)[OF inv c] Some by auto
  note sub = counter_sub_ok[OF c u(1)]
  show thesis
  proof (cases "1 < unat c")
    case True
    have ne: "fresh \<noteq> b" using c fresh by auto
    let ?sa = "sa\<lparr>sa_buf := Some fresh, counters := (counters sa)(b \<mapsto> c - 1, fresh \<mapsto> 1), sa_bufsize := sa_max_size sa, sa_content := 0\<rparr>"
    have "sa_inv ?sa held" 
      by (rule sa_inv_frame[OF inv, of "{fresh, b}"])
        (use sa_invD(1)[OF inv fresh] Some ne u True unat_dec[OF u(1)] in \<open>auto simp: block_ok_def\<close>)
    then show thesis using that[of fresh ?sa] sa_invD(1)[OF inv fresh] Some sub True by (simp add: sa_allocate_def sa_release_def)
  next
    case False
    let ?sa = "sa\<lparr>sa_buf := Some b, counters := (counters sa)(b \<mapsto> 1), sa_bufsize := sa_max_size sa, sa_content := 0\<rparr>"
    have "sa_inv ?sa held" 
      by (rule sa_inv_frame[OF inv, of "{b}"]) (use Some u False in \<open>auto simp: block_ok_def\<close>)
    then show thesis using that[of b ?sa] Some sub False u by (simp add: sa_allocate_def)
  qed
qed

lemma inc_ref_ok:
  assumes inv: "sa_inv sa held" and b: "sa_buf sa = Some b" and room: "held b + 2 < 2 ^ 32"
  obtains sa' where "sa_inc_ref sa = Some sa'" "sa_inv sa' (held(b := held b + 1))" "sa' = sa\<lparr>counters := counters sa'\<rparr>"
proof -
  obtain c where c: "counters sa b = Some c" using sa_invD(1)[OF inv, of b] b by (cases "counters sa b") auto
  have u: "unat c = held b + 1" using sa_invD(2)[OF inv c] b by simp
  have "unat (c + 1) = (unat c + 1) mod 2 ^ 32" by (simp only: unat_word_ariths(1)) simp
  then have "unat (c + 1) = unat c + 1" using u room by simp
  then have s: "unat (c + 1) = held b + 2" using u by simp
  have "sa_inv (sa\<lparr>counters := (counters sa)(b \<mapsto> c + 1)\<rparr>) (held(b := held b + 1))"
    by (rule sa_inv_frame[OF inv, of "{b}"]) (use b s in \<open>auto simp: block_ok_def\<close>)
  then show thesis using that b c by (simp add: sa_inc_ref_def)
qed

lemma call_dec_ref_ok:
  assumes inv: "sa_inv sa held" and h: "0 < held b"
  obtains sa' where "call_dec_ref b sa = Some sa'" "sa_inv sa' (held(b := held b - 1))" "sa' = sa\<lparr>counters := counters sa'\<rparr>"
    "counters sa' b = None \<longleftrightarrow> held b = 1 \<and> sa_buf sa \<noteq> Some b"
proof -
  obtain c where c: "counters sa b = Some c" using sa_invD(1)[OF inv, of b] h by (cases "counters sa b") auto
  have u: "0 < unat c" "unat c = held b + (if sa_buf sa = Some b then 1 else 0)" using sa_invD(2)[OF inv c] by auto
  note sub = counter_sub_ok[OF c u(1)] and dec = unat_dec[OF u(1)]
  show thesis
  proof (cases "1 < unat c")
    case True
    have "sa_inv (sa\<lparr>counters := (counters sa)(b \<mapsto> c - 1)\<rparr>) (held(b := held b - 1))"
      by (rule sa_inv_frame[OF inv, of "{b}"]) (use u h True dec in \<open>auto simp: block_ok_def\<close>)
    then show thesis using that[of "sa\<lparr>counters := (counters sa)(b \<mapsto> c - 1)\<rparr>"] sub True u h
      by (auto simp: call_dec_ref_def split: if_splits)
  next
    case False
    have "sa_inv (sa\<lparr>counters := (counters sa)(b := None)\<rparr>) (held(b := held b - 1))"
      by (rule sa_inv_frame[OF inv, of "{b}"]) (use u h False in \<open>auto simp: block_ok_def split: if_splits\<close>)
    then show thesis using that[of "sa\<lparr>counters := (counters sa)(b := None)\<rparr>"] sub False u h
      by (auto simp: call_dec_ref_def sa_free_def split: if_splits)
  qed
qed

lemma deallocate_ok:
  assumes inv: "sa_inv sa held"
  obtains sa' where "sa_deallocate sa = Some sa'" "sa_inv sa' held" "sa_buf sa' = None"
proof (cases "sa_buf sa")
  case None
  then show thesis using that[of "snd (sa_release sa)"] sa_inv_frame[OF inv, of "{}"]
    by (simp add: sa_deallocate_def sa_release_def)
next
  case (Some b)
  obtain c where c: "counters sa b = Some c" using sa_invD(1)[OF inv, of b] Some by (cases "counters sa b") auto
  have u: "0 < unat c" "unat c = held b + 1" using sa_invD(2)[OF inv c] Some by auto
  note sub = counter_sub_ok[OF c u(1)] and dec = unat_dec[OF u(1)]
  show thesis
  proof (cases "1 < unat c")
    case True
    let ?sa = "sa\<lparr>counters := (counters sa)(b \<mapsto> c - 1), sa_buf := None, sa_bufsize := 0, sa_content := 0\<rparr>"
    have inv': "sa_inv ?sa held"
      by (rule sa_inv_frame[OF inv, of "{b}"]) (use Some u dec True in \<open>auto simp: block_ok_def\<close>)
    have "sa_deallocate sa = Some ?sa" using sub Some True by (simp add: sa_deallocate_def sa_release_def)
    then show thesis by (rule that) (use inv' in simp_all)
  next
    case False
    let ?sa = "sa\<lparr>counters := (counters sa)(b := None), sa_buf := None, sa_bufsize := 0, sa_content := 0\<rparr>"
    have inv': "sa_inv ?sa held"
      by (rule sa_inv_frame[OF inv, of "{b}"]) (use Some u False in \<open>auto simp: block_ok_def\<close>)
    have "sa_deallocate sa = Some ?sa" using sub Some False by (simp add: sa_deallocate_def sa_release_def sa_free_def)
    then show thesis by (rule that) (use inv' in simp_all)
  qed
qed

subsection \<open>Runs\<close>

text \<open>What the decoder and the messages do with the blocks, in any order.  A message is released at any time, by any
  thread; a step releases one of those held.  The counter has room for a new reference.\<close>

type_synonym sa_state = "shared_alloc \<times> (64 word \<Rightarrow> nat)"

inductive sa_step :: "sa_state \<Rightarrow> sa_state option \<Rightarrow> bool" where
  sa_alloc: "counters sa fresh = None \<Longrightarrow> sa_step (sa, held) (map_option (\<lambda>(p, sa). (sa, held)) (sa_allocate fresh sa))"
| sa_use: "sa_buf sa = Some b \<Longrightarrow> held b + 2 < 2 ^ 32 \<Longrightarrow>
    sa_step (sa, held) (map_option (\<lambda>sa. (sa, held(b := held b + 1))) (sa_inc_ref (advance_content sa)))"
| sa_unuse: "0 < held b \<Longrightarrow> sa_step (sa, held) (map_option (\<lambda>sa. (sa, held(b := held b - 1))) (call_dec_ref b sa))"
| sa_size: "sa_step (sa, held) (Some (sa_resize n sa, held))"
| sa_drop: "sa_step (sa, held) (map_option (\<lambda>sa. (sa, held)) (sa_deallocate sa))"

inductive sa_reach :: "nat \<Rightarrow> sa_state option \<Rightarrow> bool" for n where
  sa_first: "sa_reach n (Some (sa_new n, \<lambda>_. 0))"
| sa_more: "sa_reach n (Some s) \<Longrightarrow> sa_step s r \<Longrightarrow> sa_reach n r"

lemma sa_inv_same: "sa_inv sa held \<Longrightarrow> counters sa' = counters sa \<Longrightarrow> sa_buf sa' = sa_buf sa \<Longrightarrow> sa_inv sa' held"
  by (rule sa_inv_frame[of sa held "{}"]) simp_all

lemma sa_step_ok:
  assumes "sa_step (sa, held) r" "sa_inv sa held"
  shows "\<exists>sa' held'. r = Some (sa', held') \<and> sa_inv sa' held'"
  using assms(1)
proof cases
  case (sa_alloc fresh)
  obtain b sa' where "sa_allocate fresh sa = Some (b + of_nat sizeof_counter, sa')" "sa_inv sa' held" by (rule allocate_ok[OF assms(2) sa_alloc(2)])
  then show ?thesis using sa_alloc(1) by simp
next
  case (sa_use b)
  have inv: "sa_inv (advance_content sa) held" by (rule sa_inv_same[OF assms(2)]) (simp_all add: advance_content_def)
  have b: "sa_buf (advance_content sa) = Some b" using sa_use(2) by (simp add: advance_content_def)
  obtain sa' where "sa_inc_ref (advance_content sa) = Some sa'" "sa_inv sa' (held(b := held b + 1))" by (rule inc_ref_ok[OF inv b sa_use(3)])
  then show ?thesis using sa_use(1) by simp
next
  case (sa_unuse b)
  obtain sa' where "call_dec_ref b sa = Some sa'" "sa_inv sa' (held(b := held b - 1))" by (rule call_dec_ref_ok[OF assms(2) sa_unuse(2)])
  then show ?thesis using sa_unuse(1) by simp
next
  case (sa_size n)
  have "sa_inv (sa_resize n sa) held" by (rule sa_inv_same[OF assms(2)]) (simp_all add: sa_resize_def)
  then show ?thesis using sa_size by simp
next
  case sa_drop
  obtain sa' where "sa_deallocate sa = Some sa'" "sa_inv sa' held" by (rule deallocate_ok[OF assms(2)])
  then show ?thesis using sa_drop by simp
qed

lemma sa_reach_ok: "sa_reach n r \<Longrightarrow> \<exists>sa held. r = Some (sa, held) \<and> sa_inv sa held"
proof (induction rule: sa_reach.induct)
  case sa_first show ?case using sa_inv_new by blast
next
  case (sa_more s r) then show ?case using sa_step_ok by (cases s) auto
qed

text \<open>C7. Receive buffers are exclusive.  However allocations, messages created in a buffer and messages closed follow each
  other, no assertion fails and no freed block is touched; a block is freed exactly when it is neither the current buffer nor
  the body of a message; and the buffer that \<open>allocate\<close> returns next is one that no message uses, so what
  is received into it overwrites no message.\<close>

theorem receive_buffers_are_exclusive:
  assumes "sa_reach n r"
  shows "\<exists>sa held. r = Some (sa, held) \<and> (\<forall>b. counters sa b = None \<longleftrightarrow> held b = 0 \<and> sa_buf sa \<noteq> Some b) \<and>
    (\<forall>fresh. counters sa fresh = None \<longrightarrow>
      (\<exists>b sa'. sa_allocate fresh sa = Some (b + of_nat sizeof_counter, sa') \<and> sa_buf sa' = Some b \<and> held b = 0))"
proof -
  obtain sa held where s: "r = Some (sa, held)" "sa_inv sa held" using sa_reach_ok[OF assms] by blast
  have "counters sa b = None \<longleftrightarrow> held b = 0 \<and> sa_buf sa \<noteq> Some b" for b
    using sa_invD[OF s(2), of b] by (cases "counters sa b") auto
  moreover have "\<exists>b sa'. sa_allocate fresh sa = Some (b + of_nat sizeof_counter, sa') \<and> sa_buf sa' = Some b \<and> held b = 0"
    if "counters sa fresh = None" for fresh
    by (rule allocate_ok[OF s(2) that]) blast
  ultimately show ?thesis using s(1) by blast
qed

theorem receive_buffers_are_exclusive_witness:
  "\<exists>sa held. map_option (\<lambda>(p, sa). (sa, \<lambda>_. 0 :: nat)) (sa_allocate 4096 (sa_new 64)) = Some (sa, held) \<and> (\<forall>b. counters sa b = None \<longleftrightarrow> held b = 0 \<and> sa_buf sa \<noteq> Some b) \<and>
    (\<forall>fresh. counters sa fresh = None \<longrightarrow>
      (\<exists>b sa'. sa_allocate fresh sa = Some (b + of_nat sizeof_counter, sa') \<and> sa_buf sa' = Some b \<and> held b = 0))"
proof -
  have "sa_step (sa_new 64, \<lambda>_. 0) (map_option (\<lambda>(p, sa). (sa, \<lambda>_. 0)) (sa_allocate 4096 (sa_new 64)))"
    by (rule sa_alloc) (simp add: sa_new_def)
  from receive_buffers_are_exclusive[OF sa_more[OF sa_first this]] show ?thesis .
qed

end
