(* ===== verification/Zmq_Decoder.thy ===== *)
theory Zmq_Decoder
  imports Zmq_Encoder Zmq_Alloc
begin

text \<open>
  Decoders: \<open>src/libzmq/src/decoder.hpp\<close> with the state machines of \<open>v1_decoder.cpp\<close> and
  \<open>v2_decoder.cpp\<close>, and the buffer policies of \<open>decoder_allocators.hpp\<close> and
  \<open>decoder_allocators.cpp\<close>.  A pointer the decoder handles is a \<open>place\<close>: in \<open>tmpbuf\<close>, in the body of the
  message in progress, or an address in a receive buffer.  Only such addresses are compared, so they
  alone are machine words, and adding to them wraps.
\<close>

datatype place = Tmp nat | Body nat | At "64 word"

fun place_add :: "place \<Rightarrow> nat \<Rightarrow> place" where
  "place_add (Tmp k) n = Tmp (k + n)"
| "place_add (Body k) n = Body (k + n)"
| "place_add (At a) n = At (a + of_nat n)"

text \<open>Results of an action and of \<open>decode\<close>: 0, 1, or -1 with \<open>errno\<close> set.\<close>

datatype dec_rc = Dec_more | Dec_done | Dec_error errno

record 'step decoder =
  dec_next :: 'step
  read_pos :: place
  to_read :: nat
  tmpbuf :: bytes
  dec_msg :: msg_t
  maxmsgsize :: int

definition dec_next_step :: "place \<Rightarrow> nat \<Rightarrow> 'step \<Rightarrow> ('step, 'd) decoder_scheme \<Rightarrow> ('step, 'd) decoder_scheme" where
  "dec_next_step p n s d = d\<lparr>read_pos := p, to_read := n, dec_next := s\<rparr>"

text \<open>Copying bytes over part of a region of memory; writing past its end is \<open>None\<close>.\<close>

definition overwrite :: "nat \<Rightarrow> bytes \<Rightarrow> bytes \<Rightarrow> bytes option" where
  "overwrite k bs mem =
     (if k + length bs \<le> length mem then Some (take k mem @ bs @ drop (k + length bs) mem) else None)"

definition msg_write :: "nat \<Rightarrow> bytes \<Rightarrow> msg_t \<Rightarrow> 'z msg_store_scheme \<Rightarrow> (msg_t \<times> 'z msg_store_scheme) option" where
  "msg_write k bs m st =
     (case msg_type m of
        Type_vsm \<Rightarrow> do { d \<leftarrow> overwrite k bs (vsm_data m); Some (m\<lparr>vsm_data := d\<rparr>, st) }
      | Type_lmsg \<Rightarrow> do {
          c \<leftarrow> msg_content m;
          ct \<leftarrow> contents st c;
          d \<leftarrow> overwrite k bs (content_data ct);
          Some (m, st\<lparr>contents := (contents st)(c \<mapsto> ct\<lparr>content_data := d\<rparr>)\<rparr>)
        }
      | _ \<Rightarrow> None)"

text \<open>\<open>memcpy (p, \<dots>)\<close> by the decoder, and the filling of the memory at \<open>p\<close> by a caller that was given this
  address.  A receive buffer is not copied to.\<close>

fun place_write :: "place \<Rightarrow> bytes \<Rightarrow> ('step, 'd) decoder_scheme \<Rightarrow> 'z msg_store_scheme \<Rightarrow>
    (('step, 'd) decoder_scheme \<times> 'z msg_store_scheme) option" where
  "place_write (Tmp k) bs d st = do { t \<leftarrow> overwrite k bs (tmpbuf d); Some (d\<lparr>tmpbuf := t\<rparr>, st) }"
| "place_write (Body k) bs d st = do { (m, st) \<leftarrow> msg_write k bs (dec_msg d) st; Some (d\<lparr>dec_msg := m\<rparr>, st) }"
| "place_write (At a) bs d st = (if bs = [] then Some (d, st) else None)"

text \<open>An action gets the address of the input not used yet, with the bytes there.\<close>

type_synonym ('step, 'd, 'z) dec_actions =
  "'step \<Rightarrow> place \<Rightarrow> bytes \<Rightarrow> ('step, 'd) decoder_scheme \<Rightarrow> 'z msg_store_scheme \<Rightarrow>
   (dec_rc \<times> ('step, 'd) decoder_scheme \<times> 'z msg_store_scheme) option"

text \<open>\<open>while (to_read == 0)\<close>: actions run until one needs data or the message is complete.\<close>

partial_function (option) run_actions ::
  "('step, 'd, 'z) dec_actions \<Rightarrow> place \<Rightarrow> bytes \<Rightarrow> ('step, 'd) decoder_scheme \<Rightarrow> 'z msg_store_scheme \<Rightarrow>
   (dec_rc \<times> ('step, 'd) decoder_scheme \<times> 'z msg_store_scheme) option" where
  "run_actions act p rest d st =
     (if to_read d \<noteq> 0 then Some (Dec_more, d, st)
      else do {
        (rc, d, st) \<leftarrow> act (dec_next d) p rest d st;
        (if rc \<noteq> Dec_more then Some (rc, d, st) else run_actions act p rest d st)
      })"

declare run_actions.simps [code]

partial_function (option) decode_loop ::
  "('step, 'd, 'z) dec_actions \<Rightarrow> place \<Rightarrow> bytes \<Rightarrow> nat \<Rightarrow> ('step, 'd) decoder_scheme \<Rightarrow> 'z msg_store_scheme \<Rightarrow>
   (dec_rc \<times> nat \<times> ('step, 'd) decoder_scheme \<times> 'z msg_store_scheme) option" where
  "decode_loop act data bs used d st =
     (if \<not> used < length bs then Some (Dec_more, used, d, st)
      else do {
        to_copy \<leftarrow> Some (min (to_read d) (length bs - used));
        (d, st) \<leftarrow> (if read_pos d \<noteq> place_add data used
                 then place_write (read_pos d) (take to_copy (drop used bs)) d st else Some (d, st));
        d \<leftarrow> Some (d\<lparr>read_pos := place_add (read_pos d) to_copy, to_read := to_read d - to_copy\<rparr>);
        (rc, d, st) \<leftarrow> run_actions act (place_add data (used + to_copy)) (drop (used + to_copy) bs) d st;
        (if rc \<noteq> Dec_more then Some (rc, used + to_copy, d, st)
         else decode_loop act data bs (used + to_copy) d st)
      })"

declare decode_loop.simps [code]

text \<open>\<open>decode (data_, size_, bytes_used_)\<close> with the bytes at \<open>data_\<close>, which the caller has already written
  when it is the place the decoder reads to.\<close>

definition decode :: "('step, 'd, 'z) dec_actions \<Rightarrow> place \<Rightarrow> bytes \<Rightarrow> ('step, 'd) decoder_scheme \<Rightarrow> 'z msg_store_scheme \<Rightarrow>
    (dec_rc \<times> nat \<times> ('step, 'd) decoder_scheme \<times> 'z msg_store_scheme) option" where
  "decode act data bs d st =
     (if data = read_pos d then do {
        zmq_assert (length bs \<le> to_read d);
        d \<leftarrow> Some (d\<lparr>read_pos := place_add (read_pos d) (length bs), to_read := to_read d - length bs\<rparr>);
        (rc, d, st) \<leftarrow> run_actions act (place_add data (length bs)) [] d st;
        Some (rc, length bs, d, st)
      } else decode_loop act data bs 0 d st)"

text \<open>Where the decoder wants the next data, and how much fits there; \<open>buf\<close> and \<open>n\<close> are the buffer of the
  allocator and its size.\<close>

definition dec_get_buffer :: "64 word \<Rightarrow> nat \<Rightarrow> ('step, 'd) decoder_scheme \<Rightarrow> place \<times> nat" where
  "dec_get_buffer buf n d = (if n \<le> to_read d then (read_pos d, to_read d) else (At buf, n))"

text \<open>\<open>close\<close> of the message in progress, whose return code is checked by a plain \<open>assert\<close>, and its
  initialisation with a size; out of memory it is left empty.\<close>

definition dec_close :: "('step, 'd) decoder_scheme \<Rightarrow> 'z msg_store_scheme \<Rightarrow>
    (('step, 'd) decoder_scheme \<times> 'z msg_store_scheme) option" where
  "dec_close d st = do {
     (rc, m, st) \<leftarrow> msg_close (dec_msg d) st;
     zmq_assert (rc = Rc_ok);
     Some (d\<lparr>dec_msg := m\<rparr>, st)
   }"

definition dec_init_size :: "nat \<Rightarrow> ('step, 'd) decoder_scheme \<Rightarrow> 'z msg_store_scheme \<Rightarrow>
    bool \<times> ('step, 'd) decoder_scheme \<times> 'z msg_store_scheme" where
  "dec_init_size n d st =
     (case msg_init_size n (dec_msg d) st of
        (Rc_ok, m, st) \<Rightarrow> (True, d\<lparr>dec_msg := m\<rparr>, st)
      | (_, m, st) \<Rightarrow> (False, d\<lparr>dec_msg := msg_init m\<rparr>, st))"

definition too_big :: "int \<Rightarrow> nat \<Rightarrow> bool" where
  "too_big limit n \<longleftrightarrow> 0 \<le> limit \<and> limit < int n"

subsection \<open>ZMTP 1.0\<close>

datatype v1_step = V1_one_byte_size_ready | V1_eight_byte_size_ready | V1_flags_ready | V1_message_ready

text \<open>The buffer of \<open>c_single_allocator\<close> is allocated once; \<open>resize\<close> changes its size for good.\<close>

record v1_decoder = "v1_step decoder" +
  single_buf :: "64 word"
  single_bufsize :: nat

definition msg_blank_new :: msg_t where
  "msg_blank_new = msg_init \<lparr>msg_type = Type_invalid, msg_flags = 0, msg_metadata = None, vsm_data = [],
     msg_content = None, cmsg_data = [], msg_group = [], msg_routing_id = 0\<rparr>"

definition v1_decoder_new :: "64 word \<Rightarrow> nat \<Rightarrow> int \<Rightarrow> v1_decoder" where
  "v1_decoder_new buf n limit =
     \<lparr>dec_next = V1_one_byte_size_ready, read_pos = Tmp 0, to_read = 1, tmpbuf = replicate 8 0,
      dec_msg = msg_blank_new, maxmsgsize = limit, single_buf = buf, single_bufsize = n\<rparr>"

definition v1_get_buffer :: "v1_decoder \<Rightarrow> place \<times> nat" where
  "v1_get_buffer d = dec_get_buffer (single_buf d) (single_bufsize d) d"

definition v1_resize_buffer :: "nat \<Rightarrow> v1_decoder \<Rightarrow> v1_decoder" where
  "v1_resize_buffer n d = d\<lparr>single_bufsize := n\<rparr>"

definition v1_alloc_msg :: "nat \<Rightarrow> v1_decoder \<Rightarrow> 'z msg_store_scheme \<Rightarrow> (dec_rc \<times> v1_decoder \<times> 'z msg_store_scheme) option" where
  "v1_alloc_msg n d st = do {
     (d, st) \<leftarrow> dec_close d st;
     (case dec_init_size n d st of
        (False, d, st) \<Rightarrow> Some (Dec_error ENOMEM, d, st)
      | (True, d, st) \<Rightarrow> Some (Dec_more, dec_next_step (Tmp 0) 1 V1_flags_ready d, st))
   }"

definition v1_one_byte_size_ready :: "v1_decoder \<Rightarrow> 'z msg_store_scheme \<Rightarrow> (dec_rc \<times> v1_decoder \<times> 'z msg_store_scheme) option" where
  "v1_one_byte_size_ready d st = do {
     b \<leftarrow> get_uint8 (tmpbuf d);
     (if b = 0xff then Some (Dec_more, dec_next_step (Tmp 0) 8 V1_eight_byte_size_ready d, st)
      else if b = 0 then Some (Dec_error EPROTO, d, st)
      else if too_big (maxmsgsize d) (unat b - 1) then Some (Dec_error EMSGSIZE, d, st)
      else v1_alloc_msg (unat b - 1) d st)
   }"

text \<open>The test that the size fits \<open>size_t\<close> never fails on a 64-bit target.\<close>

definition v1_eight_byte_size_ready :: "v1_decoder \<Rightarrow> 'z msg_store_scheme \<Rightarrow> (dec_rc \<times> v1_decoder \<times> 'z msg_store_scheme) option" where
  "v1_eight_byte_size_ready d st = do {
     payload_length \<leftarrow> get_uint64 (tmpbuf d);
     (if payload_length = 0 then Some (Dec_error EPROTO, d, st)
      else if too_big (maxmsgsize d) (unat (payload_length - 1)) then Some (Dec_error EMSGSIZE, d, st)
      else if payload_length - 1 > - 1 then Some (Dec_error EMSGSIZE, d, st)
      else v1_alloc_msg (unat (payload_length - 1)) d st)
   }"

definition v1_flags_ready :: "v1_decoder \<Rightarrow> 'z msg_store_scheme \<Rightarrow> (dec_rc \<times> v1_decoder \<times> 'z msg_store_scheme) option" where
  "v1_flags_ready d st = do {
     b \<leftarrow> get_uint8 (tmpbuf d);
     d \<leftarrow> Some (d\<lparr>dec_msg := msg_set_flags (b AND flag_more) (dec_msg d)\<rparr>);
     n \<leftarrow> msg_size (dec_msg d) st;
     Some (Dec_more, dec_next_step (Body 0) n V1_message_ready d, st)
   }"

definition v1_message_ready_in :: "v1_decoder \<Rightarrow> 'z msg_store_scheme \<Rightarrow> (dec_rc \<times> v1_decoder \<times> 'z msg_store_scheme) option" where
  "v1_message_ready_in d st = Some (Dec_done, dec_next_step (Tmp 0) 1 V1_one_byte_size_ready d, st)"

fun v1_dec_act :: "v1_step \<Rightarrow> place \<Rightarrow> bytes \<Rightarrow> v1_decoder \<Rightarrow> 'z msg_store_scheme \<Rightarrow>
    (dec_rc \<times> v1_decoder \<times> 'z msg_store_scheme) option" where
  "v1_dec_act V1_one_byte_size_ready p rest d st = v1_one_byte_size_ready d st"
| "v1_dec_act V1_eight_byte_size_ready p rest d st = v1_eight_byte_size_ready d st"
| "v1_dec_act V1_flags_ready p rest d st = v1_flags_ready d st"
| "v1_dec_act V1_message_ready p rest d st = v1_message_ready_in d st"

text \<open>\<open>~v1_decoder_t\<close>; the buffer goes with the allocator.\<close>

definition v1_decoder_destroy :: "v1_decoder \<Rightarrow> 'z msg_store_scheme \<Rightarrow> 'z msg_store_scheme option" where
  "v1_decoder_destroy d st = do { (d, st) \<leftarrow> dec_close d st; Some st }"

subsection \<open>ZMTP 2.0\<close>

datatype v2_step = V2_flags_ready | V2_one_byte_size_ready | V2_eight_byte_size_ready | V2_message_ready

record v2_decoder = "v2_step decoder" +
  v2_msg_flags :: byte
  v2_zero_copy :: bool
  v2_alloc :: shared_alloc

definition v2_decoder_new :: "64 word \<Rightarrow> nat \<Rightarrow> int \<Rightarrow> bool \<Rightarrow> v2_decoder option" where
  "v2_decoder_new fresh n limit zc = do {
     (_, sa) \<leftarrow> sa_allocate fresh (sa_new n);
     Some \<lparr>dec_next = V2_flags_ready, read_pos = Tmp 0, to_read = 1, tmpbuf = replicate 8 0, dec_msg = msg_blank_new,
       maxmsgsize = limit, v2_msg_flags = 0, v2_zero_copy = zc, v2_alloc = sa\<rparr>
   }"

definition v2_get_buffer :: "64 word \<Rightarrow> v2_decoder \<Rightarrow> (place \<times> nat \<times> v2_decoder) option" where
  "v2_get_buffer fresh d = do {
     (buf, sa) \<leftarrow> sa_allocate fresh (v2_alloc d);
     (p, n) \<leftarrow> Some (dec_get_buffer buf (sa_size sa) d);
     Some (p, n, d\<lparr>v2_alloc := sa\<rparr>)
   }"

definition v2_resize_buffer :: "nat \<Rightarrow> v2_decoder \<Rightarrow> v2_decoder" where
  "v2_resize_buffer n d = d\<lparr>v2_alloc := sa_resize n (v2_alloc d)\<rparr>"

text \<open>The message gets its storage; the result is the place of its \<open>data ()\<close>, if that worked.  First with
  memory of its own, then by \<open>init (read_pos, msg_size, call_dec_ref, buffer (), provide_content ())\<close> with
  the reference that a message using the buffer takes.  The bytes of such a message must have been received.\<close>

definition v2_init_apart :: "nat \<Rightarrow> v2_decoder \<Rightarrow> 'z msg_store_scheme \<Rightarrow> place option \<times> v2_decoder \<times> 'z msg_store_scheme" where
  "v2_init_apart n d st =
     (case dec_init_size n d st of (r, d, st) \<Rightarrow> (if r then Some (Body 0) else None, d, st))"

definition v2_init_in_place :: "64 word \<Rightarrow> nat \<Rightarrow> bytes \<Rightarrow> v2_decoder \<Rightarrow> 'z msg_store_scheme \<Rightarrow>
    (place option \<times> v2_decoder \<times> 'z msg_store_scheme) option" where
  "v2_init_in_place a n rest d st =
     (if length rest < n then None
      else if n < max_vsm_size then do {
        (r, d, st) \<leftarrow> Some (v2_init_apart n d st);
        (if r = None then Some (None, d, st) else do {
           (d, st) \<leftarrow> place_write (Body 0) (take n rest) d st;
           Some (Some (Body 0), d, st)
         })
      } else do {
        _ \<leftarrow> provide_content (v2_alloc d);
        (case msg_init_external_storage (take n rest) True (dec_msg d) st of
           (_, m, st) \<Rightarrow> do {
             sa \<leftarrow> sa_inc_ref (advance_content (v2_alloc d));
             Some (Some (At a), d\<lparr>dec_msg := m, v2_alloc := sa\<rparr>, st)
           })
      })"

text \<open>\<open>read_pos + msg_size > data () + size ()\<close>, on pointers.\<close>

definition exceeds_buffer :: "64 word \<Rightarrow> 64 word \<Rightarrow> 64 word \<Rightarrow> nat \<Rightarrow> bool" where
  "exceeds_buffer a n buf sz \<longleftrightarrow> a + n > buf + of_nat sz"

definition v2_storage :: "64 word \<Rightarrow> place \<Rightarrow> bytes \<Rightarrow> v2_decoder \<Rightarrow> 'z msg_store_scheme \<Rightarrow>
    (place option \<times> v2_decoder \<times> 'z msg_store_scheme) option" where
  "v2_storage n p rest d st =
     (if \<not> v2_zero_copy d then Some (v2_init_apart (unat n) d st)
      else (case p of
          At a \<Rightarrow> do {
            buf \<leftarrow> sa_data (v2_alloc d);
            (if exceeds_buffer a n buf (sa_size (v2_alloc d)) then Some (v2_init_apart (unat n) d st)
             else v2_init_in_place a (unat n) rest d st)
          }
        | _ \<Rightarrow> None))"

definition v2_dec_size_ready :: "64 word \<Rightarrow> place \<Rightarrow> bytes \<Rightarrow> v2_decoder \<Rightarrow> 'z msg_store_scheme \<Rightarrow>
    (dec_rc \<times> v2_decoder \<times> 'z msg_store_scheme) option" where
  "v2_dec_size_ready n p rest d st =
     (if too_big (maxmsgsize d) (unat n) then Some (Dec_error EMSGSIZE, d, st)
      else do {
        (d, st) \<leftarrow> dec_close d st;
        (r, d, st) \<leftarrow> v2_storage n p rest d st;
        (case r of
           None \<Rightarrow> Some (Dec_error ENOMEM, d, st)
         | Some q \<Rightarrow> do {
             d \<leftarrow> Some (d\<lparr>dec_msg := msg_set_flags (v2_msg_flags d) (dec_msg d)\<rparr>);
             size \<leftarrow> msg_size (dec_msg d) st;
             Some (Dec_more, dec_next_step q size V2_message_ready d, st)
           })
      })"

definition v2_flags_ready :: "v2_decoder \<Rightarrow> 'z msg_store_scheme \<Rightarrow> (dec_rc \<times> v2_decoder \<times> 'z msg_store_scheme) option" where
  "v2_flags_ready d st = do {
     b \<leftarrow> get_uint8 (tmpbuf d);
     d \<leftarrow> Some (d\<lparr>v2_msg_flags := (if b AND more_flag \<noteq> 0 then flag_more else 0) OR
                               (if b AND command_flag \<noteq> 0 then flag_command else 0)\<rparr>);
     Some (Dec_more, if b AND large_flag \<noteq> 0 then dec_next_step (Tmp 0) 8 V2_eight_byte_size_ready d
                     else dec_next_step (Tmp 0) 1 V2_one_byte_size_ready d, st)
   }"

definition v2_one_byte_size_ready :: "place \<Rightarrow> bytes \<Rightarrow> v2_decoder \<Rightarrow> 'z msg_store_scheme \<Rightarrow>
    (dec_rc \<times> v2_decoder \<times> 'z msg_store_scheme) option" where
  "v2_one_byte_size_ready p rest d st = do { b \<leftarrow> get_uint8 (tmpbuf d); v2_dec_size_ready (ucast b) p rest d st }"

definition v2_eight_byte_size_ready :: "place \<Rightarrow> bytes \<Rightarrow> v2_decoder \<Rightarrow> 'z msg_store_scheme \<Rightarrow>
    (dec_rc \<times> v2_decoder \<times> 'z msg_store_scheme) option" where
  "v2_eight_byte_size_ready p rest d st = do { n \<leftarrow> get_uint64 (tmpbuf d); v2_dec_size_ready n p rest d st }"

definition v2_message_ready_in :: "v2_decoder \<Rightarrow> 'z msg_store_scheme \<Rightarrow> (dec_rc \<times> v2_decoder \<times> 'z msg_store_scheme) option" where
  "v2_message_ready_in d st = Some (Dec_done, dec_next_step (Tmp 0) 1 V2_flags_ready d, st)"

fun v2_dec_act :: "v2_step \<Rightarrow> place \<Rightarrow> bytes \<Rightarrow> v2_decoder \<Rightarrow> 'z msg_store_scheme \<Rightarrow>
    (dec_rc \<times> v2_decoder \<times> 'z msg_store_scheme) option" where
  "v2_dec_act V2_flags_ready p rest d st = v2_flags_ready d st"
| "v2_dec_act V2_one_byte_size_ready p rest d st = v2_one_byte_size_ready p rest d st"
| "v2_dec_act V2_eight_byte_size_ready p rest d st = v2_eight_byte_size_ready p rest d st"
| "v2_dec_act V2_message_ready p rest d st = v2_message_ready_in d st"

text \<open>\<open>~v2_decoder_t\<close>, then the destructors of its two bases, which both deallocate.\<close>

definition v2_decoder_destroy :: "v2_decoder \<Rightarrow> 'z msg_store_scheme \<Rightarrow> (shared_alloc \<times> 'z msg_store_scheme) option" where
  "v2_decoder_destroy d st = do {
     (d, st) \<leftarrow> dec_close d st;
     sa \<leftarrow> sa_deallocate (v2_alloc d);
     sa \<leftarrow> sa_deallocate sa;
     Some (sa, st)
   }"

end
