(* ===== verification/Zmq_Receive.thy ===== *)
theory Zmq_Receive
  imports Zmq_Decoder
begin

text \<open>
  What the decoders of \<open>Zmq_Decoder\<close> do with a stream of frames, however it is cut.
\<close>

subsection \<open>Messages being filled\<close>

text \<open>\<open>kept E st st'\<close>: an operation touched no message of \<open>E\<close>.\<close>

definition kept :: "msg_t multiset \<Rightarrow> 'z msg_store_scheme \<Rightarrow> 'z msg_store_scheme \<Rightarrow> bool" where
  "kept E st st' \<longleftrightarrow> (\<forall>x \<in># E. msg_body x st' = msg_body x st) \<and> msg_store.more st' = msg_store.more st"

lemma kept_refl [simp]: "kept E st st"
  by (simp add: kept_def)

lemma kept_trans [trans]: "kept E st st1 \<Longrightarrow> kept E st1 st2 \<Longrightarrow> kept E st st2"
  by (auto simp: kept_def)

text \<open>A message with memory of its own, of which it is the only holder.\<close>

definition own_msg :: "msg_t \<Rightarrow> bool" where
  "own_msg m \<longleftrightarrow> (is_vsm m \<or> is_lmsg m) \<and> \<not> has_flag m flag_shared \<and> msg_metadata m = None"

lemma own_msg_check: "own_msg m \<Longrightarrow> msg_check m"
  by (auto simp: own_msg_def msg_check_def is_vsm_def is_lmsg_def)

lemma store_inv_same:
  assumes "store_inv st M" "next_content st' = next_content st"
    "\<And>c. map_option (\<lambda>ct. (content_ffn ct, content_refcnt ct)) (contents st' c) =
         map_option (\<lambda>ct. (content_ffn ct, content_refcnt ct)) (contents st c)"
  shows "store_inv st' M"
  unfolding store_inv_def
proof (intro conjI allI impI ballI)
  fix c assume "contents st' c \<noteq> None"
  then have "contents st c \<noteq> None" using assms(3)[of c] by (cases "contents st c") auto
  then show "c < next_content st'" "0 < holders c M" using assms(1,2) by (auto simp: store_inv_def)
next
  fix m assume m: "m \<in># M" "is_lmsg m \<or> is_zcmsg m"
  obtain c ct where c: "msg_content m = Some c" "contents st c = Some ct" "is_zcmsg m \<longrightarrow> content_ffn ct"
    "if has_flag m flag_shared then unat (content_refcnt ct) = holders c M else holders c M = 1"
    using assms(1) m by (fastforce simp: store_inv_def)
  obtain ct' where "contents st' c = Some ct'" "content_ffn ct' = content_ffn ct" "content_refcnt ct' = content_refcnt ct"
    using assms(3)[of c] c(2) by auto
  then show "\<exists>c ct. msg_content m = Some c \<and> contents st' c = Some ct \<and> (is_zcmsg m \<longrightarrow> content_ffn ct) \<and>
      (if has_flag m flag_shared then unat (content_refcnt ct) = holders c M else holders c M = 1)"
    using c by auto
qed

text \<open>No message uses the next content.\<close>

lemma next_content_unused:
  assumes "store_inv st E" "x \<in># E"
  shows "\<not> uses_content x (next_content st)"
proof
  assume u: "uses_content x (next_content st)"
  obtain e where "contents st (next_content st) = Some e" using store_inv_ct[OF assms u] by blast
  then show False using assms(1) by (auto simp: store_inv_def)
qed

lemma kept_new_content:
  assumes "store_inv st E"
  shows "kept E st (st\<lparr>contents := (contents st)(next_content st \<mapsto> ct), next_content := Suc (next_content st)\<rparr>)"
  using next_content_unused[OF assms] by (auto simp: kept_def intro!: body_of_contents)

lemma msg_write_ok:
  assumes inv: "store_inv st (add_mset m E)" and own: "own_msg m" and body: "msg_body m st = Some d"
    and k: "k + length bs \<le> length d"
  obtains m' st' where "msg_write k bs m st = Some (m', st')" "store_inv st' (add_mset m' E)" "own_msg m'" "kept E st st'"
    "msg_body m' st' = Some (take k d @ bs @ drop (k + length bs) d)" "msg_flags m' = msg_flags m"
proof (cases "is_vsm m")
  case True
  let ?m = "m\<lparr>vsm_data := take k d @ bs @ drop (k + length bs) d\<rparr>"
  have d: "vsm_data m = d" using True body by (simp add: msg_body_def is_vsm_def)
  have "store_inv st (add_mset ?m E)" using inv True by (simp add: store_inv_plain is_lmsg_def is_zcmsg_def is_vsm_def)
  then show thesis using that[of ?m st] True own d k
    by (simp add: msg_write_def overwrite_def is_vsm_def own_msg_def is_lmsg_def msg_body_def has_flag_def)
next
  case False
  then have l: "msg_type m = Type_lmsg" using own by (simp add: own_msg_def is_lmsg_def)
  obtain c ct where c: "msg_content m = Some c" "contents st c = Some ct" "content_data ct = d"
    using body l by (auto simp: msg_body_def opt_simps)
  have u: "uses_content m c" using c l by (simp add: uses_content_def is_lmsg_def)
  have "holders c (add_mset m E) = 1" using store_inv_unshared[OF inv _ u] own by (simp add: own_msg_def)
  then have h: "\<not> uses_content x c" if "x \<in># E" for x using that u holders_pos[of x E c] by fastforce
  let ?d = "take k d @ bs @ drop (k + length bs) d"
  let ?st = "st\<lparr>contents := (contents st)(c \<mapsto> ct\<lparr>content_data := ?d\<rparr>)\<rparr>"
  have "store_inv ?st (add_mset m E)"
    by (rule store_inv_same[OF inv]) (use c(2) in simp_all)
  moreover have "kept E st ?st" using h by (auto simp: kept_def intro!: body_of_contents)
  ultimately show thesis using that[of m ?st] l own c k
    by (simp add: msg_write_def overwrite_def msg_body_def)
qed

lemma init_size_ok:
  assumes inv: "store_inv st E" and n: "sizeof_content + n < 2 ^ 64"
  obtains m' st' d where "msg_init_size n m st = (Rc_ok, m', st')" "store_inv st' (add_mset m' E)" "own_msg m'" "kept E st st'"
    "msg_body m' st' = Some d" "length d = n" "msg_flags m' = 0"
proof (cases "n \<le> max_vsm_size")
  case True
  let ?m = "(msg_init_base Type_vsm m)\<lparr>vsm_data := replicate n 0\<rparr>"
  have "\<not> is_lmsg ?m" "\<not> is_zcmsg ?m" by (simp_all add: is_lmsg_def is_zcmsg_def msg_init_base_def)
  then show thesis using that[of ?m st "replicate n 0"] True inv
    by (simp add: msg_init_size_def own_msg_def msg_init_base_def msg_body_def is_vsm_def has_flag_def store_inv_plain)
next
  case False
  let ?c = "next_content st" and ?ct = "\<lparr>content_data = replicate n 0, content_ffn = False, content_refcnt = 0\<rparr>"
  let ?m = "(msg_init_base Type_lmsg m)\<lparr>msg_content := Some ?c\<rparr>"
  let ?st = "st\<lparr>contents := (contents st)(?c \<mapsto> ?ct), next_content := Suc ?c\<rparr>"
  have "store_inv ?st (add_mset ?m E)"
    by (rule store_inv_new_content[OF inv]) (simp_all add: is_lmsg_def is_zcmsg_def has_flag_def msg_init_base_def)
  moreover have "kept E st ?st" by (rule kept_new_content[OF inv])
  ultimately show thesis using that[of ?m ?st "replicate n 0"] False n
    by (simp add: msg_init_size_def own_msg_def msg_init_base_def msg_body_def is_lmsg_def has_flag_def
        new_content_def sizeof_content_def Let_def)
qed

lemma init_external_ok:
  assumes inv: "store_inv st E"
  obtains m' st' where "msg_init_external_storage d True m st = (Rc_ok, m', st')" "store_inv st' (add_mset m' E)"
    "kept E st st'" "msg_body m' st' = Some d" "msg_flags m' = 0" "msg_check m'" "msg_metadata m' = None" "is_zcmsg m'"
proof -
  let ?c = "next_content st" and ?ct = "\<lparr>content_data = d, content_ffn = True, content_refcnt = 0\<rparr>"
  let ?m = "(msg_init_base Type_zclmsg m)\<lparr>msg_content := Some ?c\<rparr>"
  let ?st = "st\<lparr>contents := (contents st)(?c \<mapsto> ?ct), next_content := Suc ?c\<rparr>"
  have "store_inv ?st (add_mset ?m E)"
    by (rule store_inv_new_content[OF inv]) (simp_all add: is_lmsg_def is_zcmsg_def has_flag_def msg_init_base_def)
  moreover have "kept E st ?st" by (rule kept_new_content[OF inv])
  ultimately show thesis using that[of ?m ?st]
    by (simp add: msg_init_external_storage_def msg_init_base_def msg_body_def is_zcmsg_def new_content_def msg_check_def Let_def)
qed

lemma store_inv_like:
  assumes inv: "store_inv st (add_mset m E)" and "is_lmsg m' = is_lmsg m" "is_zcmsg m' = is_zcmsg m"
    "msg_content m' = msg_content m" "has_flag m' flag_shared = has_flag m flag_shared"
  shows "store_inv st (add_mset m' E)"
proof -
  have u: "uses_content m' c = uses_content m c" for c using assms by (simp add: uses_content_def)
  have h: "holders c (add_mset m' E) = holders c (add_mset m E)" for c by (simp add: u)
  show ?thesis unfolding store_inv_def h
  proof (intro conjI allI impI ballI)
    fix c assume "contents st c \<noteq> None"
    then show "c < next_content st" "0 < holders c (add_mset m E)" using inv by (auto simp: store_inv_def)
  next
    fix x assume x: "x \<in># add_mset m' E" "is_lmsg x \<or> is_zcmsg x"
    define y where "y = (if x \<in># E then x else m)"
    have "y \<in># add_mset m E" "is_lmsg y \<or> is_zcmsg y" "msg_content x = msg_content y" "is_zcmsg x = is_zcmsg y"
      "has_flag x flag_shared = has_flag y flag_shared" using x assms(2-) by (auto simp: y_def)
    then show "\<exists>c ct. msg_content x = Some c \<and> contents st c = Some ct \<and> (is_zcmsg x \<longrightarrow> content_ffn ct) \<and>
        (if has_flag x flag_shared then unat (content_refcnt ct) = holders c (add_mset m E)
         else holders c (add_mset m E) = 1)"
      using inv unfolding store_inv_def by metis
  qed
qed

lemma has_flag_set: "fl AND f = 0 \<Longrightarrow> has_flag (msg_set_flags fl m) f = has_flag m f"
  by (simp add: has_flag_def msg_set_flags_def and.commute[of _ f] bit.conj_disj_distrib)

lemma set_flags_kind [simp]:
  "is_lmsg (msg_set_flags fl m) = is_lmsg m" "is_zcmsg (msg_set_flags fl m) = is_zcmsg m"
  "is_vsm (msg_set_flags fl m) = is_vsm m" "msg_content (msg_set_flags fl m) = msg_content m"
  "msg_check (msg_set_flags fl m) = msg_check m" "msg_metadata (msg_set_flags fl m) = msg_metadata m"
  by (simp_all add: msg_set_flags_def is_lmsg_def is_zcmsg_def is_vsm_def msg_check_def)

lemma own_msg_flags: "own_msg m \<Longrightarrow> fl AND flag_shared = 0 \<Longrightarrow> own_msg (msg_set_flags fl m)"
  by (simp add: own_msg_def has_flag_set)

lemma store_inv_flags:
  "store_inv st (add_mset m E) \<Longrightarrow> fl AND flag_shared = 0 \<Longrightarrow> store_inv st (add_mset (msg_set_flags fl m) E)"
  by (erule store_inv_like) (simp_all add: has_flag_set)

subsection \<open>One turn of the loop\<close>

text \<open>What a turn stores before it runs actions.\<close>

definition feed :: "place \<Rightarrow> bytes \<Rightarrow> ('step, 'd) decoder_scheme \<Rightarrow> 'z msg_store_scheme \<Rightarrow>
    (('step, 'd) decoder_scheme \<times> 'z msg_store_scheme) option" where
  "feed p xs d st = do {
     (d, st) \<leftarrow> (if read_pos d \<noteq> p then place_write (read_pos d) xs d st else Some (d, st));
     Some (d\<lparr>read_pos := place_add (read_pos d) (length xs), to_read := to_read d - length xs\<rparr>, st)
   }"

definition proceed :: "('step, 'd, 'z) dec_actions \<Rightarrow> place \<Rightarrow> bytes \<Rightarrow> nat \<Rightarrow>
    (dec_rc \<times> ('step, 'd) decoder_scheme \<times> 'z msg_store_scheme) option \<Rightarrow>
    (dec_rc \<times> nat \<times> ('step, 'd) decoder_scheme \<times> 'z msg_store_scheme) option" where
  "proceed act data bs used r =
     (case r of None \<Rightarrow> None
      | Some (rc, d, st) \<Rightarrow> if rc \<noteq> Dec_more then Some (rc, used, d, st) else decode_loop act data bs used d st)"

lemma proceed_simps [simp]:
  "proceed act data bs used (Some (Dec_done, d, st)) = Some (Dec_done, used, d, st)"
  "proceed act data bs used (Some (Dec_error e, d, st)) = Some (Dec_error e, used, d, st)"
  "proceed act data bs used (Some (Dec_more, d, st)) = decode_loop act data bs used d st"
  by (simp_all add: proceed_def)

lemma run_actions_stop: "to_read d \<noteq> 0 \<Longrightarrow> run_actions act p rest d st = Some (Dec_more, d, st)"
  by (simp add: run_actions.simps)

lemma run_actions_act:
  "to_read d = 0 \<Longrightarrow> act (dec_next d) p rest d st = Some (rc, d', st') \<Longrightarrow>
   run_actions act p rest d st = (if rc \<noteq> Dec_more then Some (rc, d', st') else run_actions act p rest d' st')"
  by (subst run_actions.simps) simp

lemma loop_end: "length bs \<le> used \<Longrightarrow> decode_loop act data bs used d st = Some (Dec_more, used, d, st)"
  by (simp add: decode_loop.simps)

lemma place_write_fields:
  "place_write p xs d st = Some (d', st') \<Longrightarrow> read_pos d' = read_pos d \<and> to_read d' = to_read d \<and> dec_next d' = dec_next d"
  by (cases p) (auto simp: opt_simps split: if_splits)

lemma loop_turn:
  assumes "used < length bs" "n = min (to_read d) (length bs - used)"
    "feed (place_add data used) (take n (drop used bs)) d st = Some (d', st')"
  shows "decode_loop act data bs used d st =
    proceed act data bs (used + n) (run_actions act (place_add data (used + n)) (drop (used + n) bs) d' st')"
proof -
  have n: "length (take n (drop used bs)) = n" "n \<le> to_read d" using assms(2) by auto
  obtain d1 where d1: "(if read_pos d \<noteq> place_add data used then place_write (read_pos d) (take n (drop used bs)) d st
      else Some (d, st)) = Some (d1, st')"
    "d' = d1\<lparr>read_pos := place_add (read_pos d1) n, to_read := to_read d1 - n\<rparr>"
    using assms(3) n(1) unfolding feed_def by (auto simp: opt_simps)
  have f: "to_read d1 = to_read d" "read_pos d1 = read_pos d"
    using d1(1) by (auto split: if_splits dest: place_write_fields)
  show ?thesis
    by (subst decode_loop.simps)
      (use assms(1) d1 f in \<open>auto simp: assms(2)[symmetric] proceed_def split: option.splits prod.splits\<close>)
qed

text \<open>The data ends in the middle of what the decoder waits for.\<close>

lemma loop_part:
  assumes "used < length bs" "length bs - used < to_read d"
    "feed (place_add data used) (drop used bs) d st = Some (d', st')"
  shows "decode_loop act data bs used d st = Some (Dec_more, length bs, d', st')"
proof -
  have t: "to_read d' \<noteq> 0"
    using assms(2,3) place_write_fields by (fastforce simp: feed_def opt_simps split: if_splits)
  have "decode_loop act data bs used d st = proceed act data bs (used + (length bs - used))
      (run_actions act (place_add data (used + (length bs - used))) (drop (used + (length bs - used)) bs) d' st')"
    by (rule loop_turn) (use assms in auto)
  then show ?thesis using assms(1) t by (simp add: run_actions_stop loop_end)
qed

text \<open>All that the decoder waits for is there.\<close>

lemma loop_phase:
  assumes "used < length bs" "to_read d \<le> length bs - used" "n = to_read d"
    "feed (place_add data used) (take n (drop used bs)) d st = Some (d', st')"
  shows "decode_loop act data bs used d st =
    proceed act data bs (used + n) (run_actions act (place_add data (used + n)) (drop (used + n) bs) d' st')"
  by (rule loop_turn) (use assms in auto)

subsection \<open>The decoder between bytes\<close>

definition owned :: "('step, 'd) decoder_scheme \<Rightarrow> 'z msg_store_scheme \<Rightarrow> msg_t multiset \<Rightarrow> bool" where
  "owned d st E \<longleftrightarrow> store_inv st (add_mset (dec_msg d) E) \<and> msg_check (dec_msg d) \<and> msg_metadata (dec_msg d) = None \<and>
     length (tmpbuf d) = 8"

definition same_config :: "('step, 'd) decoder_scheme \<Rightarrow> ('step, 'd) decoder_scheme \<Rightarrow> bool" where
  "same_config d d' \<longleftrightarrow> maxmsgsize d' = maxmsgsize d \<and> decoder.more d' = decoder.more d"

lemma same_config_refl [simp]: "same_config d d"
  by (simp add: same_config_def)

text \<open>Reading a field of the header into \<open>tmpbuf\<close>: \<open>k\<close> of the bytes \<open>want\<close> are there.\<close>

definition tmp_at :: "'step \<Rightarrow> bytes \<Rightarrow> nat \<Rightarrow> ('step, 'd) decoder_scheme \<Rightarrow> bool" where
  "tmp_at s want k d \<longleftrightarrow> dec_next d = s \<and> read_pos d = Tmp k \<and> to_read d = length want - k \<and> k < length want \<and>
     length want \<le> 8 \<and> length (tmpbuf d) = 8 \<and> take k (tmpbuf d) = take k want"

lemma feed_tmp:
  assumes "tmp_at s want k d" "drop k want = xs @ ys" "xs \<noteq> []" "p \<noteq> Tmp k"
  obtains d' where "feed p xs d st = Some (d', st)" "dec_msg d' = dec_msg d" "same_config d d'" "dec_next d' = s"
    "length (tmpbuf d') = 8" "take (k + length xs) (tmpbuf d') = take (k + length xs) want" "to_read d' = length ys"
    "ys \<noteq> [] \<Longrightarrow> tmp_at s want (k + length xs) d'"
proof -
  let ?t = "take k (tmpbuf d) @ xs @ drop (k + length xs) (tmpbuf d)"
  let ?d = "d\<lparr>tmpbuf := ?t, read_pos := Tmp (k + length xs), to_read := to_read d - length xs\<rparr>"
  have "length (drop k want) = length xs + length ys" unfolding assms(2) by simp
  then have l: "length want = k + length xs + length ys" using assms(1) unfolding tmp_at_def length_drop by linarith
  have want: "want = take k want @ xs @ ys" using append_take_drop_id[of k want] assms(2) by simp
  have kl: "length (take k want) = k" using l by simp
  have t: "take (k + length xs) ?t = take (k + length xs) want"
  proof -
    have "take (k + length xs) ?t = take k want @ xs" using assms(1) l by (simp add: tmp_at_def)
    also have "\<dots> = take (k + length xs) (take k want @ xs @ ys)" using kl by simp
    finally show ?thesis using want by simp
  qed
  have "feed p xs d st = Some (?d, st)"
    using assms l by (simp add: feed_def tmp_at_def overwrite_def)
  moreover have "length ?t = 8" using assms(1) l by (simp add: tmp_at_def)
  moreover have "to_read ?d = length ys" using assms(1) l by (simp add: tmp_at_def)
  moreover have "tmp_at s want (k + length xs) ?d" if "ys \<noteq> []"
    using assms(1) l t that calculation(2,3) by (simp add: tmp_at_def)
  ultimately show thesis using t that[of ?d] assms(1) by (simp add: same_config_def tmp_at_def)
qed

text \<open>Reading the body of a message of flags \<open>fl\<close>: \<open>j\<close> of its bytes are there; and all of it.\<close>

definition body_at :: "'step \<Rightarrow> ('step, 'd) decoder_scheme \<Rightarrow> 'z msg_store_scheme \<Rightarrow> msg_t multiset \<Rightarrow> byte \<Rightarrow> bytes \<Rightarrow> nat \<Rightarrow> bool" where
  "body_at fin d st E fl body j \<longleftrightarrow> owned d st E \<and> own_msg (dec_msg d) \<and> msg_flags (dec_msg d) = fl \<and> dec_next d = fin \<and>
     read_pos d = Body j \<and> to_read d = length body - j \<and> j < length body \<and>
     (\<exists>mb. msg_body (dec_msg d) st = Some mb \<and> length mb = length body \<and> take j mb = take j body)"

definition complete_msg :: "('step, 'd) decoder_scheme \<Rightarrow> 'z msg_store_scheme \<Rightarrow> msg_t multiset \<Rightarrow> byte \<Rightarrow> bytes \<Rightarrow> bool" where
  "complete_msg d st E fl body \<longleftrightarrow> owned d st E \<and> msg_flags (dec_msg d) = fl \<and> msg_body (dec_msg d) st = Some body"

lemma feed_body:
  assumes at: "body_at fin d st E fl body j" and xs: "drop j body = xs @ ys" and p: "p \<noteq> Body j"
  obtains d' st' where "feed p xs d st = Some (d', st')" "kept E st st'" "same_config d d'" "dec_next d' = fin"
    "to_read d' = length ys" "ys \<noteq> [] \<Longrightarrow> body_at fin d' st' E fl body (j + length xs)"
    "ys = [] \<Longrightarrow> complete_msg d' st' E fl body"
proof -
  obtain mb where mb: "msg_body (dec_msg d) st = Some mb" "length mb = length body" "take j mb = take j body"
    using at by (auto simp: body_at_def)
  have "length (drop j body) = length xs + length ys" unfolding xs by simp
  then have l: "length body = j + length xs + length ys" using at unfolding body_at_def length_drop by linarith
  have body: "body = take j body @ xs @ ys" using append_take_drop_id[of j body] xs by simp
  have inv: "store_inv st (add_mset (dec_msg d) E)" and own: "own_msg (dec_msg d)" using at by (auto simp: body_at_def owned_def)
  have room: "j + length xs \<le> length mb" using l mb(2) by simp
  obtain m' st' where w: "msg_write j xs (dec_msg d) st = Some (m', st')" "store_inv st' (add_mset m' E)" "own_msg m'" "kept E st st'"
    "msg_body m' st' = Some (take j mb @ xs @ drop (j + length xs) mb)" "msg_flags m' = msg_flags (dec_msg d)"
    by (rule msg_write_ok[OF inv own mb(1) room])
  let ?d = "d\<lparr>dec_msg := m', read_pos := Body (j + length xs), to_read := to_read d - length xs\<rparr>"
  have "feed p xs d st = Some (?d, st')" using at p w(1) by (simp add: feed_def body_at_def)
  moreover have own': "owned ?d st' E"
    using w(2,3) own_msg_check at by (auto simp: owned_def own_msg_def body_at_def)
  moreover have tr: "to_read ?d = length ys" using at l by (simp add: body_at_def)
  moreover have "body_at fin ?d st' E fl body (j + length xs)" if "ys \<noteq> []"
  proof -
    have kl: "length (take j body) = j" using l by simp
    have "take (j + length xs) (take j mb @ xs @ drop (j + length xs) mb) = take j body @ xs" using mb l by simp
    also have "\<dots> = take (j + length xs) (take j body @ xs @ ys)" using kl by simp
    finally have tk: "take (j + length xs) (take j mb @ xs @ drop (j + length xs) mb) = take (j + length xs) body" using body by simp
    have ln: "length (take j mb @ xs @ drop (j + length xs) mb) = length body" using mb(2) l by simp
    have less: "j + length xs < length body" using l that by (cases ys) simp_all
    have ex: "\<exists>mb'. msg_body (dec_msg ?d) st' = Some mb' \<and> length mb' = length body \<and>
        take (j + length xs) mb' = take (j + length xs) body"
      using w(5) tk ln by simp
    have tr': "to_read ?d = length body - (j + length xs)" using tr l by simp
    show ?thesis unfolding body_at_def
      using own' w(3,6) at less ex tr' by (simp add: body_at_def)
  qed
  moreover have "complete_msg ?d st' E fl body" if "ys = []"
    using own' w(5,6) at mb l that body by (auto simp: complete_msg_def body_at_def)
  ultimately show thesis using that[of ?d st'] w(4) at by (simp add: same_config_def body_at_def)
qed

text \<open>The loop over a field of the header, with the data that follows it, and over the body.\<close>

lemma tmp_loop:
  assumes at: "tmp_at s want k d" and used: "used \<le> length bs" and split: "drop k want @ us = drop used bs @ vs"
    and p: "place_add data used \<noteq> Tmp k"
  obtains (part) d' where "drop used bs \<noteq> drop k want" "decode_loop act data bs used d st = Some (Dec_more, length bs, d', st)"
      "tmp_at s want (k + length (drop used bs)) d'" "dec_msg d' = dec_msg d" "same_config d d'"
    | (full) d' n zs where "drop used bs = drop k want @ zs" "n = used + (length want - k)" "drop n bs = zs" "n \<le> length bs"
      "decode_loop act data bs used d st = proceed act data bs n (run_actions act (place_add data n) zs d' st)"
      "dec_msg d' = dec_msg d" "same_config d d'" "dec_next d' = s" "to_read d' = 0" "length (tmpbuf d') = 8"
      "take (length want) (tmpbuf d') = want"
proof -
  have kw: "k < length want" "length (drop k want) = length want - k" using at by (auto simp: tmp_at_def)
  show thesis
  proof (cases "length (drop used bs) < length (drop k want)")
    case True
    obtain ys where ys: "drop k want = drop used bs @ ys" "ys \<noteq> []"
      using split True by (metis append_eq_append_conv_if append_take_drop_id drop_eq_Nil linorder_not_le order_less_imp_le)
    show thesis
    proof (cases "used < length bs")
      case False
      then show thesis using part[of d] at used kw by (simp add: loop_end)
    next
      case used': True
      then have "drop used bs \<noteq> []" by simp
      then obtain d' where d': "feed (place_add data used) (drop used bs) d st = Some (d', st)" "dec_msg d' = dec_msg d"
        "same_config d d'" "tmp_at s want (k + length (drop used bs)) d'"
        using feed_tmp[OF at ys(1) _ p] ys(2) by metis
      have "decode_loop act data bs used d st = Some (Dec_more, length bs, d', st)"
        by (rule loop_part[OF used' _ d'(1)]) (use True at in \<open>simp add: tmp_at_def\<close>)
      moreover have "drop used bs \<noteq> drop k want" using True by (metis less_irrefl)
      ultimately show thesis using part[of d'] d' by simp
    qed
  next
    case False
    then obtain zs where zs: "drop used bs = drop k want @ zs" using split
      by (metis append_eq_append_conv_if append_take_drop_id linorder_not_le)
    have used': "used < length bs" using zs kw by (metis append_is_Nil_conv drop_eq_Nil linorder_not_le)
    define n where "n = used + (length want - k)"
    have tk: "take (length want - k) (drop used bs) = drop k want" unfolding zs using kw(2) by simp
    have dn: "drop n bs = zs" unfolding n_def using zs kw(2) by (metis add.commute append_eq_conv_conj drop_drop)
    have ln: "n \<le> length bs" unfolding n_def using False used kw by simp
    obtain d' where d': "feed (place_add data used) (drop k want) d st = Some (d', st)" "dec_msg d' = dec_msg d"
      "same_config d d'" "dec_next d' = s" "length (tmpbuf d') = 8" "take (k + length (drop k want)) (tmpbuf d') = take (k + length (drop k want)) want"
      "to_read d' = 0"
      using feed_tmp[OF at, of "drop k want" "[]" "place_add data used" st] kw p by auto
    have tr: "to_read d = length want - k" using at by (simp add: tmp_at_def)
    have "decode_loop act data bs used d st =
        proceed act data bs (used + (length want - k)) (run_actions act (place_add data (used + (length want - k))) (drop (used + (length want - k)) bs) d' st)"
      by (rule loop_phase[OF used']) (use tr tk d'(1) ln n_def in auto)
    then show thesis using full[of zs n d'] zs dn ln d' kw n_def by simp
  qed
qed

text \<open>A decoder that starts a frame.\<close>

definition fresh_frame :: "'step \<Rightarrow> ('step, 'd) decoder_scheme \<Rightarrow> bool" where
  "fresh_frame s d \<longleftrightarrow> dec_next d = s \<and> read_pos d = Tmp 0 \<and> to_read d = 1"

lemma same_config_trans: "same_config d d1 \<Longrightarrow> same_config d1 d2 \<Longrightarrow> same_config d d2"
  by (simp add: same_config_def)

lemma finish_frame:
  assumes "complete_msg d st E fl body"
  shows "complete_msg (dec_next_step (Tmp 0) 1 s d) st E fl body" "fresh_frame s (dec_next_step (Tmp 0) 1 s d)"
    "same_config d (dec_next_step (Tmp 0) 1 s d)"
  using assms by (simp_all add: complete_msg_def owned_def dec_next_step_def fresh_frame_def same_config_def)

lemma body_loop:
  assumes at: "body_at fin d st E fl body j" and used: "used \<le> length bs" and split: "drop j body @ us = drop used bs @ vs"
    and p: "place_add data used \<noteq> Body j"
    and act: "\<And>p rest d st. act fin p rest d st = Some (Dec_done, dec_next_step (Tmp 0) 1 first d, st)"
  obtains (part) d' st' where "decode_loop act data bs used d st = Some (Dec_more, length bs, d', st')" "kept E st st'"
      "same_config d d'" "body_at fin d' st' E fl body (j + length (drop used bs))" "drop j body \<noteq> drop used bs"
    | (full) d' st' n where "decode_loop act data bs used d st = Some (Dec_done, n, d', st')" "kept E st st'"
      "same_config d d'" "complete_msg d' st' E fl body" "fresh_frame first d'" "n = used + (length body - j)" "n \<le> length bs"
      "drop used bs = drop j body @ drop n bs"
proof -
  have kw: "j < length body" "length (drop j body) = length body - j" using at by (auto simp: body_at_def)
  show thesis
  proof (cases "length (drop used bs) < length (drop j body)")
    case True
    obtain ys where ys: "drop j body = drop used bs @ ys" "ys \<noteq> []"
      using split True by (metis append_eq_append_conv_if append_take_drop_id drop_eq_Nil linorder_not_le order_less_imp_le)
    have ne: "drop j body \<noteq> drop used bs" using True by (metis less_irrefl)
    show thesis
    proof (cases "used < length bs")
      case False
      then show thesis using part[of d st] at used ne by (simp add: loop_end)
    next
      case used': True
      obtain d' st' where d': "feed (place_add data used) (drop used bs) d st = Some (d', st')" "kept E st st'"
        "same_config d d'" "body_at fin d' st' E fl body (j + length (drop used bs))"
        using feed_body[OF at ys(1) p] ys(2) by metis
      have "decode_loop act data bs used d st = Some (Dec_more, length bs, d', st')"
        by (rule loop_part[OF used' _ d'(1)]) (use True at in \<open>simp add: body_at_def\<close>)
      then show thesis using part[of d' st'] d' ne by simp
    qed
  next
    case False
    then obtain zs where zs: "drop used bs = drop j body @ zs" using split
      by (metis append_eq_append_conv_if append_take_drop_id linorder_not_le)
    have used': "used < length bs" using zs kw by (metis append_is_Nil_conv drop_eq_Nil linorder_not_le)
    define n where "n = used + (length body - j)"
    have tk: "take (length body - j) (drop used bs) = drop j body" unfolding zs using kw(2) by simp
    have dn: "drop n bs = zs" unfolding n_def using zs kw(2) by (metis add.commute append_eq_conv_conj drop_drop)
    have ln: "n \<le> length bs" unfolding n_def using False used kw by simp
    obtain d' st' where d': "feed (place_add data used) (drop j body) d st = Some (d', st')" "kept E st st'"
      "same_config d d'" "dec_next d' = fin" "to_read d' = 0" "complete_msg d' st' E fl body"
      using feed_body[OF at, of "drop j body" "[]" "place_add data used"] p by auto
    have tr: "to_read d = length body - j" using at by (simp add: body_at_def)
    have "decode_loop act data bs used d st =
        proceed act data bs (used + (length body - j)) (run_actions act (place_add data (used + (length body - j))) (drop (used + (length body - j)) bs) d' st')"
      by (rule loop_phase[OF used']) (use tr tk d'(1) ln n_def in auto)
    also have "\<dots> = Some (Dec_done, n, dec_next_step (Tmp 0) 1 first d', st')"
      using d'(4,5) act by (simp add: run_actions_act n_def)
    finally show thesis using full[of n "dec_next_step (Tmp 0) 1 first d'" st'] d' finish_frame[OF d'(6), of first] ln dn zs n_def
      same_config_trans by metis
  qed
qed

text \<open>The same when the caller has stored the data in the body already and \<open>decode\<close> only moves on.\<close>

lemma body_in_place:
  assumes at: "body_at fin d st E fl body j" and split: "drop j body = xs @ ys"
    and stored: "msg_body (dec_msg d) st = Some mb" "take (length xs) (drop j mb) = xs"
    and act: "\<And>p rest d st. act fin p rest d st = Some (Dec_done, dec_next_step (Tmp 0) 1 first d, st)"
  obtains (part) d' where "ys \<noteq> []" "decode act (Body j) xs d st = Some (Dec_more, length xs, d', st)" "same_config d d'"
      "body_at fin d' st E fl body (j + length xs)"
    | (full) d' where "ys = []" "decode act (Body j) xs d st = Some (Dec_done, length xs, d', st)" "same_config d d'"
      "complete_msg d' st E fl body" "fresh_frame first d'"
proof -
  have "length (drop j body) = length xs + length ys" unfolding split by simp
  then have l: "length body = j + length xs + length ys" using at unfolding body_at_def length_drop by linarith
  have mb: "length mb = length body" "take j mb = take j body" using at stored(1) by (auto simp: body_at_def)
  have pre: "take (j + length xs) mb = take (j + length xs) body"
    using mb(2) stored(2) split by (simp add: take_add)
  let ?d = "d\<lparr>read_pos := Body (j + length xs), to_read := to_read d - length xs\<rparr>"
  have tr: "to_read d = length xs + length ys" "read_pos d = Body j" "dec_next d = fin" using at l by (simp_all add: body_at_def)
  have o: "owned ?d st E" using at by (simp add: body_at_def owned_def)
  have dec: "decode act (Body j) xs d st =
      (case run_actions act (Body (j + length xs)) [] ?d st of None \<Rightarrow> None | Some (rc, d', st') \<Rightarrow> Some (rc, length xs, d', st'))"
    using tr by (simp add: decode_def zmq_assert_def split: option.splits)
  show thesis
  proof (cases "ys = []")
    case False
    have "body_at fin ?d st E fl body (j + length xs)"
      using at o l False stored(1) mb(1) pre by (auto simp: body_at_def)
    moreover have "decode act (Body j) xs d st = Some (Dec_more, length xs, ?d, st)"
      using dec tr False by (simp add: run_actions_stop)
    ultimately show thesis using part[of ?d] False by (simp add: same_config_def)
  next
    case True
    have "mb = body" using pre mb(1) l True by simp
    then have c: "complete_msg ?d st E fl body" using o at stored(1) by (simp add: complete_msg_def body_at_def)
    have "decode act (Body j) xs d st = Some (Dec_done, length xs, dec_next_step (Tmp 0) 1 first ?d, st)"
      using dec tr True act by (simp add: run_actions_act)
    then show thesis using full[of "dec_next_step (Tmp 0) 1 first ?d"] True finish_frame[OF c, of first]
      by (simp add: same_config_def dec_next_step_def)
  qed
qed

text \<open>What the actions of a decoder leave as it is, \<open>decode\<close> does.\<close>

lemma place_write_more: "place_write p xs d st = Some (d', st') \<Longrightarrow> decoder.more d' = decoder.more d"
  by (cases p) (auto simp: opt_simps split: if_splits)

definition keeps :: "('step, 'd, 'z) dec_actions \<Rightarrow> (('step, 'd) decoder_scheme \<Rightarrow> 'a) \<Rightarrow> bool" where
  "keeps act f \<longleftrightarrow> (\<forall>s p rest d st y. act s p rest d st = Some y \<longrightarrow> f (fst (snd y)) = f d)"

lemma run_actions_keep:
  fixes f :: "('step, 'd) decoder_scheme \<Rightarrow> 'a" and act :: "('step, 'd, 'z) dec_actions"
  assumes run: "run_actions act p rest d st = Some y"
    and act: "keeps act f"
  shows "f (fst (snd y)) = f d"
proof -
  have "act = act \<longrightarrow> f (fst (snd y)) = f d"
  proof (rule run_actions.raw_induct[where P = "\<lambda>a p rest d st y. a = act \<longrightarrow> f (fst (snd y)) = f d", OF _ run], rule impI)
    fix rec a p rest d st y
    assume rec: "\<And>a p rest d st y. rec a p rest d st = Some y \<Longrightarrow> a = act \<longrightarrow> f (fst (snd y)) = f d"
      and eq: "(if to_read d \<noteq> 0 then Some (Dec_more, d, st)
        else do {
          (rc, d, st) \<leftarrow> a (dec_next d) p rest d st;
          (if rc \<noteq> Dec_more then Some (rc, d, st) else rec a p rest d st)
        }) = Some y" and a: "a = act"
    show "f (fst (snd y)) = f d"
    proof (cases "to_read d = 0")
      case False
      then show ?thesis using eq by auto
    next
      case True
      then obtain rc d1 st1 where 1: "a (dec_next d) p rest d st = Some (rc, d1, st1)"
        "(if rc \<noteq> Dec_more then Some (rc, d1, st1) else rec a p rest d1 st1) = Some y" using eq by (auto simp: opt_simps)
      have "f d1 = f d" using act 1(1) a unfolding keeps_def by fastforce
      then show ?thesis using 1(2) rec[of a p rest d1 st1 y] a by (auto split: if_splits)
    qed
  qed
  then show ?thesis by simp
qed

lemma decode_loop_keep:
  fixes f :: "('step, 'd) decoder_scheme \<Rightarrow> 'a" and act :: "('step, 'd, 'z) dec_actions"
  assumes run: "decode_loop act data bs used d st = Some y"
    and act: "keeps act f"
    and more: "\<And>d d'. decoder.more d' = decoder.more d \<Longrightarrow> f d' = f d"
  shows "f (fst (snd (snd y))) = f d"
proof -
  have "act = act \<longrightarrow> f (fst (snd (snd y))) = f d"
  proof (rule decode_loop.raw_induct[where P = "\<lambda>a data bs used d st y. a = act \<longrightarrow> f (fst (snd (snd y))) = f d", OF _ run], rule impI)
    fix rec a data bs used d st y
    assume rec: "\<And>a data bs used d st y. rec a data bs used d st = Some y \<Longrightarrow> a = act \<longrightarrow> f (fst (snd (snd y))) = f d"
      and eq: "(if \<not> used < length bs then Some (Dec_more, used, d, st)
      else do {
        to_copy \<leftarrow> Some (min (to_read d) (length bs - used));
        (d, st) \<leftarrow> (if read_pos d \<noteq> place_add data used
                 then place_write (read_pos d) (take to_copy (drop used bs)) d st else Some (d, st));
        d \<leftarrow> Some (d\<lparr>read_pos := place_add (read_pos d) to_copy, to_read := to_read d - to_copy\<rparr>);
        (rc, d, st) \<leftarrow> run_actions a (place_add data (used + to_copy)) (drop (used + to_copy) bs) d st;
        (if rc \<noteq> Dec_more then Some (rc, used + to_copy, d, st)
         else rec a data bs (used + to_copy) d st)
      }) = Some y" and a: "a = act"
    show "f (fst (snd (snd y))) = f d"
    proof (cases "used < length bs")
      case False
      then show ?thesis using eq by auto
    next
      case True
      let ?n = "min (to_read d) (length bs - used)"
      obtain d1 st1 where 1: "(if read_pos d \<noteq> place_add data used
          then place_write (read_pos d) (take ?n (drop used bs)) d st else Some (d, st)) = Some (d1, st1)"
        and eq1: "do {
          (rc, d, st) \<leftarrow> run_actions a (place_add data (used + ?n)) (drop (used + ?n) bs)
             (d1\<lparr>read_pos := place_add (read_pos d1) ?n, to_read := to_read d1 - ?n\<rparr>) st1;
          (if rc \<noteq> Dec_more then Some (rc, used + ?n, d, st) else rec a data bs (used + ?n) d st) } = Some y"
        using True eq by (auto simp: opt_simps)
      have m1: "f (d1\<lparr>read_pos := place_add (read_pos d1) ?n, to_read := to_read d1 - ?n\<rparr>) = f d"
        by (rule more) (use 1 place_write_more in \<open>auto split: if_splits\<close>)
      obtain rc d2 st2 where 2: "run_actions a (place_add data (used + ?n)) (drop (used + ?n) bs)
          (d1\<lparr>read_pos := place_add (read_pos d1) ?n, to_read := to_read d1 - ?n\<rparr>) st1 = Some (rc, d2, st2)"
        "(if rc \<noteq> Dec_more then Some (rc, used + ?n, d2, st2) else rec a data bs (used + ?n) d2 st2) = Some y"
        using eq1 by (auto simp: opt_simps)
      have "f d2 = f d" using run_actions_keep[OF 2(1)[unfolded a] act] m1 by simp
      then show ?thesis using 2(2) rec[of a data bs "used + ?n" d2 st2 y] a by (auto split: if_splits)
    qed
  qed
  then show ?thesis by simp
qed

lemma decode_keep:
  fixes f :: "('step, 'd) decoder_scheme \<Rightarrow> 'a" and act :: "('step, 'd, 'z) dec_actions"
  assumes run: "decode act p xs d st = Some (rc, k, d', st')"
    and act: "keeps act f"
    and more: "\<And>d d'. decoder.more d' = decoder.more d \<Longrightarrow> f d' = f d"
  shows "f d' = f d"
proof (cases "p = read_pos d")
  case True
  let ?d = "d\<lparr>read_pos := place_add (read_pos d) (length xs), to_read := to_read d - length xs\<rparr>"
  have r: "run_actions act (place_add p (length xs)) [] ?d st = Some (rc, d', st')"
    using run True by (auto simp: decode_def opt_simps)
  have "f d' = f ?d" using run_actions_keep[OF r act] by simp
  also have "\<dots> = f d" by (rule more) simp
  finally show ?thesis .
next
  case False
  then have "decode_loop act p xs 0 d st = Some (rc, k, d', st')" using run by (simp add: decode_def)
  then have "f (fst (snd (snd (rc, k, d', st')))) = f d" by (rule decode_loop_keep[OF _ act more])
  then show ?thesis by simp
qed

subsection \<open>The interface of decoders\<close>

text \<open>What the engine relies on (\<open>src/libzmq/src/i_decoder.hpp\<close>).  \<open>at\<close> says what is still to be read of a frame, \<open>holds\<close>
  that received data is where the decoder wants it, \<open>ready\<close> that a buffer can be asked for, \<open>fresh_block\<close> that an
  address is one \<open>malloc\<close> may return.\<close>

definition fill :: "place \<Rightarrow> bytes \<Rightarrow> ('step, 'd) decoder_scheme \<Rightarrow> 'z msg_store_scheme \<Rightarrow>
    (('step, 'd) decoder_scheme \<times> 'z msg_store_scheme) option" where
  "fill p xs d st = (case p of At _ \<Rightarrow> Some (d, st) | _ \<Rightarrow> place_write p xs d st)"

locale frame_decoder =
  fixes act :: "('step, 'd, 'z) dec_actions"
    and getbuf :: "64 word \<Rightarrow> ('step, 'd) decoder_scheme \<Rightarrow> (place \<times> nat \<times> ('step, 'd) decoder_scheme) option"
    and resize :: "nat \<Rightarrow> ('step, 'd) decoder_scheme \<Rightarrow> ('step, 'd) decoder_scheme"
    and first :: 'step
    and frame :: "byte \<Rightarrow> bytes \<Rightarrow> bytes"
    and mflags :: "byte \<Rightarrow> byte"
    and valid :: "('step, 'd) decoder_scheme \<Rightarrow> bytes \<Rightarrow> bool"
    and at :: "('step, 'd) decoder_scheme \<Rightarrow> 'z msg_store_scheme \<Rightarrow> msg_t multiset \<Rightarrow> byte \<Rightarrow> bytes \<Rightarrow> bytes \<Rightarrow> bool"
    and holds :: "('step, 'd) decoder_scheme \<Rightarrow> 'z msg_store_scheme \<Rightarrow> place \<Rightarrow> bytes \<Rightarrow> bool"
    and ready :: "('step, 'd) decoder_scheme \<Rightarrow> bool"
    and fresh_block :: "64 word \<Rightarrow> ('step, 'd) decoder_scheme \<Rightarrow> bool"
  assumes at_owned: "at d st E fl body rem \<Longrightarrow> owned d st E"
    and at_move: "at d st E fl body rem \<Longrightarrow> owned d st' E' \<Longrightarrow> msg_body (dec_msg d) st' = msg_body (dec_msg d) st \<Longrightarrow>
      at d st' E' fl body rem"
    and at_nonempty: "at d st E fl body rem \<Longrightarrow> rem \<noteq> []"
    and at_fresh: "fresh_frame first d \<Longrightarrow> owned d st E \<Longrightarrow> at d st E fl body (frame fl body)"
    and replace_msg: "valid (d\<lparr>dec_msg := m\<rparr>) = valid d" "ready (d\<lparr>dec_msg := m\<rparr>) = ready d"
      "fresh_block a (d\<lparr>dec_msg := m\<rparr>) = fresh_block a d"
    and decodes: "at d st E fl body rem \<Longrightarrow> valid d body \<Longrightarrow> holds d st p xs \<Longrightarrow> xs \<noteq> [] \<Longrightarrow> rem @ us = xs @ vs \<Longrightarrow>
      \<exists>rc k d' st'. decode act p xs d st = Some (rc, k, d', st') \<and> kept E st st' \<and> k \<le> length xs \<and> valid d' = valid d \<and> ready d' \<and>
        (\<forall>a. fresh_block a d' = fresh_block a d) \<and>
        (rc = Dec_more \<and> k = length xs \<and> (\<exists>ys. rem = xs @ ys \<and> at d' st' E fl body ys) \<or>
         rc = Dec_done \<and> xs = rem @ drop k xs \<and> complete_msg d' st' E (mflags fl) body \<and> fresh_frame first d' \<and>
           (drop k xs \<noteq> [] \<longrightarrow> (\<forall>m st''. holds (d'\<lparr>dec_msg := m\<rparr>) st'' (place_add p k) (drop k xs))))"
    and receives: "at d st E fl body rem \<Longrightarrow> ready d \<Longrightarrow> fresh_block a d \<Longrightarrow>
      \<exists>p n d1. getbuf a d = Some (p, n, d1) \<and> 0 < n \<and> at d1 st E fl body rem \<and> valid d1 = valid d \<and> ready d1 \<and>
        (fresh_frame first d \<longrightarrow> fresh_frame first d1) \<and>
        (\<forall>xs. xs \<noteq> [] \<longrightarrow> length xs \<le> n \<longrightarrow> (\<exists>d2 st2. fill p xs d1 st = Some (d2, st2) \<and> kept E st st2 \<and>
           at (resize (length xs) d2) st2 E fl body rem \<and> holds (resize (length xs) d2) st2 p xs \<and>
           valid (resize (length xs) d2) = valid d \<and> ready (resize (length xs) d2)))"

end
