(* ===== verification/Zmq_Recv2.thy ===== *)
theory Zmq_Recv2
  imports Zmq_Receive
begin

unbundle bit_operations_syntax

text \<open>
  The ZMTP 2.0 decoder (\<open>v2_decoder.cpp\<close>) on a stream of frames: it returns the messages of the stream, however
  the stream is cut into receive buffers, with and without the use of the buffer as message body.
\<close>

subsection \<open>The receive buffer\<close>

text \<open>The current block \<open>b\<close> has a buffer with \<open>sz\<close> received bytes, of which \<open>off\<close> are used up.  Every message in
  the buffer has taken a control block and at least \<open>smallest_shared\<close> bytes.\<close>

definition alloc_at :: "shared_alloc \<Rightarrow> 64 word \<Rightarrow> nat \<Rightarrow> nat \<Rightarrow> bool" where
  "alloc_at sa b sz off \<longleftrightarrow> (\<exists>held. sa_inv sa held \<and> held b \<le> sa_content sa) \<and> sa_buf sa = Some b \<and> sa_bufsize sa = sz \<and>
     sz \<le> sa_max_size sa \<and> 8 < sa_max_size sa \<and> sa_max_size sa < 2 ^ 31 \<and>
     sa_max_counters sa = (sa_max_size sa + smallest_shared - 1) div smallest_shared \<and>
     unat b + sizeof_counter + sa_max_size sa < 2 ^ 63 \<and> smallest_shared * sa_content sa \<le> off"

lemma alloc_at_mono: "alloc_at sa b sz off \<Longrightarrow> off \<le> off' \<Longrightarrow> alloc_at sa b sz off'"
  by (auto simp: alloc_at_def)

definition buf_addr :: "64 word \<Rightarrow> nat \<Rightarrow> 64 word" where
  "buf_addr b off = b + of_nat sizeof_counter + of_nat off"

lemma unat_add_small:
  "unat (a :: 64 word) + n < 2 ^ 64 \<Longrightarrow> unat (a + of_nat n) = unat a + n"
  by (simp only: unat_word_ariths(1) unat_of_nat) (simp add: mod_add_right_eq)

lemma unat_buf_addr:
  "unat b + sizeof_counter + off < 2 ^ 64 \<Longrightarrow> unat (buf_addr b off) = unat b + sizeof_counter + off"
  unfolding buf_addr_def by (simp only: unat_add_small)

lemma exceeds_iff:
  assumes "alloc_at sa b sz off0" "off \<le> sz" "n < 2 ^ 63"
  shows "exceeds_buffer (buf_addr b off) (of_nat n) (b + of_nat sizeof_counter) sz \<longleftrightarrow> sz < off + n"
proof -
  have s: "unat b + sizeof_counter + sz < 2 ^ 63" using assms(1) by (simp add: alloc_at_def)
  have "unat (buf_addr b off + of_nat n) = unat b + sizeof_counter + off + n"
    using s assms(2,3) by (simp add: unat_add_small unat_buf_addr)
  moreover have "unat (b + of_nat sizeof_counter + of_nat sz) = unat b + sizeof_counter + sz"
    using unat_buf_addr[of b sz] s by (simp add: buf_addr_def)
  ultimately show ?thesis by (simp add: exceeds_buffer_def word_less_nat_alt)
qed

text \<open>There is a control block for every message that fits into the buffer.\<close>

lemma alloc_in_place:
  assumes at: "alloc_at sa b sz off" and fits: "off + n \<le> sz" and n: "smallest_shared \<le> n"
  obtains c sa' where "provide_content sa = Some c" "sa_inc_ref (advance_content sa) = Some sa'" "alloc_at sa' b sz (off + n)"
proof -
  obtain held where h: "sa_inv sa held" "held b \<le> sa_content sa" using at by (auto simp: alloc_at_def)
  have c: "smallest_shared * (sa_content sa + 1) \<le> sa_max_size sa" using at fits n by (simp add: alloc_at_def algebra_simps)
  then have less: "sa_content sa < sa_max_counters sa" using at by (simp add: alloc_at_def smallest_shared_def)
  have inv: "sa_inv (advance_content sa) held"
    by (rule sa_inv_frame[OF h(1), of "{}"]) (simp_all add: advance_content_def)
  have b: "sa_buf (advance_content sa) = Some b" using at by (simp add: alloc_at_def advance_content_def)
  have "held b + 2 < 2 ^ 32" using h(2) c at by (simp add: alloc_at_def smallest_shared_def)
  then obtain sa' where sa': "sa_inc_ref (advance_content sa) = Some sa'" "sa_inv sa' (held(b := held b + 1))"
    "sa' = (advance_content sa)\<lparr>counters := counters sa'\<rparr>"
    using inc_ref_ok[OF inv b] by metis
  have "sa_content sa' = Suc (sa_content sa)" "sa_buf sa' = Some b" "sa_bufsize sa' = sa_bufsize sa" "sa_max_size sa' = sa_max_size sa"
    "sa_max_counters sa' = sa_max_counters sa"
    using at by (subst sa'(3), simp add: advance_content_def alloc_at_def)+
  then have "alloc_at sa' b sz (off + n)"
    using at sa'(2) h(2) n unfolding alloc_at_def by (auto intro!: exI[of _ "held(b := held b + 1)"])
  moreover have "provide_content sa = Some (sa_content sa)" using less at by (simp add: provide_content_def alloc_at_def)
  ultimately show thesis using that sa'(1) by blast
qed

subsection \<open>The size of a message is known\<close>

lemma dec_close_ok:
  assumes "owned d st E"
  obtains m st' where "dec_close d st = Some (d\<lparr>dec_msg := m\<rparr>, st')" "store_inv st' E" "kept E st st'"
proof -
  have a: "store_inv st (add_mset (dec_msg d) E)" "msg_check (dec_msg d)" "msg_metadata (dec_msg d) = None"
    using assms by (auto simp: owned_def)
  obtain m' st' where c: "msg_close (dec_msg d) st = Some (Rc_ok, m', st')" "store_inv st' E"
    "\<And>x. x \<in># E \<Longrightarrow> msg_body x st' = msg_body x st" by (rule msg_close_correct[OF a]) blast
  then show thesis using that[of m' st'] msg_close_more[OF c(1)] by (simp add: dec_close_def kept_def)
qed

lemma max_vsm_33: "max_vsm_size = smallest_shared"
  by (simp add: max_vsm_size_def smallest_shared_def)

text \<open>The message has storage, and the decoder reads its body there next: in memory of its own, or in the buffer.\<close>

definition sized_ok :: "v2_decoder \<Rightarrow> v2_decoder \<Rightarrow> 'z msg_store_scheme \<Rightarrow> msg_t multiset \<Rightarrow> place \<Rightarrow> bytes \<Rightarrow> bytes \<Rightarrow> bool" where
  "sized_ok d d' st' E q rest body \<longleftrightarrow> store_inv st' (add_mset (dec_msg d') E) \<and> msg_check (dec_msg d') \<and>
     msg_metadata (dec_msg d') = None \<and> msg_flags (dec_msg d') = 0 \<and> tmpbuf d' = tmpbuf d \<and> maxmsgsize d' = maxmsgsize d \<and>
     v2_zero_copy d' = v2_zero_copy d \<and> v2_msg_flags d' = v2_msg_flags d \<and>
     (q = Body 0 \<and> own_msg (dec_msg d') \<and> v2_alloc d' = v2_alloc d \<and>
        (\<exists>mb. msg_body (dec_msg d') st' = Some mb \<and> length mb = length body) \<or>
      (\<exists>a. q = At a) \<and> smallest_shared \<le> length body \<and> length body \<le> length rest \<and>
        msg_body (dec_msg d') st' = Some (take (length body) rest))"

lemma init_apart_ok:
  assumes inv: "store_inv st E" and n: "sizeof_content + length body < 2 ^ 64"
  obtains d' st' where "v2_init_apart (length body) d st = (Some (Body 0), d', st')" "kept E st st'"
    "sized_ok d d' st' E (Body 0) rest body" "v2_alloc d' = v2_alloc d"
proof -
  obtain m' st' mb where i: "msg_init_size (length body) (dec_msg d) st = (Rc_ok, m', st')" "store_inv st' (add_mset m' E)"
    "own_msg m'" "kept E st st'" "msg_body m' st' = Some mb" "length mb = length body" "msg_flags m' = 0"
    by (rule init_size_ok[OF inv n])
  then show thesis using that[of "d\<lparr>dec_msg := m'\<rparr>" st'] own_msg_check[OF i(3)]
    by (simp add: v2_init_apart_def dec_init_size_def sized_ok_def own_msg_def)
qed

lemma init_in_place_ok:
  assumes inv: "store_inv st E" and n: "sizeof_content + length body < 2 ^ 64" and fits: "length body \<le> length rest"
    and alloc: "alloc_at (v2_alloc d) b sz off" "off + length rest = sz"
  obtains q d' st' where "v2_init_in_place a (length body) rest d st = Some (Some q, d', st')" "kept E st st'"
    "q = Body 0 \<or> q = At a" "sized_ok d d' st' E q rest body"
    "alloc_at (v2_alloc d') b sz (if q = Body 0 then off else off + length body)"
proof (cases "length body < max_vsm_size")
  case True
  obtain d1 st1 where i: "v2_init_apart (length body) d st = (Some (Body 0), d1, st1)" "kept E st st1"
    "sized_ok d d1 st1 E (Body 0) rest body" "v2_alloc d1 = v2_alloc d" by (rule init_apart_ok[OF inv n])
  obtain mb where mb: "msg_body (dec_msg d1) st1 = Some mb" "length mb = length body" and own: "own_msg (dec_msg d1)"
    and inv1: "store_inv st1 (add_mset (dec_msg d1) E)" using i(3) by (auto simp: sized_ok_def)
  have room: "0 + length (take (length body) rest) \<le> length mb" using mb(2) by simp
  obtain m' st' where w: "msg_write 0 (take (length body) rest) (dec_msg d1) st1 = Some (m', st')" "store_inv st' (add_mset m' E)"
    "own_msg m'" "kept E st1 st'" "msg_body m' st' = Some (take 0 mb @ take (length body) rest @ drop (0 + length (take (length body) rest)) mb)"
    "msg_flags m' = msg_flags (dec_msg d1)" by (rule msg_write_ok[OF inv1 own mb(1) room])
  have s: "sized_ok d (d1\<lparr>dec_msg := m'\<rparr>) st' E (Body 0) rest body"
    using i(3) w(2,3,5,6) own_msg_check[OF w(3)] mb(2) fits by (simp add: sized_ok_def own_msg_def)
  have "v2_init_in_place a (length body) rest d st = Some (Some (Body 0), d1\<lparr>dec_msg := m'\<rparr>, st')"
    using True fits i(1) w(1) by (simp add: v2_init_in_place_def)
  then show thesis by (rule that) (use kept_trans[OF i(2) w(4)] s i(4) alloc in simp_all)
next
  case False
  have f: "off + length body \<le> sz" "smallest_shared \<le> length body" using fits alloc(2) False by (simp_all add: max_vsm_33)
  obtain c sa' where sa: "provide_content (v2_alloc d) = Some c" "sa_inc_ref (advance_content (v2_alloc d)) = Some sa'"
    "alloc_at sa' b sz (off + length body)" by (rule alloc_in_place[OF alloc(1) f])
  obtain m' st' where e: "msg_init_external_storage (take (length body) rest) True (dec_msg d) st = (Rc_ok, m', st')"
    "store_inv st' (add_mset m' E)" "kept E st st'" "msg_body m' st' = Some (take (length body) rest)" "msg_flags m' = 0"
    "msg_check m'" "msg_metadata m' = None" "is_zcmsg m'" by (rule init_external_ok[OF inv])
  have s: "sized_ok d (d\<lparr>dec_msg := m', v2_alloc := sa'\<rparr>) st' E (At a) rest body"
    using e f fits by (simp add: sized_ok_def)
  have "v2_init_in_place a (length body) rest d st = Some (Some (At a), d\<lparr>dec_msg := m', v2_alloc := sa'\<rparr>, st')"
    using False fits sa e(1) by (simp add: v2_init_in_place_def)
  then show thesis by (rule that) (use e(3) s sa(3) in simp_all)
qed

lemma storage_ok:
  assumes inv: "store_inv st E" and n: "sizeof_content + length body < 2 ^ 63"
    and alloc: "alloc_at (v2_alloc d) b sz off" "off + length rest = sz" and p: "p = At (buf_addr b off)"
  obtains q d' st' where "v2_storage (of_nat (length body)) p rest d st = Some (Some q, d', st')" "kept E st st'"
    "q = Body 0 \<or> q = p" "sized_ok d d' st' E q rest body"
    "alloc_at (v2_alloc d') b sz (if q = Body 0 then off else off + length body)"
proof -
  have n64: "sizeof_content + length body < 2 ^ 64" using n by simp
  have un: "unat (of_nat (length body) :: 64 word) = length body" using n
    by (simp add: unsigned_of_nat take_bit_nat_eq_self sizeof_content_def)
  obtain d1 st1 where i: "v2_init_apart (length body) d st = (Some (Body 0), d1, st1)" "kept E st st1"
    "sized_ok d d1 st1 E (Body 0) rest body" "v2_alloc d1 = v2_alloc d" by (rule init_apart_ok[OF inv n64])
  have ex: "exceeds_buffer (buf_addr b off) (of_nat (length body)) (b + of_nat sizeof_counter) sz \<longleftrightarrow> length rest < length body"
    using exceeds_iff[OF alloc(1), of off "length body"] alloc(2) n by auto
  have sd: "sa_data (v2_alloc d) = Some (b + of_nat sizeof_counter)" "sa_size (v2_alloc d) = sz"
    using alloc(1) by (simp_all add: sa_data_def sa_size_def alloc_at_def)
  show thesis
  proof (cases "\<not> v2_zero_copy d \<or> length rest < length body")
    case True
    then have "v2_storage (of_nat (length body)) p rest d st = Some (Some (Body 0), d1, st1)"
      using i(1) un sd ex p by (auto simp: v2_storage_def)
    then show thesis by (rule that) (use i alloc in simp_all)
  next
    case False
    have fits: "length body \<le> length rest" using False by simp
    obtain q d' st' where ip: "v2_init_in_place (buf_addr b off) (length body) rest d st = Some (Some q, d', st')" "kept E st st'"
      "q = Body 0 \<or> q = At (buf_addr b off)" "sized_ok d d' st' E q rest body"
      "alloc_at (v2_alloc d') b sz (if q = Body 0 then off else off + length body)"
      by (rule init_in_place_ok[OF inv n64 fits alloc])
    have "v2_storage (of_nat (length body)) p rest d st = Some (Some q, d', st')"
      using False ip(1) un sd ex p by (simp add: v2_storage_def)
    then show thesis by (rule that) (use ip p in simp_all)
  qed
qed

lemma size_ready_ok:
  assumes own: "owned d st E" and lim: "\<not> too_big (maxmsgsize d) (length body)" and n: "sizeof_content + length body < 2 ^ 63"
    and alloc: "alloc_at (v2_alloc d) b sz off" "off + length rest = sz" and p: "p = At (buf_addr b off)"
    and fl: "v2_msg_flags d = fl" "fl AND flag_shared = 0" and split: "body @ us = rest @ vs"
  obtains d' st' where "v2_dec_size_ready (of_nat (length body)) p rest d st = Some (Dec_more, d', st')" "kept E st st'"
    "maxmsgsize d' = maxmsgsize d" "v2_zero_copy d' = v2_zero_copy d" "to_read d' = length body" "dec_next d' = V2_message_ready"
    "body = [] \<longrightarrow> complete_msg d' st' E fl body"
    "body \<noteq> [] \<and> body_at V2_message_ready d' st' E fl body 0 \<and> alloc_at (v2_alloc d') b sz off \<or>
     body = [] \<and> alloc_at (v2_alloc d') b sz off \<or>
     read_pos d' = p \<and> length body \<le> length rest \<and> complete_msg d' st' E fl body \<and> alloc_at (v2_alloc d') b sz (off + length body)"
proof -
  have un: "unat (of_nat (length body) :: 64 word) = length body" using n
    by (simp add: unsigned_of_nat take_bit_nat_eq_self sizeof_content_def)
  obtain m st1 where c: "dec_close d st = Some (d\<lparr>dec_msg := m\<rparr>, st1)" "store_inv st1 E" "kept E st st1"
    by (rule dec_close_ok[OF own])
  have al: "alloc_at (v2_alloc (d\<lparr>dec_msg := m\<rparr>)) b sz off" using alloc(1) by simp
  obtain q d2 st2 where s: "v2_storage (of_nat (length body)) p rest (d\<lparr>dec_msg := m\<rparr>) st1 = Some (Some q, d2, st2)" "kept E st1 st2"
    "q = Body 0 \<or> q = p" "sized_ok (d\<lparr>dec_msg := m\<rparr>) d2 st2 E q rest body"
    "alloc_at (v2_alloc d2) b sz (if q = Body 0 then off else off + length body)"
    by (rule storage_ok[OF c(2) n al alloc(2) p])
  let ?m = "msg_set_flags fl (dec_msg d2)"
  let ?d = "dec_next_step q (length body) V2_message_ready (d2\<lparr>dec_msg := ?m\<rparr>)"
  have fl2: "v2_msg_flags d2 = fl" using s(4) fl(1) by (simp add: sized_ok_def)
  obtain mb where mb: "msg_body (dec_msg d2) st2 = Some mb" "length mb = length body"
    using s(4) by (auto simp: sized_ok_def)
  have o: "owned ?d st2 E"
    using s(4) own fl(2) by (simp add: owned_def sized_ok_def dec_next_step_def store_inv_flags)
  have mf: "msg_flags (dec_msg ?d) = fl" using s(4) by (simp add: sized_ok_def dec_next_step_def msg_set_flags_def)
  have mb': "msg_body (dec_msg ?d) st2 = Some mb" using mb(1) by (simp add: dec_next_step_def)
  have run: "v2_dec_size_ready (of_nat (length body)) p rest d st = Some (Dec_more, ?d, st2)"
    using lim c(1) s(1) fl2 mb un by (simp add: v2_dec_size_ready_def msg_size_def)
  have bat: "body_at V2_message_ready ?d st2 E fl body 0" if "q = Body 0" "body \<noteq> []"
    using o mf mb' mb(2) that s(4) fl(2) by (auto simp: body_at_def dec_next_step_def sized_ok_def own_msg_flags)
  have comp: "complete_msg ?d st2 E fl body" if "q = p"
  proof -
    have "mb = take (length body) rest" "length body \<le> length rest" using s(4) mb(1) that p by (auto simp: sized_ok_def)
    moreover have "take (length body) rest = body"
      using split calculation(2) by (metis append_eq_append_conv_if append_take_drop_id take_all_iff)
    ultimately show ?thesis using o mf mb' by (simp add: complete_msg_def)
  qed
  have fits: "length body \<le> length rest" if "q = p" using s(4) that p by (auto simp: sized_ok_def)
  show thesis
  proof (rule that[of ?d st2])
    show "kept E st st2" by (rule kept_trans[OF c(3) s(2)])
    show "body = [] \<longrightarrow> complete_msg ?d st2 E fl body"
      by (rule impI) (use o mf mb' mb(2) in \<open>simp add: complete_msg_def\<close>)
    show "body \<noteq> [] \<and> body_at V2_message_ready ?d st2 E fl body 0 \<and> alloc_at (v2_alloc ?d) b sz off \<or>
      body = [] \<and> alloc_at (v2_alloc ?d) b sz off \<or>
      read_pos ?d = p \<and> length body \<le> length rest \<and> complete_msg ?d st2 E fl body \<and> alloc_at (v2_alloc ?d) b sz (off + length body)"
    proof (cases "q = Body 0")
      case True
      then show ?thesis using bat s(5) by (cases "body = []") (simp_all add: dec_next_step_def)
    next
      case False
      then show ?thesis using s(3,5) comp fits by (simp add: dec_next_step_def)
    qed
  qed (use run s(4) in \<open>simp_all add: sized_ok_def dec_next_step_def\<close>)
qed

subsection \<open>Frames\<close>

definition wire_flags :: "byte \<Rightarrow> byte" where
  "wire_flags fl = (if fl AND flag_more \<noteq> 0 then flag_more else 0) OR (if fl AND flag_command \<noteq> 0 then flag_command else 0)"

definition v2_flag_byte :: "byte \<Rightarrow> nat \<Rightarrow> byte" where
  "v2_flag_byte fl n = (if fl AND flag_more \<noteq> 0 then more_flag else 0) OR (if n > 255 then large_flag else 0) OR
     (if fl AND flag_command \<noteq> 0 then command_flag else 0)"

definition v2_size_bytes :: "nat \<Rightarrow> bytes" where
  "v2_size_bytes n = (if n > 255 then put_uint64 (of_nat n) else [of_nat n])"

definition v2_size_step :: "nat \<Rightarrow> v2_step" where
  "v2_size_step n = (if n > 255 then V2_eight_byte_size_ready else V2_one_byte_size_ready)"

lemma v2_frame_parts: "v2_frame fl body = v2_flag_byte fl (length body) # v2_size_bytes (length body) @ body"
  by (simp add: v2_frame_def v2_flag_byte_def v2_size_bytes_def Let_def)

lemma flag_byte_bits:
  "(v2_flag_byte fl n AND more_flag \<noteq> 0) = (fl AND flag_more \<noteq> 0)"
  "(v2_flag_byte fl n AND large_flag \<noteq> 0) = (n > 255)"
  "(v2_flag_byte fl n AND command_flag \<noteq> 0) = (fl AND flag_command \<noteq> 0)"
  by (simp_all add: v2_flag_byte_def v2_flag_defs)

lemma wire_flags_unshared: "wire_flags fl AND flag_shared = 0"
  by (simp add: wire_flags_def msg_flag_defs)

lemma size_bytes_length: "length (v2_size_bytes n) = (if n > 255 then 8 else 1)"
  by (simp add: v2_size_bytes_def)

text \<open>A decoder that has yet to read \<open>rem\<close> of a frame.\<close>

definition v2_at :: "v2_decoder \<Rightarrow> 'z msg_store_scheme \<Rightarrow> msg_t multiset \<Rightarrow> byte \<Rightarrow> bytes \<Rightarrow> bytes \<Rightarrow> bool" where
  "v2_at d st E fl body rem \<longleftrightarrow>
     fresh_frame V2_flags_ready d \<and> owned d st E \<and> rem = v2_frame fl body \<or>
     (\<exists>k. tmp_at (v2_size_step (length body)) (v2_size_bytes (length body)) k d \<and> owned d st E \<and>
        v2_msg_flags d = wire_flags fl \<and> rem = drop k (v2_size_bytes (length body)) @ body) \<or>
     (\<exists>j. body_at V2_message_ready d st E (wire_flags fl) body j \<and> rem = drop j body)"

text \<open>Reading goes on until the data or the frame ends.\<close>

definition v2_result :: "v2_decoder \<Rightarrow> 'z msg_store_scheme \<Rightarrow> msg_t multiset \<Rightarrow> byte \<Rightarrow> bytes \<Rightarrow> 64 word \<Rightarrow> nat \<Rightarrow> bytes \<Rightarrow> bytes \<Rightarrow> bytes \<Rightarrow>
    (dec_rc \<times> nat \<times> v2_decoder \<times> 'z msg_store_scheme) option \<Rightarrow> bool" where
  "v2_result d st E fl body b off bs xs rem r \<longleftrightarrow> (\<exists>d' st' k. kept E st st' \<and> maxmsgsize d' = maxmsgsize d \<and>
     v2_zero_copy d' = v2_zero_copy d \<and> k \<le> length bs \<and> alloc_at (v2_alloc d') b (off + length bs) (off + k) \<and>
     ((\<exists>ys. r = Some (Dec_more, k, d', st') \<and> k = length bs \<and> rem = xs @ ys \<and> ys \<noteq> [] \<and> v2_at d' st' E fl body ys) \<or>
      r = Some (Dec_done, k, d', st') \<and> xs = rem @ drop k bs \<and> complete_msg d' st' E (wire_flags fl) body \<and>
        fresh_frame V2_flags_ready d'))"

lemma v2_resultI:
  assumes "kept E st st'" "maxmsgsize d' = maxmsgsize d" "v2_zero_copy d' = v2_zero_copy d"
    "alloc_at (v2_alloc d') b (off + length bs) (off + k)" "k \<le> length bs"
  shows v2_partI: "r = Some (Dec_more, k, d', st') \<Longrightarrow> k = length bs \<Longrightarrow> rem = xs @ ys \<Longrightarrow> ys \<noteq> [] \<Longrightarrow> v2_at d' st' E fl body ys \<Longrightarrow>
      v2_result d st E fl body b off bs xs rem r"
    and v2_fullI: "r = Some (Dec_done, k, d', st') \<Longrightarrow> xs = rem @ drop k bs \<Longrightarrow> complete_msg d' st' E (wire_flags fl) body \<Longrightarrow>
      fresh_frame V2_flags_ready d' \<Longrightarrow> v2_result d st E fl body b off bs xs rem r"
  unfolding v2_result_def using assms by blast+

lemma v2_result_extend:
  assumes "v2_result d1 st1 E fl body b off bs xs rem r" "kept E st st1" "maxmsgsize d1 = maxmsgsize d" "v2_zero_copy d1 = v2_zero_copy d"
  shows "v2_result d st E fl body b off bs (w @ xs) (w @ rem) r"
  using assms kept_trans[OF assms(2)] unfolding v2_result_def by (simp only: append_assoc same_append_eq) blast

subsection \<open>Reading the rest of a frame\<close>

lemma prefix_split: "a @ us = b @ vs \<Longrightarrow> length b \<le> length a \<Longrightarrow> \<exists>ys. a = b @ ys"
  by (auto simp: append_eq_append_conv2)

lemma v2_message_act:
  "v2_dec_act V2_message_ready p rest d st = Some (Dec_done, dec_next_step (Tmp 0) 1 V2_flags_ready d, st)"
  by (simp add: v2_message_ready_in_def)

lemma same_config_v2:
  "same_config d d' \<Longrightarrow> maxmsgsize d' = maxmsgsize d \<and> v2_zero_copy d' = v2_zero_copy d \<and> v2_alloc d' = v2_alloc d \<and>
    v2_msg_flags d' = v2_msg_flags d"
  by (cases d; cases d') (simp add: same_config_def decoder.defs v2_decoder.defs)

lemma v2_body_loop:
  assumes at: "body_at V2_message_ready d st E (wire_flags fl) body j" and used: "used \<le> length bs"
    and split: "drop j body @ us = drop used bs @ vs" and p: "place_add data used \<noteq> Body j"
    and alloc: "alloc_at (v2_alloc d) b (off + length bs) (off + used)"
  shows "v2_result d st E fl body b off bs (drop used bs) (drop j body) (decode_loop v2_dec_act data bs used d st)"
proof (rule body_loop[where act = v2_dec_act and first = V2_flags_ready, OF at used split p])
  show "v2_dec_act V2_message_ready p rest d st = Some (Dec_done, dec_next_step (Tmp 0) 1 V2_flags_ready d, st)"
    for p rest d st by (rule v2_message_act)
next
  fix d' st'
  assume d': "decode_loop v2_dec_act data bs used d st = Some (Dec_more, length bs, d', st')" "kept E st st'" "same_config d d'"
    "body_at V2_message_ready d' st' E (wire_flags fl) body (j + length (drop used bs))" "drop j body \<noteq> drop used bs"
  have j: "j + length (drop used bs) < length body" using d'(4) by (simp add: body_at_def)
  then have "length (drop used bs) \<le> length (drop j body)" by simp
  then obtain ys where ys: "drop j body = drop used bs @ ys" using prefix_split[OF split] by blast
  have "drop (j + length (drop used bs)) body = ys"
    using ys by (metis add.commute append_eq_conv_conj drop_drop)
  then have "v2_at d' st' E fl body ys" using d'(4) by (auto simp: v2_at_def)
  moreover have "ys \<noteq> []" using ys d'(5) by auto
  ultimately show ?thesis
    using v2_partI[OF d'(2) _ _ _ _ d'(1) _ ys] same_config_v2[OF d'(3)] alloc_at_mono[OF alloc, of "off + length bs"] used by auto
next
  fix d' st' n
  assume d': "decode_loop v2_dec_act data bs used d st = Some (Dec_done, n, d', st')" "kept E st st'" "same_config d d'"
    "complete_msg d' st' E (wire_flags fl) body" "fresh_frame V2_flags_ready d'" "n = used + (length body - j)" "n \<le> length bs"
    "drop used bs = drop j body @ drop n bs"
  show ?thesis
    using v2_fullI[OF d'(2) _ _ _ d'(7) d'(1) d'(8) d'(4,5)] same_config_v2[OF d'(3)] alloc_at_mono[OF alloc, of "off + n"] d'(6) by simp
qed

text \<open>The body is in the buffer already.\<close>

lemma v2_in_place_loop:
  assumes d: "complete_msg d st E (wire_flags fl) body" "dec_next d = V2_message_ready" "to_read d = length body" "body \<noteq> []"
    "read_pos d = place_add data used" and xs: "drop used bs = body @ zs"
    and alloc: "alloc_at (v2_alloc d) b (off + length bs) (off + used + length body)"
  shows "v2_result d st E fl body b off bs (drop used bs) body (decode_loop v2_dec_act data bs used d st)"
proof -
  let ?n = "used + length body"
  have used: "used < length bs" using xs d(4) by (metis append_is_Nil_conv drop_eq_Nil linorder_not_le)
  have "length (drop used bs) = length body + length zs" unfolding xs by simp
  then have n: "?n \<le> length bs" "length body \<le> length bs - used" using used by simp_all
  have dn: "drop ?n bs = zs" using xs by (metis add.commute append_eq_conv_conj drop_drop)
  let ?d = "d\<lparr>read_pos := place_add (read_pos d) (length body), to_read := 0\<rparr>"
  have f: "feed (place_add data used) (take (length body) (drop used bs)) d st = Some (?d, st)"
    using d(3,5) xs by (simp add: feed_def)
  have "decode_loop v2_dec_act data bs used d st =
      proceed v2_dec_act data bs ?n (run_actions v2_dec_act (place_add data ?n) (drop ?n bs) ?d st)"
    by (rule loop_phase[OF used _ _ f]) (use d(3) n in simp_all)
  also have "\<dots> = Some (Dec_done, ?n, dec_next_step (Tmp 0) 1 V2_flags_ready ?d, st)"
    using d(2) by (simp add: run_actions_act v2_message_act[simplified])
  finally have r: "decode_loop v2_dec_act data bs used d st = Some (Dec_done, ?n, dec_next_step (Tmp 0) 1 V2_flags_ready ?d, st)" .
  have c: "complete_msg ?d st E (wire_flags fl) body" using d(1) by (simp add: complete_msg_def owned_def)
  show ?thesis
    by (rule v2_fullI[OF _ _ _ _ n(1) r _ finish_frame(1,2)[OF c]])
      (use alloc dn xs in \<open>simp_all add: dec_next_step_def add.assoc\<close>)
qed

text \<open>The size has just been read.\<close>

lemma v2_sized_loop:
  assumes own: "owned d st E" and lim: "\<not> too_big (maxmsgsize d) (length body)" and n: "sizeof_content + length body < 2 ^ 63"
    and alloc: "alloc_at (v2_alloc d) b (off + length bs) (off + used)" and used: "used \<le> length bs"
    and data: "data = At (buf_addr b off)" and fl: "v2_msg_flags d = wire_flags fl"
    and split: "body @ us = drop used bs @ vs" and tr: "to_read d = 0"
    and act: "\<And>p rest. v2_dec_act (dec_next d) p rest d st = v2_dec_size_ready (of_nat (length body)) p rest d st"
  shows "v2_result d st E fl body b off bs (drop used bs) body
    (proceed v2_dec_act data bs used (run_actions v2_dec_act (place_add data used) (drop used bs) d st))"
proof -
  have pa: "place_add data used = At (buf_addr b (off + used))" by (simp add: data buf_addr_def ac_simps)
  have len: "off + used + length (drop used bs) = off + length bs" using used by simp
  obtain d' st' where d': "v2_dec_size_ready (of_nat (length body)) (place_add data used) (drop used bs) d st = Some (Dec_more, d', st')"
    "kept E st st'" "maxmsgsize d' = maxmsgsize d" "v2_zero_copy d' = v2_zero_copy d" "to_read d' = length body" "dec_next d' = V2_message_ready"
    "body = [] \<longrightarrow> complete_msg d' st' E (wire_flags fl) body"
    "body \<noteq> [] \<and> body_at V2_message_ready d' st' E (wire_flags fl) body 0 \<and> alloc_at (v2_alloc d') b (off + length bs) (off + used) \<or>
     body = [] \<and> alloc_at (v2_alloc d') b (off + length bs) (off + used) \<or>
     read_pos d' = place_add data used \<and> length body \<le> length (drop used bs) \<and> complete_msg d' st' E (wire_flags fl) body \<and>
       alloc_at (v2_alloc d') b (off + length bs) (off + used + length body)"
    by (rule size_ready_ok[OF own lim n alloc len pa fl wire_flags_unshared split])
  have run: "run_actions v2_dec_act (place_add data used) (drop used bs) d st = run_actions v2_dec_act (place_add data used) (drop used bs) d' st'"
    using tr act d'(1) run_actions_act[of d v2_dec_act "place_add data used" "drop used bs" st] by simp
  show ?thesis
  proof (cases "body = []")
    case True
    have "run_actions v2_dec_act (place_add data used) (drop used bs) d' st' = Some (Dec_done, dec_next_step (Tmp 0) 1 V2_flags_ready d', st')"
      using True d'(5,6) by (simp add: run_actions_act v2_message_act[simplified])
    then have r: "proceed v2_dec_act data bs used (run_actions v2_dec_act (place_add data used) (drop used bs) d st) =
        Some (Dec_done, used, dec_next_step (Tmp 0) 1 V2_flags_ready d', st')" by (simp add: run)
    have a: "alloc_at (v2_alloc d') b (off + length bs) (off + used)" using d'(8) True by auto
    show ?thesis
      by (rule v2_fullI[OF d'(2) _ _ _ used r _ finish_frame(1,2)[OF d'(7)[rule_format, OF True]]])
        (use True a d'(3,4) in \<open>simp_all add: dec_next_step_def\<close>)
  next
    case False
    have r: "proceed v2_dec_act data bs used (run_actions v2_dec_act (place_add data used) (drop used bs) d st) =
        decode_loop v2_dec_act data bs used d' st'"
      using False d'(5) by (simp add: run run_actions_stop)
    have "v2_result d' st' E fl body b off bs (drop used bs) body (decode_loop v2_dec_act data bs used d' st')"
      using d'(8) False
    proof (elim disjE conjE)
      assume "body_at V2_message_ready d' st' E (wire_flags fl) body 0" "alloc_at (v2_alloc d') b (off + length bs) (off + used)"
      then show ?thesis using v2_body_loop[of d' st' E fl body 0 used bs us vs data b off] used split pa by simp
    next
      assume h: "read_pos d' = place_add data used" "length body \<le> length (drop used bs)" "complete_msg d' st' E (wire_flags fl) body"
        "alloc_at (v2_alloc d') b (off + length bs) (off + used + length body)"
      obtain zs where "drop used bs = body @ zs" using prefix_split[OF split[symmetric] h(2)] by blast
      then show ?thesis by (rule v2_in_place_loop[OF h(3) d'(6,5) False h(1) _ h(4)])
    qed auto
    then show ?thesis using v2_result_extend[where w = "[]"] d'(2-4) r by simp
  qed
qed

lemma v2_size_act:
  assumes "take (length (v2_size_bytes n)) (tmpbuf d) = v2_size_bytes n" "length (tmpbuf d) = 8" "n < 2 ^ 63"
  shows "v2_dec_act (v2_size_step n) p rest d st = v2_dec_size_ready (of_nat n) p rest d st"
proof (cases "n > 255")
  case True
  then have "tmpbuf d = put_uint64 (of_nat n)" using assms(1,2) by (simp add: v2_size_bytes_def)
  then show ?thesis using True by (simp add: v2_size_step_def v2_eight_byte_size_ready_def)
next
  case False
  have "take 1 (tmpbuf d) = [of_nat n]" using assms(1) False by (simp add: v2_size_bytes_def)
  then obtain r where "tmpbuf d = of_nat n # r" by (cases "tmpbuf d") auto
  moreover have "ucast (of_nat n :: byte) = (of_nat n :: 64 word)"
    using False by (simp add: unsigned_of_nat take_bit_nat_eq_self)
  ultimately show ?thesis using False by (simp add: v2_size_step_def v2_one_byte_size_ready_def get_uint8_def)
qed

lemma v2_size_loop:
  assumes at: "tmp_at (v2_size_step (length body)) (v2_size_bytes (length body)) k d" and own: "owned d st E"
    and fl: "v2_msg_flags d = wire_flags fl"
    and lim: "\<not> too_big (maxmsgsize d) (length body)" and n: "sizeof_content + length body < 2 ^ 63"
    and alloc: "alloc_at (v2_alloc d) b (off + length bs) (off + used)" and used: "used \<le> length bs"
    and data: "data = At (buf_addr b off)"
    and split: "(drop k (v2_size_bytes (length body)) @ body) @ us = drop used bs @ vs"
  shows "v2_result d st E fl body b off bs (drop used bs) (drop k (v2_size_bytes (length body)) @ body)
    (decode_loop v2_dec_act data bs used d st)"
proof -
  let ?w = "v2_size_bytes (length body)"
  have pne: "place_add data used \<noteq> Tmp k" using data by simp
  have split': "drop k ?w @ (body @ us) = drop used bs @ vs" using split by simp
  show ?thesis
  proof (rule tmp_loop[where act = v2_dec_act and st = st, OF at used split' pne])
    fix d'
    assume d': "drop used bs \<noteq> drop k ?w" "decode_loop v2_dec_act data bs used d st = Some (Dec_more, length bs, d', st)"
      "tmp_at (v2_size_step (length body)) ?w (k + length (drop used bs)) d'" "dec_msg d' = dec_msg d" "same_config d d'"
    have "length (drop used bs) \<le> length (drop k ?w)" using d'(3) unfolding tmp_at_def length_drop by linarith
    then obtain ys where ys: "drop k ?w = drop used bs @ ys" using prefix_split[OF split'] by blast
    have dk: "drop (k + length (drop used bs)) ?w = ys" using ys by (metis add.commute append_eq_conv_conj drop_drop)
    have at': "v2_at d' st E fl body (ys @ body)"
      using d'(3,4) own fl same_config_v2[OF d'(5)] dk d'(3) unfolding v2_at_def
      by (auto simp: owned_def tmp_at_def)
    have ne: "ys @ body \<noteq> []" using ys d'(1) by auto
    show ?thesis
      by (rule v2_partI[OF kept_refl _ _ _ order_refl d'(2) refl _ ne at'])
        (use same_config_v2[OF d'(5)] alloc_at_mono[OF alloc, of "off + length bs"] used ys in simp_all)
  next
    fix d' m zs
    assume d': "drop used bs = drop k ?w @ zs" "m = used + (length ?w - k)" "drop m bs = zs" "m \<le> length bs"
      "decode_loop v2_dec_act data bs used d st = proceed v2_dec_act data bs m (run_actions v2_dec_act (place_add data m) zs d' st)"
      "dec_msg d' = dec_msg d" "same_config d d'" "dec_next d' = v2_size_step (length body)" "to_read d' = 0" "length (tmpbuf d') = 8"
      "take (length ?w) (tmpbuf d') = ?w"
    note sc = same_config_v2[OF d'(7)]
    have own': "owned d' st E" using own d'(6,10) by (simp add: owned_def)
    have lim': "\<not> too_big (maxmsgsize d') (length body)" using lim sc by simp
    have al': "alloc_at (v2_alloc d') b (off + length bs) (off + m)" using alloc_at_mono[OF alloc, of "off + m"] sc d'(2) by simp
    have fl': "v2_msg_flags d' = wire_flags fl" using fl sc by simp
    have sp: "body @ us = drop m bs @ vs" using split' d'(1,3) by simp
    have act: "v2_dec_act (dec_next d') p rest d' st = v2_dec_size_ready (of_nat (length body)) p rest d' st" for p rest
      unfolding d'(8) by (rule v2_size_act[OF d'(11,10)]) (use n in simp)
    have "v2_result d' st E fl body b off bs (drop m bs) body
        (proceed v2_dec_act data bs m (run_actions v2_dec_act (place_add data m) (drop m bs) d' st))"
      by (rule v2_sized_loop[OF own' lim' n al' d'(4) data fl' sp d'(9) act])
    then have "v2_result d' st E fl body b off bs (drop m bs) body (decode_loop v2_dec_act data bs used d st)"
      unfolding d'(5) d'(3) .
    then show ?thesis unfolding d'(1) d'(3)[symmetric] by (rule v2_result_extend) (use sc in simp_all)
  qed
qed

lemma fresh_tmp_at: "fresh_frame V2_flags_ready d \<Longrightarrow> length (tmpbuf d) = 8 \<Longrightarrow> tmp_at V2_flags_ready [x] 0 d"
  by (simp add: fresh_frame_def tmp_at_def)

lemma v2_flags_act:
  assumes "take 1 (tmpbuf d) = [v2_flag_byte fl (length body)]" "length (tmpbuf d) = 8"
  obtains d' where "v2_dec_act V2_flags_ready p rest d st = Some (Dec_more, d', st)" "dec_msg d' = dec_msg d"
    "tmp_at (v2_size_step (length body)) (v2_size_bytes (length body)) 0 d'" "v2_msg_flags d' = wire_flags fl"
    "maxmsgsize d' = maxmsgsize d" "v2_zero_copy d' = v2_zero_copy d" "v2_alloc d' = v2_alloc d" "to_read d' \<noteq> 0"
    "length (tmpbuf d') = 8"
proof -
  obtain r where r: "tmpbuf d = v2_flag_byte fl (length body) # r" using assms by (cases "tmpbuf d") auto
  let ?w = "v2_size_bytes (length body)"
  let ?d = "dec_next_step (Tmp 0) (length ?w) (v2_size_step (length body)) (d\<lparr>v2_msg_flags := wire_flags fl\<rparr>)"
  have w: "0 < length ?w" "length ?w \<le> 8" using size_bytes_length[of "length body"] by simp_all
  show thesis
  proof (rule that[of ?d])
    show "v2_dec_act V2_flags_ready p rest d st = Some (Dec_more, ?d, st)"
      by (simp add: v2_flags_ready_def r get_uint8_def flag_byte_bits size_bytes_length v2_size_step_def wire_flags_def)
  qed (use w assms(2) in \<open>simp_all add: dec_next_step_def tmp_at_def\<close>)
qed

lemma v2_flags_loop:
  assumes at: "fresh_frame V2_flags_ready d" and own: "owned d st E"
    and lim: "\<not> too_big (maxmsgsize d) (length body)" and n: "sizeof_content + length body < 2 ^ 63"
    and alloc: "alloc_at (v2_alloc d) b (off + length bs) (off + used)" and used: "used \<le> length bs"
    and data: "data = At (buf_addr b off)" and split: "v2_frame fl body @ us = drop used bs @ vs"
  shows "v2_result d st E fl body b off bs (drop used bs) (v2_frame fl body) (decode_loop v2_dec_act data bs used d st)"
proof -
  let ?f = "v2_flag_byte fl (length body)" and ?w = "v2_size_bytes (length body)"
  have at': "tmp_at V2_flags_ready [?f] 0 d" using fresh_tmp_at[OF at] own by (simp add: owned_def)
  have pne: "place_add data used \<noteq> Tmp 0" using data by simp
  have split': "drop 0 [?f] @ (?w @ body @ us) = drop used bs @ vs" using split by (simp add: v2_frame_parts)
  show ?thesis
  proof (rule tmp_loop[where act = v2_dec_act and st = st, OF at' used split' pne])
    fix d'
    assume d': "decode_loop v2_dec_act data bs used d st = Some (Dec_more, length bs, d', st)" "drop used bs \<noteq> drop 0 [?f]"
      "tmp_at V2_flags_ready [?f] (0 + length (drop used bs)) d'" "dec_msg d' = dec_msg d" "same_config d d'"
    have z: "drop used bs = []" using d'(3) by (simp add: tmp_at_def)
    have "v2_at d' st E fl body (v2_frame fl body)"
      using d'(3,4) own z unfolding v2_at_def fresh_frame_def by (simp add: tmp_at_def owned_def)
    then show ?thesis
      by (intro v2_partI[OF kept_refl _ _ _ order_refl d'(1) refl])
        (use same_config_v2[OF d'(5)] alloc_at_mono[OF alloc, of "off + length bs"] used z in \<open>simp_all add: v2_frame_parts\<close>)
  next
    fix d' m zs
    assume d': "drop used bs = drop 0 [?f] @ zs" "m = used + (length [?f] - 0)" "drop m bs = zs" "m \<le> length bs"
      "decode_loop v2_dec_act data bs used d st = proceed v2_dec_act data bs m (run_actions v2_dec_act (place_add data m) zs d' st)"
      "dec_msg d' = dec_msg d" "same_config d d'" "dec_next d' = V2_flags_ready" "to_read d' = 0" "length (tmpbuf d') = 8"
      "take (length [?f]) (tmpbuf d') = [?f]"
    note sc = same_config_v2[OF d'(7)]
    have t1: "take 1 (tmpbuf d') = [?f]" using d'(11) by simp
    obtain d2 where d2: "v2_dec_act V2_flags_ready (place_add data m) zs d' st = Some (Dec_more, d2, st)" "dec_msg d2 = dec_msg d'"
      "tmp_at (v2_size_step (length body)) ?w 0 d2" "v2_msg_flags d2 = wire_flags fl" "maxmsgsize d2 = maxmsgsize d'"
      "v2_zero_copy d2 = v2_zero_copy d'" "v2_alloc d2 = v2_alloc d'" "to_read d2 \<noteq> 0" "length (tmpbuf d2) = 8"
      by (rule v2_flags_act[OF t1 d'(10)])
    have r: "decode_loop v2_dec_act data bs used d st = decode_loop v2_dec_act data bs m d2 st"
      using d'(5,8,9) d2(1,8) by (simp add: run_actions_act run_actions_stop)
    have own2: "owned d2 st E" using own d'(6) d2(2,9) by (simp add: owned_def)
    have lim2: "\<not> too_big (maxmsgsize d2) (length body)" using lim sc d2(5) by simp
    have al2: "alloc_at (v2_alloc d2) b (off + length bs) (off + m)"
      using alloc_at_mono[OF alloc, of "off + m"] sc d2(7) d'(2) by simp
    have sp2: "(drop 0 ?w @ body) @ us = drop m bs @ vs" using split' d'(1,3) by simp
    have "v2_result d2 st E fl body b off bs (drop m bs) (drop 0 ?w @ body) (decode_loop v2_dec_act data bs m d2 st)"
      by (rule v2_size_loop[OF d2(3) own2 d2(4) lim2 n al2 d'(4) data sp2])
    then have "v2_result d st E fl body b off bs ([?f] @ drop m bs) ([?f] @ drop 0 ?w @ body) (decode_loop v2_dec_act data bs m d2 st)"
      by (rule v2_result_extend) (use sc d2 in simp_all)
    then show ?thesis using r d'(1,3) by (simp add: v2_frame_parts)
  qed
qed

text \<open>Whatever of the frame is still to come.\<close>

lemma v2_loop:
  assumes at: "v2_at d st E fl body rem" and lim: "\<not> too_big (maxmsgsize d) (length body)" and n: "sizeof_content + length body < 2 ^ 63"
    and alloc: "alloc_at (v2_alloc d) b (off + length bs) (off + used)" and used: "used \<le> length bs"
    and data: "data = At (buf_addr b off)" and split: "rem @ us = drop used bs @ vs"
  shows "v2_result d st E fl body b off bs (drop used bs) rem (decode_loop v2_dec_act data bs used d st)"
  using at unfolding v2_at_def
proof (elim disjE conjE exE)
  assume "fresh_frame V2_flags_ready d" "owned d st E" "rem = v2_frame fl body"
  then show ?thesis using v2_flags_loop[OF _ _ lim n alloc used data] split by blast
next
  fix k assume "tmp_at (v2_size_step (length body)) (v2_size_bytes (length body)) k d" "owned d st E"
    "v2_msg_flags d = wire_flags fl" "rem = drop k (v2_size_bytes (length body)) @ body"
  then show ?thesis using v2_size_loop[OF _ _ _ lim n alloc used data] split by blast
next
  fix j assume "body_at V2_message_ready d st E (wire_flags fl) body j" "rem = drop j body"
  then show ?thesis using v2_body_loop[OF _ used _ _ alloc] split data by (metis place.distinct(5) place_add.simps(3))
qed

subsection \<open>The decoder provides the interface\<close>

definition v2_valid :: "v2_decoder \<Rightarrow> bytes \<Rightarrow> bool" where
  "v2_valid d body \<longleftrightarrow> \<not> too_big (maxmsgsize d) (length body) \<and> sizeof_content + length body < 2 ^ 63"

text \<open>The size left by \<open>resize\<close> does not matter for the next buffer.\<close>

definition v2_ready :: "v2_decoder \<Rightarrow> bool" where
  "v2_ready d \<longleftrightarrow> (\<exists>b off. alloc_at (sa_resize 0 (v2_alloc d)) b 0 off)"

definition v2_fresh_block :: "64 word \<Rightarrow> v2_decoder \<Rightarrow> bool" where
  "v2_fresh_block a d \<longleftrightarrow> counters (v2_alloc d) a = None \<and> unat a + sizeof_counter + sa_max_size (v2_alloc d) < 2 ^ 63"

text \<open>Received data is in the receive buffer, or has been stored in the body it belongs to.\<close>

definition v2_holds :: "v2_decoder \<Rightarrow> 'z msg_store_scheme \<Rightarrow> place \<Rightarrow> bytes \<Rightarrow> bool" where
  "v2_holds d st p xs \<longleftrightarrow>
     (\<exists>b off. p = At (buf_addr b off) \<and> alloc_at (v2_alloc d) b (off + length xs) off) \<or>
     (\<exists>j mb. p = Body j \<and> read_pos d = p \<and> length xs \<le> to_read d \<and> msg_body (dec_msg d) st = Some mb \<and>
        take (length xs) (drop j mb) = xs \<and> v2_ready d)"

lemma v2_decodes_buffer:
  assumes at: "v2_at d st E fl body rem" and ok: "v2_valid d body" and split: "rem @ us = xs @ vs"
    and p: "p = At (buf_addr b off)" "alloc_at (v2_alloc d) b (off + length xs) off"
  shows "v2_result d st E fl body b off xs xs rem (decode v2_dec_act p xs d st)"
proof -
  have "p \<noteq> read_pos d"
    using at p(1) by (auto simp: v2_at_def fresh_frame_def tmp_at_def body_at_def)
  then have d: "decode v2_dec_act p xs d st = decode_loop v2_dec_act p xs 0 d st" by (simp add: decode_def)
  have l: "\<not> too_big (maxmsgsize d) (length body)" "sizeof_content + length body < 2 ^ 63" using ok by (simp_all add: v2_valid_def)
  have a: "alloc_at (v2_alloc d) b (off + length xs) (off + 0)" using p(2) by simp
  have s: "rem @ us = drop 0 xs @ vs" using split by simp
  show ?thesis unfolding d using v2_loop[OF at l a _ p(1) s] by simp
qed

lemma v2_at_nonempty: "v2_at d st E fl body rem \<Longrightarrow> rem \<noteq> []"
  by (auto simp: v2_at_def v2_frame_parts tmp_at_def body_at_def)

lemma v2_at_owned: "v2_at d st E fl body rem \<Longrightarrow> owned d st E"
  by (auto simp: v2_at_def body_at_def)

lemma v2_at_move:
  "v2_at d st E fl body rem \<Longrightarrow> owned d st' E' \<Longrightarrow> msg_body (dec_msg d) st' = msg_body (dec_msg d) st \<Longrightarrow> v2_at d st' E' fl body rem"
  unfolding v2_at_def body_at_def by metis

lemma alloc_at_resize:
  assumes "alloc_at sa b sz off" "n \<le> sa_max_size sa"
  shows "alloc_at (sa_resize n sa) b n off"
proof -
  have "sa_inv (sa_resize n sa) held" if "sa_inv sa held" for held
    by (rule sa_inv_frame[OF that, of "{}"]) (simp_all add: sa_resize_def)
  then show ?thesis using assms by (auto simp: alloc_at_def sa_resize_def)
qed

lemma v2_ready_alloc: "alloc_at (v2_alloc d) b sz off \<Longrightarrow> v2_ready d"
  using alloc_at_resize[of "v2_alloc d" b sz off 0] by (auto simp: v2_ready_def)

text \<open>Decoding allocates and frees no block.\<close>

definition v2_blocks :: "v2_decoder \<Rightarrow> (64 word \<Rightarrow> bool) \<times> nat" where
  "v2_blocks d = ((\<lambda>b. counters (v2_alloc d) b = None), sa_max_size (v2_alloc d))"

lemma v2_fresh_block_blocks: "v2_blocks d' = v2_blocks d \<Longrightarrow> v2_fresh_block a d' = v2_fresh_block a d"
  by (simp add: v2_blocks_def v2_fresh_block_def fun_eq_iff)

lemma v2_blocks_more: "decoder.more d' = decoder.more d \<Longrightarrow> v2_blocks d' = v2_blocks d"
  by (cases d; cases d') (simp add: v2_blocks_def decoder.defs v2_decoder.defs)

lemma inc_ref_blocks:
  "sa_inc_ref sa = Some sa' \<Longrightarrow> (counters sa' b = None) = (counters sa b = None) \<and> sa_max_size sa' = sa_max_size sa"
  by (auto simp: sa_inc_ref_def opt_simps split: if_splits)

lemma dec_init_size_blocks: "dec_init_size n d st = (r, d', st') \<Longrightarrow> decoder.more d' = decoder.more d"
  by (auto simp: dec_init_size_def split: prod.splits rc.splits)

lemma init_apart_blocks: "v2_init_apart n d st = (q, d', st') \<Longrightarrow> v2_blocks d' = v2_blocks d"
  by (auto simp: v2_init_apart_def split: prod.splits if_splits dest!: dec_init_size_blocks intro: v2_blocks_more)

lemma init_in_place_blocks:
  assumes "v2_init_in_place a n rest d st = Some (q, d', st')"
  shows "v2_blocks d' = v2_blocks d"
proof (cases "n < max_vsm_size")
  case True
  obtain r d1 st1 where 1: "v2_init_apart n d st = (r, d1, st1)" by (cases "v2_init_apart n d st")
  have "decoder.more d' = decoder.more d1"
    using assms True 1 place_write_more[of "Body 0" "take n rest" d1 st1]
    by (auto simp: v2_init_in_place_def opt_simps simp del: place_write.simps split: if_splits)
  then show ?thesis using init_apart_blocks[OF 1] v2_blocks_more by metis
next
  case False
  obtain sa where "sa_inc_ref (advance_content (v2_alloc d)) = Some sa" "v2_alloc d' = sa"
    using assms False by (auto simp: v2_init_in_place_def opt_simps split: if_splits prod.splits)
  then show ?thesis using inc_ref_blocks[of "advance_content (v2_alloc d)" sa] by (simp add: v2_blocks_def advance_content_def fun_eq_iff)
qed

lemma storage_blocks: "v2_storage n p rest d st = Some (q, d', st') \<Longrightarrow> v2_blocks d' = v2_blocks d"
  by (auto simp: v2_storage_def opt_simps split: if_splits place.splits dest: init_apart_blocks init_in_place_blocks)

lemma size_ready_blocks:
  assumes "v2_dec_size_ready n p rest d st = Some (rc, d', st')"
  shows "v2_blocks d' = v2_blocks d"
proof (cases "too_big (maxmsgsize d) (unat n)")
  case True
  then show ?thesis using assms by (simp add: v2_dec_size_ready_def)
next
  case False
  obtain d1 st1 where 1: "dec_close d st = Some (d1, st1)" using assms False by (auto simp: v2_dec_size_ready_def opt_simps)
  obtain q d2 st2 where 2: "v2_storage n p rest d1 st1 = Some (q, d2, st2)"
    using assms False 1 by (auto simp: v2_dec_size_ready_def opt_simps)
  have "v2_blocks d' = v2_blocks d2"
    using assms False 1 2 by (auto simp: v2_dec_size_ready_def opt_simps v2_blocks_def dec_next_step_def split: option.splits)
  also have "\<dots> = v2_blocks d1" by (rule storage_blocks[OF 2])
  also have "\<dots> = v2_blocks d" by (rule v2_blocks_more) (use 1 in \<open>auto simp: dec_close_def opt_simps\<close>)
  finally show ?thesis .
qed

lemma v2_act_blocks: "keeps v2_dec_act v2_blocks"
proof -
  have "v2_blocks d' = v2_blocks d" if a: "v2_dec_act s p rest d st = Some (rc, d', st')" for s p rest d st rc d' and st' :: "'z msg_store_scheme"
  proof (cases s)
    case V2_flags_ready
    then show ?thesis using a by (auto simp: v2_flags_ready_def opt_simps v2_blocks_def dec_next_step_def split: if_splits)
  next
    case V2_one_byte_size_ready
    then show ?thesis using a by (auto simp: v2_one_byte_size_ready_def opt_simps dest: size_ready_blocks)
  next
    case V2_eight_byte_size_ready
    then show ?thesis using a by (auto simp: v2_eight_byte_size_ready_def opt_simps dest: size_ready_blocks)
  next
    case V2_message_ready
    then show ?thesis using a by (auto simp: v2_message_ready_in_def v2_blocks_def dec_next_step_def)
  qed
  then show ?thesis by (auto simp: keeps_def)
qed

lemma v2_decode_blocks: "decode v2_dec_act p xs d st = Some (rc, k, d', st') \<Longrightarrow> v2_fresh_block a d' = v2_fresh_block a d"
  by (rule v2_fresh_block_blocks, rule decode_keep[OF _ v2_act_blocks v2_blocks_more])

lemma v2_decodes:
  assumes at: "v2_at d st E fl body rem" and ok: "v2_valid d body" and h: "v2_holds d st p xs" and ne: "xs \<noteq> []" and split: "rem @ us = xs @ vs"
  shows "\<exists>rc k d' st'. decode v2_dec_act p xs d st = Some (rc, k, d', st') \<and> kept E st st' \<and> k \<le> length xs \<and> v2_valid d' = v2_valid d \<and> v2_ready d' \<and>
        (\<forall>a. v2_fresh_block a d' = v2_fresh_block a d) \<and>
        (rc = Dec_more \<and> k = length xs \<and> (\<exists>ys. rem = xs @ ys \<and> v2_at d' st' E fl body ys) \<or>
         rc = Dec_done \<and> xs = rem @ drop k xs \<and> complete_msg d' st' E (wire_flags fl) body \<and> fresh_frame V2_flags_ready d' \<and>
           (drop k xs \<noteq> [] \<longrightarrow> (\<forall>m st''. v2_holds (d'\<lparr>dec_msg := m\<rparr>) st'' (place_add p k) (drop k xs))))"
  using h[unfolded v2_holds_def]
proof (elim disjE exE conjE)
  fix b off assume p: "p = At (buf_addr b off)" "alloc_at (v2_alloc d) b (off + length xs) off"
  have "v2_result d st E fl body b off xs xs rem (decode v2_dec_act p xs d st)" by (rule v2_decodes_buffer[OF at ok split p])
  then obtain d' st' k where r: "kept E st st'" "maxmsgsize d' = maxmsgsize d" "k \<le> length xs"
    "alloc_at (v2_alloc d') b (off + length xs) (off + k)"
    "(\<exists>ys. decode v2_dec_act p xs d st = Some (Dec_more, k, d', st') \<and> k = length xs \<and> rem = xs @ ys \<and> ys \<noteq> [] \<and> v2_at d' st' E fl body ys) \<or>
      decode v2_dec_act p xs d st = Some (Dec_done, k, d', st') \<and> xs = rem @ drop k xs \<and> complete_msg d' st' E (wire_flags fl) body \<and>
        fresh_frame V2_flags_ready d'"
    unfolding v2_result_def by blast
  have v: "v2_valid d' = v2_valid d" using r(2) by (simp add: v2_valid_def fun_eq_iff)
  have hold: "v2_holds (d'\<lparr>dec_msg := m\<rparr>) st'' (place_add p k) (drop k xs)" for m st''
    unfolding v2_holds_def using r(3,4) p(1)
    by (intro disjI1 exI[of _ b] exI[of _ "off + k"]) (simp add: buf_addr_def add.assoc)
  have "\<forall>a. v2_fresh_block a d' = v2_fresh_block a d" using r(5) v2_decode_blocks by blast
  then show ?thesis using r(1,3,5) v v2_ready_alloc[OF r(4)] hold by blast
next
  fix j mb assume p: "p = Body j" "read_pos d = p" "length xs \<le> to_read d" "msg_body (dec_msg d) st = Some mb" "take (length xs) (drop j mb) = xs"
    "v2_ready d"
  have b: "body_at V2_message_ready d st E (wire_flags fl) body j" "rem = drop j body"
    using at p(1,2) by (auto simp: v2_at_def fresh_frame_def tmp_at_def body_at_def)
  have "length xs \<le> length rem" using p(3) b by (simp add: body_at_def)
  then obtain ys where ys: "drop j body = xs @ ys" using prefix_split[OF split] b(2) by auto
  show ?thesis
  proof (rule body_in_place[where act = v2_dec_act and first = V2_flags_ready, OF b(1) ys p(4,5)])
    show "v2_dec_act V2_message_ready p rest d st = Some (Dec_done, dec_next_step (Tmp 0) 1 V2_flags_ready d, st)"
      for p rest d st by (rule v2_message_act)
  next
    fix d' assume d': "ys \<noteq> []" "decode v2_dec_act (Body j) xs d st = Some (Dec_more, length xs, d', st)" "same_config d d'"
      "body_at V2_message_ready d' st E (wire_flags fl) body (j + length xs)"
    have "drop (j + length xs) body = ys" using ys by (metis add.commute append_eq_conv_conj drop_drop)
    then have "v2_at d' st E fl body ys" using d'(4) by (auto simp: v2_at_def)
    then show ?thesis using d'(2) same_config_v2[OF d'(3)] p(1,6) ys b(2)
      by (intro exI[of _ Dec_more] exI[of _ "length xs"] exI[of _ d'] exI[of _ st]) (simp add: v2_valid_def v2_ready_def v2_fresh_block_def fun_eq_iff)
  next
    fix d' assume d': "ys = []" "decode v2_dec_act (Body j) xs d st = Some (Dec_done, length xs, d', st)" "same_config d d'"
      "complete_msg d' st E (wire_flags fl) body" "fresh_frame V2_flags_ready d'"
    then show ?thesis using same_config_v2[OF d'(3)] p(1,6) ys b(2)
      by (intro exI[of _ Dec_done] exI[of _ "length xs"] exI[of _ d'] exI[of _ st]) (simp add: v2_valid_def v2_ready_def v2_fresh_block_def fun_eq_iff)
  qed
qed

text \<open>Getting a buffer and filling it.\<close>

lemma v2_allocates:
  assumes "v2_ready d" "v2_fresh_block a d"
  obtains b sa where "sa_allocate a (v2_alloc d) = Some (b + of_nat sizeof_counter, sa)" "alloc_at sa b (sa_max_size sa) 0"
    "sa_max_size sa = sa_max_size (v2_alloc d)"
proof -
  obtain b0 off held where al: "alloc_at (sa_resize 0 (v2_alloc d)) b0 0 off" "sa_inv (sa_resize 0 (v2_alloc d)) held"
    using assms(1) by (auto simp: v2_ready_def alloc_at_def)
  have inv: "sa_inv (v2_alloc d) held"
    by (rule sa_inv_frame[OF al(2), of "{}"]) (simp_all add: sa_resize_def)
  have fresh: "counters (v2_alloc d) a = None" using assms(2) by (simp add: v2_fresh_block_def)
  obtain b sa where sa: "sa_allocate a (v2_alloc d) = Some (b + of_nat sizeof_counter, sa)" "sa_inv sa held" "sa_buf sa = Some b"
    "held b = 0" "sa_bufsize sa = sa_max_size sa" "sa_content sa = 0" "sa_max_size sa = sa_max_size (v2_alloc d)"
    "sa_max_counters sa = sa_max_counters (v2_alloc d)" "b = a \<or> sa_buf (v2_alloc d) = Some b"
    by (rule allocate_ok[OF inv fresh])
  have "unat b + sizeof_counter + sa_max_size sa < 2 ^ 63"
    using al(1) assms(2) sa(7,9) by (auto simp: alloc_at_def v2_fresh_block_def sa_resize_def)
  then have "alloc_at sa b (sa_max_size sa) 0" using sa al(1) by (auto simp: alloc_at_def sa_resize_def)
  then show thesis using that sa(1,7) by blast
qed

lemma v2_receives:
  assumes at: "v2_at d st E fl body rem" and rd: "v2_ready d" and fresh: "v2_fresh_block a d"
  shows "\<exists>p n d1. v2_get_buffer a d = Some (p, n, d1) \<and> 0 < n \<and> v2_at d1 st E fl body rem \<and> v2_valid d1 = v2_valid d \<and> v2_ready d1 \<and>
        (fresh_frame V2_flags_ready d \<longrightarrow> fresh_frame V2_flags_ready d1) \<and>
        (\<forall>xs. xs \<noteq> [] \<longrightarrow> length xs \<le> n \<longrightarrow> (\<exists>d2 st2. fill p xs d1 st = Some (d2, st2) \<and> kept E st st2 \<and>
           v2_at (v2_resize_buffer (length xs) d2) st2 E fl body rem \<and> v2_holds (v2_resize_buffer (length xs) d2) st2 p xs \<and>
           v2_valid (v2_resize_buffer (length xs) d2) = v2_valid d \<and> v2_ready (v2_resize_buffer (length xs) d2)))"
proof -
  obtain b sa where sa: "sa_allocate a (v2_alloc d) = Some (b + of_nat sizeof_counter, sa)" "alloc_at sa b (sa_max_size sa) 0"
    by (rule v2_allocates[OF rd fresh])
  have big: "8 < sa_max_size sa" "sa_size sa = sa_max_size sa" using sa(2) by (simp_all add: alloc_at_def sa_size_def)
  let ?d = "d\<lparr>v2_alloc := sa\<rparr>"
  have at1: "v2_at (v2_resize_buffer n ?d) st E fl body rem" for n
    using at by (simp add: v2_at_def v2_resize_buffer_def fresh_frame_def tmp_at_def owned_def body_at_def)
  have al0: "alloc_at (v2_alloc ?d) b (sa_max_size sa) 0" using sa(2) by simp
  have base: "v2_at ?d st E fl body rem" "v2_valid ?d = v2_valid d" "v2_ready ?d"
      "fresh_frame V2_flags_ready d \<longrightarrow> fresh_frame V2_flags_ready ?d"
    using at v2_ready_alloc[OF al0]
    by (simp_all add: v2_at_def fresh_frame_def tmp_at_def owned_def body_at_def v2_valid_def fun_eq_iff)
  have val: "v2_valid (v2_resize_buffer n ?d) = v2_valid d" for n by (simp add: v2_valid_def v2_resize_buffer_def fun_eq_iff)
  show ?thesis
  proof (cases "sa_max_size sa \<le> to_read d")
    case False
    have g: "v2_get_buffer a d = Some (At (buf_addr b 0), sa_max_size sa, ?d)"
      using sa(1) big(2) False by (simp add: v2_get_buffer_def dec_get_buffer_def buf_addr_def)
    have al: "alloc_at (v2_alloc (v2_resize_buffer n ?d)) b n 0" if "n \<le> sa_max_size sa" for n
      using alloc_at_resize[OF sa(2) that] by (simp add: v2_resize_buffer_def)
    show ?thesis
    proof (intro exI conjI allI impI)
      fix xs :: bytes assume xs: "xs \<noteq> []" "length xs \<le> sa_max_size sa"
      show "v2_holds (v2_resize_buffer (length xs) ?d) st (At (buf_addr b 0)) xs"
        using al[OF xs(2)] unfolding v2_holds_def by (intro disjI1 exI[of _ b] exI[of _ 0]) simp
      show "v2_ready (v2_resize_buffer (length xs) ?d)" by (rule v2_ready_alloc[OF al[OF xs(2)]])
    qed (use g big at1 val base in \<open>simp_all add: fill_def\<close>)
  next
    case True
    then obtain j where j: "body_at V2_message_ready d st E (wire_flags fl) body j" "rem = drop j body"
      using at big(1) size_bytes_length[of "length body"] by (auto simp: v2_at_def fresh_frame_def tmp_at_def split: if_splits)
    have g: "v2_get_buffer a d = Some (Body j, to_read d, ?d)"
      using sa(1) big(2) True j(1) by (simp add: v2_get_buffer_def dec_get_buffer_def body_at_def)
    obtain mb where mb: "msg_body (dec_msg d) st = Some mb" "length mb = length body" "take j mb = take j body"
      using j(1) by (auto simp: body_at_def)
    have inv: "store_inv st (add_mset (dec_msg d) E)" and own: "own_msg (dec_msg d)" and tr: "to_read d = length body - j" "read_pos d = Body j" "j < length body"
      using j(1) by (auto simp: body_at_def owned_def)
    have main: "\<exists>d2 st2. fill (Body j) xs ?d st = Some (d2, st2) \<and> kept E st st2 \<and>
        v2_at (v2_resize_buffer (length xs) d2) st2 E fl body rem \<and> v2_holds (v2_resize_buffer (length xs) d2) st2 (Body j) xs \<and>
        v2_valid (v2_resize_buffer (length xs) d2) = v2_valid d \<and> v2_ready (v2_resize_buffer (length xs) d2)"
      if xs: "length xs \<le> to_read d" for xs
    proof -
      have room: "j + length xs \<le> length mb" using xs tr mb(2) by simp
      obtain m' st' where w: "msg_write j xs (dec_msg d) st = Some (m', st')" "store_inv st' (add_mset m' E)" "own_msg m'" "kept E st st'"
        "msg_body m' st' = Some (take j mb @ xs @ drop (j + length xs) mb)" "msg_flags m' = msg_flags (dec_msg d)"
        by (rule msg_write_ok[OF inv own mb(1) room])
      let ?d2 = "?d\<lparr>dec_msg := m'\<rparr>"
      let ?d3 = "v2_resize_buffer (length xs) ?d2"
      have f: "fill (Body j) xs ?d st = Some (?d2, st')" using w(1) by (simp add: fill_def)
      have tk: "take j (take j mb @ xs @ drop (j + length xs) mb) = take j body" "length (take j mb @ xs @ drop (j + length xs) mb) = length body"
        using mb(2,3) room by simp_all
      have "body_at V2_message_ready ?d3 st' E (wire_flags fl) body j"
        using j(1) w(2,3,5,6) own_msg_check[OF w(3)] tk
        by (simp add: body_at_def owned_def v2_resize_buffer_def own_msg_def)
      then have at3: "v2_at ?d3 st' E fl body rem" using j(2) by (auto simp: v2_at_def)
      have rd3: "v2_ready ?d3"
        using alloc_at_resize[OF sa(2), of 0] by (auto simp: v2_ready_def v2_resize_buffer_def sa_resize_def)
      have h3: "v2_holds ?d3 st' (Body j) xs"
        using w(5) rd3 xs tr room mb(2) unfolding v2_holds_def by (intro disjI2) (simp add: v2_resize_buffer_def)
      show ?thesis using f w(4) at3 h3 rd3 by (intro exI[of _ ?d2] exI[of _ st']) (simp add: v2_valid_def v2_resize_buffer_def fun_eq_iff)
    qed
    show ?thesis using g main tr base by (intro exI[of _ "Body j"] exI[of _ "to_read d"] exI[of _ ?d]) simp
  qed
qed

interpretation v2d: frame_decoder v2_dec_act v2_get_buffer v2_resize_buffer V2_flags_ready v2_frame wire_flags
  v2_valid v2_at v2_holds v2_ready v2_fresh_block
proof (unfold_locales, goal_cases)
  case 1 then show ?case by (rule v2_at_owned)
next
  case 2 then show ?case by (rule v2_at_move)
next
  case 3 then show ?case by (rule v2_at_nonempty)
next
  case 4 then show ?case by (simp add: v2_at_def)
next
  case 5 show ?case by (simp add: v2_valid_def fun_eq_iff)
next
  case 6 show ?case by (simp add: v2_ready_def)
next
  case 7 show ?case by (simp add: v2_fresh_block_def)
next
  case 8 then show ?case by (rule v2_decodes)
next
  case 9 then show ?case by (rule v2_receives)
qed

text \<open>A new decoder is ready for the first frame.\<close>

lemma v2_decoder_start:
  assumes d: "v2_decoder_new a n limit zc = Some d" and n: "8 < n" "n < 2 ^ 31" and a: "unat a + sizeof_counter + n < 2 ^ 63"
  shows "v2_ready d" "fresh_frame V2_flags_ready d" "maxmsgsize d = limit" "length (tmpbuf d) = 8" "dec_msg d = msg_blank_new"
    "alloc_at (v2_alloc d) a n 0" "v2_zero_copy d = zc"
proof -
  obtain b sa where sa: "sa_allocate a (sa_new n) = Some (b + of_nat sizeof_counter, sa)" "sa_inv sa (\<lambda>_. 0)" "sa_buf sa = Some b"
    "sa_bufsize sa = sa_max_size sa" "sa_content sa = 0" "sa_max_size sa = sa_max_size (sa_new n)"
    "sa_max_counters sa = sa_max_counters (sa_new n)" "b = a \<or> sa_buf (sa_new n) = Some b"
    by (rule allocate_ok[OF sa_inv_new, of n a]) (simp add: sa_new_def)
  have d': "d = \<lparr>dec_next = V2_flags_ready, read_pos = Tmp 0, to_read = 1, tmpbuf = replicate 8 0, dec_msg = msg_blank_new,
       maxmsgsize = limit, v2_msg_flags = 0, v2_zero_copy = zc, v2_alloc = sa\<rparr>" using d sa(1) by (simp add: v2_decoder_new_def)
  have "alloc_at sa a n 0"
    using sa n a by (auto simp: alloc_at_def sa_new_def intro!: exI[of _ "\<lambda>_. 0"])
  then show al: "alloc_at (v2_alloc d) a n 0" using d' by simp
  then show "v2_ready d" by (rule v2_ready_alloc)
  show "fresh_frame V2_flags_ready d" "maxmsgsize d = limit" "length (tmpbuf d) = 8" "dec_msg d = msg_blank_new" "v2_zero_copy d = zc"
    using d' by (simp_all add: fresh_frame_def)
qed

end
