(* ===== verification/Zmq_Engine.thy ===== *)
theory Zmq_Engine
  imports Zmq_Recv2 Zmq_Links
begin

text \<open>
  The stream engine after its handshake (\<open>src/libzmq/src/stream_engine.cpp\<close>) and the message functions of
  the session behind it (\<open>session_base.cpp\<close>).  The engine reaches its encoder, its decoder and the current
  \<open>next_msg\<close> and \<open>process_msg\<close> through pointers; here they are arguments.  The kernel's side of the
  connection is part of the state: \<open>rx\<close> are the bytes received and not read yet, \<open>tx\<close> the bytes accepted
  for sending.  How many bytes a system call moves is an argument of the event.
\<close>

datatype error_reason = Protocol_error | Connection_error | Timeout_error

datatype peer_state = Peer_open | Peer_closed | Peer_broken

record ('es, 'ds, 'd) stream_engine =
  encoder :: "'es encoder"
  outbytes :: bytes
  output_stopped :: bool
  pollout :: bool
  decoder :: "('ds, 'd) decoder_scheme"
  inpos :: place
  inbytes :: bytes
  input_stopped :: bool
  pollin :: bool
  handshaking :: bool
  io_error :: bool
  failed :: "error_reason option"
  rx :: bytes
  rx_state :: peer_state
  tx :: bytes

text \<open>The engine when the handshake is over and nothing was sent or received since; \<open>bs\<close> has arrived.\<close>

definition engine_start :: "'es encoder \<Rightarrow> ('ds, 'd) decoder_scheme \<Rightarrow> bytes \<Rightarrow> ('es, 'ds, 'd) stream_engine" where
  "engine_start e d bs =
     \<lparr>encoder = e, outbytes = [], output_stopped = False, pollout = True, decoder = d, inpos = At 0, inbytes = [],
      input_stopped = False, pollin = True, handshaking = False, io_error = False, failed = None, rx = bs,
      rx_state = Peer_open, tx = []\<rparr>"

text \<open>\<open>error ()\<close> flushes the session, reports to it and deletes the engine; the session's \<open>engine_error\<close>, which begins
  with \<open>clean_pipes\<close> below, is the next thing to run.  Raw sockets and monitoring are not modelled.\<close>

definition engine_error :: "('z msg_store_scheme \<Rightarrow> 'z msg_store_scheme option) \<Rightarrow> error_reason \<Rightarrow>
    ('es, 'ds, 'd, 'x) stream_engine_scheme \<Rightarrow> 'z msg_store_scheme \<Rightarrow>
    (('es, 'ds, 'd, 'x) stream_engine_scheme \<times> 'z msg_store_scheme) option" where
  "engine_error flush r g st = do { st \<leftarrow> flush st; Some (g\<lparr>failed := Some r\<rparr>, st) }"

subsection \<open>Output\<close>

type_synonym 'z next_msg = "'z msg_store_scheme \<Rightarrow> (msg_t option \<times> 'z msg_store_scheme) option"

text \<open>The batch under construction is \<open>out\<close>; \<open>null\<close> says that \<open>outpos\<close> is still null.\<close>

partial_function (option) fill_batch ::
  "('es, 'z) enc_actions \<Rightarrow> 'z next_msg \<Rightarrow> nat \<Rightarrow> bool \<Rightarrow> bytes \<Rightarrow> 'es encoder \<Rightarrow> 'z msg_store_scheme \<Rightarrow>
   (bytes \<times> 'es encoder \<times> 'z msg_store_scheme) option" where
  "fill_batch act next_msg batch null out e st =
     (if \<not> length out < batch then Some (out, e, st)
      else do {
        (r, st) \<leftarrow> next_msg st;
        (case r of
           None \<Rightarrow> Some (out, e, st)
         | Some m \<Rightarrow> do {
             e \<leftarrow> load_msg act m e st;
             (bs, e, st) \<leftarrow> encode act (if null then None else Some (batch - length out)) e st;
             zmq_assert (bs \<noteq> []);
             fill_batch act next_msg batch False (out @ bs) e st
           })
      })"

declare fill_batch.simps [code]

definition tcp_write :: "nat option \<Rightarrow> bytes \<Rightarrow> nat option" where
  "tcp_write lim bs = map_option (\<lambda>k. min k (length bs)) lim"

definition out_event :: "('es, 'z) enc_actions \<Rightarrow> 'z next_msg \<Rightarrow> nat \<Rightarrow> nat option \<Rightarrow>
    ('es, 'ds, 'd, 'x) stream_engine_scheme \<Rightarrow> 'z msg_store_scheme \<Rightarrow>
    (('es, 'ds, 'd, 'x) stream_engine_scheme \<times> 'z msg_store_scheme) option" where
  "out_event act next_msg batch lim g st = do {
     zmq_assert (failed g = None);
     zmq_assert (\<not> io_error g);
     (g, st) \<leftarrow>
       (if outbytes g \<noteq> [] then Some (g, st)
        else do {
          (out, e, st) \<leftarrow> encode act None (encoder g) st;
          (out, e, st) \<leftarrow> fill_batch act next_msg batch (enc_msg (encoder g) = None) out e st;
          Some (g\<lparr>encoder := e, outbytes := out\<rparr>, st)
        });
     (if outbytes g = [] then Some (g\<lparr>output_stopped := True, pollout := False\<rparr>, st)
      else case tcp_write lim (outbytes g) of
          None \<Rightarrow> Some (g\<lparr>pollout := False\<rparr>, st)
        | Some n \<Rightarrow>
            (let g' = g\<lparr>outbytes := drop n (outbytes g), tx := tx g @ take n (outbytes g)\<rparr>
             in Some (if handshaking g \<and> outbytes g' = [] then g'\<lparr>pollout := False\<rparr> else g', st)))
   }"

definition restart_output :: "('es, 'z) enc_actions \<Rightarrow> 'z next_msg \<Rightarrow> nat \<Rightarrow> nat option \<Rightarrow>
    ('es, 'ds, 'd, 'x) stream_engine_scheme \<Rightarrow> 'z msg_store_scheme \<Rightarrow>
    (('es, 'ds, 'd, 'x) stream_engine_scheme \<times> 'z msg_store_scheme) option" where
  "restart_output act next_msg batch lim g st =
     (if io_error g then Some (g, st)
      else out_event act next_msg batch lim (if output_stopped g then g\<lparr>output_stopped := False, pollout := True\<rparr> else g) st)"

subsection \<open>Input\<close>

type_synonym 'z process_msg = "msg_t \<Rightarrow> 'z msg_store_scheme \<Rightarrow> (rc \<times> msg_t \<times> 'z msg_store_scheme) option"

record ('ds, 'd, 'z) i_decoder =
  decode_actions :: "('ds, 'd, 'z) dec_actions"
  get_buffer :: "64 word \<Rightarrow> ('ds, 'd) decoder_scheme \<Rightarrow> (place \<times> nat \<times> ('ds, 'd) decoder_scheme) option"
  resize_buffer :: "nat \<Rightarrow> ('ds, 'd) decoder_scheme \<Rightarrow> ('ds, 'd) decoder_scheme"

text \<open>The loop over the received bytes; the result is that of the last call, 0 or -1 with \<open>errno\<close>.\<close>

partial_function (option) in_loop ::
  "('ds, 'd, 'z) dec_actions \<Rightarrow> 'z process_msg \<Rightarrow> ('es, 'ds, 'd, 'x) stream_engine_scheme \<Rightarrow> 'z msg_store_scheme \<Rightarrow>
   (rc \<times> ('es, 'ds, 'd, 'x) stream_engine_scheme \<times> 'z msg_store_scheme) option" where
  "in_loop act process_msg g st =
     (if inbytes g = [] then Some (Rc_ok, g, st)
      else do {
        (rc, n, d, st) \<leftarrow> decode act (inpos g) (inbytes g) (decoder g) st;
        zmq_assert (n \<le> length (inbytes g));
        g \<leftarrow> Some (g\<lparr>decoder := d, inpos := place_add (inpos g) n, inbytes := drop n (inbytes g)\<rparr>);
        (case rc of
           Dec_more \<Rightarrow> Some (Rc_ok, g, st)
         | Dec_error e \<Rightarrow> Some (Rc_err e, g, st)
         | Dec_done \<Rightarrow> do {
             (r, m, st) \<leftarrow> process_msg (dec_msg d) st;
             g \<leftarrow> Some (g\<lparr>decoder := d\<lparr>dec_msg := m\<rparr>\<rparr>);
             (if r \<noteq> Rc_ok then Some (r, g, st) else in_loop act process_msg g st)
           })
      })"

declare in_loop.simps [code]

text \<open>\<open>tcp_read\<close> with room for \<open>size\<close> bytes, of which the kernel supplies at most \<open>k\<close>.\<close>

datatype read_result = Read_data bytes | Read_again | Read_closed | Read_failed

definition tcp_read :: "nat \<Rightarrow> nat \<Rightarrow> ('es, 'ds, 'd, 'x) stream_engine_scheme \<Rightarrow> read_result" where
  "tcp_read k n g =
     (if rx g \<noteq> [] then (if min k n = 0 then Read_again else Read_data (take (min k n) (rx g)))
      else case rx_state g of Peer_open \<Rightarrow> Read_again | Peer_closed \<Rightarrow> Read_closed | Peer_broken \<Rightarrow> Read_failed)"

text \<open>The first half of \<open>in_event\<close>: the bytes go where the decoder wants them.  The result says whether to go on.\<close>

definition read_input :: "('ds, 'd, 'z) i_decoder \<Rightarrow> ('z msg_store_scheme \<Rightarrow> 'z msg_store_scheme option) \<Rightarrow> 64 word \<Rightarrow> nat \<Rightarrow> ('es, 'ds, 'd, 'x) stream_engine_scheme \<Rightarrow> 'z msg_store_scheme \<Rightarrow>
    (bool \<times> ('es, 'ds, 'd, 'x) stream_engine_scheme \<times> 'z msg_store_scheme) option" where
  "read_input ops flush a k g st =
     (if inbytes g \<noteq> [] then Some (True, g, st)
      else do {
        (p, n, d) \<leftarrow> get_buffer ops a (decoder g);
        g \<leftarrow> Some (g\<lparr>decoder := d, inpos := p\<rparr>);
        (case tcp_read k n g of
           Read_closed \<Rightarrow> do { (g, st) \<leftarrow> engine_error flush Connection_error g st; Some (False, g, st) }
         | Read_failed \<Rightarrow> do { (g, st) \<leftarrow> engine_error flush Connection_error g st; Some (False, g, st) }
         | Read_again \<Rightarrow> Some (False, g, st)
         | Read_data bs \<Rightarrow> do {
             (d, st) \<leftarrow> fill p bs d st;
             Some (True, g\<lparr>rx := drop (length bs) (rx g), inbytes := bs, decoder := resize_buffer ops (length bs) d\<rparr>, st)
           })
      })"

definition in_event :: "('ds, 'd, 'z) i_decoder \<Rightarrow> 'z process_msg \<Rightarrow> ('z msg_store_scheme \<Rightarrow> 'z msg_store_scheme option) \<Rightarrow>
    64 word \<Rightarrow> nat \<Rightarrow> ('es, 'ds, 'd, 'x) stream_engine_scheme \<Rightarrow> 'z msg_store_scheme \<Rightarrow>
    (('es, 'ds, 'd, 'x) stream_engine_scheme \<times> 'z msg_store_scheme) option" where
  "in_event ops process_msg flush a k g st = do {
     zmq_assert (failed g = None);
     zmq_assert (\<not> io_error g);
     zmq_assert (\<not> handshaking g);
     (if input_stopped g then Some (g\<lparr>io_error := True, pollin := False\<rparr>, st)
      else do {
        (go, g, st) \<leftarrow> read_input ops flush a k g st;
        (if \<not> go then Some (g, st)
         else do {
           (r, g, st) \<leftarrow> in_loop (decode_actions ops) process_msg g st;
           (if r \<noteq> Rc_ok \<and> r \<noteq> Rc_err EAGAIN then engine_error flush Protocol_error g st
            else do {
              g \<leftarrow> Some (if r = Rc_ok then g else g\<lparr>input_stopped := True, pollin := False\<rparr>);
              st \<leftarrow> flush st;
              Some (g, st)
            })
         })
      })
   }"

definition restart_input :: "('ds, 'd, 'z) i_decoder \<Rightarrow> 'z process_msg \<Rightarrow> ('z msg_store_scheme \<Rightarrow> 'z msg_store_scheme option) \<Rightarrow>
    64 word \<Rightarrow> nat \<Rightarrow> ('es, 'ds, 'd, 'x) stream_engine_scheme \<Rightarrow> 'z msg_store_scheme \<Rightarrow>
    (('es, 'ds, 'd, 'x) stream_engine_scheme \<times> 'z msg_store_scheme) option" where
  "restart_input ops process_msg flush a k g st = do {
     zmq_assert (failed g = None);
     zmq_assert (input_stopped g);
     (r, m, st) \<leftarrow> process_msg (dec_msg (decoder g)) st;
     g \<leftarrow> Some (g\<lparr>decoder := (decoder g)\<lparr>dec_msg := m\<rparr>\<rparr>);
     (if r \<noteq> Rc_ok then
        (if r = Rc_err EAGAIN then do { st \<leftarrow> flush st; Some (g, st) }
         else engine_error flush Protocol_error g st)
      else do {
        (r, g, st) \<leftarrow> in_loop (decode_actions ops) process_msg g st;
        (if r = Rc_err EAGAIN then do { st \<leftarrow> flush st; Some (g, st) }
         else if io_error g then engine_error flush Connection_error g st
         else if r \<noteq> Rc_ok then engine_error flush Protocol_error g st
         else do {
           st \<leftarrow> flush st;
           in_event ops process_msg flush a k (g\<lparr>input_stopped := False, pollin := True\<rparr>) st
         })
      })
   }"

subsection \<open>The session\<close>

text \<open>\<open>session_base_t\<close> hands messages to its pipe, which may be gone; commands of the protocol stay with the
  engine.  \<open>incomplete_in\<close> remembers whether the last part pulled has more to come.\<close>

definition session_push :: "nat option \<Rightarrow> msg_t \<Rightarrow> 'z world_scheme \<Rightarrow> (rc \<times> msg_t \<times> 'z world_scheme) option" where
  "session_push pipe m w =
     (if has_flag m flag_command then Some (Rc_ok, m, w)
      else case pipe of
          None \<Rightarrow> Some (Rc_err EAGAIN, m, w)
        | Some p \<Rightarrow> do {
            (ok, m, w) \<leftarrow> pipe_write p m w;
            Some (if ok then (Rc_ok, msg_init m, w) else (Rc_err EAGAIN, m, w))
          })"

definition session_pull :: "nat option \<Rightarrow> msg_t \<Rightarrow> bool \<Rightarrow> 'z world_scheme \<Rightarrow> (rc \<times> msg_t \<times> bool \<times> 'z world_scheme) option" where
  "session_pull pipe m incomplete_in w =
     (case pipe of
        None \<Rightarrow> Some (Rc_err EAGAIN, m, incomplete_in, w)
      | Some p \<Rightarrow> do {
          (ok, m, w) \<leftarrow> pipe_read p m w;
          Some (if ok then (Rc_ok, m, has_flag m flag_more, w) else (Rc_err EAGAIN, m, incomplete_in, w))
        })"

definition session_flush :: "nat option \<Rightarrow> 'z world_scheme \<Rightarrow> 'z world_scheme option" where
  "session_flush pipe w = (case pipe of None \<Rightarrow> Some w | Some p \<Rightarrow> pipe_flush p w)"

text \<open>\<open>clean_pipes\<close>: the rest of a half-read message is dropped.\<close>

partial_function (option) drop_incomplete :: "nat \<Rightarrow> bool \<Rightarrow> 'z world_scheme \<Rightarrow> (bool \<times> 'z world_scheme) option" where
  "drop_incomplete p incomplete_in w =
     (if \<not> incomplete_in then Some (incomplete_in, w)
      else do {
        (r, m, incomplete_in, w) \<leftarrow> session_pull (Some p) msg_blank_new incomplete_in w;
        zmq_assert (r = Rc_ok);
        (r, m, w) \<leftarrow> msg_close m w;
        zmq_assert (r = Rc_ok);
        drop_incomplete p incomplete_in w
      })"

declare drop_incomplete.simps [code]

definition clean_pipes :: "nat option \<Rightarrow> bool \<Rightarrow> 'z world_scheme \<Rightarrow> (bool \<times> 'z world_scheme) option" where
  "clean_pipes pipe incomplete_in w = do {
     p \<leftarrow> pipe;
     w \<leftarrow> pipe_rollback p w;
     w \<leftarrow> pipe_flush p w;
     drop_incomplete p incomplete_in w
   }"

end
