(* ===== verification/Zmq_Send.thy ===== *)
theory Zmq_Send
  imports Zmq_Engine
begin

text \<open>
  What the stream engine sends: the frames of the messages, one after the other, whatever the size of the
  batches, the number of bytes the kernel accepts, and whether a body is copied or handed over in place.
\<close>

subsection \<open>A source of messages\<close>

text \<open>\<open>ready\<close> are the messages the session returns from \<open>pull_msg\<close>, in order.\<close>

record tx_store = msg_store +
  ready :: "msg_t list"

definition next_ready :: "'z tx_store_scheme \<Rightarrow> (msg_t option \<times> 'z tx_store_scheme) option" where
  "next_ready st = Some (case ready st of [] \<Rightarrow> (None, st) | m # ms \<Rightarrow> (Some m, st\<lparr>ready := ms\<rparr>))"

text \<open>A message that can be encoded, with its body.\<close>

definition encodable :: "'z msg_store_scheme \<Rightarrow> msg_t \<Rightarrow> bytes \<Rightarrow> bool" where
  "encodable st m d \<longleftrightarrow> msg_check m \<and> msg_metadata m = None \<and> msg_body m st = Some d \<and> length d + 1 < 2 ^ 64"

definition frames :: "(byte \<Rightarrow> bytes \<Rightarrow> bytes) \<Rightarrow> msg_t list \<Rightarrow> bytes list \<Rightarrow> bytes" where
  "frames frame ms ds = concat (map2 (\<lambda>m d. frame (msg_flags m) d) ms ds)"

lemma frames_simps [simp]:
  "frames frame [] ds = []" "frames frame (m # ms) (d # ds) = frame (msg_flags m) d @ frames frame ms ds"
  by (simp_all add: frames_def)

text \<open>The bytes an encoder has not handed out yet.\<close>

definition pending :: "('step, 'z) enc_actions \<Rightarrow> 'step \<Rightarrow> 'step encoder \<Rightarrow> 'z msg_store_scheme \<Rightarrow> bytes \<Rightarrow> bool" where
  "pending act first e st bs \<longleftrightarrow>
     enc_msg e = None \<and> enc_next e = first \<and> bs = [] \<or> (\<exists>m. enc_msg e = Some m \<and> coming act first st e bs)"

definition loaded :: "'step encoder \<Rightarrow> msg_t multiset" where
  "loaded e = (case enc_msg e of None \<Rightarrow> {#} | Some m \<Rightarrow> {#m#})"

definition tx_inv :: "'step encoder \<Rightarrow> 'z tx_store_scheme \<Rightarrow> msg_t multiset \<Rightarrow> bool" where
  "tx_inv e st E \<longleftrightarrow> store_inv st (loaded e + mset (ready st) + E) \<and>
     (\<forall>m. enc_msg e = Some m \<longrightarrow> msg_check m \<and> msg_metadata m = None)"

lemma store_inv_more: "contents st' = contents st \<Longrightarrow> next_content st' = next_content st \<Longrightarrow> store_inv st' M = store_inv st M"
  by (simp add: store_inv_def)

lemma msg_body_contents: "contents st' = contents st \<Longrightarrow> msg_body m st' = msg_body m st"
  by (simp add: msg_body_def split: msg_type.splits)

text \<open>Closing the message that has been written out.\<close>

lemma close_loaded:
  fixes e :: "'step encoder"
  assumes "tx_inv e st E" "enc_msg e = Some m"
  obtains m' st' where "msg_close m st = Some (Rc_ok, m', st')" "ready st' = ready st"
    "\<And>e' :: 'step encoder. enc_msg e' = None \<Longrightarrow> tx_inv e' st' E" "kept (mset (ready st) + E) st st'"
proof -
  have a: "store_inv st (add_mset m (mset (ready st) + E))" "msg_check m" "msg_metadata m = None"
    using assms by (auto simp: tx_inv_def loaded_def)
  obtain m' st' where c: "msg_close m st = Some (Rc_ok, m', st')" "store_inv st' (mset (ready st) + E)"
    "\<And>x. x \<in># mset (ready st) + E \<Longrightarrow> msg_body x st' = msg_body x st" by (rule msg_close_correct[OF a]) blast
  have mo: "msg_store.more st' = msg_store.more st" by (rule msg_close_more[OF c(1)])
  then have r: "ready st' = ready st" by (cases st; cases st') (simp add: msg_store.defs tx_store.defs)
  show thesis
    by (rule that[OF c(1) r]) (use c(2,3) mo r in \<open>simp_all add: tx_inv_def loaded_def kept_def\<close>)
qed

lemma encodable_kept: "kept M st st' \<Longrightarrow> m \<in># M \<Longrightarrow> encodable st m d \<Longrightarrow> encodable st' m d"
  by (auto simp: kept_def encodable_def)

lemma encodable_list_kept:
  assumes "kept M st st'" "set ms \<subseteq> set_mset M" "list_all2 (encodable st) ms ds"
  shows "list_all2 (encodable st') ms ds"
  unfolding list_all2_conv_all_nth
proof (intro conjI allI impI)
  show "length ms = length ds" using assms(3) by (rule list_all2_lengthD)
next
  fix i assume i: "i < length ms"
  then have "ms ! i \<in># M" using assms(2) nth_mem by blast
  then show "encodable st' (ms ! i) (ds ! i)" by (rule encodable_kept[OF assms(1)]) (rule list_all2_nthD[OF assms(3) i])
qed

text \<open>A run of output events; each is given the number of bytes the kernel accepts.\<close>

fun out_run :: "('es, 'z) enc_actions \<Rightarrow> 'z next_msg \<Rightarrow> nat \<Rightarrow> nat option list \<Rightarrow>
    ('es, 'ds, 'd, 'x) stream_engine_scheme \<Rightarrow> 'z msg_store_scheme \<Rightarrow>
    (('es, 'ds, 'd, 'x) stream_engine_scheme \<times> 'z msg_store_scheme) option" where
  "out_run act nm batch [] g st = Some (g, st)"
| "out_run act nm batch (lim # lims) g st = do { (g, st) \<leftarrow> out_event act nm batch lim g st; out_run act nm batch lims g st }"

definition sender_inv :: "('es, 'z tx_store_ext) enc_actions \<Rightarrow> 'es \<Rightarrow> (byte \<Rightarrow> bytes \<Rightarrow> bytes) \<Rightarrow> nat \<Rightarrow> msg_t list \<Rightarrow> bytes list \<Rightarrow>
    msg_t multiset \<Rightarrow> ('es, 'ds, 'd, 'x) stream_engine_scheme \<Rightarrow> 'z tx_store_scheme \<Rightarrow> bool" where
  "sender_inv act first frame batch ms ds E g st \<longleftrightarrow> (\<exists>ms1 ms2 ds1 ds2 rest. ms = ms1 @ ms2 \<and> ds = ds1 @ ds2 \<and> length ms1 = length ds1 \<and>
     ready st = ms2 \<and> list_all2 (encodable st) ms2 ds2 \<and> tx g @ outbytes g @ rest = frames frame ms1 ds1 \<and>
     pending act first (encoder g) st rest \<and> tx_inv (encoder g) st E \<and> enc_bufsize (encoder g) = batch \<and> failed g = None \<and> \<not> io_error g \<and>
     (output_stopped g \<longrightarrow> ms2 = [] \<and> rest = [] \<and> outbytes g = []))"

text \<open>The contract of an encoder over such a source.\<close>

locale batch_sender = nonempty_framing act first frame
  for act :: "('step, 'z tx_store_ext) enc_actions" and first :: 'step and frame :: "byte \<Rightarrow> bytes \<Rightarrow> bytes"
begin

text \<open>One call of \<open>encode\<close> with something pending.\<close>

lemma encode_pending:
  assumes inv: "tx_inv e st E" and pend: "pending act first e st bs" and m: "enc_msg e = Some m"
  obtains k e' st' where "encode act buf e st = Some (take k bs, e', st')" "pending act first e' st' (drop k bs)" "tx_inv e' st' E"
    "ready st' = ready st" "enc_bufsize e' = enc_bufsize e" "kept (mset (ready st) + E) st st'"
    "enc_msg e' = None \<and> drop k bs = [] \<or> (case buf of None \<Rightarrow> enc_bufsize e | Some n \<Rightarrow> n) \<le> length (take k bs)"
proof -
  obtain m' st1 where c: "msg_close m st = Some (Rc_ok, m', st1)" "ready st1 = ready st"
    "\<And>e' :: 'step encoder. enc_msg e' = None \<Longrightarrow> tx_inv e' st1 E" "kept (mset (ready st) + E) st st1"
    by (rule close_loaded[OF inv m]) blast
  have co: "coming act first st e bs" using pend m by (auto simp: pending_def)
  obtain k e' st2 where k: "encode act buf e st = Some (take k bs, e', st2)"
    "enc_outcome act first (enc_bufsize e) m st st1 (case buf of None \<Rightarrow> enc_bufsize e | Some n \<Rightarrow> n) bs k e' st2"
    by (rule encode_coming[OF co m c(1)])
  from k(2) show thesis unfolding enc_outcome_def
  proof (elim conjE disjE)
    assume "enc_bufsize e' = enc_bufsize e" "k = length bs" "enc_msg e' = None" "enc_next e' = first" "st2 = st1"
    moreover have "tx_inv e' st1 E" by (rule c(3)) (use calculation in simp)
    ultimately show thesis using that[OF k(1)] c(2,4) by (simp add: pending_def)
  next
    assume h: "enc_bufsize e' = enc_bufsize e" "(case buf of None \<Rightarrow> enc_bufsize e | Some n \<Rightarrow> n) \<le> k" "k \<le> length bs"
      "enc_msg e' = Some m" "coming act first st e' (drop k bs)" "st2 = st"
    then have "tx_inv e' st E" using inv m by (simp add: tx_inv_def loaded_def)
    then show thesis using that[OF k(1)] h by (simp add: pending_def)
  qed
qed

text \<open>The loop that fills a batch.\<close>

lemma fill_batch_ok:
  assumes "tx_inv e st E" "pending act first e st []" "enc_msg e = None" "list_all2 (encodable st) (ready st) ds"
    "enc_bufsize e = batch" "0 < batch" "null \<longrightarrow> out = []"
  shows "\<exists>out' e' st' ms1 ms2 ds1 ds2 rest. fill_batch act next_ready batch null out e st = Some (out', e', st') \<and>
    ready st = ms1 @ ms2 \<and> ds = ds1 @ ds2 \<and> length ms1 = length ds1 \<and> ready st' = ms2 \<and>
    out' @ rest = out @ frames frame ms1 ds1 \<and> pending act first e' st' rest \<and> tx_inv e' st' E \<and> enc_bufsize e' = batch \<and>
    list_all2 (encodable st') ms2 ds2 \<and> (length out' < batch \<longrightarrow> ms2 = [] \<and> rest = [])"
  using assms
proof (induction ds arbitrary: e st null out)
  case Nil
  then have "ready st = []" by simp
  then show ?case using Nil
    by (intro exI[of _ out] exI[of _ e] exI[of _ st] exI[of _ "[]"]) (simp add: fill_batch.simps next_ready_def)
next
  case (Cons d ds)
  then obtain m ms where r: "ready st = m # ms" "encodable st m d" "list_all2 (encodable st) ms ds"
    by (auto simp: list_all2_Cons2)
  show ?case
  proof (cases "length out < batch")
    case False
    then show ?thesis using Cons.prems r
      by (intro exI[of _ out] exI[of _ e] exI[of _ st] exI[of _ "[]"] exI[of _ "ready st"] exI[of _ "[]"] exI[of _ "d # ds"] exI[of _ "[]"])
        (simp add: fill_batch.simps)
  next
    case True
    let ?st = "st\<lparr>ready := ms\<rparr>"
    have body: "msg_body m ?st = Some d" and len: "length d + 1 < 2 ^ 64" using r(2) by (simp_all add: encodable_def msg_body_contents[of ?st st])
    have first: "enc_next e = first" using Cons.prems(2,3) by (simp add: pending_def)
    obtain e1 where l: "load_msg act m e ?st = Some e1" "enc_msg e1 = Some m" "enc_bufsize e1 = enc_bufsize e"
      "coming act first ?st e1 (frame (msg_flags m) d)" by (rule load_coming[OF Cons.prems(3) first body len])
    have inv1: "tx_inv e1 ?st E"
      using Cons.prems(1) r(1,2) Cons.prems(3) l(2) store_inv_more[of ?st st] by (simp add: tx_inv_def loaded_def encodable_def)
    have p1: "pending act first e1 ?st (frame (msg_flags m) d)" using l(2,4) by (simp add: pending_def)
    let ?buf = "if null then None else Some (batch - length out)"
    obtain k e2 st2 where k: "encode act ?buf e1 ?st = Some (take k (frame (msg_flags m) d), e2, st2)"
      "pending act first e2 st2 (drop k (frame (msg_flags m) d))" "tx_inv e2 st2 E" "ready st2 = ready ?st" "enc_bufsize e2 = enc_bufsize e1"
      "kept (mset (ready ?st) + E) ?st st2"
      "enc_msg e2 = None \<and> drop k (frame (msg_flags m) d) = [] \<or>
        (case ?buf of None \<Rightarrow> enc_bufsize e1 | Some n \<Rightarrow> n) \<le> length (take k (frame (msg_flags m) d))"
      by (rule encode_pending[OF inv1 p1 l(2)])
    let ?bs = "take k (frame (msg_flags m) d)"
    have room: "(case ?buf of None \<Rightarrow> enc_bufsize e1 | Some n \<Rightarrow> n) = batch - length out"
      using Cons.prems(5,7) l(3) by simp
    have ne: "?bs \<noteq> []"
    proof
      assume z: "?bs = []"
      then have "drop k (frame (msg_flags m) d) \<noteq> []" using frame_nonempty by (metis append_take_drop_id append_Nil)
      then show False using k(7) room True z by simp
    qed
    have step: "fill_batch act next_ready batch null out e st = fill_batch act next_ready batch False (out @ ?bs) e2 st2"
      by (subst fill_batch.simps) (use True r(1) l(1) k(1) ne in \<open>simp add: next_ready_def\<close>)
    have enc2: "list_all2 (encodable st2) ms ds"
      by (rule encodable_list_kept[OF k(6)])
        (use r(3) in \<open>auto simp: encodable_def msg_body_contents[of ?st st] elim: list_all2_mono\<close>)
    show ?thesis
    proof (cases "enc_msg e2 = None")
      case closed: True
      then have d0: "drop k (frame (msg_flags m) d) = []" "?bs = frame (msg_flags m) d" using k(2) by (auto simp: pending_def)
      have e2: "list_all2 (encodable st2) (ready st2) ds" using enc2 k(4) by simp
      have "pending act first e2 st2 []" using k(2) d0(1) by simp
      then obtain out' e' st' ms1 ms2 ds1 ds2 rest where ih:
        "fill_batch act next_ready batch False (out @ ?bs) e2 st2 = Some (out', e', st')"
        "ready st2 = ms1 @ ms2" "ds = ds1 @ ds2" "length ms1 = length ds1" "ready st' = ms2"
        "out' @ rest = (out @ ?bs) @ frames frame ms1 ds1" "pending act first e' st' rest" "tx_inv e' st' E" "enc_bufsize e' = batch"
        "list_all2 (encodable st') ms2 ds2" "length out' < batch \<longrightarrow> ms2 = [] \<and> rest = []"
        using Cons.IH[OF k(3) _ closed e2, of False "out @ ?bs"] k(5) l(3) Cons.prems(5,6) by auto
      show ?thesis
        using ih step r(1) k(4) d0(2)
        by (intro exI[of _ out'] exI[of _ e'] exI[of _ st'] exI[of _ "m # ms1"] exI[of _ ms2] exI[of _ "d # ds1"] exI[of _ ds2] exI[of _ rest]) simp
    next
      case False
      then have full: "\<not> length (out @ ?bs) < batch" using k(7) room by auto
      have "fill_batch act next_ready batch False (out @ ?bs) e2 st2 = Some (out @ ?bs, e2, st2)"
        using full by (simp add: fill_batch.simps)
      then show ?thesis
        using step r(1) k full enc2 l(3) Cons.prems(5)
        by (intro exI[of _ "out @ ?bs"] exI[of _ e2] exI[of _ st2] exI[of _ "[m]"] exI[of _ ms] exI[of _ "[d]"] exI[of _ ds]
            exI[of _ "drop k (frame (msg_flags m) d)"]) simp
    qed
  qed
qed

text \<open>Between output events: what was accepted, what waits to be written and what the encoder still holds are the frames
  of the messages taken so far.\<close>

lemma out_event_ok:
  assumes inv: "sender_inv act first frame batch ms ds E g st" and batch: "0 < batch"
  shows "\<exists>g' st'. out_event act next_ready batch lim g st = Some (g', st') \<and> sender_inv act first frame batch ms ds E g' st'"
proof -
  obtain ms1 ms2 ds1 ds2 rest where s: "ms = ms1 @ ms2" "ds = ds1 @ ds2" "length ms1 = length ds1" "ready st = ms2"
    "list_all2 (encodable st) ms2 ds2" "tx g @ outbytes g @ rest = frames frame ms1 ds1" "pending act first (encoder g) st rest"
    "tx_inv (encoder g) st E" "enc_bufsize (encoder g) = batch" "failed g = None" "\<not> io_error g"
    "output_stopped g \<longrightarrow> ms2 = [] \<and> rest = [] \<and> outbytes g = []"
    using inv by (auto simp: sender_inv_def)
  show ?thesis
  proof (cases "outbytes g = []")
    case False
    show ?thesis
    proof (cases lim)
      case None
      then show ?thesis using False inv s(10,11) by (auto simp: out_event_def tcp_write_def sender_inv_def)
    next
      case (Some k)
      let ?n = "min k (length (outbytes g))"
      let ?g = "g\<lparr>outbytes := drop ?n (outbytes g), tx := tx g @ take ?n (outbytes g)\<rparr>"
      have "(tx g @ take ?n (outbytes g)) @ drop ?n (outbytes g) @ rest = frames frame ms1 ds1"
        using s(6) by (metis append_assoc append_take_drop_id)
      then have i: "sender_inv act first frame batch ms ds E ?g st"
        using s False unfolding sender_inv_def
        by (intro exI[of _ ms1] exI[of _ ms2] exI[of _ ds1] exI[of _ ds2] exI[of _ rest]) simp
      then have "sender_inv act first frame batch ms ds E (?g\<lparr>pollout := False\<rparr>) st" by (simp add: sender_inv_def)
      with i have "sender_inv act first frame batch ms ds E (if handshaking g \<and> outbytes ?g = [] then ?g\<lparr>pollout := False\<rparr> else ?g) st"
        by (split if_split) blast
      moreover have "out_event act next_ready batch lim g st =
          Some (if handshaking g \<and> outbytes ?g = [] then ?g\<lparr>pollout := False\<rparr> else ?g, st)"
        using Some False s(10,11) by (simp add: out_event_def tcp_write_def Let_def)
      ultimately show ?thesis by blast
    qed
  next
    case True
    have "\<exists>out0 e0 st0 r0. encode act None (encoder g) st = Some (out0, e0, st0) \<and> out0 @ r0 = rest \<and> pending act first e0 st0 r0 \<and>
        tx_inv e0 st0 E \<and> ready st0 = ms2 \<and> list_all2 (encodable st0) ms2 ds2 \<and> enc_bufsize e0 = batch \<and>
        (enc_msg e0 = None \<and> r0 = [] \<or> batch \<le> length out0) \<and> (enc_msg (encoder g) = None \<longrightarrow> out0 = [])"
    proof (cases "enc_msg (encoder g)")
      case None
      then show ?thesis using s(4,5,7,8,9) encode_idle[OF None]
        by (intro exI[of _ "[]"] exI[of _ "encoder g"] exI[of _ st] exI[of _ "[]"]) (auto simp: pending_def)
    next
      case (Some m)
      obtain k e' st' where k: "encode act None (encoder g) st = Some (take k rest, e', st')" "pending act first e' st' (drop k rest)"
        "tx_inv e' st' E" "ready st' = ready st" "enc_bufsize e' = enc_bufsize (encoder g)" "kept (mset (ready st) + E) st st'"
        "enc_msg e' = None \<and> drop k rest = [] \<or> (case None of None \<Rightarrow> enc_bufsize (encoder g) | Some n \<Rightarrow> n) \<le> length (take k rest)"
        by (rule encode_pending[OF s(8,7) Some])
      have "list_all2 (encodable st') ms2 ds2" by (rule encodable_list_kept[OF k(6) _ s(5)]) (use s(4) in auto)
      then show ?thesis using k s(4,9) Some
        by (intro exI[of _ "take k rest"] exI[of _ e'] exI[of _ st'] exI[of _ "drop k rest"]) simp
    qed
    then obtain out0 e0 st0 r0 where e0: "encode act None (encoder g) st = Some (out0, e0, st0)" "out0 @ r0 = rest" "pending act first e0 st0 r0"
      "tx_inv e0 st0 E" "ready st0 = ms2" "list_all2 (encodable st0) ms2 ds2" "enc_bufsize e0 = batch"
      "enc_msg e0 = None \<and> r0 = [] \<or> batch \<le> length out0" "enc_msg (encoder g) = None \<longrightarrow> out0 = []" by (elim exE conjE) (rule that)
    have "\<exists>out' e' st' m1 m2 d1 d2 rest'. fill_batch act next_ready batch (enc_msg (encoder g) = None) out0 e0 st0 = Some (out', e', st') \<and>
        ms2 = m1 @ m2 \<and> ds2 = d1 @ d2 \<and> length m1 = length d1 \<and> ready st' = m2 \<and> out' @ rest' = rest @ frames frame m1 d1 \<and>
        pending act first e' st' rest' \<and> tx_inv e' st' E \<and> enc_bufsize e' = batch \<and> list_all2 (encodable st') m2 d2 \<and>
        (length out' < batch \<longrightarrow> m2 = [] \<and> rest' = [])"
    proof (cases "enc_msg e0 = None \<and> r0 = []")
      case t: True
      then have "pending act first e0 st0 []" "list_all2 (encodable st0) (ready st0) ds2" using e0(3,5,6) by simp_all
      from fill_batch_ok[OF e0(4) this(1) _ this(2) e0(7) batch, of "enc_msg (encoder g) = None" out0] show ?thesis
        using t e0(2,5,9) by simp
    next
      case f: False
      then have full: "\<not> length out0 < batch" using e0(8) by auto
      have "fill_batch act next_ready batch (enc_msg (encoder g) = None) out0 e0 st0 = Some (out0, e0, st0)"
        using full by (simp add: fill_batch.simps)
      then show ?thesis using full e0 f
        by (intro exI[of _ out0] exI[of _ e0] exI[of _ st0] exI[of _ "[]"] exI[of _ ms2] exI[of _ "[]"] exI[of _ ds2] exI[of _ r0]) simp
    qed
    then obtain out' e' st' m1 m2 d1 d2 rest' where f:
      "fill_batch act next_ready batch (enc_msg (encoder g) = None) out0 e0 st0 = Some (out', e', st')"
      "ms2 = m1 @ m2" "ds2 = d1 @ d2" "length m1 = length d1" "ready st' = m2" "out' @ rest' = rest @ frames frame m1 d1"
      "pending act first e' st' rest'" "tx_inv e' st' E" "enc_bufsize e' = batch" "list_all2 (encodable st') m2 d2"
      "length out' < batch \<longrightarrow> m2 = [] \<and> rest' = []" by (elim exE conjE) (rule that)
    let ?g = "g\<lparr>encoder := e', outbytes := out'\<rparr>"
    have fr: "frames frame (ms1 @ m1) (ds1 @ d1) = frames frame ms1 ds1 @ frames frame m1 d1" using s(3) by (simp add: frames_def)
    have bytes: "tx g @ out' @ rest' = frames frame (ms1 @ m1) (ds1 @ d1)" using s(6) True f(6) fr by simp
    have go: "out_event act next_ready batch lim g st =
       (if out' = [] then Some (?g\<lparr>output_stopped := True, pollout := False\<rparr>, st')
        else case tcp_write lim out' of None \<Rightarrow> Some (?g\<lparr>pollout := False\<rparr>, st')
          | Some n \<Rightarrow> (let g' = ?g\<lparr>outbytes := drop n out', tx := tx g @ take n out'\<rparr>
             in Some (if handshaking g \<and> outbytes g' = [] then g'\<lparr>pollout := False\<rparr> else g', st')))"
      using True s(10,11) e0(1) f(1) by (cases "tcp_write lim out'") (simp_all add: out_event_def Let_def)
    have keep: "sender_inv act first frame batch ms ds E g1 st'"
      if g1: "tx g1 @ outbytes g1 = tx g @ out'" "encoder g1 = e'" "failed g1 = None" "\<not> io_error g1" "output_stopped g1 \<longrightarrow> out' = []"
        "outbytes g1 = [] \<or> out' \<noteq> []" for g1
    proof -
      have "tx g1 @ outbytes g1 @ rest' = frames frame (ms1 @ m1) (ds1 @ d1)"
        using g1(1) bytes by (metis append_assoc)
      then show ?thesis unfolding sender_inv_def using s(1-3) f g1 batch
        by (intro exI[of _ "ms1 @ m1"] exI[of _ m2] exI[of _ "ds1 @ d1"] exI[of _ d2] exI[of _ rest']) auto
    qed
    have stop: "\<not> output_stopped g" if "out' \<noteq> []"
    proof
      assume "output_stopped g"
      then have "ms2 = []" "rest = []" using s(12) by auto
      then show False using f(2,3,4,6) that by (simp add: frames_def)
    qed
    show ?thesis
    proof (cases "out' = []")
      case t: True
      show ?thesis using go t by (simp, intro keep) (use s(10,11) t in simp_all)
    next
      case ne: False
      show ?thesis
      proof (cases lim)
        case None
        show ?thesis using go ne None by (simp add: tcp_write_def, intro keep) (use s(10,11) ne stop True in simp_all)
      next
        case (Some k)
        let ?n = "min k (length out')"
        let ?g2 = "?g\<lparr>outbytes := drop ?n out', tx := tx g @ take ?n out'\<rparr>"
        have "sender_inv act first frame batch ms ds E ?g2 st'" by (rule keep) (use s(10,11) ne stop in simp_all)
        moreover from this have "sender_inv act first frame batch ms ds E (?g2\<lparr>pollout := False\<rparr>) st'" by (simp add: sender_inv_def)
        ultimately have "sender_inv act first frame batch ms ds E (if handshaking g \<and> outbytes ?g2 = [] then ?g2\<lparr>pollout := False\<rparr> else ?g2) st'"
          by (split if_split) blast
        moreover have "out_event act next_ready batch lim g st =
            Some (if handshaking g \<and> outbytes ?g2 = [] then ?g2\<lparr>pollout := False\<rparr> else ?g2, st')"
          using go ne Some by (simp add: tcp_write_def Let_def)
        ultimately show ?thesis by blast
      qed
    qed
  qed
qed

lemma out_run_ok:
  assumes "sender_inv act first frame batch ms ds E g st" "0 < batch"
  shows "\<exists>g' st'. out_run act next_ready batch lims g st = Some (g', st') \<and> sender_inv act first frame batch ms ds E g' st'"
  using assms(1)
proof (induction lims arbitrary: g st)
  case (Cons lim lims)
  obtain g1 st1 where 1: "out_event act next_ready batch lim g st = Some (g1, st1)" "sender_inv act first frame batch ms ds E g1 st1"
    using out_event_ok[OF Cons.prems assms(2)] by blast
  show ?case using Cons.IH[OF 1(2)] 1(1) by simp
qed simp

end

interpretation v2s: batch_sender v2_enc_act Message_ready v2_frame ..

interpretation v1s: batch_sender v1_enc_act Message_ready v1_frame ..

lemma sender_start:
  assumes "store_inv st (mset (ready st) + E)" "list_all2 (encodable st) (ready st) ds" "enc_bufsize e = batch" "enc_msg e = None"
    "enc_next e = first"
  shows "sender_inv act first frame batch (ready st) ds E (engine_start e d bs) st"
  unfolding sender_inv_def using assms
  by (intro exI[of _ "[]"] exI[of _ "ready st"] exI[of _ "[]"] exI[of _ ds] exI[of _ "[]"])
    (simp add: engine_start_def pending_def tx_inv_def loaded_def)

lemma sender_bytes:
  assumes "sender_inv act first frame batch ms ds E g st"
  shows "\<exists>rest. tx g @ rest = frames frame ms ds \<and> (output_stopped g \<longrightarrow> rest = [])"
proof -
  obtain ms1 ms2 ds1 ds2 rest where s: "ms = ms1 @ ms2" "ds = ds1 @ ds2" "length ms1 = length ds1"
    "tx g @ outbytes g @ rest = frames frame ms1 ds1" "output_stopped g \<longrightarrow> ms2 = [] \<and> rest = [] \<and> outbytes g = []"
    using assms unfolding sender_inv_def by (elim exE conjE) (rule that)
  have "frames frame ms ds = frames frame ms1 ds1 @ frames frame ms2 ds2" using s(1-3) by (simp add: frames_def)
  then have "tx g @ (outbytes g @ rest @ frames frame ms2 ds2) = frames frame ms ds" using s(4) by simp
  moreover have "output_stopped g \<longrightarrow> outbytes g @ rest @ frames frame ms2 ds2 = []" using s(5) by (auto simp: frames_def)
  ultimately show ?thesis by blast
qed

text \<open>C5. The stream engine writes exactly the ZMTP 2.0 frames of the messages it is given, one after the other.  For every
  sequence of output events, every batch size and every number of bytes the kernel accepts, the bytes accepted are a prefix
  of the frames, and all of them once the engine stops polling for output; no event fails an assertion.  So the encoder with
  its state machine, its buffer and its zero-copy exit is equivalent to the function \<open>v2_frame\<close>.\<close>

theorem batches_equal_frames:
  assumes "store_inv st (mset (ready st) + E)" "list_all2 (encodable st) (ready st) ds" "0 < batch"
  shows "\<exists>g st' rest. out_run v2_enc_act next_ready batch lims (engine_start (v2_encoder_new batch) d bs) st = Some (g, st') \<and>
    tx g @ rest = frames v2_frame (ready st) ds \<and> (output_stopped g \<longrightarrow> rest = [])"
proof -
  have "sender_inv v2_enc_act Message_ready v2_frame batch (ready st) ds E (engine_start (v2_encoder_new batch) d bs) st"
    by (rule sender_start[OF assms(1,2)]) (simp_all add: v2_encoder_new_def encoder_new_def)
  from v2s.out_run_ok[OF this assms(3), of lims] obtain g st' where g:
    "out_run v2_enc_act next_ready batch lims (engine_start (v2_encoder_new batch) d bs) st = Some (g, st')"
    "sender_inv v2_enc_act Message_ready v2_frame batch (ready st) ds E g st'" by blast
  then show ?thesis using sender_bytes[OF g(2)] g(1) by blast
qed

text \<open>Two parts of one message, the second longer than a batch.\<close>

definition tx_example :: tx_store where
  "tx_example = \<lparr>contents = [0 \<mapsto> \<lparr>content_data = replicate 300 7, content_ffn = False, content_refcnt = 0\<rparr>], next_content = 1,
     metadata_refs = (\<lambda>_. None), calls_ffn = [],
     ready = [msg_blank_new\<lparr>vsm_data := [1, 2], msg_flags := flag_more\<rparr>,
              msg_blank_new\<lparr>msg_type := Type_lmsg, msg_content := Some 0\<rparr>]\<rparr>"

lemma tx_example_ok:
  "store_inv tx_example (mset (ready tx_example) + {#})"
  "list_all2 (encodable tx_example) (ready tx_example) [[1, 2], replicate 300 7]"
  by (simp_all add: tx_example_def store_inv_def msg_blank_new_def msg_init_def msg_init_base_def is_lmsg_def is_zcmsg_def
      uses_content_def has_flag_def encodable_def msg_check_def msg_body_def msg_flag_defs)

theorem batches_equal_frames_witness:
  "\<exists>g st' rest. out_run v2_enc_act next_ready 16 [Some 3, None, Some 16, Some 500, Some 1]
      (engine_start (v2_encoder_new 16) (v1_decoder_new 0 16 (-1)) []) tx_example = Some (g, st') \<and>
    tx g @ rest = frames v2_frame (ready tx_example) [[1, 2], replicate 300 7] \<and> (output_stopped g \<longrightarrow> rest = [])"
  by (rule batches_equal_frames[OF tx_example_ok]) simp

end
