(* ===== verification/Zmq_Deliver.thy ===== *)
theory Zmq_Deliver
  imports Zmq_Send
begin

text \<open>
  What the stream engine delivers: the messages whose frames arrive, in order, each once, however the bytes
  are cut by the network and by the receive buffers, and however often the pipe behind the session is full.
  The decoder is used through \<open>frame_decoder\<close>, the session through \<open>message_sink\<close>.
\<close>

subsection \<open>The interface of the session\<close>

text \<open>A session pushes to one of \<open>targets\<close>.  \<open>rebase\<close>: what keeps the messages of others keeps the sink.\<close>

definition wire :: "byte \<Rightarrow> bytes \<Rightarrow> (byte \<times> bytes) list" where
  "wire fl body = (if fl AND flag_command \<noteq> 0 then [] else [(fl, body)])"

locale message_sink =
  fixes targets :: "'p set"
    and push :: "'p \<Rightarrow> msg_t \<Rightarrow> 'z msg_store_scheme \<Rightarrow> (rc \<times> msg_t \<times> 'z msg_store_scheme) option"
    and flush :: "'p \<Rightarrow> 'z msg_store_scheme \<Rightarrow> 'z msg_store_scheme option"
    and sinv :: "'z msg_store_scheme \<Rightarrow> msg_t multiset \<Rightarrow> bool"
    and log :: "'z msg_store_scheme \<Rightarrow> (byte \<times> bytes) list"
  assumes rebase: "sinv st (add_mset m E) \<Longrightarrow> \<exists>F. store_inv st (add_mset m F) \<and>
      (\<forall>m' st'. store_inv st' (add_mset m' F) \<longrightarrow> kept F st st' \<longrightarrow> sinv st' (add_mset m' E) \<and> log st' = log st)"
    and accepts: "sinv st (add_mset m E) \<Longrightarrow> t \<in> targets \<Longrightarrow> msg_check m \<Longrightarrow> msg_metadata m = None \<Longrightarrow> msg_body m st = Some body \<Longrightarrow>
      \<exists>r m' st'. push t m st = Some (r, m', st') \<and> sinv st' (add_mset m' E) \<and> msg_check m' \<and> msg_metadata m' = None \<and>
        (r = Rc_ok \<and> log st' = log st @ wire (msg_flags m) body \<or>
         r = Rc_err EAGAIN \<and> m' = m \<and> log st' = log st \<and> msg_body m st' = Some body)"
    and flushes: "sinv st (add_mset m E) \<Longrightarrow> t \<in> targets \<Longrightarrow>
      \<exists>st'. flush t st = Some st' \<and> sinv st' (add_mset m E) \<and> log st' = log st \<and> msg_body m st' = msg_body m st"

subsection \<open>The receiving engine\<close>

definition stream :: "(byte \<Rightarrow> bytes \<Rightarrow> bytes) \<Rightarrow> (byte \<times> bytes) list \<Rightarrow> bytes" where
  "stream frame fs = concat (map (\<lambda>(fl, body). frame fl body) fs)"

lemma stream_simps [simp]: "stream frame [] = []" "stream frame ((fl, body) # fs) = frame fl body @ stream frame fs"
  by (simp_all add: stream_def)

definition wires :: "(byte \<Rightarrow> byte) \<Rightarrow> (byte \<times> bytes) list \<Rightarrow> (byte \<times> bytes) list" where
  "wires mflags fs = concat (map (\<lambda>(fl, body). wire (mflags fl) body) fs)"

lemma wires_simps [simp]:
  "wires mflags [] = []" "wires mflags ((fl, body) # fs) = wire (mflags fl) body @ wires mflags fs"
  "wires mflags (fs @ fs') = wires mflags fs @ wires mflags fs'"
  by (simp_all add: wires_def)

locale stream_receiver =
  frame_decoder act getbuf resize first frame mflags valid at holds ready fresh_block +
  message_sink targets push flush sinv log
  for act :: "('step, 'd, 'z) dec_actions" and getbuf resize and first :: 'step and frame mflags
    and valid :: "('step, 'd) decoder_scheme \<Rightarrow> bytes \<Rightarrow> bool" and at holds ready fresh_block
    and targets :: "'p set" and push flush and sinv :: "'z msg_store_scheme \<Rightarrow> msg_t multiset \<Rightarrow> bool" and log
begin

text \<open>The frames \<open>fs\<close> are still to be delivered, and \<open>bs\<close> are the bytes of them that are still to be decoded.\<close>

definition rx_pos :: "('step, 'd) decoder_scheme \<Rightarrow> 'z msg_store_scheme \<Rightarrow> msg_t multiset \<Rightarrow> (byte \<times> bytes) list \<Rightarrow> bytes \<Rightarrow> bool" where
  "rx_pos d st F fs bs \<longleftrightarrow> ready d \<and> (\<forall>(fl, body) \<in> set fs. valid d body) \<and>
     (case fs of
        [] \<Rightarrow> fresh_frame first d \<and> owned d st F \<and> bs = []
      | (fl, body) # r \<Rightarrow> \<exists>rem. at d st F fl body rem \<and> bs = rem @ stream frame r)"

definition receiving :: "('step, 'd) decoder_scheme \<Rightarrow> 'z msg_store_scheme \<Rightarrow> msg_t multiset \<Rightarrow> (byte \<times> bytes) list \<Rightarrow> bytes \<Rightarrow> bool" where
  "receiving d st E fs bs \<longleftrightarrow> sinv st (add_mset (dec_msg d) E) \<and> (\<exists>F. rx_pos d st F fs bs)"

text \<open>The first of \<open>fs\<close> is decoded, but the pipe was full.\<close>

definition stalled :: "('step, 'd) decoder_scheme \<Rightarrow> 'z msg_store_scheme \<Rightarrow> msg_t multiset \<Rightarrow> (byte \<times> bytes) list \<Rightarrow> bytes \<Rightarrow> bool" where
  "stalled d st E fs bs \<longleftrightarrow> sinv st (add_mset (dec_msg d) E) \<and> ready d \<and> fresh_frame first d \<and> (\<forall>(fl, body) \<in> set fs. valid d body) \<and>
     (\<exists>F fl body r. fs = (fl, body) # r \<and> complete_msg d st F (mflags fl) body \<and> bs = stream frame r)"

lemma pos_owned: "rx_pos d st F fs bs \<Longrightarrow> owned d st F"
  by (auto simp: rx_pos_def split: list.splits dest: at_owned)

lemma pos_move:
  "rx_pos d st F fs bs \<Longrightarrow> owned d st' F' \<Longrightarrow> msg_body (dec_msg d) st' = msg_body (dec_msg d) st \<Longrightarrow> rx_pos d st' F' fs bs"
  unfolding rx_pos_def by (cases fs) (auto dest: at_move)

lemma pos_fresh:
  assumes "fresh_frame first d" "owned d st F" "ready d" "\<forall>(fl, body) \<in> set fs. valid d body"
  shows "rx_pos d st F fs (stream frame fs)"
  using assms at_fresh by (cases fs) (auto simp: rx_pos_def)

text \<open>The decoder's operations may be followed with respect to one environment \<open>F\<close>.\<close>

lemma receiving_base:
  assumes "receiving d st E fs bs"
  obtains F where "rx_pos d st F fs bs"
    "\<And>m' st'. store_inv st' (add_mset m' F) \<Longrightarrow> kept F st st' \<Longrightarrow> sinv st' (add_mset m' E) \<and> log st' = log st"
proof -
  obtain F0 where s: "sinv st (add_mset (dec_msg d) E)" "rx_pos d st F0 fs bs" using assms by (auto simp: receiving_def)
  obtain F where F: "store_inv st (add_mset (dec_msg d) F)"
    "\<forall>m' st'. store_inv st' (add_mset m' F) \<longrightarrow> kept F st st' \<longrightarrow> sinv st' (add_mset m' E) \<and> log st' = log st"
    using rebase[OF s(1)] by blast
  have "owned d st F" using F(1) pos_owned[OF s(2)] by (simp add: owned_def)
  then show thesis using that pos_move[OF s(2)] F(2) by blast
qed

lemma receiving_end: "receiving d st E fs [] \<Longrightarrow> fs = []"
  by (cases fs) (auto simp: receiving_def rx_pos_def dest: at_nonempty)

lemma owned_sinv:
  assumes "sinv st (add_mset (dec_msg d) E)" "msg_check (dec_msg d)" "msg_metadata (dec_msg d) = None" "length (tmpbuf d) = 8"
  shows "\<exists>F. owned d st F"
  using rebase[OF assms(1)] assms(2-) by (auto simp: owned_def)

text \<open>A message is handed over, or the engine stalls.\<close>

lemma push_ok:
  assumes inv: "sinv st (add_mset (dec_msg d) E)" and t: "t \<in> targets" and c: "complete_msg d st F (mflags fl) body"
    and f: "fresh_frame first d" "ready d" "\<forall>(fl, body) \<in> set ((fl, body) # fs). valid d body"
  shows "\<exists>r m' st'. push t (dec_msg d) st = Some (r, m', st') \<and>
    (r = Rc_ok \<and> log st' = log st @ wire (mflags fl) body \<and> receiving (d\<lparr>dec_msg := m'\<rparr>) st' E fs (stream frame fs) \<or>
     r = Rc_err EAGAIN \<and> m' = dec_msg d \<and> log st' = log st \<and> stalled d st' E ((fl, body) # fs) (stream frame fs))"
proof -
  have o: "owned d st F" "msg_flags (dec_msg d) = mflags fl" "msg_body (dec_msg d) st = Some body" using c by (auto simp: complete_msg_def)
  have oo: "msg_check (dec_msg d)" "msg_metadata (dec_msg d) = None" "length (tmpbuf d) = 8" using o(1) by (auto simp: owned_def)
  obtain r m' st' where p: "push t (dec_msg d) st = Some (r, m', st')" "sinv st' (add_mset m' E)" "msg_check m'" "msg_metadata m' = None"
    "r = Rc_ok \<and> log st' = log st @ wire (mflags fl) body \<or>
     r = Rc_err EAGAIN \<and> m' = dec_msg d \<and> log st' = log st \<and> msg_body (dec_msg d) st' = Some body"
    using accepts[OF inv t oo(1,2) o(3)] o(2) by auto
  from p(5) show ?thesis
  proof (elim disjE conjE)
    assume r: "r = Rc_ok" "log st' = log st @ wire (mflags fl) body"
    let ?d = "d\<lparr>dec_msg := m'\<rparr>"
    obtain F' where F': "owned ?d st' F'" using owned_sinv[of st' ?d E] p(2-4) oo(3) by auto
    have "rx_pos ?d st' F' fs (stream frame fs)"
      by (rule pos_fresh[OF _ F']) (use f in \<open>auto simp: fresh_frame_def replace_msg\<close>)
    then have "receiving ?d st' E fs (stream frame fs)" using p(2) by (auto simp: receiving_def)
    then show ?thesis using p(1) r by blast
  next
    assume r: "r = Rc_err EAGAIN" "m' = dec_msg d" "log st' = log st" "msg_body (dec_msg d) st' = Some body"
    obtain F' where F': "owned d st' F'" using owned_sinv[of st' d E] p(2) r(2) oo by auto
    have "complete_msg d st' F' (mflags fl) body" using F' o(2) r(4) by (simp add: complete_msg_def)
    then have "stalled d st' E ((fl, body) # fs) (stream frame fs)" using p(2) r(2) f unfolding stalled_def by blast
    then show ?thesis using p(1) r by blast
  qed
qed

text \<open>The loop over the received bytes.  \<open>moved g g'\<close>: it changes nothing else of the engine.\<close>

definition moved :: "('es, 'step, 'd, 'x) stream_engine_scheme \<Rightarrow> ('es, 'step, 'd, 'x) stream_engine_scheme \<Rightarrow> bool" where
  "moved g g' \<longleftrightarrow> g' = g\<lparr>decoder := decoder g', inpos := inpos g', inbytes := inbytes g'\<rparr> \<and>
     (\<forall>a. fresh_block a (decoder g') = fresh_block a (decoder g))"

definition rest_held :: "('es, 'step, 'd, 'x) stream_engine_scheme \<Rightarrow> bool" where
  "rest_held g \<longleftrightarrow> (inbytes g \<noteq> [] \<longrightarrow> (\<forall>m st. holds ((decoder g)\<lparr>dec_msg := m\<rparr>) st (inpos g) (inbytes g)))"

lemma moved_trans: "moved g g1 \<Longrightarrow> moved g1 g2 \<Longrightarrow> moved g g2"
  by (cases g; cases g1; cases g2) (simp add: moved_def)

lemma movedD:
  assumes "moved g g'"
  shows "rx g' = rx g" "failed g' = failed g" "handshaking g' = handshaking g" "input_stopped g' = input_stopped g"
    "io_error g' = io_error g" "fresh_block a (decoder g') = fresh_block a (decoder g)"
  using assms by (cases g; cases g'; simp add: moved_def)+

lemma in_loop_ok:
  assumes "receiving (decoder g) st E fs (inbytes g @ us)" "inbytes g \<noteq> [] \<longrightarrow> holds (decoder g) st (inpos g) (inbytes g)" "t \<in> targets"
  shows "\<exists>r g' st' fs1 fs2. in_loop act (push t) g st = Some (r, g', st') \<and> fs = fs1 @ fs2 \<and> log st' = log st @ wires mflags fs1 \<and>
    moved g g' \<and>
    (r = Rc_ok \<and> inbytes g' = [] \<and> receiving (decoder g') st' E fs2 us \<or>
     r = Rc_err EAGAIN \<and> rest_held g' \<and> stalled (decoder g') st' E fs2 (inbytes g' @ us))"
  using assms(1,2)
proof (induction fs arbitrary: g st)
  case Nil
  then have "inbytes g = []" "us = []" by (auto simp: receiving_def rx_pos_def)
  then show ?case using Nil
    by (intro exI[of _ Rc_ok] exI[of _ g] exI[of _ st] exI[of _ "[]"]) (simp add: in_loop.simps moved_def)
next
  case (Cons f fs)
  obtain fl body where f: "f = (fl, body)" by (cases f)
  show ?case
  proof (cases "inbytes g = []")
    case True
    then show ?thesis using Cons.prems
      by (intro exI[of _ Rc_ok] exI[of _ g] exI[of _ st] exI[of _ "[]"] exI[of _ "f # fs"]) (simp add: in_loop.simps moved_def)
  next
    case False
    obtain F where F: "rx_pos (decoder g) st F (f # fs) (inbytes g @ us)"
      "\<And>m' st'. store_inv st' (add_mset m' F) \<Longrightarrow> kept F st st' \<Longrightarrow> sinv st' (add_mset m' E) \<and> log st' = log st"
      using receiving_base[OF Cons.prems(1)] by metis
    obtain rem where rem: "at (decoder g) st F fl body rem" "inbytes g @ us = rem @ stream frame fs" "valid (decoder g) body"
      "\<forall>(fl, body) \<in> set fs. valid (decoder g) body" "ready (decoder g)"
      using F(1) f by (auto simp: rx_pos_def)
    have h: "holds (decoder g) st (inpos g) (inbytes g)" using Cons.prems(2) False by simp
    obtain rc k d' st' where d: "decode act (inpos g) (inbytes g) (decoder g) st = Some (rc, k, d', st')" "kept F st st'" "k \<le> length (inbytes g)"
      "valid d' = valid (decoder g)" "ready d'" "\<forall>a. fresh_block a d' = fresh_block a (decoder g)"
      "rc = Dec_more \<and> k = length (inbytes g) \<and> (\<exists>ys. rem = inbytes g @ ys \<and> at d' st' F fl body ys) \<or>
         rc = Dec_done \<and> inbytes g = rem @ drop k (inbytes g) \<and> complete_msg d' st' F (mflags fl) body \<and> fresh_frame first d' \<and>
           (drop k (inbytes g) \<noteq> [] \<longrightarrow> (\<forall>m st''. holds (d'\<lparr>dec_msg := m\<rparr>) st'' (place_add (inpos g) k) (drop k (inbytes g))))"
      using decodes[OF rem(1,3) h False rem(2)[symmetric]] by blast
    let ?g = "g\<lparr>decoder := d', inpos := place_add (inpos g) k, inbytes := drop k (inbytes g)\<rparr>"
    have mv: "moved g ?g" using d(6) by (simp add: moved_def)
    from d(7) show ?thesis
    proof (elim disjE conjE exE)
      fix ys assume c: "rc = Dec_more" "k = length (inbytes g)" "rem = inbytes g @ ys" "at d' st' F fl body ys"
      have o: "owned d' st' F" by (rule at_owned[OF c(4)])
      have "rx_pos d' st' F (f # fs) us" using c rem(2,3,4) d(4,5) f by (auto simp: rx_pos_def)
      moreover have "sinv st' (add_mset (dec_msg d') E)" "log st' = log st" using F(2)[of st' "dec_msg d'"] o d(2) by (auto simp: owned_def)
      ultimately have "receiving d' st' E (f # fs) us" "log st' = log st" by (auto simp: receiving_def)
      moreover have "in_loop act (push t) g st = Some (Rc_ok, ?g, st')"
        by (subst in_loop.simps) (use False d(1,3) c(1) in simp)
      ultimately show ?thesis using mv c(2)
        by (intro exI[of _ Rc_ok] exI[of _ ?g] exI[of _ st'] exI[of _ "[]"] exI[of _ "f # fs"]) simp
    next
      assume c: "rc = Dec_done" "inbytes g = rem @ drop k (inbytes g)" "complete_msg d' st' F (mflags fl) body" "fresh_frame first d'"
        and hold: "drop k (inbytes g) \<noteq> [] \<longrightarrow> (\<forall>m st''. holds (d'\<lparr>dec_msg := m\<rparr>) st'' (place_add (inpos g) k) (drop k (inbytes g)))"
      have bytes: "drop k (inbytes g) @ us = stream frame fs" using rem(2) c(2) by (metis append_assoc same_append_eq)
      have o: "owned d' st' F" using c(3) by (simp add: complete_msg_def)
      have s: "sinv st' (add_mset (dec_msg d') E)" "log st' = log st" using F(2)[of st' "dec_msg d'"] o d(2) by (auto simp: owned_def)
      have val: "\<forall>(fl, body) \<in> set ((fl, body) # fs). valid d' body" using rem(3,4) d(4) by auto
      obtain r m' st2 where p: "push t (dec_msg d') st' = Some (r, m', st2)"
        "r = Rc_ok \<and> log st2 = log st' @ wire (mflags fl) body \<and> receiving (d'\<lparr>dec_msg := m'\<rparr>) st2 E fs (stream frame fs) \<or>
         r = Rc_err EAGAIN \<and> m' = dec_msg d' \<and> log st2 = log st' \<and> stalled d' st2 E ((fl, body) # fs) (stream frame fs)"
        using push_ok[OF s(1) assms(3) c(3,4) d(5) val] by blast
      let ?g2 = "?g\<lparr>decoder := d'\<lparr>dec_msg := m'\<rparr>\<rparr>"
      have mv2: "moved g ?g2" using d(6) by (simp add: moved_def replace_msg)
      have run: "in_loop act (push t) g st = (if r \<noteq> Rc_ok then Some (r, ?g2, st2) else in_loop act (push t) ?g2 st2)"
        by (subst in_loop.simps) (use False d(1,3) c(1) p(1) in simp)
      from p(2) show ?thesis
      proof (elim disjE conjE)
        assume r: "r = Rc_ok" "log st2 = log st' @ wire (mflags fl) body" "receiving (d'\<lparr>dec_msg := m'\<rparr>) st2 E fs (stream frame fs)"
        have "receiving (decoder ?g2) st2 E fs (inbytes ?g2 @ us)" using r(3) bytes by simp
        moreover have "inbytes ?g2 \<noteq> [] \<longrightarrow> holds (decoder ?g2) st2 (inpos ?g2) (inbytes ?g2)" using hold by simp
        ultimately obtain r' g' st3 fs1 fs2 where ih: "in_loop act (push t) ?g2 st2 = Some (r', g', st3)" "fs = fs1 @ fs2"
          "log st3 = log st2 @ wires mflags fs1" "moved ?g2 g'"
          "r' = Rc_ok \<and> inbytes g' = [] \<and> receiving (decoder g') st3 E fs2 us \<or>
           r' = Rc_err EAGAIN \<and> rest_held g' \<and> stalled (decoder g') st3 E fs2 (inbytes g' @ us)"
          using Cons.IH[of ?g2 st2] by blast
        show ?thesis
        proof (intro exI conjI)
          show "in_loop act (push t) g st = Some (r', g', st3)" using run r(1) ih(1) by simp
          show "f # fs = (f # fs1) @ fs2" using ih(2) by simp
          show "log st3 = log st @ wires mflags (f # fs1)" using ih(3) r(2) s(2) f by simp
          show "moved g g'" by (rule moved_trans[OF mv2 ih(4)])
        qed (rule ih(5))
      next
        assume r: "r = Rc_err EAGAIN" "m' = dec_msg d'" "log st2 = log st'" "stalled d' st2 E ((fl, body) # fs) (stream frame fs)"
        have "stalled (decoder ?g2) st2 E (f # fs) (inbytes ?g2 @ us)" using r(2,4) bytes f by simp
        moreover have "rest_held ?g2" using hold by (simp add: rest_held_def)
        ultimately show ?thesis using run r(1,3) s(2) mv2
          by (intro exI[of _ r] exI[of _ ?g2] exI[of _ st2] exI[of _ "[]"] exI[of _ "f # fs"]) simp
      qed
    qed
  qed
qed

text \<open>The invariant of the engine between events; \<open>bs\<close> are the bytes that have not arrived.\<close>

definition rx_inv :: "('es, 'step, 'd, 'x) stream_engine_scheme \<Rightarrow> 'z msg_store_scheme \<Rightarrow> msg_t multiset \<Rightarrow> (byte \<times> bytes) list \<Rightarrow> bytes \<Rightarrow> bool" where
  "rx_inv g st E fs bs \<longleftrightarrow> \<not> handshaking g \<and> failed g \<noteq> Some Protocol_error \<and> (failed g = None \<longrightarrow>
     (if input_stopped g then rest_held g \<and> stalled (decoder g) st E fs (inbytes g @ rx g @ bs)
      else inbytes g = [] \<and> receiving (decoder g) st E fs (rx g @ bs)))"

definition rx_step_ok :: "('z msg_store_scheme) \<Rightarrow> msg_t multiset \<Rightarrow> (byte \<times> bytes) list \<Rightarrow> bytes \<Rightarrow>
    (('es, 'step, 'd, 'x) stream_engine_scheme \<times> 'z msg_store_scheme) option \<Rightarrow> bool" where
  "rx_step_ok st E fs bs r \<longleftrightarrow> (\<exists>g' st' fs1 fs2. r = Some (g', st') \<and> fs = fs1 @ fs2 \<and> log st' = log st @ wires mflags fs1 \<and>
     rx_inv g' st' E fs2 bs)"

definition ops :: "('step, 'd, 'z) i_decoder" where
  "ops = \<lparr>decode_actions = act, get_buffer = getbuf, resize_buffer = resize\<rparr>"

lemma rx_read_ok:
  assumes inv: "rx_inv g st E fs bs" and st: "failed g = None" "\<not> input_stopped g" and a: "fresh_block a (decoder g)" and t: "t \<in> targets"
  shows "\<exists>go g' st'. read_input ops (flush t) a k g st = Some (go, g', st') \<and> log st' = log st \<and> (\<not> go \<longrightarrow> rx_inv g' st' E fs bs) \<and>
    (go \<longrightarrow> \<not> handshaking g' \<and> failed g' = None \<and> \<not> input_stopped g' \<and> receiving (decoder g') st' E fs (inbytes g' @ rx g' @ bs) \<and>
      inbytes g' \<noteq> [] \<and> holds (decoder g') st' (inpos g') (inbytes g'))"
proof -
  have i: "\<not> handshaking g" "inbytes g = []" "receiving (decoder g) st E fs (rx g @ bs)" using inv st by (auto simp: rx_inv_def)
  obtain F where F: "rx_pos (decoder g) st F fs (rx g @ bs)"
    "\<And>m' st'. store_inv st' (add_mset m' F) \<Longrightarrow> kept F st st' \<Longrightarrow> sinv st' (add_mset m' E) \<and> log st' = log st"
    using receiving_base[OF i(3)] by metis
  obtain fl body r where f: "fs = (fl, body) # r \<or> fs = [] \<and> rx g = []" "fs = [] \<longrightarrow> (fl, body) = (0, [])"
  proof (cases fs)
    case Nil then show thesis using that[of 0 "[]" "[]"] F(1) by (simp add: rx_pos_def)
  next
    case (Cons x xs) then show thesis using that by (cases x) auto
  qed
  have rd: "ready (decoder g)" using F(1) by (simp add: rx_pos_def)
  obtain rem where rem: "at (decoder g) st F fl body rem" "fs \<noteq> [] \<longrightarrow> rx g @ bs = rem @ stream frame r"
    "fs = [] \<longrightarrow> fresh_frame first (decoder g)"
  proof (cases fs)
    case Nil
    then have fr: "fresh_frame first (decoder g)" "owned (decoder g) st F" using F(1) by (simp_all add: rx_pos_def)
    show thesis by (rule that[OF at_fresh[OF fr]]) (use Nil fr in simp_all)
  next
    case (Cons x xs)
    then show thesis using that F(1) f(1) by (auto simp: rx_pos_def)
  qed
  obtain p n d1 where g: "getbuf a (decoder g) = Some (p, n, d1)" "0 < n" "at d1 st F fl body rem" "valid d1 = valid (decoder g)" "ready d1"
    "fresh_frame first (decoder g) \<longrightarrow> fresh_frame first d1"
    "\<And>xs. xs \<noteq> [] \<Longrightarrow> length xs \<le> n \<Longrightarrow> \<exists>d2 st2. fill p xs d1 st = Some (d2, st2) \<and> kept F st st2 \<and>
       at (resize (length xs) d2) st2 F fl body rem \<and> holds (resize (length xs) d2) st2 p xs \<and>
       valid (resize (length xs) d2) = valid (decoder g) \<and> ready (resize (length xs) d2)"
    using receives[OF rem(1) rd a] by blast
  let ?g = "g\<lparr>decoder := d1, inpos := p\<rparr>"
  have pos1: "rx_pos d1 st F fs (rx g @ bs)"
  proof (cases fs)
    case Nil
    then show ?thesis using F(1) g(3,5,6) rem(3) at_owned[OF g(3)] by (simp add: rx_pos_def)
  next
    case (Cons x xs)
    then show ?thesis using F(1) g(3,4,5) rem(2) f(1) by (auto simp: rx_pos_def)
  qed
  have s1: "sinv st (add_mset (dec_msg d1) E)" using F(2)[of st "dec_msg d1"] pos_owned[OF pos1] by (simp add: owned_def)
  then have inv1: "rx_inv ?g st E fs bs" using s1 pos1 i st by (auto simp: rx_inv_def receiving_def)
  obtain st1 where fl1: "flush t st = Some st1" "log st1 = log st" "rx_inv (?g\<lparr>failed := Some Connection_error\<rparr>) st1 E fs bs"
    using flushes[OF s1 t] i(1) by (auto simp: rx_inv_def)
  show ?thesis
  proof (cases "tcp_read k n ?g")
    case (Read_data xs)
    then have xs: "rx g \<noteq> []" "xs = take (min k n) (rx g)" "xs \<noteq> []" "length xs \<le> n" by (auto simp: tcp_read_def split: if_splits peer_state.splits)
    then have fs: "fs = (fl, body) # r" using f(1) by auto
    obtain d2 st2 where 2: "fill p xs d1 st = Some (d2, st2)" "kept F st st2" "at (resize (length xs) d2) st2 F fl body rem"
      "holds (resize (length xs) d2) st2 p xs" "valid (resize (length xs) d2) = valid (decoder g)" "ready (resize (length xs) d2)"
      using g(7)[OF xs(3,4)] by blast
    let ?d = "resize (length xs) d2"
    let ?g2 = "?g\<lparr>rx := drop (length xs) (rx g), inbytes := xs, decoder := ?d\<rparr>"
    have bytes: "xs @ drop (length xs) (rx g) = rx g" using xs(2) by (metis append_take_drop_id length_take min_def take_all_iff nat_le_linear)
    have "rx_pos ?d st2 F fs (rx g @ bs)" using F(1) fs 2(3,5,6) rem(2) by (auto simp: rx_pos_def)
    moreover have "sinv st2 (add_mset (dec_msg ?d) E)" "log st2 = log st"
      using F(2)[of st2 "dec_msg ?d"] at_owned[OF 2(3)] 2(2) by (auto simp: owned_def)
    ultimately have "receiving ?d st2 E fs (xs @ drop (length xs) (rx g) @ bs)" "log st2 = log st"
      using bytes by (auto simp: receiving_def simp flip: append_assoc)
    moreover have "read_input ops (flush t) a k g st = Some (True, ?g2, st2)"
      using i(2) g(1) Read_data 2(1) by (simp add: read_input_def ops_def)
    ultimately show ?thesis using i(1) st xs(3) 2(4)
      by (intro exI[of _ True] exI[of _ ?g2] exI[of _ st2]) simp
  next
    case Read_again
    then have "read_input ops (flush t) a k g st = Some (False, ?g, st)" using i(2) g(1) by (simp add: read_input_def ops_def)
    then show ?thesis using inv1 by blast
  next
    case Read_closed
    then have "read_input ops (flush t) a k g st = Some (False, ?g\<lparr>failed := Some Connection_error\<rparr>, st1)"
      using i(2) g(1) fl1(1) by (simp add: read_input_def ops_def engine_error_def)
    then show ?thesis using fl1(2,3) by blast
  next
    case Read_failed
    then have "read_input ops (flush t) a k g st = Some (False, ?g\<lparr>failed := Some Connection_error\<rparr>, st1)"
      using i(2) g(1) fl1(1) by (simp add: read_input_def ops_def engine_error_def)
    then show ?thesis using fl1(2,3) by blast
  qed
qed

text \<open>What others do in between does not matter, as long as they leave the message of the decoder alone.\<close>

lemma rx_inv_env:
  assumes "rx_inv g st E fs bs" "sinv st' (add_mset (dec_msg (decoder g)) E')"
    "msg_body (dec_msg (decoder g)) st' = msg_body (dec_msg (decoder g)) st"
  shows "rx_inv g st' E' fs bs"
proof -
  have "receiving (decoder g) st' E' fs xs" if r: "receiving (decoder g) st E fs xs" for xs
  proof -
    obtain F where F: "rx_pos (decoder g) st F fs xs" using r by (auto simp: receiving_def)
    obtain F' where "owned (decoder g) st' F'" using owned_sinv[OF assms(2)] pos_owned[OF F] by (auto simp: owned_def)
    then show ?thesis using pos_move[OF F _ assms(3)] assms(2) by (auto simp: receiving_def)
  qed
  moreover have "stalled (decoder g) st' E' fs xs" if r: "stalled (decoder g) st E fs xs" for xs
  proof -
    obtain F fl body r where F: "fs = (fl, body) # r" "complete_msg (decoder g) st F (mflags fl) body" "xs = stream frame r"
      using r by (auto simp: stalled_def)
    obtain F' where "owned (decoder g) st' F'" using owned_sinv[OF assms(2)] F(2) by (auto simp: complete_msg_def owned_def)
    then have "complete_msg (decoder g) st' F' (mflags fl) body" using F(2) assms(3) by (simp add: complete_msg_def)
    then show ?thesis using r F(1,3) assms(2) unfolding stalled_def by blast
  qed
  ultimately show ?thesis using assms(1) by (auto simp: rx_inv_def)
qed

lemma flush_step:
  assumes "sinv st (add_mset (dec_msg (decoder g)) E)" "t \<in> targets" "rx_inv g st E fs bs"
  shows "\<exists>st'. flush t st = Some st' \<and> log st' = log st \<and> rx_inv g st' E fs bs"
proof -
  obtain st' where s: "flush t st = Some st'" "sinv st' (add_mset (dec_msg (decoder g)) E)" "log st' = log st"
    "msg_body (dec_msg (decoder g)) st' = msg_body (dec_msg (decoder g)) st" using flushes[OF assms(1,2)] by blast
  have "rx_inv g st' E fs bs" by (rule rx_inv_env[OF assms(3) s(2,4)])
  then show ?thesis using s(1,3) by blast
qed

lemma rx_step_okI:
  "r = Some (g', st') \<Longrightarrow> fs = fs1 @ fs2 \<Longrightarrow> log st' = log st @ wires mflags fs1 \<Longrightarrow> rx_inv g' st' E fs2 bs \<Longrightarrow> rx_step_ok st E fs bs r"
  unfolding rx_step_ok_def by blast

lemma rx_inv_sinv:
  "rx_inv g st E fs bs \<Longrightarrow> failed g = None \<Longrightarrow> sinv st (add_mset (dec_msg (decoder g)) E)"
  by (auto simp: rx_inv_def receiving_def stalled_def split: if_splits)

lemma rx_inv_more:
  assumes "rx_inv g st E fs bs" "decoder g' = decoder g" "inpos g' = inpos g" "inbytes g' = inbytes g" "rx g' = rx g" "failed g' = failed g"
    "handshaking g' = handshaking g" "input_stopped g' = input_stopped g"
  shows "rx_inv g' st E fs bs"
proof -
  have "rest_held g' = rest_held g" using assms by (simp add: rest_held_def)
  then show ?thesis using assms by (simp add: rx_inv_def)
qed

lemma rx_inv_arrive:
  assumes "rx_inv g st E fs (xs @ bs)"
  shows "rx_inv (g\<lparr>rx := rx g @ xs\<rparr>) st E fs bs"
proof -
  have "rest_held (g\<lparr>rx := rx g @ xs\<rparr>) = rest_held g" by (simp add: rest_held_def)
  then show ?thesis using assms by (simp add: rx_inv_def)
qed

lemma in_event_ok:
  assumes inv: "rx_inv g st E fs bs" and st: "failed g = None" "\<not> io_error g" and a: "fresh_block a (decoder g)" and t: "t \<in> targets"
  shows "rx_step_ok st E fs bs (in_event ops (push t) (flush t) a k g st)"
proof -
  have hs: "\<not> handshaking g" using inv by (simp add: rx_inv_def)
  show ?thesis
  proof (cases "input_stopped g")
    case True
    have "rx_inv (g\<lparr>io_error := True, pollin := False\<rparr>) st E fs bs" by (rule rx_inv_more[OF inv]) simp_all
    then show ?thesis using True st hs by (intro rx_step_okI[of _ _ st fs "[]" fs]) (simp_all add: in_event_def)
  next
    case False
    obtain go g1 st1 where 1: "read_input ops (flush t) a k g st = Some (go, g1, st1)" "log st1 = log st" "\<not> go \<longrightarrow> rx_inv g1 st1 E fs bs"
      "go \<longrightarrow> \<not> handshaking g1 \<and> failed g1 = None \<and> \<not> input_stopped g1 \<and> receiving (decoder g1) st1 E fs (inbytes g1 @ rx g1 @ bs) \<and>
        inbytes g1 \<noteq> [] \<and> holds (decoder g1) st1 (inpos g1) (inbytes g1)" using rx_read_ok[OF inv st(1) False a t] by blast
    show ?thesis
    proof (cases go)
      case stop: False
      then show ?thesis using 1 st hs False by (intro rx_step_okI[of _ g1 st1 fs "[]" fs]) (simp_all add: in_event_def)
    next
      case True
      with 1(4) have h: "\<not> handshaking g1" "failed g1 = None" "\<not> input_stopped g1" "receiving (decoder g1) st1 E fs (inbytes g1 @ rx g1 @ bs)"
        "inbytes g1 \<noteq> [] \<longrightarrow> holds (decoder g1) st1 (inpos g1) (inbytes g1)" by auto
      obtain r g2 st2 fs1 fs2 where 2: "in_loop act (push t) g1 st1 = Some (r, g2, st2)" "fs = fs1 @ fs2" "log st2 = log st1 @ wires mflags fs1"
        "moved g1 g2"
        "r = Rc_ok \<and> inbytes g2 = [] \<and> receiving (decoder g2) st2 E fs2 (rx g1 @ bs) \<or>
         r = Rc_err EAGAIN \<and> rest_held g2 \<and> stalled (decoder g2) st2 E fs2 (inbytes g2 @ rx g1 @ bs)"
        using in_loop_ok[OF h(4,5) t] by blast
      have same: "rx g2 = rx g1" "failed g2 = None" "\<not> handshaking g2" "input_stopped g2 = input_stopped g1"
        using movedD[OF 2(4)] h(1,2) by simp_all
      let ?g = "if r = Rc_ok then g2 else g2\<lparr>input_stopped := True, pollin := False\<rparr>"
      have inv2: "rx_inv ?g st2 E fs2 bs" using 2(5) same h(3) by (auto simp: rx_inv_def rest_held_def)
      have f2: "failed ?g = None" using same by simp
      obtain st3 where 3: "flush t st2 = Some st3" "log st3 = log st2" "rx_inv ?g st3 E fs2 bs"
        using flush_step[OF rx_inv_sinv[OF inv2 f2] t inv2] by blast
      have "in_event ops (push t) (flush t) a k g st = Some (?g, st3)"
        using st hs False 1(1) True 2(1,5) 3(1) by (auto simp: in_event_def ops_def)
      then show ?thesis by (rule rx_step_okI[OF _ 2(2) _ 3(3)]) (use 1(2) 2(3) 3(2) in simp)
    qed
  qed
qed

lemma rx_step_ok_trans:
  assumes "rx_step_ok st1 E fs2 bs r" "fs = fs1 @ fs2" "log st1 = log st @ wires mflags fs1"
  shows "rx_step_ok st E fs bs r"
proof -
  obtain g' st' fs3 fs4 where s: "r = Some (g', st')" "fs2 = fs3 @ fs4" "log st' = log st1 @ wires mflags fs3" "rx_inv g' st' E fs4 bs"
    using assms(1) unfolding rx_step_ok_def by blast
  show ?thesis by (rule rx_step_okI[OF s(1) _ _ s(4), of _ "fs1 @ fs3"]) (use assms s in simp_all)
qed

lemma restart_input_ok:
  assumes inv: "rx_inv g st E fs bs" and st: "failed g = None" "input_stopped g" and a: "fresh_block a (decoder g)" and t: "t \<in> targets"
  shows "rx_step_ok st E fs bs (restart_input ops (push t) (flush t) a k g st)"
proof -
  have h: "\<not> handshaking g" "rest_held g" "stalled (decoder g) st E fs (inbytes g @ rx g @ bs)" using inv st by (auto simp: rx_inv_def)
  obtain F fl body fs0 where f: "fs = (fl, body) # fs0" "complete_msg (decoder g) st F (mflags fl) body" "inbytes g @ rx g @ bs = stream frame fs0"
    and c: "sinv st (add_mset (dec_msg (decoder g)) E)" "fresh_frame first (decoder g)" "ready (decoder g)"
      "\<forall>(fl, body) \<in> set fs. valid (decoder g) body" using h(3) by (auto simp: stalled_def)
  obtain r m st1 where p: "push t (dec_msg (decoder g)) st = Some (r, m, st1)"
    "r = Rc_ok \<and> log st1 = log st @ wire (mflags fl) body \<and> receiving ((decoder g)\<lparr>dec_msg := m\<rparr>) st1 E fs0 (stream frame fs0) \<or>
     r = Rc_err EAGAIN \<and> m = dec_msg (decoder g) \<and> log st1 = log st \<and> stalled (decoder g) st1 E ((fl, body) # fs0) (stream frame fs0)"
    using push_ok[OF c(1) t f(2) c(2,3) c(4)[unfolded f(1)]] by blast
  let ?g = "g\<lparr>decoder := (decoder g)\<lparr>dec_msg := m\<rparr>\<rparr>"
  from p(2) show ?thesis
  proof (elim disjE conjE)
    assume r: "r = Rc_err EAGAIN" "m = dec_msg (decoder g)" "log st1 = log st" "stalled (decoder g) st1 E ((fl, body) # fs0) (stream frame fs0)"
    have inv1: "rx_inv ?g st1 E fs bs" using h st r f by (simp add: rx_inv_def rest_held_def)
    obtain st2 where 2: "flush t st1 = Some st2" "log st2 = log st1" "rx_inv ?g st2 E fs bs"
      using flush_step[OF rx_inv_sinv[OF inv1] t inv1] st(1) by auto
    have "restart_input ops (push t) (flush t) a k g st = Some (?g, st2)" using st p(1) r(1) 2(1) by (simp add: restart_input_def)
    then show ?thesis by (rule rx_step_okI[of _ _ _ _ "[]" fs]) (use 2 r(3) in simp_all)
  next
    assume r: "r = Rc_ok" "log st1 = log st @ wire (mflags fl) body" "receiving ((decoder g)\<lparr>dec_msg := m\<rparr>) st1 E fs0 (stream frame fs0)"
    have rc: "receiving (decoder ?g) st1 E fs0 (inbytes ?g @ rx g @ bs)" using r(3) f(3) by simp
    have ho: "inbytes ?g \<noteq> [] \<longrightarrow> holds (decoder ?g) st1 (inpos ?g) (inbytes ?g)" using h(2) by (simp add: rest_held_def)
    obtain r2 g2 st2 fs1 fs2 where 2: "in_loop act (push t) ?g st1 = Some (r2, g2, st2)" "fs0 = fs1 @ fs2" "log st2 = log st1 @ wires mflags fs1"
      "moved ?g g2"
      "r2 = Rc_ok \<and> inbytes g2 = [] \<and> receiving (decoder g2) st2 E fs2 (rx g @ bs) \<or>
       r2 = Rc_err EAGAIN \<and> rest_held g2 \<and> stalled (decoder g2) st2 E fs2 (inbytes g2 @ rx g @ bs)"
      using in_loop_ok[OF rc ho t] by blast
    have same: "rx g2 = rx g" "failed g2 = None" "\<not> handshaking g2" "input_stopped g2" "io_error g2 = io_error g"
      "fresh_block a (decoder g2)"
      using movedD[OF 2(4)] h(1) st a by (simp_all add: replace_msg)
    have fs: "fs = ((fl, body) # fs1) @ fs2" "log st2 = log st @ wires mflags ((fl, body) # fs1)" using f(1) 2(2,3) r(2) by simp_all
    from 2(5) show ?thesis
    proof (elim disjE conjE)
      assume e: "r2 = Rc_err EAGAIN" "rest_held g2" "stalled (decoder g2) st2 E fs2 (inbytes g2 @ rx g @ bs)"
      have inv2: "rx_inv g2 st2 E fs2 bs" using e same by (simp add: rx_inv_def)
      obtain st3 where 3: "flush t st2 = Some st3" "log st3 = log st2" "rx_inv g2 st3 E fs2 bs"
        using flush_step[OF rx_inv_sinv[OF inv2 same(2)] t inv2] by blast
      have "restart_input ops (push t) (flush t) a k g st = Some (g2, st3)"
        using st p(1) r(1) 2(1) e(1) 3(1) by (simp add: restart_input_def ops_def)
      then show ?thesis by (rule rx_step_okI[OF _ fs(1) _ 3(3)]) (use fs 3(2) in simp)
    next
      assume e: "r2 = Rc_ok" "inbytes g2 = []" "receiving (decoder g2) st2 E fs2 (rx g @ bs)"
      show ?thesis
      proof (cases "io_error g2")
        case True
        have "sinv st2 (add_mset (dec_msg (decoder g2)) E)" using e(3) by (simp add: receiving_def)
        then obtain st3 where 3: "flush t st2 = Some st3" "log st3 = log st2" using flushes t by blast
        have i: "rx_inv (g2\<lparr>failed := Some Connection_error\<rparr>) st3 E fs2 bs" using same by (simp add: rx_inv_def)
        have "restart_input ops (push t) (flush t) a k g st = Some (g2\<lparr>failed := Some Connection_error\<rparr>, st3)"
          using st p(1) r(1) 2(1) e(1) True 3(1) by (simp add: restart_input_def ops_def engine_error_def)
        then show ?thesis by (rule rx_step_okI[OF _ fs(1) _ i]) (use fs 3(2) in simp)
      next
        case False
        let ?g3 = "g2\<lparr>input_stopped := False, pollin := True\<rparr>"
        have inv3: "rx_inv ?g3 st2 E fs2 bs" using e same by (simp add: rx_inv_def)
        obtain st3 where 3: "flush t st2 = Some st3" "log st3 = log st2" "rx_inv ?g3 st3 E fs2 bs"
          using flush_step[OF rx_inv_sinv[OF inv3] t inv3] same(2) by auto
        have "rx_step_ok st3 E fs2 bs (in_event ops (push t) (flush t) a k ?g3 st3)"
          by (rule in_event_ok[OF 3(3) _ _ _ t]) (use same False in simp_all)
        moreover have "restart_input ops (push t) (flush t) a k g st = in_event ops (push t) (flush t) a k ?g3 st3"
          using st p(1) r(1) 2(1) e(1) False 3(1) by (simp add: restart_input_def ops_def)
        ultimately show ?thesis using rx_step_ok_trans[OF _ fs(1)] fs(2) 3(2) by metis
      qed
    qed
  qed
qed

end

end
