(* ===== verification/Zmq_Stream.thy ===== *)
theory Zmq_Stream
  imports Zmq_Deliver "HOL-Library.Sublist"
begin

text \<open>
  A connection from end to end: the messages that one stream engine takes from its session are the messages the
  engine of the peer pushes into the pipe of its session, whatever happens to the bytes in between.
\<close>

subsection \<open>The session provides the interface\<close>

text \<open>\<open>delivered\<close> is a record of the messages the session has accepted, with flags and body.\<close>

record wire_world = world +
  delivered :: "(byte \<times> bytes) list"

definition logged_push :: "nat option \<Rightarrow> msg_t \<Rightarrow> 'z wire_world_scheme \<Rightarrow> (rc \<times> msg_t \<times> 'z wire_world_scheme) option" where
  "logged_push pipe m w = do {
     body \<leftarrow> msg_body m w;
     (r, m', w) \<leftarrow> session_push pipe m w;
     Some (r, m', if r = Rc_ok then w\<lparr>delivered := delivered w @ wire (msg_flags m) body\<rparr> else w)
   }"

lemma put_delivered [simp]: "delivered (put_pipe p x w) = delivered w" "delivered (put_upipe k u w) = delivered w"
  by (simp_all add: put_pipe_def put_upipe_def)

lemma write_delivered:
  fixes w :: "'z wire_world_scheme"
  assumes "pipe_write a m w = Some (r, m', w')" "out_normal a w"
  shows "delivered w' = delivered w \<and> contents w' = contents w"
proof -
  obtain ok w1 where 1: "pipe_check_write a w = Some (ok, w1)" using assms(1) by (auto simp: pipe_write_def opt_simps)
  obtain x where x: "pipes w a = Some x" using 1 by (auto simp: pipe_check_write_def opt_simps)
  have w1: "w1 = w \<or> w1 = put_pipe a (x\<lparr>out_active := False\<rparr>) w \<and> \<not> ok"
    using 1 x by (auto simp: pipe_check_write_def split: if_splits)
  show ?thesis
  proof (cases ok)
    case False
    then have "w' = w1" using assms(1) 1 by (simp add: pipe_write_def)
    then show ?thesis using w1 by (auto simp: put_pipe_def)
  next
    case True
    then have "w1 = w" using w1 by blast
    then obtain k u u' w2 y where k: "outpipe x = Some k" "upipes w k = Some u"
      "upipe_write u m (has_flag m flag_more) w = Some (u', m', w2)" "w' = put_pipe a y (put_upipe k u' w2)"
      using assms(1) 1 True x by (auto simp: pipe_write_def opt_simps)
    obtain q where "u = Upipe_normal q" using assms(2) x k(1,2) by (auto simp: out_normal_def)
    then have "w2 = w" using upipe_write_normal k(3) by blast
    then show ?thesis using k(4) by (simp add: put_pipe_def put_upipe_def)
  qed
qed

lemma flush_delivered:
  fixes w :: "'z wire_world_scheme"
  assumes "pipe_flush a w = Some w'"
  shows "delivered w' = delivered w \<and> contents w' = contents w"
proof -
  obtain x where x: "pipes w a = Some x" using assms by (auto simp: pipe_flush_def opt_simps)
  show ?thesis
  proof (cases "state x = Term_ack_sent \<or> outpipe x = None")
    case True
    then have "w' = w" using assms x by (cases "state x = Term_ack_sent") (simp_all add: pipe_flush_def)
    then show ?thesis by simp
  next
    case False
    then obtain k u where k: "outpipe x = Some k" "upipes w k = Some u" using assms x by (auto simp: pipe_flush_def opt_simps)
    obtain ok u' where f: "upipe_flush u = (ok, u')" by fastforce
    have "w' = put_upipe k u' w \<or> send_activate_read (peer x) (put_upipe k u' w) = Some w'"
      using assms x False k f by (simp add: pipe_flush_def del: upipe_flush.simps split: if_splits)
    then show ?thesis by (auto simp: send_activate_read_def send_to_def opt_simps put_upipe_def)
  qed
qed

lemma links_inv_log [simp]: "links_inv L (w\<lparr>delivered := l\<rparr>) E = links_inv L w E"
  by (simp add: links_inv_def pipes_inv_def hs_inv_def out_normal_def store_inv_def shape_def inbox_def)

lemma links_inv_plain: "\<not> is_lmsg m \<Longrightarrow> \<not> is_zcmsg m \<Longrightarrow> links_inv L w (add_mset m E) = links_inv L w E"
  using lk.inv_plain[of "{#m#}" L w E] by (simp add: plain_def)

lemma links_rebase:
  fixes w :: "'z wire_world_scheme"
  assumes "links_inv L w (add_mset m E)"
  shows "\<exists>F. store_inv w (add_mset m F) \<and>
    (\<forall>m' w'. store_inv w' (add_mset m' F) \<longrightarrow> kept F w w' \<longrightarrow> links_inv L w' (add_mset m' E) \<and> delivered w' = delivered w)"
proof -
  obtain H where H: "\<forall>k u. upipes w k = Some u \<longrightarrow> (\<exists>n. upipe_owned u (H k) n)"
    "store_inv w ((\<Sum>k \<in> dom (upipes w). H k) + add_mset m E)"
    using assms by (auto simp: links_inv_def pipes_inv_def)
  have fin: "finite (dom (upipes w))" "\<forall>k \<in> dom (upipes w). k < next_upipe w"
    using assms by (auto simp: links_inv_def pipes_inv_def)
  let ?F = "(\<Sum>k \<in> dom (upipes w). H k) + E"
  have main: "links_inv L w' (add_mset m' E) \<and> delivered w' = delivered w"
    if s: "store_inv w' (add_mset m' ?F)" "kept ?F w w'" for m' and w' :: "'z wire_world_scheme"
  proof -
    have mo: "msg_store.more w' = msg_store.more w" using s(2) by (simp add: kept_def)
    have st: "store_inv w' ((\<Sum>k \<in> dom (upipes w). H k) + add_mset m' E)" using s(1) by simp
    have "pipes_inv w' (add_mset m' E)"
      unfolding pipes_inv_def world_more[OF mo] by (intro conjI exI[of _ H] fin H(1) st)
    moreover have "delivered w' = delivered w" using mo by (cases w; cases w') simp
    ultimately show ?thesis using links_inv_more[OF assms _ mo] by blast
  qed
  have st: "store_inv w (add_mset m ?F)" using H(2) by simp
  show ?thesis by (rule exI[of _ ?F], rule conjI[OF st], intro allI impI) (rule main)
qed

text \<open>A session without a pipe has no room; otherwise its pipe is one of the ends of \<open>L\<close>.\<close>

definition session_pipes :: "(nat \<times> nat) set \<Rightarrow> nat option set" where
  "session_pipes L = insert None (Some ` fst ` L)"

lemma init_plain [simp]: "\<not> is_lmsg (msg_init m)" "\<not> is_zcmsg (msg_init m)" "msg_check (msg_init m)" "msg_metadata (msg_init m) = None"
  by (simp_all add: msg_init_def msg_init_base_def is_lmsg_def is_zcmsg_def msg_check_def)

lemma body_has: "msg_body m st = Some d \<Longrightarrow> has_body m"
  by (auto simp: msg_body_def has_body_def is_vsm_def is_cmsg_def is_lmsg_def is_zcmsg_def split: msg_type.splits)

lemma session_accepts:
  fixes w :: "'z wire_world_scheme"
  assumes inv: "links_inv L w (add_mset m E)" and t: "pipe \<in> session_pipes L" and m: "msg_check m" "msg_metadata m = None"
    "msg_body m w = Some body"
  shows "\<exists>r m' w'. logged_push pipe m w = Some (r, m', w') \<and> links_inv L w' (add_mset m' E) \<and> msg_check m' \<and> msg_metadata m' = None \<and>
    (r = Rc_ok \<and> delivered w' = delivered w @ wire (msg_flags m) body \<or>
     r = Rc_err EAGAIN \<and> m' = m \<and> delivered w' = delivered w \<and> msg_body m w' = Some body)"
proof (cases "has_flag m flag_command")
  case True
  then have "wire (msg_flags m) body = []" by (simp add: wire_def has_flag_def)
  then show ?thesis using True inv m by (intro exI[of _ Rc_ok] exI[of _ m] exI[of _ w]) (simp add: logged_push_def session_push_def)
next
  case False
  show ?thesis
  proof (cases pipe)
    case None
    then show ?thesis using False inv m by (intro exI[of _ "Rc_err EAGAIN"] exI[of _ m] exI[of _ w]) (simp add: logged_push_def session_push_def)
  next
    case (Some p)
    then have p: "p \<in> fst ` L" using t by (auto simp: session_pipes_def)
    then obtain b where ab: "(p, b) \<in> L" by auto
    have x: "out_normal p w" using links_invD[OF inv ab] by blast
    have sd: "sendable m" using m body_has by (auto simp: sendable_def)
    obtain r w' where w': "pipe_write p m w = Some (r, m, w')" "links_inv L w' (if r then E else add_mset m E)"
      using lk.inv_write[OF inv p sd] by blast
    have lg: "delivered w' = delivered w" using write_delivered[OF w'(1) x] by blast
    show ?thesis
    proof (cases r)
      case True
      have "links_inv L w' (add_mset (msg_init m) E)" using w'(2) True by (simp add: links_inv_plain)
      then show ?thesis using False Some True w'(1) lg m
        by (intro exI[of _ Rc_ok] exI[of _ "msg_init m"] exI[of _ "w'\<lparr>delivered := delivered w @ wire (msg_flags m) body\<rparr>"])
          (simp add: logged_push_def session_push_def)
    next
      case r: False
      have "msg_body m w' = Some body" using write_delivered[OF w'(1) x] m(3) msg_body_contents[of w' w] by simp
      then show ?thesis using False Some r w' lg m
        by (intro exI[of _ "Rc_err EAGAIN"] exI[of _ m] exI[of _ w']) (simp add: logged_push_def session_push_def)
    qed
  qed
qed

lemma session_flushes:
  fixes w :: "'z wire_world_scheme"
  assumes inv: "links_inv L w (add_mset m E)" and t: "pipe \<in> session_pipes L"
  shows "\<exists>w'. session_flush pipe w = Some w' \<and> links_inv L w' (add_mset m E) \<and> delivered w' = delivered w \<and> msg_body m w' = msg_body m w"
proof (cases pipe)
  case None
  then show ?thesis using inv by (simp add: session_flush_def)
next
  case (Some p)
  then have p: "p \<in> fst ` L" using t by (auto simp: session_pipes_def)
  obtain w' where w': "pipe_flush p w = Some w'" "links_inv L w' (add_mset m E)" using lk.inv_flush[OF inv p] by blast
  then show ?thesis using Some flush_delivered[OF w'(1)] msg_body_contents[of w' w] by (simp add: session_flush_def)
qed

interpretation ses: message_sink "session_pipes L" logged_push session_flush "links_inv L" delivered for L
proof (unfold_locales, goal_cases)
  case 1 then show ?case by (rule links_rebase)
next
  case 2 then show ?case by (rule session_accepts)
next
  case 3 then show ?case by (rule session_flushes)
qed

interpretation v2r: stream_receiver v2_dec_act v2_get_buffer v2_resize_buffer V2_flags_ready v2_frame wire_flags
  v2_valid v2_at v2_holds v2_ready v2_fresh_block "session_pipes L" logged_push session_flush "links_inv L" delivered for L ..

subsection \<open>Runs of the receiving engine\<close>

definition v2_ops :: "(v2_step, unit v2_decoder_ext, 'z) i_decoder" where
  "v2_ops = \<lparr>decode_actions = v2_dec_act, get_buffer = v2_get_buffer, resize_buffer = v2_resize_buffer\<rparr>"

text \<open>The state is the bytes under way, the engine and the world.  Bytes arrive in any portions; the poller reports the
  file descriptor, when its buffer is asked for with any unused address and with any amount of data at hand; the
  session restarts the input; and others work on the pipes and messages, but not on the message of the decoder.\<close>

type_synonym ('es, 'x, 'z) rx_state =
  "bytes \<times> ('es, v2_step, unit v2_decoder_ext, 'x) stream_engine_scheme \<times> 'z wire_world_scheme"

inductive rx_step :: "(nat \<times> nat) set \<Rightarrow> ('es, 'x, 'z) rx_state \<Rightarrow> ('es, 'x, 'z) rx_state option \<Rightarrow> bool" for L where
  rx_arrive: "rx_step L (xs @ bs, g, w) (Some (bs, g\<lparr>rx := rx g @ xs\<rparr>, w))"
| rx_hang_up: "rx_step L (bs, g, w) (Some (bs, g\<lparr>rx_state := s\<rparr>, w))"
| rx_readable: "\<not> io_error g \<Longrightarrow> failed g = None \<Longrightarrow> v2_fresh_block a (decoder g) \<Longrightarrow> pipe \<in> session_pipes L \<Longrightarrow>
    rx_step L (bs, g, w) (map_option (Pair bs) (in_event v2_ops (logged_push pipe) (session_flush pipe) a k g w))"
| rx_restart: "input_stopped g \<Longrightarrow> failed g = None \<Longrightarrow> v2_fresh_block a (decoder g) \<Longrightarrow> pipe \<in> session_pipes L \<Longrightarrow>
    rx_step L (bs, g, w) (map_option (Pair bs) (restart_input v2_ops (logged_push pipe) (session_flush pipe) a k g w))"
| rx_other: "links_inv L w' (add_mset (dec_msg (decoder g)) E) \<Longrightarrow> delivered w' = delivered w \<Longrightarrow>
    msg_body (dec_msg (decoder g)) w' = msg_body (dec_msg (decoder g)) w \<Longrightarrow> rx_step L (bs, g, w) (Some (bs, g, w'))"

inductive rx_reach :: "(nat \<times> nat) set \<Rightarrow> ('es, 'x, 'z) rx_state \<Rightarrow> ('es, 'x, 'z) rx_state option \<Rightarrow> bool" for L s0 where
  rx_start: "rx_reach L s0 (Some s0)"
| rx_next: "rx_reach L s0 (Some s) \<Longrightarrow> rx_step L s r \<Longrightarrow> rx_reach L s0 r"

inductive_cases rx_stepE: "rx_step L (bs, g, w) r"

definition rx_good :: "(nat \<times> nat) set \<Rightarrow> (byte \<times> bytes) list \<Rightarrow> bytes \<Rightarrow> ('es, 'x, 'z) rx_state \<Rightarrow> bool" where
  "rx_good L fs us = (\<lambda>(bs, g, w). \<exists>E fs1 fs2. fs = fs1 @ fs2 \<and> delivered w = wires wire_flags fs1 \<and> v2r.rx_inv L g w E fs2 (bs @ us))"

lemma rx_goodI:
  "v2r.rx_inv L g w E fs2 (bs @ us) \<Longrightarrow> fs = fs1 @ fs2 \<Longrightarrow> delivered w = wires wire_flags fs1 \<Longrightarrow> rx_good L fs us (bs, g, w)"
  unfolding rx_good_def by blast

lemma v2_ops: "v2r.ops = v2_ops"
  by (simp add: v2r.ops_def v2_ops_def)

lemma rx_good_step:
  assumes "v2r.rx_step_ok L w E fs2 (bs @ us) r" "fs = fs1 @ fs2" "delivered w = wires wire_flags fs1"
  shows "\<exists>s. map_option (Pair bs) r = Some s \<and> rx_good L fs us s"
proof -
  obtain g' w' fs3 fs4 where s: "r = Some (g', w')" "fs2 = fs3 @ fs4" "delivered w' = delivered w @ wires wire_flags fs3"
    "v2r.rx_inv L g' w' E fs4 (bs @ us)" using assms(1) unfolding v2r.rx_step_ok_def by blast
  have "rx_good L fs us (bs, g', w')" by (rule rx_goodI[OF s(4), of _ "fs1 @ fs3"]) (use assms(2,3) s(2,3) in simp_all)
  then show ?thesis using s(1) by simp
qed

lemma rx_step_good:
  assumes "rx_step L (bs, g, w) r" "rx_good L fs us (bs, g, w)"
  shows "\<exists>s. r = Some s \<and> rx_good L fs us s"
proof -
  obtain E fs1 fs2 where i: "fs = fs1 @ fs2" "delivered w = wires wire_flags fs1" "v2r.rx_inv L g w E fs2 (bs @ us)"
    using assms(2) by (auto simp: rx_good_def)
  show ?thesis
  proof (rule rx_stepE[OF assms(1)])
    fix xs bs' assume h: "bs = xs @ bs'" "r = Some (bs', g\<lparr>rx := rx g @ xs\<rparr>, w)"
    have "v2r.rx_inv L (g\<lparr>rx := rx g @ xs\<rparr>) w E fs2 (bs' @ us)" by (rule v2r.rx_inv_arrive) (use i(3) h(1) in simp)
    then show ?thesis using h(2) rx_goodI[OF _ i(1,2)] by blast
  next
    fix s assume h: "r = Some (bs, g\<lparr>rx_state := s\<rparr>, w)"
    have "v2r.rx_inv L (g\<lparr>rx_state := s\<rparr>) w E fs2 (bs @ us)" by (rule v2r.rx_inv_more[OF i(3)]) simp_all
    then show ?thesis using h rx_goodI[OF _ i(1,2)] by blast
  next
    fix a pipe k
    assume h: "r = map_option (Pair bs) (in_event v2_ops (logged_push pipe) (session_flush pipe) a k g w)" "\<not> io_error g" "failed g = None"
      "v2_fresh_block a (decoder g)" "pipe \<in> session_pipes L"
    show ?thesis unfolding h(1)
      by (rule rx_good_step[OF v2r.in_event_ok[unfolded v2_ops, OF i(3) h(3,2,4,5)] i(1,2)])
  next
    fix a pipe k
    assume h: "r = map_option (Pair bs) (restart_input v2_ops (logged_push pipe) (session_flush pipe) a k g w)" "input_stopped g" "failed g = None"
      "v2_fresh_block a (decoder g)" "pipe \<in> session_pipes L"
    show ?thesis unfolding h(1)
      by (rule rx_good_step[OF v2r.restart_input_ok[unfolded v2_ops, OF i(3) h(3,2,4,5)] i(1,2)])
  next
    fix w' E' assume h: "r = Some (bs, g, w')" "links_inv L w' (add_mset (dec_msg (decoder g)) E')" "delivered w' = delivered w"
      "msg_body (dec_msg (decoder g)) w' = msg_body (dec_msg (decoder g)) w"
    have "v2r.rx_inv L g w' E' fs2 (bs @ us)" by (rule v2r.rx_inv_env[OF i(3) h(2,4)])
    then show ?thesis using h(1,3) i(2) rx_goodI[OF _ i(1)] by simp
  qed
qed

lemma rx_reach_good:
  assumes "rx_reach L s0 r" "rx_good L fs us s0"
  shows "\<exists>s. r = Some s \<and> rx_good L fs us s"
  using assms(1)
proof (induction rule: rx_reach.induct)
  case rx_start then show ?case using assms(2) by simp
next
  case (rx_next s r)
  then show ?case using rx_step_good by (cases s) auto
qed

subsection \<open>The start\<close>

lemma rx_start_good:
  fixes w :: "'z wire_world_scheme"
  assumes "v2_decoder_new a n limit zc = Some d" "8 < n" "n < 2 ^ 31" "unat a + sizeof_counter + n < 2 ^ 63"
    "links_inv L w E" "delivered w = []" "\<forall>(fl, body) \<in> set fs. \<not> too_big limit (length body) \<and> sizeof_content + length body < 2 ^ 63"
    "bs @ us = stream v2_frame fs"
  shows "rx_good L fs us (bs, engine_start e d [], w)"
proof -
  note s = v2_decoder_start[OF assms(1-4)]
  have b: "\<not> is_lmsg msg_blank_new" "\<not> is_zcmsg msg_blank_new" "msg_check msg_blank_new" "msg_metadata msg_blank_new = None"
    by (simp_all add: msg_blank_new_def)
  have l: "links_inv L w (add_mset (dec_msg d) E)" using assms(5) s(5) b(1,2) by (simp add: links_inv_plain)
  obtain F where F: "owned d w F" using v2r.owned_sinv[OF l] b s(4,5) by auto
  have "v2r.rx_pos d w F fs (stream v2_frame fs)"
    by (rule v2r.pos_fresh[OF s(2) F s(1)]) (use assms(7) s(3) in \<open>auto simp: v2_valid_def\<close>)
  then have "v2r.receiving L d w E fs (bs @ us)" using l assms(8) by (auto simp: v2r.receiving_def)
  then have "v2r.rx_inv L (engine_start e d []) w E fs (bs @ us)" by (simp add: v2r.rx_inv_def engine_start_def)
  then show ?thesis by (rule rx_goodI[of _ _ _ _ _ _ _ _ "[]"]) (use assms(6) in \<open>simp_all add: wires_def\<close>)
qed

lemma frames_stream: "frames frame ms ds = stream frame (zip (map msg_flags ms) ds)"
  by (simp add: frames_def stream_def zip_map1 case_prod_beta' comp_def)

text \<open>What the receiver gets to see of messages \<open>ms\<close> with bodies \<open>ds\<close>: the two flags that travel, and no commands.\<close>

definition seen :: "msg_t list \<Rightarrow> bytes list \<Rightarrow> (byte \<times> bytes) list" where
  "seen ms ds = wires wire_flags (zip (map msg_flags ms) ds)"

text \<open>C4. Messages cross the wire.  One stream engine with the ZMTP 2.0 encoder runs any sequence of output events; the bytes
  it wrote arrive in any portions at an engine with the ZMTP 2.0 decoder, whose input and restart events come in any order,
  with any addresses of fresh receive buffers, while the pipe of its session may be full or gone and others use the
  same pipes.  Then no assertion fails, the receiver reports no protocol error, the session is given the messages in
  order, each once, with their bodies and their \<open>more\<close> flags, and when the sender has written everything and the receiver
  has read everything and is not stopped, it was given all of them.\<close>

theorem messages_cross_the_wire:
  fixes w :: "'z wire_world_scheme"
  assumes "store_inv st (mset (ready st) + E)" "list_all2 (encodable st) (ready st) ds" "0 < batch"
    "out_run v2_enc_act next_ready batch lims (engine_start (v2_encoder_new batch) d0 bs0) st = Some (gs, st')"
    "v2_decoder_new a n limit zc = Some d" "8 < n" "n < 2 ^ 31" "unat a + sizeof_counter + n < 2 ^ 63"
    "links_inv L w E'" "delivered w = []" "\<forall>body \<in> set ds. \<not> too_big limit (length body) \<and> sizeof_content + length body < 2 ^ 63"
    "rx_reach L (tx gs, engine_start e d [], w) r"
  shows "\<exists>bs g w'. r = Some (bs, g, w') \<and> failed g \<noteq> Some Protocol_error \<and> prefix (delivered w') (seen (ready st) ds) \<and>
    (output_stopped gs \<and> bs = [] \<and> rx g = [] \<and> \<not> input_stopped g \<and> failed g = None \<longrightarrow> delivered w' = seen (ready st) ds)"
proof -
  let ?fs = "zip (map msg_flags (ready st)) ds"
  have "sender_inv v2_enc_act Message_ready v2_frame batch (ready st) ds E (engine_start (v2_encoder_new batch) d0 bs0) st"
    by (rule sender_start[OF assms(1,2)]) (simp_all add: v2_encoder_new_def encoder_new_def)
  from v2s.out_run_ok[OF this assms(3), of lims] have "sender_inv v2_enc_act Message_ready v2_frame batch (ready st) ds E gs st'"
    using assms(4) by auto
  from sender_bytes[OF this] obtain us where us: "tx gs @ us = frames v2_frame (ready st) ds" "output_stopped gs \<longrightarrow> us = []"
    by (elim exE conjE) (rule that)
  have "rx_good L ?fs us (tx gs, engine_start e d [], w)"
    by (rule rx_start_good[OF assms(5-10)]) (use assms(11) us(1) in \<open>auto simp: frames_stream dest: set_zip_rightD\<close>)
  from rx_reach_good[OF assms(12) this] obtain s where s: "r = Some s" "rx_good L ?fs us s" by blast
  obtain bs g w' where "s = (bs, g, w')" by (cases s)
  then have r: "r = Some (bs, g, w')" "rx_good L ?fs us (bs, g, w')" using s by simp_all
  obtain E1 fs1 fs2 where i: "?fs = fs1 @ fs2" "delivered w' = wires wire_flags fs1" "v2r.rx_inv L g w' E1 fs2 (bs @ us)"
    using r(2) by (auto simp: rx_good_def)
  have se: "seen (ready st) ds = delivered w' @ wires wire_flags fs2" by (simp add: seen_def i(1,2))
  have "fs2 = []" if h: "output_stopped gs" "bs = []" "rx g = []" "\<not> input_stopped g" "failed g = None"
  proof -
    have "v2r.receiving L (decoder g) w' E1 fs2 []" using i(3) h us(2) by (simp add: v2r.rx_inv_def)
    then show ?thesis by (rule v2r.receiving_end)
  qed
  then have "output_stopped gs \<and> bs = [] \<and> rx g = [] \<and> \<not> input_stopped g \<and> failed g = None \<longrightarrow> delivered w' = seen (ready st) ds"
    using se by auto
  moreover have "failed g \<noteq> Some Protocol_error" using i(3) by (simp add: v2r.rx_inv_def)
  moreover have "prefix (delivered w') (seen (ready st) ds)" using se by simp
  ultimately show ?thesis using r(1) by blast
qed

text \<open>The example of \<open>Zmq_Send\<close> over a connection with a receive buffer of 64 bytes; the last step is an input event.\<close>

definition wire_0 :: wire_world where
  "wire_0 = world.extend pair_0 (wire_world.fields [])"

lemma wire_0_ok: "links_inv {(0, 1)} wire_0 {#}" "delivered wire_0 = []"
  using pair_0_links
  by (simp_all add: wire_0_def world.extend_def wire_world.fields_def links_inv_def pipes_inv_def hs_inv_def out_normal_def
      store_inv_def shape_def inbox_def)

definition d_0 :: v2_decoder where
  "d_0 = the (v2_decoder_new 4096 64 (-1) True)"

lemma d_0: "v2_decoder_new 4096 64 (-1) True = Some d_0" "v2_fresh_block 8192 d_0"
  by (simp_all add: d_0_def v2_decoder_new_def sa_allocate_def sa_new_def v2_fresh_block_def sizeof_counter_def)

theorem messages_cross_the_wire_witness:
  "\<exists>gs st' r. out_run v2_enc_act next_ready 16 [Some 3, None, Some 16, Some 500, Some 1]
      (engine_start (v2_encoder_new 16) (v1_decoder_new 0 16 (-1)) []) tx_example = Some (gs, st') \<and>
    r = map_option (Pair ([] :: bytes)) (in_event v2_ops (logged_push (Some 0)) (session_flush (Some 0)) 8192 100
      ((engine_start (v2_encoder_new 16) d_0 [])\<lparr>rx := tx gs\<rparr>) wire_0) \<and>
    (\<exists>bs g w'. r = Some (bs, g, w') \<and> failed g \<noteq> Some Protocol_error \<and>
      prefix (delivered w') (seen (ready tx_example) [[1, 2], replicate 300 7]) \<and>
      (output_stopped gs \<and> bs = [] \<and> rx g = [] \<and> \<not> input_stopped g \<and> failed g = None \<longrightarrow>
        delivered w' = seen (ready tx_example) [[1, 2], replicate 300 7]))"
proof -
  let ?lims = "[Some 3, None, Some 16, Some 500, Some 1]"
  let ?e = "engine_start (v2_encoder_new 16) d_0 []"
  have "sender_inv v2_enc_act Message_ready v2_frame 16 (ready tx_example) [[1, 2], replicate 300 7] {#}
      (engine_start (v2_encoder_new 16) (v1_decoder_new 0 16 (-1)) []) tx_example"
    by (rule sender_start[OF tx_example_ok]) (simp_all add: v2_encoder_new_def encoder_new_def)
  from v2s.out_run_ok[OF this, of ?lims] obtain gs st' where run:
    "out_run v2_enc_act next_ready 16 ?lims (engine_start (v2_encoder_new 16) (v1_decoder_new 0 16 (-1)) []) tx_example = Some (gs, st')"
    by auto
  let ?r = "map_option (Pair ([] :: bytes)) (in_event v2_ops (logged_push (Some 0)) (session_flush (Some 0)) 8192 100 (?e\<lparr>rx := tx gs\<rparr>) wire_0)"
  have "rx_step {(0, 1)} (tx gs @ [], ?e, wire_0) (Some ([], ?e\<lparr>rx := rx ?e @ tx gs\<rparr>, wire_0))" by (rule rx_arrive)
  from rx_next[OF rx_start this[unfolded append_Nil2]]
  have 1: "rx_reach {(0, 1)} (tx gs, ?e, wire_0) (Some ([], ?e\<lparr>rx := tx gs\<rparr>, wire_0))" by (simp add: engine_start_def)
  have 2: "rx_step {(0, 1)} ([], ?e\<lparr>rx := tx gs\<rparr>, wire_0) ?r"
    by (rule rx_readable) (use d_0(2) in \<open>simp_all add: engine_start_def session_pipes_def\<close>)
  have "\<exists>bs g w'. ?r = Some (bs, g, w') \<and> failed g \<noteq> Some Protocol_error \<and>
      prefix (delivered w') (seen (ready tx_example) [[1, 2], replicate 300 7]) \<and>
      (output_stopped gs \<and> bs = [] \<and> rx g = [] \<and> \<not> input_stopped g \<and> failed g = None \<longrightarrow>
        delivered w' = seen (ready tx_example) [[1, 2], replicate 300 7])"
    by (rule messages_cross_the_wire[OF tx_example_ok _ run d_0(1) _ _ _ wire_0_ok _ rx_next[OF 1 2]])
      (simp_all add: too_big_def sizeof_counter_def sizeof_content_def)
  then show ?thesis using run by blast
qed

end
