(* ===== verification/Zmq_Hostile.thy ===== *)
theory Zmq_Hostile
  imports Zmq_Recv2
begin

text \<open>
  The ZMTP 2.0 decoder on bytes that need not be frames of messages: with a limit on the size of messages
  (\<open>ZMQ_MAXMSGSIZE\<close>) it keeps its invariant whatever arrives; without one, the test that a body fits into the receive
  buffer can be made to overflow.
\<close>

subsection \<open>Any bytes continue a field\<close>

lemma some_prefix: "\<exists>w us vs. length w = n \<and> w @ us = xs @ vs"
proof -
  let ?v = "xs @ replicate n undefined"
  have "length (take n ?v) = n" "take n ?v @ drop n ?v = xs @ replicate n undefined" by (simp, rule append_take_drop_id)
  then show ?thesis by blast
qed

lemma tmp_retarget:
  assumes "tmp_at s want k d"
  obtains want' us vs where "tmp_at s want' k d" "length want' = length want" "drop k want' @ us = xs @ vs"
proof -
  have k: "k < length want" using assms by (simp add: tmp_at_def)
  obtain w us vs where w: "length w = length want - k" "w @ us = xs @ vs" using some_prefix by blast
  show thesis
    by (rule that[of "take k want @ w" us vs]) (use assms k w in \<open>simp_all add: tmp_at_def min_def\<close>)
qed

lemma body_retarget:
  assumes "body_at fin d st E fl body j"
  obtains body' us vs where "body_at fin d st E fl body' j" "drop j body' @ us = xs @ vs"
proof -
  have j: "j < length body" using assms by (simp add: body_at_def)
  obtain w us vs where w: "length w = length body - j" "w @ us = xs @ vs" using some_prefix by blast
  show thesis
  proof (rule that[of "take j body @ w" us vs])
    have "length (take j body @ w) = length body" "take j (take j body @ w) = take j body" using j w(1) by simp_all
    then show "body_at fin d st E fl (take j body @ w) j" using assms unfolding body_at_def by metis
  qed (use j w in simp)
qed

subsection \<open>The invariant\<close>

definition v2_field :: "v2_decoder \<Rightarrow> bool" where
  "v2_field d \<longleftrightarrow> (\<exists>want k. tmp_at V2_flags_ready want k d \<and> length want = 1 \<or>
     (tmp_at V2_one_byte_size_ready want k d \<and> length want = 1 \<or> tmp_at V2_eight_byte_size_ready want k d \<and> length want = 8) \<and>
       (\<exists>fl. v2_msg_flags d = wire_flags fl))"

definition v2_wf :: "v2_decoder \<Rightarrow> 'z msg_store_scheme \<Rightarrow> msg_t multiset \<Rightarrow> bool" where
  "v2_wf d st E \<longleftrightarrow> v2_ready d \<and> owned d st E \<and>
     (v2_field d \<or> (\<exists>fl body j. body_at V2_message_ready d st E (wire_flags fl) body j \<and> \<not> too_big (maxmsgsize d) (length body)))"

definition v2_safe :: "int \<Rightarrow> msg_t multiset \<Rightarrow> 'z msg_store_scheme \<Rightarrow> nat \<Rightarrow> (dec_rc \<times> nat \<times> v2_decoder \<times> 'z msg_store_scheme) option \<Rightarrow> bool" where
  "v2_safe limit E st n r \<longleftrightarrow> (\<exists>rc k d' st'. r = Some (rc, k, d', st') \<and> kept E st st' \<and> k \<le> n \<and> maxmsgsize d' = limit \<and>
     (rc = Dec_error EMSGSIZE \<or> v2_wf d' st' E \<and> (rc = Dec_more \<and> k = n \<or>
        rc = Dec_done \<and> fresh_frame V2_flags_ready d' \<and> (\<exists>fl body. complete_msg d' st' E fl body \<and> \<not> too_big limit (length body)))))"

lemma v2_field_size:
  "tmp_at s want k d \<Longrightarrow> s = V2_one_byte_size_ready \<and> length want = 1 \<or> s = V2_eight_byte_size_ready \<and> length want = 8 \<Longrightarrow>
   v2_msg_flags d = wire_flags fl \<Longrightarrow> v2_field d"
  unfolding v2_field_def by blast

lemma v2_wf_fresh: "fresh_frame V2_flags_ready d \<Longrightarrow> owned d st E \<Longrightarrow> v2_ready d \<Longrightarrow> v2_wf d st E"
  using fresh_tmp_at[of d "undefined :: byte"] unfolding v2_wf_def v2_field_def owned_def by fastforce

lemma v2_wf_body:
  "body_at V2_message_ready d st E (wire_flags fl) body j \<Longrightarrow> \<not> too_big (maxmsgsize d) (length body) \<Longrightarrow> v2_ready d \<Longrightarrow> v2_wf d st E"
  unfolding v2_wf_def body_at_def by blast

lemma v2_wf_at:
  assumes "v2_at d st E fl body rem" "v2_ready d" "\<not> too_big (maxmsgsize d) (length body)"
  shows "v2_wf d st E"
  using assms(1)[unfolded v2_at_def]
proof (elim disjE exE conjE)
  assume "fresh_frame V2_flags_ready d" "owned d st E"
  then show ?thesis using assms(2) by (rule v2_wf_fresh)
next
  fix k assume h: "tmp_at (v2_size_step (length body)) (v2_size_bytes (length body)) k d" "owned d st E" "v2_msg_flags d = wire_flags fl"
  then have "v2_field d"
    by (intro v2_field_size[OF h(1) _ h(3)]) (simp add: v2_size_step_def size_bytes_length)
  then show ?thesis using h(2) assms(2) by (simp add: v2_wf_def)
next
  fix j assume "body_at V2_message_ready d st E (wire_flags fl) body j"
  then show ?thesis using assms(2,3) unfolding v2_wf_def body_at_def by blast
qed

lemma v2_result_safe:
  assumes "v2_result d st E fl body b off bs xs rem r" "\<not> too_big (maxmsgsize d) (length body)"
  shows "v2_safe (maxmsgsize d) E st (length bs) r"
proof -
  obtain d' st' k where r: "kept E st st'" "maxmsgsize d' = maxmsgsize d" "k \<le> length bs" "alloc_at (v2_alloc d') b (off + length bs) (off + k)"
    "(\<exists>ys. r = Some (Dec_more, k, d', st') \<and> k = length bs \<and> v2_at d' st' E fl body ys) \<or>
      r = Some (Dec_done, k, d', st') \<and> complete_msg d' st' E (wire_flags fl) body \<and> fresh_frame V2_flags_ready d'"
    using assms(1) unfolding v2_result_def by blast
  note rd = v2_ready_alloc[OF r(4)]
  from r(5) show ?thesis
  proof (elim disjE exE conjE)
    fix ys assume "r = Some (Dec_more, k, d', st')" "k = length bs" "v2_at d' st' E fl body ys"
    then show ?thesis using v2_wf_at rd r(1,2) assms(2) unfolding v2_safe_def by (metis order_refl)
  next
    assume h: "r = Some (Dec_done, k, d', st')" "complete_msg d' st' E (wire_flags fl) body" "fresh_frame V2_flags_ready d'"
    have "v2_wf d' st' E" by (rule v2_wf_fresh[OF h(3) _ rd]) (use h(2) in \<open>simp add: complete_msg_def\<close>)
    then show ?thesis using h r(1-3) assms(2) unfolding v2_safe_def by blast
  qed
qed

lemma v2_safe_start: "v2_safe limit E st1 n r \<Longrightarrow> kept E st st1 \<Longrightarrow> v2_safe limit E st n r"
  unfolding v2_safe_def using kept_trans by blast

text \<open>Reading the rest of the size, then what follows.\<close>

lemma sizes_act:
  assumes "dec_next d = V2_one_byte_size_ready \<or> dec_next d = V2_eight_byte_size_ready" "length (tmpbuf d) = 8"
  obtains sz where "\<And>p rest. v2_dec_act (dec_next d) p rest d st = v2_dec_size_ready sz p rest d st"
proof -
  obtain v where "get_uint64 (tmpbuf d) = Some v" using get_uint64_Some[of "tmpbuf d"] assms(2) by auto
  moreover obtain x where "get_uint8 (tmpbuf d) = Some x" using assms(2) by (cases "tmpbuf d") (auto simp: get_uint8_def)
  ultimately show thesis using assms(1) that
    by (auto simp: v2_one_byte_size_ready_def v2_eight_byte_size_ready_def)
qed

lemma any_size_loop:
  assumes at: "tmp_at s want k d" "s = V2_one_byte_size_ready \<and> length want = 1 \<or> s = V2_eight_byte_size_ready \<and> length want = 8"
    and fl: "v2_msg_flags d = wire_flags fl" and own: "owned d st E"
    and lim: "0 \<le> maxmsgsize d" "maxmsgsize d < 2 ^ 62" and used: "used \<le> length bs" and data: "data = At (buf_addr b off)"
    and alloc: "alloc_at (v2_alloc d) b (off + length bs) (off + used)"
  shows "v2_safe (maxmsgsize d) E st (length bs) (decode_loop v2_dec_act data bs used d st)"
proof -
  obtain w us vs where w: "tmp_at s w k d" "length w = length want" "drop k w @ us = drop used bs @ vs"
    by (rule tmp_retarget[OF at(1)])
  have pne: "place_add data used \<noteq> Tmp k" using data by simp
  show ?thesis
  proof (rule tmp_loop[where act = v2_dec_act and st = st, OF w(1) used w(3) pne])
    fix d'
    assume d': "decode_loop v2_dec_act data bs used d st = Some (Dec_more, length bs, d', st)"
      "tmp_at s w (k + length (drop used bs)) d'" "dec_msg d' = dec_msg d" "same_config d d'"
    note sc = same_config_v2[OF d'(4)]
    have al': "alloc_at (v2_alloc d') b (off + length bs) (off + length bs)" using alloc_at_mono[OF alloc] used sc by simp
    have "v2_field d'" by (rule v2_field_size[OF d'(2)]) (use w(2) at(2) fl sc in simp_all)
    then have "v2_wf d' st E" using own d'(2,3) v2_ready_alloc[OF al'] by (simp add: v2_wf_def owned_def tmp_at_def)
    then show ?thesis using d'(1) sc unfolding v2_safe_def by (metis kept_refl order_refl)
  next
    fix d' m zs
    assume d': "m = used + (length w - k)" "drop m bs = zs" "m \<le> length bs"
      "decode_loop v2_dec_act data bs used d st = proceed v2_dec_act data bs m (run_actions v2_dec_act (place_add data m) zs d' st)"
      "dec_msg d' = dec_msg d" "same_config d d'" "dec_next d' = s" "to_read d' = 0" "length (tmpbuf d') = 8"
    note sc = same_config_v2[OF d'(6)]
    have al': "alloc_at (v2_alloc d') b (off + length bs) (off + m)" using alloc_at_mono[OF alloc, of "off + m"] sc d'(1) by simp
    have own': "owned d' st E" using own d'(5,9) by (simp add: owned_def)
    have s: "dec_next d' = V2_one_byte_size_ready \<or> dec_next d' = V2_eight_byte_size_ready" using at(2) d'(7) by auto
    obtain sz where act: "\<And>p rest. v2_dec_act (dec_next d') p rest d' st = v2_dec_size_ready sz p rest d' st"
      using sizes_act[OF s d'(9)] by metis
    show ?thesis
    proof (cases "too_big (maxmsgsize d') (unat sz)")
      case True
      have "v2_dec_act (dec_next d') (place_add data m) zs d' st = Some (Dec_error EMSGSIZE, d', st)"
        using act True by (simp add: v2_dec_size_ready_def)
      from run_actions_act[where act = v2_dec_act, OF d'(8) this]
      have "run_actions v2_dec_act (place_add data m) zs d' st = Some (Dec_error EMSGSIZE, d', st)" by simp
      then have "decode_loop v2_dec_act data bs used d st = Some (Dec_error EMSGSIZE, m, d', st)" using d'(4) by simp
      then show ?thesis using d'(3) sc unfolding v2_safe_def by auto
    next
      case False
      obtain body us' vs' where body: "length body = unat sz" "body @ us' = drop m bs @ vs'" using some_prefix by blast
      have bsz: "of_nat (length body) = sz" using body(1) by simp
      have lim': "\<not> too_big (maxmsgsize d') (length body)" using False body(1) by simp
      then have n: "sizeof_content + length body < 2 ^ 63" using lim sc by (simp add: too_big_def sizeof_content_def)
      have fl': "v2_msg_flags d' = wire_flags fl" using fl sc by simp
      have "v2_result d' st E fl body b off bs (drop m bs) body
          (proceed v2_dec_act data bs m (run_actions v2_dec_act (place_add data m) (drop m bs) d' st))"
        by (rule v2_sized_loop[OF own' lim' n al' d'(3) data fl' body(2) d'(8)]) (use act bsz in simp)
      then have "v2_safe (maxmsgsize d') E st (length bs) (decode_loop v2_dec_act data bs used d st)"
        unfolding d'(4) d'(2)[symmetric] by (rule v2_result_safe[OF _ lim'])
      then show ?thesis using sc by simp
    qed
  qed
qed

lemma any_flags_act:
  assumes "length (tmpbuf d) = 8"
  obtains d' s want fl where "v2_dec_act V2_flags_ready p rest d st = Some (Dec_more, d', st)" "dec_msg d' = dec_msg d"
    "tmp_at s want 0 d'" "s = V2_one_byte_size_ready \<and> length want = 1 \<or> s = V2_eight_byte_size_ready \<and> length want = 8"
    "v2_msg_flags d' = wire_flags fl" "maxmsgsize d' = maxmsgsize d" "v2_alloc d' = v2_alloc d" "to_read d' \<noteq> 0" "tmpbuf d' = tmpbuf d"
proof -
  obtain x r where r: "tmpbuf d = x # r" using assms by (cases "tmpbuf d") auto
  let ?fl = "(if x AND more_flag \<noteq> 0 then flag_more else 0) OR (if x AND command_flag \<noteq> 0 then flag_command else 0)"
  let ?d = "d\<lparr>v2_msg_flags := ?fl\<rparr>"
  have fl: "wire_flags ?fl = ?fl" by (simp add: wire_flags_def msg_flag_defs)
  show thesis
  proof (cases "x AND large_flag \<noteq> 0")
    case True
    show thesis
      by (rule that[of "dec_next_step (Tmp 0) 8 V2_eight_byte_size_ready ?d" V2_eight_byte_size_ready "replicate 8 0" ?fl])
        (use True r assms fl in \<open>simp_all add: v2_flags_ready_def get_uint8_def dec_next_step_def tmp_at_def\<close>)
  next
    case False
    show thesis
      by (rule that[of "dec_next_step (Tmp 0) 1 V2_one_byte_size_ready ?d" V2_one_byte_size_ready "replicate 1 0" ?fl])
        (use False r assms fl in \<open>simp_all add: v2_flags_ready_def get_uint8_def dec_next_step_def tmp_at_def\<close>)
  qed
qed

lemma any_flags_loop:
  assumes at: "tmp_at V2_flags_ready want k d" "length want = 1" and own: "owned d st E"
    and lim: "0 \<le> maxmsgsize d" "maxmsgsize d < 2 ^ 62" and used: "used \<le> length bs" and data: "data = At (buf_addr b off)"
    and alloc: "alloc_at (v2_alloc d) b (off + length bs) (off + used)"
  shows "v2_safe (maxmsgsize d) E st (length bs) (decode_loop v2_dec_act data bs used d st)"
proof -
  obtain w us vs where w: "tmp_at V2_flags_ready w k d" "length w = length want" "drop k w @ us = drop used bs @ vs"
    by (rule tmp_retarget[OF at(1)])
  have pne: "place_add data used \<noteq> Tmp k" using data by simp
  show ?thesis
  proof (rule tmp_loop[where act = v2_dec_act and st = st, OF w(1) used w(3) pne])
    fix d'
    assume d': "decode_loop v2_dec_act data bs used d st = Some (Dec_more, length bs, d', st)"
      "tmp_at V2_flags_ready w (k + length (drop used bs)) d'" "dec_msg d' = dec_msg d" "same_config d d'"
    note sc = same_config_v2[OF d'(4)]
    have al': "alloc_at (v2_alloc d') b (off + length bs) (off + length bs)" using alloc_at_mono[OF alloc] used sc by simp
    have "v2_field d'" using d'(2) w(2) at(2) unfolding v2_field_def by auto
    then have "v2_wf d' st E" using own d'(2,3) v2_ready_alloc[OF al'] by (simp add: v2_wf_def owned_def tmp_at_def)
    then show ?thesis using d'(1) sc unfolding v2_safe_def by (metis kept_refl order_refl)
  next
    fix d' m zs
    assume d': "m = used + (length w - k)" "drop m bs = zs" "m \<le> length bs"
      "decode_loop v2_dec_act data bs used d st = proceed v2_dec_act data bs m (run_actions v2_dec_act (place_add data m) zs d' st)"
      "dec_msg d' = dec_msg d" "same_config d d'" "dec_next d' = V2_flags_ready" "to_read d' = 0" "length (tmpbuf d') = 8"
    note sc = same_config_v2[OF d'(6)]
    obtain d2 s want2 fl where d2: "v2_dec_act V2_flags_ready (place_add data m) zs d' st = Some (Dec_more, d2, st)" "dec_msg d2 = dec_msg d'"
      "tmp_at s want2 0 d2" "s = V2_one_byte_size_ready \<and> length want2 = 1 \<or> s = V2_eight_byte_size_ready \<and> length want2 = 8"
      "v2_msg_flags d2 = wire_flags fl" "maxmsgsize d2 = maxmsgsize d'" "v2_alloc d2 = v2_alloc d'" "to_read d2 \<noteq> 0" "tmpbuf d2 = tmpbuf d'"
      by (rule any_flags_act[OF d'(9)])
    have r: "decode_loop v2_dec_act data bs used d st = decode_loop v2_dec_act data bs m d2 st"
      using d'(4,7,8) d2(1,8) by (simp add: run_actions_act run_actions_stop)
    have own2: "owned d2 st E" using own d'(5,9) d2(2,9) by (simp add: owned_def)
    have al2: "alloc_at (v2_alloc d2) b (off + length bs) (off + m)" using alloc_at_mono[OF alloc, of "off + m"] sc d2(7) d'(1) by simp
    have l2: "0 \<le> maxmsgsize d2" "maxmsgsize d2 < 2 ^ 62" using lim sc d2(6) by simp_all
    have "v2_safe (maxmsgsize d2) E st (length bs) (decode_loop v2_dec_act data bs m d2 st)"
      by (rule any_size_loop[OF d2(3,4,5) own2 l2 d'(3) data al2])
    then show ?thesis using r sc d2(6) by simp
  qed
qed

lemma hostile_decode:
  assumes wf: "v2_wf d st E" and h: "v2_holds d st p xs" and lim: "0 \<le> maxmsgsize d" "maxmsgsize d < 2 ^ 62"
  shows "v2_safe (maxmsgsize d) E st (length xs) (decode v2_dec_act p xs d st)"
  using h[unfolded v2_holds_def]
proof (elim disjE exE conjE)
  fix b off assume p: "p = At (buf_addr b off)" "alloc_at (v2_alloc d) b (off + length xs) off"
  have own: "owned d st E" using wf by (simp add: v2_wf_def)
  have "p \<noteq> read_pos d" using wf p(1) by (auto simp: v2_wf_def v2_field_def tmp_at_def body_at_def)
  then have d: "decode v2_dec_act p xs d st = decode_loop v2_dec_act p xs 0 d st" by (simp add: decode_def)
  have al: "alloc_at (v2_alloc d) b (off + length xs) (off + 0)" using p(2) by simp
  consider (flags) want k where "tmp_at V2_flags_ready want k d" "length want = 1"
    | (sz) s want k fl where "tmp_at s want k d" "s = V2_one_byte_size_ready \<and> length want = 1 \<or> s = V2_eight_byte_size_ready \<and> length want = 8"
        "v2_msg_flags d = wire_flags fl"
    | (body) fl body j where "body_at V2_message_ready d st E (wire_flags fl) body j" "\<not> too_big (maxmsgsize d) (length body)"
    using wf unfolding v2_wf_def v2_field_def by blast
  then show ?thesis
  proof cases
    case flags
    show ?thesis unfolding d by (rule any_flags_loop[OF flags own lim _ p(1) al]) simp
  next
    case sz
    show ?thesis unfolding d by (rule any_size_loop[OF sz own lim _ p(1) al]) simp
  next
    case body
    obtain body' us vs where b': "body_at V2_message_ready d st E (wire_flags fl) body' j" "drop j body' @ us = drop 0 xs @ vs"
      by (rule body_retarget[OF body(1)])
    have "length body' = length body" using b'(1) body(1) unfolding body_at_def by (metis add_diff_cancel_left' le_add_diff_inverse less_imp_le)
    then have l: "\<not> too_big (maxmsgsize d) (length body')" using body(2) by simp
    have "place_add p 0 \<noteq> Body j" using p(1) by simp
    from v2_body_loop[OF b'(1) _ b'(2) this al] show ?thesis unfolding d by (rule v2_result_safe[OF _ l]) simp
  qed
next
  fix j mb assume p: "p = Body j" "read_pos d = p" "length xs \<le> to_read d" "msg_body (dec_msg d) st = Some mb" "take (length xs) (drop j mb) = xs"
    "v2_ready d"
  obtain fl body where body: "body_at V2_message_ready d st E (wire_flags fl) body j" "\<not> too_big (maxmsgsize d) (length body)"
    using wf p(1,2) unfolding v2_wf_def v2_field_def tmp_at_def body_at_def by auto
  obtain body' us vs where b': "body_at V2_message_ready d st E (wire_flags fl) body' j" "drop j body' @ us = xs @ vs"
    by (rule body_retarget[OF body(1)])
  have lb: "length body' = length body" using b'(1) body(1) unfolding body_at_def by (metis add_diff_cancel_left' le_add_diff_inverse less_imp_le)
  have "length xs \<le> length (drop j body')" using p(3) b'(1) by (simp add: body_at_def)
  then obtain ys where ys: "drop j body' = xs @ ys" using prefix_split[OF b'(2)] by blast
  show ?thesis
  proof (rule body_in_place[where act = v2_dec_act and first = V2_flags_ready, OF b'(1) ys p(4,5)])
    show "v2_dec_act V2_message_ready p rest d st = Some (Dec_done, dec_next_step (Tmp 0) 1 V2_flags_ready d, st)"
      for p rest d st by (rule v2_message_act)
  next
    fix d' assume d': "decode v2_dec_act (Body j) xs d st = Some (Dec_more, length xs, d', st)" "same_config d d'"
      "body_at V2_message_ready d' st E (wire_flags fl) body' (j + length xs)"
    note sc = same_config_v2[OF d'(2)]
    have "v2_ready d'" using p(6) sc by (simp add: v2_ready_def)
    then have "v2_wf d' st E" by (rule v2_wf_body[OF d'(3), rotated]) (use sc lb body(2) in simp)
    then show ?thesis using d'(1) sc p(1) unfolding v2_safe_def by (metis kept_refl order_refl)
  next
    fix d' assume d': "decode v2_dec_act (Body j) xs d st = Some (Dec_done, length xs, d', st)" "same_config d d'"
      "complete_msg d' st E (wire_flags fl) body'" "fresh_frame V2_flags_ready d'"
    note sc = same_config_v2[OF d'(2)]
    have "v2_ready d'" using p(6) sc by (simp add: v2_ready_def)
    then have "v2_wf d' st E" by (intro v2_wf_fresh[OF d'(4)]) (use d'(3) in \<open>simp_all add: complete_msg_def\<close>)
    then show ?thesis using d'(1,3,4) sc p(1) lb body(2) unfolding v2_safe_def by (metis kept_refl order_refl)
  qed
qed

text \<open>C6. Hostile bytes.  With a limit on the size of messages the ZMTP 2.0 decoder is safe on any received bytes: from every
  well-formed state, \<open>decode\<close> returns without a failed assertion and without touching memory outside the message
  or the buffer; it either reports \<open>EMSGSIZE\<close>, or keeps the invariant and has used all of the bytes or completed
  a message whose body is within the limit.\<close>

theorem hostile_bytes_are_safe:
  assumes "v2_wf d st E" "v2_holds d st p xs" "0 \<le> maxmsgsize d" "maxmsgsize d < 2 ^ 62"
  shows "\<exists>rc k d' st'. decode v2_dec_act p xs d st = Some (rc, k, d', st') \<and> k \<le> length xs \<and> maxmsgsize d' = maxmsgsize d \<and>
    (rc = Dec_error EMSGSIZE \<or> v2_wf d' st' E \<and> (rc = Dec_more \<and> k = length xs \<or>
       rc = Dec_done \<and> (\<exists>body. msg_body (dec_msg d') st' = Some body \<and> int (length body) \<le> maxmsgsize d)))"
proof -
  obtain rc k d' st' where r: "decode v2_dec_act p xs d st = Some (rc, k, d', st')" "k \<le> length xs" "maxmsgsize d' = maxmsgsize d"
    "rc = Dec_error EMSGSIZE \<or> v2_wf d' st' E \<and> (rc = Dec_more \<and> k = length xs \<or>
        rc = Dec_done \<and> (\<exists>fl body. complete_msg d' st' E fl body \<and> \<not> too_big (maxmsgsize d) (length body)))"
    using hostile_decode[OF assms] unfolding v2_safe_def by blast
  have "\<exists>body. msg_body (dec_msg d') st' = Some body \<and> int (length body) \<le> maxmsgsize d"
    if "complete_msg d' st' E fl body" "\<not> too_big (maxmsgsize d) (length body)" for fl body
    using that assms(3) by (simp add: complete_msg_def too_big_def)
  then show ?thesis using r by blast
qed

definition store_0 :: msg_store where
  "store_0 = \<lparr>contents = Map.empty, next_content = 0, metadata_refs = (\<lambda>_. None), calls_ffn = []\<rparr>"

definition dec_0 :: "int \<Rightarrow> nat \<Rightarrow> v2_decoder" where
  "dec_0 limit n = v2_resize_buffer n (the (v2_decoder_new 4096 64 limit True))"

lemma dec_0:
  assumes "n \<le> 64"
  shows "fresh_frame V2_flags_ready (dec_0 limit n)" "owned (dec_0 limit n) store_0 {#}" "alloc_at (v2_alloc (dec_0 limit n)) 4096 n 0"
    "maxmsgsize (dec_0 limit n) = limit" "v2_zero_copy (dec_0 limit n)"
proof -
  obtain d where d: "v2_decoder_new 4096 64 limit True = Some d" by (simp add: v2_decoder_new_def sa_allocate_def sa_new_def)
  have d0: "dec_0 limit n = v2_resize_buffer n d" using d by (simp add: dec_0_def)
  have sz: "8 < (64 :: nat)" "(64 :: nat) < 2 ^ 31" "unat (4096 :: 64 word) + sizeof_counter + 64 < 2 ^ 63"
    by (simp_all add: sizeof_counter_def)
  note s = v2_decoder_start[OF d sz]
  have m: "sa_max_size (v2_alloc d) = 64" using d by (auto simp: v2_decoder_new_def sa_allocate_def sa_new_def)
  show "alloc_at (v2_alloc (dec_0 limit n)) 4096 n 0" using alloc_at_resize[OF s(6), of n] assms m d0 by (simp add: v2_resize_buffer_def)
  show "owned (dec_0 limit n) store_0 {#}" using s(4,5) d0
    by (simp add: owned_def v2_resize_buffer_def store_0_def store_inv_def msg_blank_new_def msg_init_def msg_init_base_def
        is_lmsg_def is_zcmsg_def msg_check_def uses_content_def)
  show "fresh_frame V2_flags_ready (dec_0 limit n)" "maxmsgsize (dec_0 limit n) = limit" "v2_zero_copy (dec_0 limit n)"
    using d0 s(2,3,7) by (simp_all add: fresh_frame_def v2_resize_buffer_def)
qed

text \<open>The frame that overflows the size check is refused when there is a limit.\<close>

theorem hostile_bytes_are_safe_witness:
  "\<exists>rc k d' st'. decode v2_dec_act (At (buf_addr 4096 0)) (2 # replicate 8 255) (dec_0 1000 9) store_0 = Some (rc, k, d', st') \<and>
    k \<le> length ((2 :: byte) # replicate 8 255) \<and> maxmsgsize d' = maxmsgsize (dec_0 1000 9) \<and>
    (rc = Dec_error EMSGSIZE \<or> v2_wf d' st' {#} \<and> (rc = Dec_more \<and> k = length ((2 :: byte) # replicate 8 255) \<or>
       rc = Dec_done \<and> (\<exists>body. msg_body (dec_msg d') st' = Some body \<and> int (length body) \<le> maxmsgsize (dec_0 1000 9))))"
proof (rule hostile_bytes_are_safe)
  note d = dec_0[of 9 1000, simplified]
  show "v2_wf (dec_0 1000 9) store_0 {#}" by (rule v2_wf_fresh[OF d(1,2) v2_ready_alloc[OF d(3)]])
  show "v2_holds (dec_0 1000 9) store_0 (At (buf_addr 4096 0)) (2 # replicate 8 255)"
    unfolding v2_holds_def by (intro disjI1 exI[of _ 4096] exI[of _ 0]) (use d(3) in simp)
qed (use dec_0(4)[of 9 1000] in simp_all)

subsection \<open>Without a limit\<close>

text \<open>The sum \<open>read_pos + msg_size\<close> wraps.\<close>

lemma exceeds_wraps:
  assumes "unat b + sizeof_counter + n < 2 ^ 63" "off \<le> n" "2 ^ 64 \<le> unat b + sizeof_counter + off + unat sz"
  shows "\<not> exceeds_buffer (buf_addr b off) sz (b + of_nat sizeof_counter) n"
proof -
  have b: "unat (buf_addr b off) = unat b + sizeof_counter + off" using assms(1,2) by (intro unat_buf_addr) simp
  have e: "unat (b + of_nat sizeof_counter + of_nat n) = unat b + sizeof_counter + n"
    using unat_buf_addr[of b n] assms(1) by (simp add: buf_addr_def)
  have "unat sz < 2 ^ 64" using unsigned_less[of sz] by simp
  then have "(unat (buf_addr b off) + unat sz) mod 2 ^ 64 = unat (buf_addr b off) + unat sz - 2 ^ 64"
    using assms b by (simp add: le_mod_geq)
  then have "unat (buf_addr b off + sz) = unat b + sizeof_counter + off + unat sz - 2 ^ 64"
    using b by (simp only: unat_word_ariths(1)) simp
  then show ?thesis using e assms \<open>unat sz < 2 ^ 64\<close> by (simp add: exceeds_buffer_def word_less_nat_alt)
qed

text \<open>The header of a long frame has been read, and the size is about to be examined.\<close>

lemma v2_large_header:
  assumes fr: "fresh_frame V2_flags_ready d" and own: "owned d st E" and bs: "bs = large_flag # put_uint64 sz @ xs"
  obtains d' where "decode v2_dec_act (At a) bs d st = proceed v2_dec_act (At a) bs 9 (run_actions v2_dec_act (place_add (At a) 9) xs d' st)"
    "dec_next d' = V2_eight_byte_size_ready" "to_read d' = 0" "get_uint64 (tmpbuf d') = Some sz" "owned d' st E"
    "maxmsgsize d' = maxmsgsize d" "v2_zero_copy d' = v2_zero_copy d" "v2_alloc d' = v2_alloc d"
proof -
  let ?p = "At a"
  have len: "9 \<le> length bs" using bs by simp
  have at: "tmp_at V2_flags_ready [large_flag] 0 d" using fresh_tmp_at[OF fr] own by (simp add: owned_def)
  have sp: "drop 0 [large_flag] @ (put_uint64 sz @ xs) = drop 0 bs @ []" using bs by simp
  have d: "decode v2_dec_act ?p bs d st = decode_loop v2_dec_act ?p bs 0 d st" using fr by (simp add: decode_def fresh_frame_def)
  show thesis
  proof (rule tmp_loop[where act = v2_dec_act and st = st, OF at _ sp])
    fix d' assume "tmp_at V2_flags_ready [large_flag] (0 + length (drop 0 bs)) d'"
    then show thesis using len by (simp add: tmp_at_def)
  next
    fix d' m zs
    assume d': "m = 0 + (length [large_flag] - 0)" "drop m bs = zs" "m \<le> length bs"
      "decode_loop v2_dec_act ?p bs 0 d st = proceed v2_dec_act ?p bs m (run_actions v2_dec_act (place_add ?p m) zs d' st)"
      "dec_msg d' = dec_msg d" "same_config d d'" "dec_next d' = V2_flags_ready" "to_read d' = 0" "length (tmpbuf d') = 8"
      "take (length [large_flag]) (tmpbuf d') = [large_flag]"
    note sc = same_config_v2[OF d'(6)]
    obtain r where r: "tmpbuf d' = large_flag # r" using d'(9,10) by (cases "tmpbuf d'") auto
    let ?d = "dec_next_step (Tmp 0) 8 V2_eight_byte_size_ready (d'\<lparr>v2_msg_flags := 0\<rparr>)"
    have "v2_dec_act V2_flags_ready (place_add ?p m) zs d' st = Some (Dec_more, ?d, st)"
      by (simp add: v2_flags_ready_def r get_uint8_def v2_flag_defs)
    then have 1: "decode_loop v2_dec_act ?p bs 0 d st = decode_loop v2_dec_act ?p bs m ?d st"
      using d'(4,7,8) by (simp add: run_actions_act run_actions_stop dec_next_step_def)
    have at2: "tmp_at V2_eight_byte_size_ready (put_uint64 sz) 0 ?d" using d'(9) by (simp add: tmp_at_def dec_next_step_def)
    have sp2: "drop 0 (put_uint64 sz) @ xs = drop m bs @ []" using bs d'(1) by simp
    show thesis
    proof (rule tmp_loop[where act = v2_dec_act and st = st, OF at2 d'(3) sp2])
      fix d2 assume "tmp_at V2_eight_byte_size_ready (put_uint64 sz) (0 + length (drop m bs)) d2"
      then have "length bs - 1 < 8" using d'(1) by (simp add: tmp_at_def)
      then show thesis using len by linarith
    next
      fix d2 k ys
      assume d2: "k = m + (length (put_uint64 sz) - 0)" "drop k bs = ys"
        "decode_loop v2_dec_act ?p bs m ?d st = proceed v2_dec_act ?p bs k (run_actions v2_dec_act (place_add ?p k) ys d2 st)"
        "dec_msg d2 = dec_msg ?d" "same_config ?d d2" "dec_next d2 = V2_eight_byte_size_ready" "to_read d2 = 0" "length (tmpbuf d2) = 8"
        "take (length (put_uint64 sz)) (tmpbuf d2) = put_uint64 sz"
      note sc2 = same_config_v2[OF d2(5)]
      have k: "k = 9" "ys = xs" using d2(1,2) d'(1) bs by simp_all
      have "tmpbuf d2 = put_uint64 sz" using d2(8,9) by simp
      then have "get_uint64 (tmpbuf d2) = Some sz" by simp
      moreover have "owned d2 st E" using own d'(5) d2(4,8) by (simp add: owned_def dec_next_step_def)
      ultimately show thesis using that[of d2] d 1 d2(3,6,7) k sc sc2 by (simp add: dec_next_step_def)
    qed simp
  qed simp_all
qed

text \<open>C8. Without a limit on the size of messages (the default, \<open>maxmsgsize = -1\<close>) and with zero-copy receiving (also the
  default), the header of one frame takes the decoder out of its buffer: the test that the body ends inside the buffer
  adds the announced size to a pointer, and for a size with which the sum wraps around the test passes although
  the body does not fit, so that the message is given memory outside the buffer.\<close>

theorem announced_size_escapes_buffer:
  assumes "fresh_frame V2_flags_ready d" "owned d st E" "alloc_at (v2_alloc d) b (length bs) 0" "maxmsgsize d < 0" "v2_zero_copy d"
    "bs = large_flag # put_uint64 sz @ xs" "2 ^ 64 \<le> unat b + sizeof_counter + 9 + unat sz"
  shows "decode v2_dec_act (At (buf_addr b 0)) bs d st = None \<and> length xs < unat sz \<and>
    \<not> exceeds_buffer (buf_addr b 9) sz (b + of_nat sizeof_counter) (length bs)"
proof -
  let ?p = "At (buf_addr b 0)"
  have room: "unat b + sizeof_counter + length bs < 2 ^ 63" "length bs < 2 ^ 31" "9 \<le> length bs"
    using assms(3,6) by (auto simp: alloc_at_def)
  have ex: "\<not> exceeds_buffer (buf_addr b 9) sz (b + of_nat sizeof_counter) (length bs)"
    by (rule exceeds_wraps[OF room(1,3) assms(7)])
  have big: "length xs < unat sz" using room assms(6,7) by simp
  obtain d' where d': "decode v2_dec_act ?p bs d st = proceed v2_dec_act ?p bs 9 (run_actions v2_dec_act (place_add ?p 9) xs d' st)"
    "dec_next d' = V2_eight_byte_size_ready" "to_read d' = 0" "get_uint64 (tmpbuf d') = Some sz" "owned d' st E"
    "maxmsgsize d' = maxmsgsize d" "v2_zero_copy d' = v2_zero_copy d" "v2_alloc d' = v2_alloc d"
    by (rule v2_large_header[OF assms(1,2,6)])
  have p9: "place_add ?p 9 = At (buf_addr b 9)" by (simp add: buf_addr_def)
  have al: "sa_data (v2_alloc d') = Some (b + of_nat sizeof_counter)" "sa_size (v2_alloc d') = length bs"
    using assms(3) d'(8) by (simp_all add: alloc_at_def sa_data_def sa_size_def)
  obtain m st1 where c: "dec_close d' st = Some (d'\<lparr>dec_msg := m\<rparr>, st1)" by (rule dec_close_ok[OF d'(5)])
  have "v2_storage sz (At (buf_addr b 9)) xs (d'\<lparr>dec_msg := m\<rparr>) st1 = None"
    using assms(5) d'(7) al ex big by (simp add: v2_storage_def v2_init_in_place_def)
  then have "v2_dec_act V2_eight_byte_size_ready (At (buf_addr b 9)) xs d' st = None"
    using assms(4) d'(4,6) c by (simp add: v2_eight_byte_size_ready_def v2_dec_size_ready_def too_big_def)
  then have "run_actions v2_dec_act (place_add ?p 9) xs d' st = None"
    by (subst run_actions.simps) (use d'(2,3) p9 in simp)
  then show ?thesis using d'(1) ex big by (simp add: proceed_def)
qed

theorem announced_size_escapes_buffer_witness:
  "decode v2_dec_act (At (buf_addr 4096 0)) (large_flag # put_uint64 (- 1) @ []) (dec_0 (-1) 9) store_0 = None \<and>
    length ([] :: bytes) < unat (- 1 :: 64 word) \<and>
    \<not> exceeds_buffer (buf_addr 4096 9) (- 1) (4096 + of_nat sizeof_counter) (length (large_flag # put_uint64 (- 1) @ []))"
proof (rule announced_size_escapes_buffer)
  note d = dec_0[of 9 "-1", simplified]
  show "fresh_frame V2_flags_ready (dec_0 (-1) 9)" "owned (dec_0 (-1) 9) store_0 {#}" "v2_zero_copy (dec_0 (-1) 9)" by (fact d)+
  show "alloc_at (v2_alloc (dec_0 (-1) 9)) 4096 (length (large_flag # put_uint64 (- 1) @ [])) 0" using d(3) by simp
  show "maxmsgsize (dec_0 (-1) 9) < 0" using d(4) by simp
qed (simp_all add: sizeof_counter_def unsigned_minus_1_eq_mask mask_eq_exp_minus_1)

subsection \<open>The receive buffer of ZMTP 1.0\<close>

text \<open>A message of known size gets memory of its own.\<close>

lemma v1_alloc_ok:
  assumes own: "owned d st E" and n: "sizeof_content + n < 2 ^ 64"
  obtains m st' where "v1_alloc_msg n d st = Some (Dec_more, dec_next_step (Tmp 0) 1 V1_flags_ready (d\<lparr>dec_msg := m\<rparr>), st')"
    "store_inv st' (add_mset m E)" "own_msg m" "\<exists>mb. msg_body m st' = Some mb \<and> length mb = n"
proof -
  obtain m0 st0 where c: "dec_close d st = Some (d\<lparr>dec_msg := m0\<rparr>, st0)" "store_inv st0 E" by (rule dec_close_ok[OF own])
  obtain m st' mb where i: "msg_init_size n m0 st0 = (Rc_ok, m, st')" "store_inv st' (add_mset m E)" "own_msg m" "kept E st0 st'"
    "msg_body m st' = Some mb" "length mb = n" "msg_flags m = 0" by (rule init_size_ok[OF c(2) n])
  show thesis by (rule that[of m st']) (use c i in \<open>simp_all add: v1_alloc_msg_def dec_init_size_def\<close>)
qed

text \<open>The header of a long message.\<close>

definition v1_long_header :: "byte \<Rightarrow> nat \<Rightarrow> bytes" where
  "v1_long_header fl n = 0xff # put_uint64 (of_nat (n + 1)) @ [fl]"

lemma v1_header_ok:
  fixes body :: bytes
  assumes own: "owned d st E" and fr: "fresh_frame V1_one_byte_size_ready d" and lim: "\<not> too_big (maxmsgsize d) n"
    and n: "0 < n" "sizeof_content + n < 2 ^ 63"
  obtains d' st' where "decode v1_dec_act (At a) (v1_long_header fl n) d st = Some (Dec_more, 10, d', st')" "read_pos d' = Body 0"
    "to_read d' = n" "dec_next d' = V1_message_ready" "decoder.more d' = decoder.more d"
    "store_inv st' (add_mset (dec_msg d') E)" "own_msg (dec_msg d')" "\<exists>mb. msg_body (dec_msg d') st' = Some mb \<and> length mb = n"
proof -
  let ?bs = "v1_long_header fl n" and ?p = "At a"
  have len: "length ?bs = 10" by (simp add: v1_long_header_def)
  have at: "tmp_at V1_one_byte_size_ready [0xff] 0 d" using fr own by (simp add: fresh_frame_def tmp_at_def owned_def)
  have sp: "drop 0 [0xff] @ (put_uint64 (of_nat (n + 1)) @ [fl]) = drop 0 ?bs @ []" by (simp add: v1_long_header_def)
  have dec: "decode v1_dec_act ?p ?bs d st = decode_loop v1_dec_act ?p ?bs 0 d st" using fr by (simp add: decode_def fresh_frame_def)
  show thesis
  proof (rule tmp_loop[where act = v1_dec_act and st = st, OF at _ sp])
    fix d1 assume "tmp_at V1_one_byte_size_ready [0xff] (0 + length (drop 0 ?bs)) d1"
    then show thesis using len by (simp add: tmp_at_def)
  next
    fix d1 m zs
    assume 1: "m = 0 + (length [0xff :: byte] - 0)" "drop m ?bs = zs" "m \<le> length ?bs"
      "decode_loop v1_dec_act ?p ?bs 0 d st = proceed v1_dec_act ?p ?bs m (run_actions v1_dec_act (place_add ?p m) zs d1 st)"
      "dec_msg d1 = dec_msg d" "same_config d d1" "dec_next d1 = V1_one_byte_size_ready" "to_read d1 = 0" "length (tmpbuf d1) = 8"
      "take (length [0xff :: byte]) (tmpbuf d1) = [0xff]"
    obtain r where r: "tmpbuf d1 = 0xff # r" using 1(9,10) by (cases "tmpbuf d1") auto
    let ?d1 = "dec_next_step (Tmp 0) 8 V1_eight_byte_size_ready d1"
    have "v1_dec_act V1_one_byte_size_ready (place_add ?p m) zs d1 st = Some (Dec_more, ?d1, st)"
      by (simp add: v1_one_byte_size_ready_def r get_uint8_def)
    then have l1: "decode_loop v1_dec_act ?p ?bs 0 d st = decode_loop v1_dec_act ?p ?bs m ?d1 st"
      using 1(4,7,8) by (simp add: run_actions_act run_actions_stop dec_next_step_def)
    have at1: "tmp_at V1_eight_byte_size_ready (put_uint64 (of_nat (n + 1))) 0 ?d1" using 1(9) by (simp add: tmp_at_def dec_next_step_def)
    have sp1: "drop 0 (put_uint64 (of_nat (n + 1))) @ [fl] = drop m ?bs @ []" using 1(1) by (simp add: v1_long_header_def)
    show thesis
    proof (rule tmp_loop[where act = v1_dec_act and st = st, OF at1 1(3) sp1])
      fix d2 assume "tmp_at V1_eight_byte_size_ready (put_uint64 (of_nat (n + 1))) (0 + length (drop m ?bs)) d2"
      then show thesis using len 1(1) by (simp add: tmp_at_def)
    next
      fix d2 k ys
      assume 2: "k = m + (length (put_uint64 (of_nat (n + 1))) - 0)" "drop k ?bs = ys" "k \<le> length ?bs"
        "decode_loop v1_dec_act ?p ?bs m ?d1 st = proceed v1_dec_act ?p ?bs k (run_actions v1_dec_act (place_add ?p k) ys d2 st)"
        "dec_msg d2 = dec_msg ?d1" "same_config ?d1 d2" "dec_next d2 = V1_eight_byte_size_ready" "to_read d2 = 0" "length (tmpbuf d2) = 8"
        "take (length (put_uint64 (of_nat (n + 1)))) (tmpbuf d2) = put_uint64 (of_nat (n + 1))"
      have get: "get_uint64 (tmpbuf d2) = Some (of_nat (n + 1))" using 2(9,10) by simp
      have u: "unat (of_nat (n + 1) :: 64 word) = n + 1" "unat (of_nat n :: 64 word) = n"
        using n by (simp_all add: unsigned_of_nat take_bit_nat_eq_self sizeof_content_def del: of_nat_Suc of_nat_add)
      then have nz: "(of_nat (n + 1) :: 64 word) \<noteq> 0" by (metis add_is_0 unsigned_0 zero_neq_one)
      have own2: "owned d2 st E" using own 1(5) 2(5,9) by (simp add: owned_def dec_next_step_def)
      have n64: "sizeof_content + n < 2 ^ 64" using n by simp
      obtain msg st1 where al: "v1_alloc_msg n d2 st = Some (Dec_more, dec_next_step (Tmp 0) 1 V1_flags_ready (d2\<lparr>dec_msg := msg\<rparr>), st1)"
        "store_inv st1 (add_mset msg E)" "own_msg msg" "\<exists>mb. msg_body msg st1 = Some mb \<and> length mb = n" by (rule v1_alloc_ok[OF own2 n64])
      let ?d2 = "dec_next_step (Tmp 0) 1 V1_flags_ready (d2\<lparr>dec_msg := msg\<rparr>)"
      have lim2: "\<not> too_big (maxmsgsize d2) n" using lim 1(6) 2(6) by (simp add: same_config_def dec_next_step_def)
      have "v1_dec_act V1_eight_byte_size_ready (place_add ?p k) ys d2 st = Some (Dec_more, ?d2, st1)"
        using nz lim2 u al(1) by (simp add: v1_eight_byte_size_ready_def get word_le_nat_alt not_less)
      then have l2: "decode_loop v1_dec_act ?p ?bs m ?d1 st = decode_loop v1_dec_act ?p ?bs k ?d2 st1"
        using 2(4,7,8) by (simp add: run_actions_act run_actions_stop dec_next_step_def)
      have k: "k = 9" using 1(1) 2(1) by simp
      have at2: "tmp_at V1_flags_ready [fl] 0 ?d2" using 2(9) by (simp add: tmp_at_def dec_next_step_def)
      have sp2: "drop 0 [fl] @ [] = drop k ?bs @ []" by (simp add: v1_long_header_def k)
      show thesis
      proof (rule tmp_loop[where act = v1_dec_act and st = st1, OF at2 2(3) sp2])
        fix d3 assume "tmp_at V1_flags_ready [fl] (0 + length (drop k ?bs)) d3"
        then show thesis using len k by (simp add: tmp_at_def)
      next
        fix d3 j us
        assume 3: "j = k + (length [fl] - 0)" "drop j ?bs = us"
          "decode_loop v1_dec_act ?p ?bs k ?d2 st1 = proceed v1_dec_act ?p ?bs j (run_actions v1_dec_act (place_add ?p j) us d3 st1)"
          "dec_msg d3 = dec_msg ?d2" "same_config ?d2 d3" "dec_next d3 = V1_flags_ready" "to_read d3 = 0" "length (tmpbuf d3) = 8"
          "take (length [fl]) (tmpbuf d3) = [fl]"
        obtain r where r: "tmpbuf d3 = fl # r" using 3(8,9) by (cases "tmpbuf d3") auto
        let ?m = "msg_set_flags (fl AND flag_more) msg"
        let ?d3 = "dec_next_step (Body 0) n V1_message_ready (d3\<lparr>dec_msg := ?m\<rparr>)"
        have sh: "(fl AND flag_more) AND flag_shared = 0" by (simp add: msg_flag_defs and.assoc)
        have m3: "dec_msg d3 = msg" using 3(4) by (simp add: dec_next_step_def)
        have "v1_dec_act V1_flags_ready (place_add ?p j) us d3 st1 = Some (Dec_more, ?d3, st1)"
          using al(4) by (auto simp: v1_flags_ready_def r get_uint8_def m3 msg_size_def)
        then have l3: "decode_loop v1_dec_act ?p ?bs k ?d2 st1 = Some (Dec_more, j, ?d3, st1)"
          using 3(1,3,6,7) n(1) len k by (simp add: run_actions_act run_actions_stop dec_next_step_def loop_end)
        show thesis
        proof (rule that[of ?d3 st1])
          show "decode v1_dec_act ?p ?bs d st = Some (Dec_more, 10, ?d3, st1)" using dec l1 l2 l3 3(1) k by simp
          show "decoder.more ?d3 = decoder.more d" using 1(6) 2(6) 3(5) by (simp add: same_config_def dec_next_step_def)
          show "store_inv st1 (add_mset (dec_msg ?d3) E)" using store_inv_flags[OF al(2) sh] by (simp add: dec_next_step_def)
          show "own_msg (dec_msg ?d3)" using own_msg_flags[OF al(3) sh] by (simp add: dec_next_step_def)
          show "\<exists>mb. msg_body (dec_msg ?d3) st1 = Some mb \<and> length mb = n" using al(4) by (simp add: dec_next_step_def)
        qed (simp_all add: dec_next_step_def)
      qed simp
    qed simp
  qed simp_all
qed

text \<open>C9. A ZMTP 1.0 peer can make the engine write past its receive buffer.  The buffer of \<open>n\<close> bytes is allocated once; after
  every read, \<open>resize_buffer\<close> stores the number of bytes received as its size, also when they went into the body of a
  message and not into the buffer.  So a message longer than the buffer, read in one go, leaves the decoder handing out
  the old buffer with the length of the message as its size.\<close>

theorem resized_buffer_exceeds_its_memory:
  assumes "store_inv st E" "10 \<le> n" "n < length body" "\<not> too_big limit (length body)" "sizeof_content + length body < 2 ^ 63"
  shows "\<exists>d1 st1 d2 st2 d3. v1_get_buffer (v1_decoder_new buf n limit) = (At buf, n) \<and>
    decode v1_dec_act (At buf) (v1_long_header fl (length body)) (v1_resize_buffer 10 (v1_decoder_new buf n limit)) st =
      Some (Dec_more, 10, d1, st1) \<and>
    v1_get_buffer d1 = (Body 0, length body) \<and> place_write (Body 0) body d1 st1 = Some (d2, st2) \<and>
    decode v1_dec_act (Body 0) body (v1_resize_buffer (length body) d2) st2 = Some (Dec_done, length body, d3, st2) \<and>
    v1_get_buffer d3 = (At buf, length body) \<and> n < length body"
proof -
  let ?d0 = "v1_resize_buffer 10 (v1_decoder_new buf n limit)"
  have own: "owned ?d0 st E" using assms(1)
    by (simp add: owned_def v1_resize_buffer_def v1_decoder_new_def msg_blank_new_def store_inv_plain is_lmsg_def is_zcmsg_def
        msg_init_def msg_init_base_def msg_check_def)
  have fr: "fresh_frame V1_one_byte_size_ready ?d0" by (simp add: fresh_frame_def v1_resize_buffer_def v1_decoder_new_def)
  have lim: "\<not> too_big (maxmsgsize ?d0) (length body)" using assms(4) by (simp add: v1_resize_buffer_def v1_decoder_new_def)
  have len: "0 < length body" "1 < length body" using assms(2,3) by linarith+
  obtain d1 st1 where 1: "decode v1_dec_act (At buf) (v1_long_header fl (length body)) ?d0 st = Some (Dec_more, 10, d1, st1)"
    "read_pos d1 = Body 0" "to_read d1 = length body" "dec_next d1 = V1_message_ready" "decoder.more d1 = decoder.more ?d0"
    "store_inv st1 (add_mset (dec_msg d1) E)" "own_msg (dec_msg d1)" "\<exists>mb. msg_body (dec_msg d1) st1 = Some mb \<and> length mb = length body"
    by (rule v1_header_ok[OF own fr lim len(1) assms(5)])
  have m1: "single_buf d1 = buf" "single_bufsize d1 = 10"
    using 1(5) by (cases d1; simp add: v1_resize_buffer_def v1_decoder_new_def v1_decoder.defs decoder.defs)+
  obtain mb where mb: "msg_body (dec_msg d1) st1 = Some mb" "length mb = length body" using 1(8) by blast
  have room: "0 + length body \<le> length mb" using mb(2) by simp
  obtain m' st2 where w: "msg_write 0 body (dec_msg d1) st1 = Some (m', st2)" by (rule msg_write_ok[OF 1(6,7) mb(1) room])
  let ?d2 = "d1\<lparr>dec_msg := m'\<rparr>"
  let ?d = "(v1_resize_buffer (length body) ?d2)\<lparr>read_pos := Body (length body), to_read := 0\<rparr>"
  have run: "run_actions v1_dec_act (Body (length body)) [] ?d st2 = Some (Dec_done, dec_next_step (Tmp 0) 1 V1_one_byte_size_ready ?d, st2)"
    using 1(4) by (simp add: run_actions_act v1_message_ready_in_def v1_resize_buffer_def)
  have dn: "decode v1_dec_act (Body 0) body (v1_resize_buffer (length body) ?d2) st2 =
      Some (Dec_done, length body, dec_next_step (Tmp 0) 1 V1_one_byte_size_ready ?d, st2)"
    using 1(2,3) run by (simp add: decode_def v1_resize_buffer_def)
  have pw: "place_write (Body 0) body d1 st1 = Some (?d2, st2)" using w by simp
  have g0: "v1_get_buffer (v1_decoder_new buf n limit) = (At buf, n)" using assms(2)
    by (simp add: v1_get_buffer_def dec_get_buffer_def v1_decoder_new_def)
  have g1: "v1_get_buffer d1 = (Body 0, length body)" using assms(2,3) 1(2,3) m1 by (simp add: v1_get_buffer_def dec_get_buffer_def)
  have g3: "v1_get_buffer (dec_next_step (Tmp 0) 1 V1_one_byte_size_ready ?d) = (At buf, length body)"
    using len m1 by (simp add: v1_get_buffer_def dec_get_buffer_def dec_next_step_def v1_resize_buffer_def)
  show ?thesis using g0 1(1) g1 pw dn g3 assms(3) by blast
qed

theorem resized_buffer_exceeds_its_memory_witness:
  "\<exists>d1 st1 d2 st2 d3. v1_get_buffer (v1_decoder_new 4096 8192 (-1)) = (At 4096, 8192) \<and>
    decode v1_dec_act (At 4096) (v1_long_header 0 (length (replicate 50000 (7 :: byte))))
      (v1_resize_buffer 10 (v1_decoder_new 4096 8192 (-1))) store_0 = Some (Dec_more, 10, d1, st1) \<and>
    v1_get_buffer d1 = (Body 0, length (replicate 50000 (7 :: byte))) \<and> place_write (Body 0) (replicate 50000 7) d1 st1 = Some (d2, st2) \<and>
    decode v1_dec_act (Body 0) (replicate 50000 7) (v1_resize_buffer (length (replicate 50000 (7 :: byte))) d2) st2 =
      Some (Dec_done, length (replicate 50000 (7 :: byte)), d3, st2) \<and>
    v1_get_buffer d3 = (At 4096, length (replicate 50000 (7 :: byte))) \<and> 8192 < length (replicate 50000 (7 :: byte))"
proof (rule resized_buffer_exceeds_its_memory)
  show "store_inv store_0 {#}" by (simp add: store_0_def store_inv_def)
qed (simp_all only: length_replicate too_big_def sizeof_content_def, simp_all)

end
