(* ===== verification/Spec2Isabelle.thy ===== *)
theory Spec2Isabelle
  imports Zmq_Lb Zmq_Xsub Zmq_Xpub Event_Socket Event_Thread Zmq_Stream Zmq_Hostile
begin

text \<open>
  Verification of EventBus-CPP and of the message core of the libzmq 4.2.4 copy it ships.

  \<^bold>\<open>The program.\<close>  The EventBus (the C++ files at the top of \<open>src/\<close>) lets objects of one process publish
  events and observe them by type.  An \<open>EventTarget\<close> belongs to a thread and gets the \<open>EventClient\<close> of that thread
  from the \<open>ClientCenter\<close>.  The client keeps a multimap from event types to observers; it subscribes the types
  on a SUB socket and publishes on a PUB socket, and both are connected to the XPUB/XSUB proxy of the \<open>EventBus\<close>.  An
  \<open>MThread\<close> runs the dispatch loop of its client.  Events travel as two-part messages, made and parsed by \<open>MZmq.h\<close>.
  Below this, \<open>src/libzmq/src\<close> holds the sockets.  A PUB or XPUB socket sends a message to the pipes whose
  subscriptions, kept in a trie of subscribers, match its first part; a SUB or XSUB socket takes messages from its pipes
  in turn and filters them by a trie of its own subscriptions, which it also sends upstream.  A pipe connects two
  sockets of a process, or a socket and a session; it is built from two lock-free one-way pipes and ends with
  a handshake of commands.  A session hands the messages of its pipe to a stream engine, which encodes them as
  ZMTP frames for a TCP connection and decodes the frames that arrive.

  \<^bold>\<open>Conventions.\<close>  They are stated in \<open>Bus_Prelude\<close>.  An operation that may abort or do something undefined returns an
  option; the theorems that it returns \<open>Some\<close> are the safety statements.  Words have the width of the source where
  they can wrap (reference counters, flow-control counters, flags, sizes on the wire, addresses of receive buffers).
  A step of a thread that other threads may interleave with is one step of a relation.

  \<^bold>\<open>Theories, from the bottom.\<close>
  \<^item> \<open>Bus_Prelude\<close>: vocabulary, the assertion, lemmas on options and lists.
  \<^item> \<open>Zmq_Array\<close> (\<open>array.hpp\<close>), \<open>Zmq_Yqueue\<close> (\<open>yqueue.hpp\<close>, at the level of chunks and pointers) and
    \<open>Zmq_Ypipe\<close> (\<open>ypipe.hpp\<close>): the containers.  The lock-free pipe is refined to an abstract pipe, from which order,
    absence of loss and the wake-up of the reader follow.
  \<^item> \<open>Zmq_Msg\<close> (\<open>msg.hpp\<close>, \<open>msg.cpp\<close>): messages and the store of shared contents with their counters; \<open>store_inv st M\<close> says
    that \<open>M\<close> are exactly the messages that hold contents.
  \<^item> \<open>Zmq_Upipe\<close> (\<open>ypipe_base.hpp\<close>, \<open>ypipe_conflate.hpp\<close>, \<open>dbuffer.hpp\<close>): one-way pipes of messages; the interface
    \<open>message_pipe\<close> with its two implementations.
  \<^item> \<open>Zmq_Pipe\<close>, \<open>Zmq_Pipe_Inv\<close>, \<open>Zmq_Handshake\<close>, \<open>Zmq_Links\<close>, \<open>Zmq_Whole\<close> (\<open>pipe.hpp\<close>, \<open>pipe.cpp\<close>, the pipe commands of \<open>object.cpp\<close>):
    pipe ends in a \<open>world\<close>; ownership and flow control; the termination handshake of one pair for every interleaving;
    many connections side by side (the interfaces \<open>outbound_pipes\<close> and \<open>linked_pipes\<close>); messages seen as a whole.
  \<^item> \<open>Zmq_Dist\<close>, \<open>Zmq_Fq\<close>, \<open>Zmq_Lb\<close> (\<open>dist.cpp\<close>, \<open>fq.cpp\<close>, \<open>lb.cpp\<close>): how sockets choose pipes.  The array with its
    counters is refined to nested sets, then run over the pipes of \<open>linked_pipes\<close>.
  \<^item> \<open>Zmq_Table\<close>, \<open>Zmq_Trie\<close>, \<open>Zmq_Mtrie\<close> (\<open>trie.cpp\<close>, \<open>generic_mtrie_impl.hpp\<close>): the two tries, refined to a multiset of prefixes and
    to a relation between prefixes and pipes.  The interfaces \<open>subscription_store\<close> and \<open>subscriber_store\<close> carry the clients.
  \<^item> \<open>Zmq_Xsub\<close> (\<open>xsub.cpp\<close>, \<open>sub.cpp\<close>) and \<open>Zmq_Xpub\<close> (\<open>xpub.cpp\<close>, \<open>pub.cpp\<close>): the sockets.
  \<^item> \<open>Zmq_Wire\<close> (\<open>wire.hpp\<close>), \<open>Zmq_Encoder\<close> (\<open>encoder.hpp\<close>, \<open>v1_encoder.cpp\<close>, \<open>v2_encoder.cpp\<close>, \<open>raw_encoder.cpp\<close>), \<open>Zmq_Alloc\<close>
    (\<open>decoder_allocators.cpp\<close>), \<open>Zmq_Decoder\<close> (\<open>decoder.hpp\<close>, \<open>v1_decoder.cpp\<close>, \<open>v2_decoder.cpp\<close>): the codecs.  An encoder is
    proved to write the frame function \<open>v2_frame\<close>, \<open>v1_frame\<close> or \<open>raw_frame\<close> of each message (interface
    \<open>nonempty_framing\<close>).
  \<^item> \<open>Zmq_Receive\<close>, \<open>Zmq_Recv2\<close>: a decoder on a stream of frames cut anywhere; \<open>frame_decoder\<close> is the interface
    \<open>i_decoder\<close> with its laws, provided by the ZMTP 2.0 decoder with its zero-copy receive buffers.
  \<^item> \<open>Zmq_Engine\<close> (\<open>stream_engine.cpp\<close>, \<open>session_base.cpp\<close>): the engine after its handshake and the session's part in
    passing messages.  \<open>Zmq_Send\<close>: what the engine writes (\<open>batch_sender\<close>).  \<open>Zmq_Deliver\<close>: what it delivers
    (\<open>stream_receiver\<close>, over \<open>frame_decoder\<close> and \<open>message_sink\<close>).  \<open>Zmq_Stream\<close>: the session over the pipes of
    \<open>Zmq_Links\<close> provides \<open>message_sink\<close>, and a sender is composed with a receiver.
  \<^item> \<open>Zmq_Hostile\<close>: the decoders on bytes an attacker chooses.
  \<^item> \<open>Mz_Mq\<close> (\<open>MZmq.h\<close>): the helpers over a record of the socket API; \<open>frame_channel\<close> and \<open>polled_channel\<close> are what they
    rely on, interpreted on a connection over the model of the lock-free pipe.
  \<^item> \<open>Event_Client\<close> (\<open>EventClient.cpp\<close>), \<open>Event_Socket\<close> (the client on the model of its SUB socket), \<open>Event_Target\<close>
    (\<open>ClientCenter.cpp\<close>, \<open>EventTarget.cpp\<close>, \<open>EventBus.cpp\<close>) and \<open>Event_Thread\<close> (\<open>MThread.cpp\<close>, \<open>Singleton.h\<close>).

  \<^bold>\<open>State.\<close>  Objects that point to each other live in maps of one record: the contents of messages
  (\<open>msg_store\<close>), the one-way pipes and pipe ends with the commands under way (\<open>world\<close>), the clients of the center
  (\<open>bus_state\<close>).  A socket, trie, array, encoder, decoder or engine is a record of its own with the members of the class.
  Calls through virtual functions or pointers to members (event sinks, \<open>next\<close>, \<open>next_msg\<close>, \<open>process_msg\<close>,
  \<open>event_handle\<close>) are arguments.

  \<^bold>\<open>Termination.\<close>  Loops that follow the data are structural or have a measure.  Loops that may run forever in the
  source (draining a pipe, the inner loops of the codecs, the engine's loops) are partial functions: not returning is
  \<open>None\<close>, so every theorem that gives \<open>Some\<close> includes termination.  The receive loop of \<open>MZmq.h\<close> is shown to end when
  the channel is drained.  No model uses fuel.

  \<^bold>\<open>What is assumed of the environment.\<close>  Allocation succeeds, and an address returned by \<open>malloc\<close> is one that is not in use (the
  steps of \<open>rx_step\<close> and \<open>sa_step\<close> say so) and keeps a block below the middle of the address space.  The kernel
  delivers the bytes of a connection in order.  Memory is sequentially consistent.  A counter of references has room for
  the references a program holds (\<open>refs_room\<close>, and the bound in \<open>sa_step\<close>).  The release of a message that lies in a receive
  buffer runs the free function; in the engine's model the free functions called are recorded in \<open>calls_ffn\<close>, and the effect of
  \<open>call_dec_ref\<close> on the blocks is studied in \<open>Zmq_Alloc\<close>, where it may happen at any time.

  \<^bold>\<open>What modelling showed.\<close>  The theorems of kind error state behaviour that the code does not mean to have: among them a
  termination that never completes after a hiccup, message parts that are leaked, a receive that aborts
  when a pipe goes away in the middle of a message, a message that is split over two pipes, event handlers called for
  other event types, and two ways by which a peer makes the engine use memory outside its receive buffer: an announced
  size with which a pointer sum wraps around (ZMTP 2.0, no limit on sizes), and a buffer whose recorded size outgrows
  its memory (ZMTP 1.0).

  \<^bold>\<open>Not modelled.\<close>  The other socket types, which the EventBus does not use; the context, mailboxes, reaper, I/O threads and
  pollers, which are threads and wrappers of system calls; the transports and the parsing of addresses; the greeting and the
  choice of the protocol version, the security mechanisms and heartbeats of the engine; reconnection and
  termination of sessions; the table of options; the C API, which checks arguments and forwards (\<open>Mz_Mq\<close>
  takes these calls as a parameter); the proxy loop; clocks, timers and random numbers.  Of \<open>socket_base.cpp\<close> only the
  dispatch of options is there.  The constructor \<open>msg_t::init\<close> with five arguments is modelled at its one use, in the
  ZMTP 2.0 decoder.  The third-party files under \<open>external\<close>, the tests, the benchmarks and the build files are not
  part of the program's own logic.
\<close>

end
